(* ===== verification/Go_Base.thy ===== *)
theory Go_Base
  imports Main "HOL-Library.AList" "HOL-Library.List_Lexorder" "HOL-Library.Char_ord"
    "HOL-Library.Product_Lexorder"
begin

text \<open>
  The part of Go and its standard library that the modelled packages use, and the lemmas the
  component theories share.

  \<^item> A \<^verbatim>\<open>time.Time\<close> is an \<^typ>\<open>int\<close>, nanoseconds since the Unix epoch (what \<^verbatim>\<open>UnixNano\<close>
    returns); a \<^verbatim>\<open>time.Duration\<close> is an \<^typ>\<open>int\<close> of nanoseconds.
  \<^item> A Go \<^verbatim>\<open>string\<close> is a \<^typ>\<open>string\<close> of bytes; \<open><\<close> on it is Go's bytewise order.
  \<^item> A Go map is an association list with distinct keys. The order of the list is one order in
    which \<^verbatim>\<open>range\<close> may visit the map; every theorem holds for all lists, hence for all orders.
  \<^item> Integer division and remainder truncate towards zero.
  \<^item> \<^verbatim>\<open>sort.Search\<close> is the binary search of the library, with its termination proof.
\<close>

section \<open>Collections of rewrite rules\<close>

named_theorems gomap_simps \<open>lookups, updates and deletions of Go maps\<close>
named_theorems go_arith \<open>truncating division and its consequences\<close>

section \<open>Time\<close>

type_synonym time = int
type_synonym duration = int

definition nanosecond :: duration where "nanosecond = 1"
definition millisecond :: duration where "millisecond = 1000000"
definition second :: duration where "second = 1000000000"

definition zero_time :: time where
  \<comment> \<open>the zero \<^verbatim>\<open>time.Time\<close>, 1 January of the year 1\<close>
  "zero_time = - 62135596800000000000"

lemma second_pos [simp]: "0 < second"
  by (simp add: second_def)

section \<open>Truncating division\<close>

definition go_div :: "int \<Rightarrow> int \<Rightarrow> int" where
  "go_div a b = sgn a * sgn b * (\<bar>a\<bar> div \<bar>b\<bar>)"

definition go_mod :: "int \<Rightarrow> int \<Rightarrow> int" where
  "go_mod a b = a - go_div a b * b"

lemma go_div_nonneg [go_arith]: "0 \<le> a \<Longrightarrow> 0 < b \<Longrightarrow> go_div a b = a div b"
  by (cases "a = 0") (simp_all add: go_div_def)

lemma go_mod_nonneg [go_arith]: "0 \<le> a \<Longrightarrow> 0 < b \<Longrightarrow> go_mod a b = a mod b"
  by (simp add: go_mod_def go_div_nonneg minus_div_mult_eq_mod)

lemma go_mod_bounds:
  assumes "0 < b"
  shows "- b < go_mod a b" and "go_mod a b < b"
proof -
  have eq: "go_mod a b = sgn a * (\<bar>a\<bar> mod b)"
  proof (cases a "0::int" rule: linorder_cases)
    case less
    have "go_mod a b = - (- a - (- a) div b * b)"
      using assms less by (simp add: go_mod_def go_div_def)
    also have "\<dots> = - ((- a) mod b)"
      by (simp only: minus_div_mult_eq_mod)
    finally show ?thesis
      using less by simp
  qed (use assms in \<open>simp_all add: go_mod_def go_div_def minus_div_mult_eq_mod\<close>)
  have "0 \<le> \<bar>a\<bar> mod b" "\<bar>a\<bar> mod b < b"
    using assms by simp_all
  then show "- b < go_mod a b" "go_mod a b < b"
    by (auto simp: eq sgn_if)
qed

lemma go_floor_mod:
  \<comment> \<open>the idiom \<^verbatim>\<open>((i % n) + n) % n\<close> is the mathematical remainder\<close>
  assumes "0 < n"
  shows "go_mod (go_mod i n + n) n = i mod n"
proof -
  have "0 \<le> go_mod i n + n"
    using go_mod_bounds(1)[OF assms, of i] by simp
  then have "go_mod (go_mod i n + n) n = (go_mod i n + n) mod n"
    using assms by (rule go_mod_nonneg)
  also have "\<dots> = (i - go_div i n * n) mod n"
    by (simp add: go_mod_def)
  also have "\<dots> = i mod n"
    by (metis mod_diff_right_eq mod_mult_self2_is_0 diff_zero mult.commute)
  finally show ?thesis .
qed

lemma go_div_mono:
  assumes "a \<le> b" "0 < c"
  shows "go_div a c \<le> go_div b c"
proof -
  consider "0 \<le> a" | "a < 0" "0 \<le> b" | "b < 0" by linarith
  then show ?thesis
  proof cases
    case 1
    then show ?thesis using assms by (simp add: go_div_nonneg zdiv_mono1)
  next
    case 2
    have "go_div a c = - ((- a) div c)" using 2 assms(2) by (simp add: go_div_def)
    moreover have "0 \<le> (- a) div c" using 2 assms(2) by (simp add: pos_imp_zdiv_nonneg_iff)
    moreover have "0 \<le> go_div b c" using 2 assms(2) by (simp add: go_div_nonneg pos_imp_zdiv_nonneg_iff)
    ultimately show ?thesis by linarith
  next
    case 3
    then have "a < 0" using assms(1) by simp
    have "(- b) div c \<le> (- a) div c" using assms by (intro zdiv_mono1) simp_all
    then show ?thesis using 3 \<open>a < 0\<close> assms(2) by (simp add: go_div_def)
  qed
qed

section \<open>Go maps\<close>

type_synonym ('k, 'v) gomap = "('k \<times> 'v) list"

abbreviation mget :: "('k, 'v) gomap \<Rightarrow> 'k \<Rightarrow> 'v option" where
  "mget m k \<equiv> map_of m k"

abbreviation mput :: "'k \<Rightarrow> 'v \<Rightarrow> ('k, 'v) gomap \<Rightarrow> ('k, 'v) gomap" where
  "mput \<equiv> AList.update"

abbreviation mdel :: "'k \<Rightarrow> ('k, 'v) gomap \<Rightarrow> ('k, 'v) gomap" where
  "mdel \<equiv> AList.delete"

abbreviation mkeys :: "('k, 'v) gomap \<Rightarrow> 'k set" where
  "mkeys m \<equiv> fst ` set m"

definition mok :: "('k, 'v) gomap \<Rightarrow> bool" where
  \<comment> \<open>a Go map holds a key at most once\<close>
  "mok m \<longleftrightarrow> distinct (map fst m)"

definition mget_or :: "'v \<Rightarrow> ('k, 'v) gomap \<Rightarrow> 'k \<Rightarrow> 'v" where
  \<comment> \<open>\<^verbatim>\<open>m[k]\<close>: the zero value \<open>d\<close> for a missing key\<close>
  "mget_or d m k = (case mget m k of None \<Rightarrow> d | Some v \<Rightarrow> v)"

lemma mget_mput [gomap_simps]: "mget (mput k v m) k' = (if k' = k then Some v else mget m k')"
  by (simp add: update_conv')

lemma mget_mdel [gomap_simps]: "mget (mdel k m) k' = (if k' = k then None else mget m k')"
  by (simp add: delete_conv')

lemma mget_or_mput [gomap_simps]: "mget_or d (mput k v m) k' = (if k' = k then v else mget_or d m k')"
  by (simp add: mget_or_def gomap_simps)

lemma mget_or_mdel [gomap_simps]: "mget_or d (mdel k m) k' = (if k' = k then d else mget_or d m k')"
  by (simp add: mget_or_def gomap_simps)

lemma mok_Nil [simp]: "mok []"
  by (simp add: mok_def)

lemma mok_mput [simp, intro]: "mok m \<Longrightarrow> mok (mput k v m)"
  by (simp add: mok_def distinct_update)

lemma mok_mdel [simp, intro]: "mok m \<Longrightarrow> mok (mdel k m)"
  by (simp add: mok_def distinct_delete)

lemma mok_filter [simp, intro]: "mok m \<Longrightarrow> mok (filter P m)"
  by (simp add: mok_def distinct_map_filter)

lemma mok_map_values [simp]: "mok (map (\<lambda>(k, v). (k, f k v)) m) = mok m"
proof -
  have "fst \<circ> (\<lambda>(k, v). (k, f k v)) = fst"
    by auto
  then show ?thesis by (simp add: mok_def)
qed

lemma mok_Cons: "mok ((k, v) # m) \<longleftrightarrow> mget m k = None \<and> mok m"
  by (auto simp: mok_def map_of_eq_None_iff)

lemma mget_iff_mem: "mok m \<Longrightarrow> mget m k = Some v \<longleftrightarrow> (k, v) \<in> set m"
  by (simp add: mok_def)

lemma mget_mem: "mget m k = Some v \<Longrightarrow> (k, v) \<in> set m"
  by (rule map_of_SomeD)

lemma mkeys_iff: "k \<in> mkeys m \<longleftrightarrow> mget m k \<noteq> None"
  by (simp add: map_of_eq_None_iff)

lemma mkeys_mput [gomap_simps]: "mkeys (mput k v m) = insert k (mkeys m)"
  by (simp add: dom_update)

lemma mkeys_mdel [gomap_simps]: "mkeys (mdel k m) = mkeys m - {k}"
  by (auto simp: AList.delete_eq)

lemma mput_mem:
  assumes "mok m"
  shows "set (mput k v m) = insert (k, v) {(k', v') \<in> set m. k' \<noteq> k}"
proof -
  have "mok (mput k v m)"
    using assms by simp
  then have "(a, b) \<in> set (mput k v m) \<longleftrightarrow> mget (mput k v m) a = Some b" for a b
    by (simp add: mget_iff_mem)
  then show ?thesis
    using assms by (auto simp: gomap_simps mget_iff_mem split: if_splits)
qed

lemma mdel_mem: "set (mdel k m) = {(k', v') \<in> set m. k' \<noteq> k}"
  by (auto simp: AList.delete_eq)

lemma length_mput_new [simp]: "mget m k = None \<Longrightarrow> length (mput k v m) = Suc (length m)"
  by (induction m) auto

lemma length_mput_old [simp]: "mget m k = Some w \<Longrightarrow> length (mput k v m) = length m"
  by (induction m) (auto split: if_splits)

lemma length_mdel_le: "length (mdel k m) \<le> length m"
  by (simp add: AList.delete_eq)

lemma mput_eq_map:
  \<comment> \<open>an update of a present key changes one value in place\<close>
  assumes "mok m" "mget m k = Some w"
  shows "mput k v m = map (\<lambda>(k', v'). (k', if k' = k then v else v')) m"
  using assms
proof (induction m)
  case (Cons p m)
  obtain k' v' where p: "p = (k', v')" by force
  show ?case
  proof (cases "k' = k")
    case True
    with Cons.prems have "k \<notin> mkeys m"
      by (auto simp: p mok_def)
    then have "map (\<lambda>(k', v'). (k', if k' = k then v else v')) m = m"
      by (intro map_idI) (force split: if_splits)
    with True show ?thesis by (simp add: p)
  next
    case False
    with Cons show ?thesis by (auto simp: p mok_Cons)
  qed
qed simp

section \<open>Bytes\<close>

lemma of_char_less: "(of_char c :: nat) < 256"
  using of_char_mod_256[of c, where ?'a = nat] mod_less_divisor[of 256 "of_char c :: nat"] by simp

section \<open>Counting\<close>

definition count_if :: "('a \<Rightarrow> bool) \<Rightarrow> 'a list \<Rightarrow> nat" where
  \<comment> \<open>a loop that increments a counter for the elements that pass a test\<close>
  "count_if P xs = length (filter P xs)"

lemma count_if_Nil [simp]: "count_if P [] = 0"
  by (simp add: count_if_def)

lemma count_if_Cons [simp]: "count_if P (x # xs) = (if P x then Suc (count_if P xs) else count_if P xs)"
  by (simp add: count_if_def)

lemma count_if_append [simp]: "count_if P (xs @ ys) = count_if P xs + count_if P ys"
  by (simp add: count_if_def)

lemma count_if_le: "count_if P xs \<le> length xs"
  by (simp add: count_if_def)

lemma count_if_mono: "(\<And>x. x \<in> set xs \<Longrightarrow> P x \<Longrightarrow> Q x) \<Longrightarrow> count_if P xs \<le> count_if Q xs"
  by (induction xs) force+

lemma count_if_cong: "(\<And>x. x \<in> set xs \<Longrightarrow> P x = Q x) \<Longrightarrow> count_if P xs = count_if Q xs"
  by (induction xs) auto

lemma count_if_map: "count_if P (map f xs) = count_if (P \<circ> f) xs"
  by (induction xs) auto

lemma count_if_0: "count_if P xs = 0 \<longleftrightarrow> (\<forall>x \<in> set xs. \<not> P x)"
  by (induction xs) auto

lemma count_if_pos: "0 < count_if P xs \<longleftrightarrow> (\<exists>x \<in> set xs. P x)"
  by (induction xs) auto

lemma count_if_update:
  "i < length xs \<Longrightarrow> int (count_if P (xs[i := y])) = int (count_if P xs) - (if P (xs ! i) then 1 else 0) + (if P y then 1 else 0)"
proof -
  assume i: "i < length xs"
  have "count_if P xs = count_if P (take i xs @ xs ! i # drop (Suc i) xs)"
    using id_take_nth_drop[OF i] by simp
  then show ?thesis
    by (simp only: upd_conv_take_nth_drop[OF i] count_if_append count_if_Cons) simp
qed

lemma sum_count_if:
  \<comment> \<open>counting per class and adding up is counting once\<close>
  assumes "finite S"
  shows "(\<Sum>i \<in> S. int (count_if (\<lambda>x. P x \<and> g x = i) xs)) = int (count_if (\<lambda>x. P x \<and> g x \<in> S) xs)"
proof (induction xs)
  case (Cons x xs)
  let ?one = "\<lambda>i. if P x \<and> g x = i then 1 else 0 :: int"
  have "(\<Sum>i \<in> S. int (count_if (\<lambda>x. P x \<and> g x = i) (x # xs))) = (\<Sum>i \<in> S. ?one i + int (count_if (\<lambda>x. P x \<and> g x = i) xs))"
    by (intro sum.cong) simp_all
  also have "\<dots> = (\<Sum>i \<in> S. ?one i) + int (count_if (\<lambda>x. P x \<and> g x \<in> S) xs)"
    using Cons by (simp only: sum.distrib)
  also have "(\<Sum>i \<in> S. ?one i) = (if P x \<and> g x \<in> S then 1 else 0)"
    using assms by (cases "P x") (simp_all add: sum.delta')
  finally show ?case by simp
qed simp

lemma count_if_mput:
  assumes "mok m" "mget m k = Some w"
  shows "int (count_if P (mput k v m)) = int (count_if P m) - (if P (k, w) then 1 else 0) + (if P (k, v) then 1 else 0)"
  using assms
proof (induction m)
  case (Cons q m)
  obtain k' v' where q: "q = (k', v')" by force
  show ?case
  proof (cases "k' = k")
    case False
    with Cons have "mok m" "mget m k = Some w" by (auto simp: q mok_Cons)
    from Cons.IH[OF this] False show ?thesis by (auto simp: q split: if_splits)
  qed (use Cons.prems in \<open>simp add: q\<close>)
qed simp

lemma count_if_mput_new:
  "mget m k = None \<Longrightarrow> count_if P (mput k v m) = count_if P m + (if P (k, v) then 1 else 0)"
  by (induction m) (auto split: if_splits)

section \<open>sort.Search\<close>

function sort_search_loop :: "(nat \<Rightarrow> bool) \<Rightarrow> nat \<Rightarrow> nat \<Rightarrow> nat" where
  "sort_search_loop f i j =
     (if i < j
      then (let h = (i + j) div 2 in if \<not> f h then sort_search_loop f (h + 1) j else sort_search_loop f i h)
      else i)"
  by pat_completeness auto
termination
  by (relation "measure (\<lambda>(f, i, j). j - i)") auto

declare sort_search_loop.simps [simp del]

definition sort_search :: "nat \<Rightarrow> (nat \<Rightarrow> bool) \<Rightarrow> nat" where
  "sort_search n f = sort_search_loop f 0 n"

definition search_mono :: "(nat \<Rightarrow> bool) \<Rightarrow> nat \<Rightarrow> bool" where
  "search_mono f n \<longleftrightarrow> (\<forall>k l. k \<le> l \<longrightarrow> l < n \<longrightarrow> f k \<longrightarrow> f l)"

definition search_result :: "(nat \<Rightarrow> bool) \<Rightarrow> nat \<Rightarrow> nat \<Rightarrow> bool" where
  "search_result f n r \<longleftrightarrow> r \<le> n \<and> (\<forall>k < r. \<not> f k) \<and> (\<forall>k. r \<le> k \<longrightarrow> k < n \<longrightarrow> f k)"

lemma sort_search_loop_spec:
  assumes "i \<le> j" "\<forall>k < i. \<not> f k" "\<forall>k. j \<le> k \<longrightarrow> k < n \<longrightarrow> f k" "j \<le> n"
    and mono: "search_mono f n"
  shows "search_result f n (sort_search_loop f i j)"
  using assms
proof (induction f i j rule: sort_search_loop.induct)
  case (1 f i j)
  note unfold = sort_search_loop.simps[of f i j]
  show ?case
  proof (cases "i < j")
    case True
    define h where "h = (i + j) div 2"
    have h: "i \<le> h" "h < j" using True by (auto simp: h_def)
    show ?thesis
    proof (cases "f h")
      case True
      have "\<forall>k. h \<le> k \<longrightarrow> k < n \<longrightarrow> f k"
        using "1.prems"(5) True by (auto simp: search_mono_def)
      moreover have "h \<le> n" using h "1.prems"(4) by linarith
      ultimately have "search_result f n (sort_search_loop f i h)"
        using "1.IH"(2)[OF \<open>i < j\<close> h_def] True h(1) "1.prems"(2,5) by blast
      then show ?thesis
        using True \<open>i < j\<close> by (simp add: unfold Let_def h_def)
    next
      case False
      have "\<not> f k" if "k < h + 1" for k
      proof
        assume "f k"
        moreover have "k \<le> h" "h < n" using that h(2) "1.prems"(4) by linarith+
        ultimately show False using "1.prems"(5) False unfolding search_mono_def by blast
      qed
      moreover have "h + 1 \<le> j" using h(2) by linarith
      ultimately have "search_result f n (sort_search_loop f (h + 1) j)"
        using "1.IH"(1)[OF \<open>i < j\<close> h_def False] "1.prems"(3,4,5) by blast
      then show ?thesis
        using False \<open>i < j\<close> by (simp add: unfold Let_def h_def)
    qed
  next
    case False
    with "1.prems"(1) have "i = j" by simp
    moreover have "sort_search_loop f i j = i" using False by (simp add: unfold)
    ultimately show ?thesis
      using "1.prems"(2,3,4) by (simp add: search_result_def)
  qed
qed

lemma sort_search_spec:
  \<comment> \<open>on a monotone predicate the search returns the least index where it holds, or \<open>n\<close>\<close>
  assumes "search_mono f n"
  shows "search_result f n (sort_search n f)"
  unfolding sort_search_def by (rule sort_search_loop_spec) (use assms in auto)

lemma search_result_unique:
  assumes "search_result f n r" "search_result f n r'"
  shows "r = r'"
  using assms unfolding search_result_def by (metis linorder_neqE_nat order.strict_trans2 order_refl)

lemma sort_search_eq:
  assumes "search_mono f n" "search_result f n r"
  shows "sort_search n f = r"
  using sort_search_spec[OF assms(1)] assms(2) by (rule search_result_unique)

lemma sort_search_loop_le: "i \<le> j \<Longrightarrow> sort_search_loop f i j \<le> j"
proof (induction f i j rule: sort_search_loop.induct)
  case (1 f i j)
  note unfold = sort_search_loop.simps[of f i j]
  show ?case
  proof (cases "i < j")
    case True
    let ?h = "(i + j) div 2"
    have "\<not> f ?h \<Longrightarrow> sort_search_loop f (?h + 1) j \<le> j"
      using "1.IH"(1)[OF True refl] True by simp
    moreover have "f ?h \<Longrightarrow> sort_search_loop f i ?h \<le> ?h"
      using "1.IH"(2)[OF True refl] True by simp
    ultimately show ?thesis using True by (auto simp: unfold Let_def)
  qed (simp add: unfold "1.prems")
qed

lemma sort_search_le: "sort_search n f \<le> n"
  unfolding sort_search_def by (rule sort_search_loop_le) simp

end
