(* ===== verification/Float64.thy ===== *)
theory Float64
  imports Complex_Main Go_Base
begin

text \<open>
  Go's \<^verbatim>\<open>float64\<close>: IEEE 754 binary64 with round to nearest, ties to even. A finite value is the
  rational it denotes; the two zeros are one value (no code modelled here distinguishes them).
  Every operation computes the exact rational result and rounds it once. The lemmas are what
  the component theories need of rounding: it is monotone, odd, and exact on the integers of up to
  53 bits.
\<close>

section \<open>Rounding a rational to 53 significant bits\<close>

fun log2_nat :: "nat \<Rightarrow> nat" where
  "log2_nat n = (if n < 2 then 0 else Suc (log2_nat (n div 2)))"

declare log2_nat.simps [simp del]

definition pow2 :: "int \<Rightarrow> rat" where
  "pow2 e = (if 0 \<le> e then 2 ^ nat e else 1 / 2 ^ nat (- e))"

definition ilog2 :: "rat \<Rightarrow> int" where
  \<comment> \<open>the exponent \<open>e\<close> with \<open>2^e \<le> x < 2^(e+1)\<close>, for \<open>0 < x\<close>\<close>
  "ilog2 x = (if 1 \<le> x then int (log2_nat (nat \<lfloor>x\<rfloor>))
              else let n = nat \<lceil>1 / x\<rceil> in if n \<le> 1 then 0 else - int (log2_nat (n - 1)) - 1)"

definition rne :: "rat \<Rightarrow> int" where
  \<comment> \<open>round to the nearest integer, ties to even\<close>
  "rne y = (let f = \<lfloor>y\<rfloor>; d = y - of_int f in
     if d < 1 / 2 then f else if 1 / 2 < d then f + 1 else if even f then f else f + 1)"

definition ulp_exp :: "rat \<Rightarrow> int" where
  "ulp_exp x = max (ilog2 \<bar>x\<bar> - 52) (- 1074)"

definition round_rat :: "rat \<Rightarrow> rat" where
  "round_rat x = (if x = 0 then 0 else of_int (rne (x / pow2 (ulp_exp x))) * pow2 (ulp_exp x))"

lemma pow2_pos [simp]: "0 < pow2 e"
  by (simp add: pow2_def)

lemma pow2_nonzero [simp]: "pow2 e \<noteq> 0"
  using pow2_pos[of e] by linarith

lemma pow2_nonneg [simp]: "0 \<le> pow2 e"
  using pow2_pos[of e] by linarith

lemma abs_pow2 [simp]: "\<bar>pow2 e\<bar> = pow2 e"
  by simp

lemma pow2_powi: "pow2 e = 2 powi e"
  unfolding pow2_def power_int_def by (cases "0 \<le> e") (simp_all add: power_one_over inverse_eq_divide)

lemma pow2_add: "pow2 (a + b) = pow2 a * pow2 b"
  by (simp add: pow2_powi power_int_add)

lemma pow2_mono: "a \<le> b \<Longrightarrow> pow2 a \<le> pow2 b"
  by (simp add: pow2_powi power_int_increasing)

lemma pow2_strict_mono: "a < b \<Longrightarrow> pow2 a < pow2 b"
  by (simp add: pow2_powi power_int_strict_increasing)

lemma pow2_nat: "0 \<le> e \<Longrightarrow> pow2 e = of_int (2 ^ nat e)"
  by (simp add: pow2_def)

lemma pow2_of_nat [simp]: "pow2 (int n) = 2 ^ n"
  by (simp add: pow2_def)

lemma log2_nat_bounds: "0 < n \<Longrightarrow> 2 ^ log2_nat n \<le> n \<and> n < 2 ^ Suc (log2_nat n)"
proof (induction n rule: log2_nat.induct)
  case (1 n)
  show ?case
  proof (cases "n < 2")
    case True
    with "1.prems" have "n = 1" by simp
    moreover have "log2_nat (Suc 0) = 0" by (subst log2_nat.simps) simp
    ultimately show ?thesis by simp
  next
    case False
    then have IH: "2 ^ log2_nat (n div 2) \<le> n div 2 \<and> n div 2 < 2 ^ Suc (log2_nat (n div 2))"
      using "1.IH" by simp
    have "2 * (n div 2) \<le> n" "n < 2 * (n div 2) + 2" by linarith+
    moreover have "log2_nat n = Suc (log2_nat (n div 2))"
      using False by (subst log2_nat.simps) simp
    ultimately show ?thesis using IH False by auto
  qed
qed

lemma ilog2_ge1:
  assumes "1 \<le> x"
  shows "pow2 (ilog2 x) \<le> x \<and> x < pow2 (ilog2 x + 1)"
proof -
  define n where "n = nat \<lfloor>x\<rfloor>"
  have n: "0 < n" "int n = \<lfloor>x\<rfloor>" using assms by (simp_all add: n_def)
  note b = log2_nat_bounds[OF n(1)]
  have e: "ilog2 x = int (log2_nat n)" using assms by (simp add: ilog2_def n_def)
  have "pow2 (ilog2 x) = of_nat (2 ^ log2_nat n)" by (simp add: e)
  also have "\<dots> \<le> (of_nat n :: rat)" using b by (simp only: of_nat_le_iff)
  also have "\<dots> = of_int \<lfloor>x\<rfloor>" by (simp flip: n(2))
  also have "\<dots> \<le> x" by simp
  finally have lo: "pow2 (ilog2 x) \<le> x" .
  have "x < of_int (\<lfloor>x\<rfloor> + 1)" by linarith
  also have "\<dots> = of_nat (n + 1)" by (simp flip: n(2))
  also have "\<dots> \<le> (of_nat (2 ^ Suc (log2_nat n)) :: rat)"
    by (rule of_nat_mono) (use b in linarith)
  also have "\<dots> = pow2 (ilog2 x + 1)"
    by (simp add: e pow2_def nat_add_distrib)
  finally show ?thesis using lo by simp
qed

lemma ilog2_lt1:
  assumes "0 < x" "x < 1"
  shows "pow2 (ilog2 x) \<le> x \<and> x < pow2 (ilog2 x + 1)"
proof -
  define n where "n = nat \<lceil>1 / x\<rceil>"
  have one: "1 < 1 / x" using assms by simp
  then have ic: "int n = \<lceil>1 / x\<rceil>" by (simp add: n_def)
  from one have "1 < \<lceil>1 / x\<rceil>" by (simp add: less_ceiling_iff)
  then have n1: "1 < n" using ic by linarith
  define k where "k = log2_nat (n - 1)"
  have b: "2 ^ k \<le> n - 1" "n - 1 < 2 ^ Suc k"
    using log2_nat_bounds[of "n - 1"] n1 by (auto simp: k_def)
  have e: "ilog2 x = - int (Suc k)"
    using assms n1 by (simp add: ilog2_def Let_def k_def flip: n_def)
  have "1 / x \<le> of_int \<lceil>1 / x\<rceil>" by simp
  also have "\<dots> = of_nat n" by (simp flip: ic)
  also have "\<dots> \<le> (of_nat (2 ^ Suc k) :: rat)" using b(2) n1 by (simp only: of_nat_le_iff)
  finally have up: "1 / x \<le> 2 ^ Suc k" by simp
  have "(of_nat (2 ^ k) :: rat) \<le> of_nat (n - 1)" using b(1) by (simp only: of_nat_le_iff)
  also have "\<dots> = of_int \<lceil>1 / x\<rceil> - 1" using n1 by (simp flip: ic)
  also have "\<dots> < 1 / x" by linarith
  finally have lo: "2 ^ k < 1 / x" by simp
  have "pow2 (ilog2 x) = 1 / 2 ^ Suc k" by (simp add: e pow2_def nat_add_distrib)
  moreover have "pow2 (ilog2 x + 1) = 1 / 2 ^ k" by (simp add: e pow2_def)
  moreover have "1 / 2 ^ Suc k \<le> x" "x < 1 / 2 ^ k"
    using up lo assms(1) by (simp_all add: field_simps)
  ultimately show ?thesis by simp
qed

lemma ilog2_bounds:
  assumes "0 < x"
  shows "pow2 (ilog2 x) \<le> x" "x < pow2 (ilog2 x + 1)"
  using ilog2_ge1[of x] ilog2_lt1[of x] assms by (cases "1 \<le> x"; simp)+

lemma ilog2_mono:
  assumes "0 < x" "x \<le> y"
  shows "ilog2 x \<le> ilog2 y"
proof (rule ccontr)
  assume "\<not> ilog2 x \<le> ilog2 y"
  then have "ilog2 y + 1 \<le> ilog2 x" by simp
  then have "pow2 (ilog2 y + 1) \<le> pow2 (ilog2 x)" by (rule pow2_mono)
  moreover have "pow2 (ilog2 x) \<le> x" "y < pow2 (ilog2 y + 1)"
    using assms by (auto intro: ilog2_bounds)
  ultimately show False using assms by linarith
qed

lemma ilog2_less:
  assumes "0 < x" "x < pow2 e"
  shows "ilog2 x < e"
proof (rule ccontr)
  assume "\<not> ilog2 x < e"
  then have "pow2 e \<le> pow2 (ilog2 x)" by (intro pow2_mono) simp
  with ilog2_bounds(1)[OF assms(1)] assms(2) show False by linarith
qed

lemma rne_of_int [simp]: "rne (of_int n) = n"
  by (simp add: rne_def Let_def)

lemma rne_cases: "rne y = \<lfloor>y\<rfloor> \<and> y - of_int \<lfloor>y\<rfloor> \<le> 1 / 2 \<or> rne y = \<lfloor>y\<rfloor> + 1 \<and> 1 / 2 \<le> y - of_int \<lfloor>y\<rfloor>"
  by (auto simp: rne_def Let_def)

lemma rne_mono:
  assumes "x \<le> y"
  shows "rne x \<le> rne y"
proof (cases "\<lfloor>x\<rfloor> = \<lfloor>y\<rfloor>")
  case True
  with assms show ?thesis
    by (auto simp: rne_def Let_def)
next
  case False
  with floor_mono[OF assms] have "\<lfloor>x\<rfloor> + 1 \<le> \<lfloor>y\<rfloor>" by linarith
  then show ?thesis
    using rne_cases[of x] rne_cases[of y] by linarith
qed

lemma rne_neg: "rne (- y) = - rne y"
proof (cases "y = of_int \<lfloor>y\<rfloor>")
  case True
  then show ?thesis by (metis rne_of_int of_int_minus)
next
  case False
  then have f: "\<lfloor>- y\<rfloor> = - \<lfloor>y\<rfloor> - 1" by linarith
  have "- y - of_int (- \<lfloor>y\<rfloor> - 1) = 1 - (y - of_int \<lfloor>y\<rfloor>)" by simp
  then show ?thesis by (auto simp: rne_def Let_def f)
qed

lemma round_rat_0 [simp]: "round_rat 0 = 0"
  by (simp add: round_rat_def)

lemma round_rat_neg: "round_rat (- x) = - round_rat x"
proof -
  have "ulp_exp (- x) = ulp_exp x" by (simp add: ulp_exp_def)
  then show ?thesis
    by (simp add: round_rat_def rne_neg)
qed

lemma rne_scaled_exact:
  assumes "x = of_int m * pow2 e" "u \<le> e"
  shows "of_int (rne (x / pow2 u)) * pow2 u = x"
proof -
  have "x / pow2 u = of_int m * (pow2 e / pow2 u)" using assms(1) by simp
  also have "pow2 e / pow2 u = pow2 (e - u)"
    using pow2_add[of "e - u" u] by simp
  also have "\<dots> = of_int (2 ^ nat (e - u))" using assms(2) by (simp add: pow2_nat)
  finally have "x / pow2 u = of_int (m * 2 ^ nat (e - u))" by simp
  then have "of_int (rne (x / pow2 u)) = x / pow2 u" by (metis rne_of_int)
  then show ?thesis by simp
qed

lemma round_rat_pow2_bounds:
  \<comment> \<open>a positive value keeps its binade, up to reaching the next power of two\<close>
  assumes "0 < x" "- 1074 \<le> e"
  shows "x \<le> pow2 e \<Longrightarrow> ulp_exp x \<le> e \<Longrightarrow> round_rat x \<le> pow2 e"
    and "pow2 e \<le> x \<Longrightarrow> ulp_exp x \<le> e \<Longrightarrow> pow2 e \<le> round_rat x"
proof -
  let ?u = "ulp_exp x"
  have exact: "of_int (rne (pow2 e / pow2 ?u)) * pow2 ?u = pow2 e" if "?u \<le> e"
    by (rule rne_scaled_exact[of "pow2 e" 1 e ?u]) (use that in simp_all)
  have r: "round_rat x = of_int (rne (x / pow2 ?u)) * pow2 ?u"
    using assms(1) by (simp add: round_rat_def)
  show "round_rat x \<le> pow2 e" if "x \<le> pow2 e" "?u \<le> e"
  proof -
    have "rne (x / pow2 ?u) \<le> rne (pow2 e / pow2 ?u)"
      by (intro rne_mono divide_right_mono) (use that in simp_all)
    then have "of_int (rne (x / pow2 ?u)) * pow2 ?u \<le> of_int (rne (pow2 e / pow2 ?u)) * pow2 ?u"
      by (intro mult_right_mono) simp_all
    with exact[OF that(2)] r show ?thesis by simp
  qed
  show "pow2 e \<le> round_rat x" if "pow2 e \<le> x" "?u \<le> e"
  proof -
    have "rne (pow2 e / pow2 ?u) \<le> rne (x / pow2 ?u)"
      by (intro rne_mono divide_right_mono) (use that in simp_all)
    then have "of_int (rne (pow2 e / pow2 ?u)) * pow2 ?u \<le> of_int (rne (x / pow2 ?u)) * pow2 ?u"
      by (intro mult_right_mono) simp_all
    with exact[OF that(2)] r show ?thesis by simp
  qed
qed

lemma round_rat_mono_pos:
  assumes "0 < x" "x \<le> y"
  shows "round_rat x \<le> round_rat y"
proof (cases "ulp_exp x = ulp_exp y")
  case True
  let ?u = "ulp_exp y"
  have "rne (x / pow2 ?u) \<le> rne (y / pow2 ?u)"
    by (rule rne_mono, rule divide_right_mono, rule assms(2), rule pow2_nonneg)
  then have "of_int (rne (x / pow2 ?u)) * pow2 ?u \<le> of_int (rne (y / pow2 ?u)) * pow2 ?u"
    by (intro mult_right_mono) simp_all
  moreover have "round_rat x = of_int (rne (x / pow2 ?u)) * pow2 ?u"
    unfolding round_rat_def True using assms(1) by simp
  moreover have "round_rat y = of_int (rne (y / pow2 ?u)) * pow2 ?u"
    unfolding round_rat_def using assms by simp
  ultimately show ?thesis by (simp only:)
next
  case False
  have il: "ilog2 x \<le> ilog2 y" by (rule ilog2_mono) (use assms in auto)
  have u: "ulp_exp x = max (ilog2 x - 52) (- 1074)" "ulp_exp y = max (ilog2 y - 52) (- 1074)"
    using assms by (simp_all add: ulp_exp_def)
  with False il have lt: "ilog2 x < ilog2 y" and y: "- 1074 < ilog2 y - 52" by auto
  define e where "e = ilog2 y"
  have "x \<le> pow2 e"
  proof -
    have "x < pow2 (ilog2 x + 1)" by (rule ilog2_bounds) (rule assms(1))
    also have "\<dots> \<le> pow2 e" by (rule pow2_mono) (use lt in \<open>simp add: e_def\<close>)
    finally show ?thesis by simp
  qed
  moreover have e: "- 1074 \<le> e" "ulp_exp x \<le> e" "ulp_exp y \<le> e"
    using u y lt by (auto simp: e_def)
  ultimately have "round_rat x \<le> pow2 e"
    using round_rat_pow2_bounds(1)[OF assms(1) e(1)] by blast
  also have "pow2 e \<le> round_rat y"
  proof (rule round_rat_pow2_bounds(2))
    show "0 < y" using assms by linarith
    then show "pow2 e \<le> y" unfolding e_def by (rule ilog2_bounds(1))
  qed (use e in simp_all)
  finally show ?thesis .
qed

lemma round_rat_nonneg: "0 \<le> x \<Longrightarrow> 0 \<le> round_rat x"
proof (cases "x = 0")
  case False
  assume "0 \<le> x"
  have "rne 0 \<le> rne (x / pow2 (ulp_exp x))"
    by (rule rne_mono) (use \<open>0 \<le> x\<close> in simp)
  then show ?thesis
    using rne_of_int[of 0] by (simp add: round_rat_def)
qed simp

lemma round_rat_mono:
  assumes "x \<le> y"
  shows "round_rat x \<le> round_rat y"
proof -
  consider "0 < x" | "x \<le> 0" "0 \<le> y" | "y < 0" by linarith
  then show ?thesis
  proof cases
    case 1
    then show ?thesis using assms by (rule round_rat_mono_pos)
  next
    case 2
    have "0 \<le> round_rat (- x)" "0 \<le> round_rat y"
      using 2 by (auto intro: round_rat_nonneg)
    then show ?thesis by (simp add: round_rat_neg)
  next
    case 3
    have "round_rat (- y) \<le> round_rat (- x)"
      by (rule round_rat_mono_pos) (use 3 assms in auto)
    then show ?thesis by (simp add: round_rat_neg)
  qed
qed

lemma round_rat_exact:
  \<comment> \<open>a value with at most 53 significant bits is not changed\<close>
  assumes "x = of_int m * pow2 e" "\<bar>m\<bar> < 2 ^ 53" "- 1074 \<le> e"
  shows "round_rat x = x"
proof (cases "x = 0")
  case False
  have "0 < \<bar>x\<bar>" using False by simp
  moreover have "\<bar>x\<bar> < pow2 (e + 53)"
  proof -
    have "\<bar>x\<bar> = of_int \<bar>m\<bar> * pow2 e" by (simp add: assms(1) abs_mult)
    also have "\<dots> < of_int (2 ^ 53) * pow2 e"
      by (intro mult_strict_right_mono) (use assms(2) in \<open>simp_all only: of_int_less_iff pow2_pos\<close>)
    also have "\<dots> = pow2 (e + 53)" by (simp add: pow2_add pow2_def[of 53])
    finally show ?thesis .
  qed
  ultimately have "ilog2 \<bar>x\<bar> < e + 53" by (rule ilog2_less)
  then have "ulp_exp x \<le> e" using assms(3) by (simp add: ulp_exp_def)
  then have "of_int (rne (x / pow2 (ulp_exp x))) * pow2 (ulp_exp x) = x"
    using assms(1) by (rule rne_scaled_exact[rotated])
  with False show ?thesis by (simp only: round_rat_def if_False)
qed simp

lemma round_rat_of_int: "\<bar>n\<bar> < 2 ^ 53 \<Longrightarrow> round_rat (of_int n) = of_int n"
  by (rule round_rat_exact[where m = n and e = 0]) (simp_all add: pow2_def)

lemma round_rat_half: "\<bar>2 * n + 1\<bar> < 2 ^ 53 \<Longrightarrow> round_rat (of_int n + 1 / 2) = of_int n + 1 / 2"
  by (rule round_rat_exact[where m = "2 * n + 1" and e = "-1"]) (simp_all add: pow2_def field_simps)

lemma round_rat_le_int: "x \<le> of_int n \<Longrightarrow> \<bar>n\<bar> < 2 ^ 53 \<Longrightarrow> round_rat x \<le> of_int n"
  using round_rat_mono[of x "of_int n"] by (simp add: round_rat_of_int)

lemma round_rat_ge_int: "of_int n \<le> x \<Longrightarrow> \<bar>n\<bar> < 2 ^ 53 \<Longrightarrow> of_int n \<le> round_rat x"
  using round_rat_mono[of "of_int n" x] by (simp add: round_rat_of_int)

section \<open>The type and its operations\<close>

datatype float64 = Fin rat | PInf | NInf | NaN

definition fhuge :: rat where
  \<comment> \<open>the least power of two beyond the range\<close>
  "fhuge = 2 ^ 1024"

definition fround :: "rat \<Rightarrow> float64" where
  "fround x = (let r = round_rat x in
     if fhuge \<le> r then PInf else if r \<le> - fhuge then NInf else Fin r)"

fun fneg :: "float64 \<Rightarrow> float64" where
  "fneg (Fin x) = Fin (- x)"
| "fneg PInf = NInf"
| "fneg NInf = PInf"
| "fneg NaN = NaN"

fun fadd :: "float64 \<Rightarrow> float64 \<Rightarrow> float64" where
  "fadd (Fin x) (Fin y) = fround (x + y)"
| "fadd NaN y = NaN"
| "fadd x NaN = NaN"
| "fadd PInf NInf = NaN"
| "fadd NInf PInf = NaN"
| "fadd PInf y = PInf"
| "fadd x PInf = PInf"
| "fadd NInf y = NInf"
| "fadd x NInf = NInf"

definition fsub :: "float64 \<Rightarrow> float64 \<Rightarrow> float64" where
  "fsub x y = fadd x (fneg y)"

definition finf :: "bool \<Rightarrow> float64" where
  "finf pos = (if pos then PInf else NInf)"

fun fmul :: "float64 \<Rightarrow> float64 \<Rightarrow> float64" where
  "fmul (Fin x) (Fin y) = fround (x * y)"
| "fmul NaN y = NaN"
| "fmul x NaN = NaN"
| "fmul PInf PInf = PInf"
| "fmul NInf NInf = PInf"
| "fmul PInf NInf = NInf"
| "fmul NInf PInf = NInf"
| "fmul PInf (Fin y) = (if y = 0 then NaN else finf (0 < y))"
| "fmul NInf (Fin y) = (if y = 0 then NaN else finf (y < 0))"
| "fmul (Fin x) PInf = (if x = 0 then NaN else finf (0 < x))"
| "fmul (Fin x) NInf = (if x = 0 then NaN else finf (x < 0))"

fun fdiv :: "float64 \<Rightarrow> float64 \<Rightarrow> float64" where
  "fdiv NaN y = NaN"
| "fdiv x NaN = NaN"
| "fdiv (Fin x) (Fin y) = (if y = 0 then if x = 0 then NaN else finf (0 < x) else fround (x / y))"
| "fdiv (Fin x) PInf = Fin 0"
| "fdiv (Fin x) NInf = Fin 0"
| "fdiv PInf (Fin y) = finf (0 \<le> y)"
| "fdiv NInf (Fin y) = finf (\<not> 0 \<le> y)"
| "fdiv PInf PInf = NaN"
| "fdiv PInf NInf = NaN"
| "fdiv NInf PInf = NaN"
| "fdiv NInf NInf = NaN"

text \<open>Comparisons are false on NaN.\<close>

fun flt :: "float64 \<Rightarrow> float64 \<Rightarrow> bool" where
  "flt (Fin x) (Fin y) = (x < y)"
| "flt NaN y = False"
| "flt x NaN = False"
| "flt PInf y = False"
| "flt x NInf = False"
| "flt x PInf = True"
| "flt NInf y = True"

fun fle :: "float64 \<Rightarrow> float64 \<Rightarrow> bool" where
  "fle (Fin x) (Fin y) = (x \<le> y)"
| "fle NaN y = False"
| "fle x NaN = False"
| "fle NInf y = True"
| "fle x PInf = True"
| "fle PInf y = False"
| "fle x NInf = False"

abbreviation fgt :: "float64 \<Rightarrow> float64 \<Rightarrow> bool" where "fgt x y \<equiv> flt y x"
abbreviation fge :: "float64 \<Rightarrow> float64 \<Rightarrow> bool" where "fge x y \<equiv> fle y x"

definition is_nan :: "float64 \<Rightarrow> bool" where
  "is_nan x \<longleftrightarrow> x = NaN"

definition is_inf :: "float64 \<Rightarrow> bool" where
  "is_inf x \<longleftrightarrow> x = PInf \<or> x = NInf"

fun fabs :: "float64 \<Rightarrow> float64" where
  "fabs (Fin x) = Fin \<bar>x\<bar>"
| "fabs NaN = NaN"
| "fabs _ = PInf"

definition fmin :: "float64 \<Rightarrow> float64 \<Rightarrow> float64" where
  \<comment> \<open>\<^verbatim>\<open>math.Min\<close>: an infinity of the right sign wins over NaN\<close>
  "fmin x y = (if x = NInf \<or> y = NInf then NInf else if x = NaN \<or> y = NaN then NaN
               else if flt x y then x else y)"

definition fmax :: "float64 \<Rightarrow> float64 \<Rightarrow> float64" where
  "fmax x y = (if x = PInf \<or> y = PInf then PInf else if x = NaN \<or> y = NaN then NaN
               else if flt y x then x else y)"

fun ffloor :: "float64 \<Rightarrow> float64" where
  "ffloor (Fin x) = Fin (of_int \<lfloor>x\<rfloor>)"
| "ffloor x = x"

fun fceil :: "float64 \<Rightarrow> float64" where
  "fceil (Fin x) = Fin (of_int \<lceil>x\<rceil>)"
| "fceil x = x"

definition float_of :: "int \<Rightarrow> float64" where
  \<comment> \<open>\<^verbatim>\<open>float64(n)\<close>\<close>
  "float_of n = fround (of_int n)"

fun trunc_of :: "float64 \<Rightarrow> int" where
  \<comment> \<open>\<^verbatim>\<open>int64(x)\<close> for a finite \<open>x\<close> in range; Go leaves the rest to the machine, which on amd64 gives
     the least integer\<close>
  "trunc_of (Fin x) = (if 0 \<le> x then \<lfloor>x\<rfloor> else \<lceil>x\<rceil>)"
| "trunc_of _ = - (2 ^ 63)"

definition duration_seconds :: "duration \<Rightarrow> float64" where
  \<comment> \<open>\<^verbatim>\<open>time.Duration.Seconds\<close>: whole seconds and the rest, each converted, then added\<close>
  "duration_seconds d = fadd (float_of (go_div d second)) (fdiv (float_of (go_mod d second)) (Fin 1000000000))"

definition flit :: "rat \<Rightarrow> float64" where
  \<comment> \<open>a constant of the source, rounded once when it is converted to \<^verbatim>\<open>float64\<close>\<close>
  "flit x = fround x"

definition is_float :: "float64 \<Rightarrow> bool" where
  \<comment> \<open>the values a \<^verbatim>\<open>float64\<close> variable can hold\<close>
  "is_float f = (case f of Fin x \<Rightarrow> round_rat x = x \<and> \<bar>x\<bar> < fhuge | _ \<Rightarrow> True)"

section \<open>Lemmas on the operations\<close>

lemma fhuge_ge: "of_int (2 ^ 53) \<le> fhuge"
proof -
  have "(2::rat) ^ 53 \<le> 2 ^ 1024" by (rule power_increasing) simp_all
  then show ?thesis by (simp add: fhuge_def)
qed

lemma fround_Fin: "\<bar>round_rat x\<bar> < fhuge \<Longrightarrow> fround x = Fin (round_rat x)"
  by (simp add: fround_def Let_def abs_less_iff)

lemma float_of_exact: "\<bar>n\<bar> < 2 ^ 53 \<Longrightarrow> float_of n = Fin (of_int n)"
proof -
  assume n: "\<bar>n\<bar> < 2 ^ 53"
  then have r: "round_rat (of_int n) = of_int n" by (rule round_rat_of_int)
  have "\<bar>of_int n :: rat\<bar> = of_int \<bar>n\<bar>" by simp
  also have "\<dots> < of_int (2 ^ 53)" using n by (simp only: of_int_less_iff)
  also have "\<dots> \<le> fhuge" by (rule fhuge_ge)
  finally show ?thesis by (simp add: float_of_def fround_Fin r)
qed

lemma fle_Fin_iff: "fle (Fin x) f \<longleftrightarrow> f = PInf \<or> (\<exists>y. f = Fin y \<and> x \<le> y)"
  by (cases f) auto

lemma flt_not_fle: "flt x y \<Longrightarrow> \<not> fle y x"
  by (cases x; cases y) auto

lemma fle_total: "x \<noteq> NaN \<Longrightarrow> y \<noteq> NaN \<Longrightarrow> fle x y \<or> fle y x"
  by (cases x; cases y) auto

lemma fle_trans: "fle x y \<Longrightarrow> fle y z \<Longrightarrow> fle x z"
  by (cases x; cases y; cases z) auto

lemma fle_refl: "x \<noteq> NaN \<Longrightarrow> fle x x"
  by (cases x) auto

lemma round_rat_idem [simp]: "round_rat (round_rat x) = round_rat x"
proof (cases "x = 0")
  case False
  define u where "u = ulp_exp x"
  define m where "m = rne (x / pow2 u)"
  have x: "round_rat x = of_int m * pow2 u" using False by (simp add: round_rat_def u_def m_def)
  have u: "- 1074 \<le> u" "ilog2 \<bar>x\<bar> + 1 - 53 \<le> u" by (simp_all add: u_def ulp_exp_def)
  have "\<bar>x\<bar> < pow2 (ilog2 \<bar>x\<bar> + 1)" using False by (intro ilog2_bounds) simp
  also have "\<dots> \<le> pow2 (53 + u)" using u(2) by (intro pow2_mono) simp
  also have "\<dots> = 2 ^ 53 * pow2 u" unfolding pow2_add by (simp add: pow2_def)
  finally have b: "\<bar>x / pow2 u\<bar> \<le> of_int (2 ^ 53)" by (simp add: abs_divide divide_le_eq)
  have "rne (x / pow2 u) \<le> rne (of_int (2 ^ 53))" "rne (of_int (- (2 ^ 53))) \<le> rne (x / pow2 u)"
    using abs_le_D1[OF b] abs_le_D2[OF b] by (intro rne_mono; simp only: of_int_minus; linarith)+
  then have m: "m \<le> 2 ^ 53" "- (2 ^ 53) \<le> m" unfolding m_def rne_of_int by simp_all
  consider "\<bar>m\<bar> < 2 ^ 53" | "m = 2 ^ 53" | "m = - (2 ^ 53)" using m by linarith
  then show ?thesis
  proof cases
    case 1
    show ?thesis by (rule round_rat_exact[OF x 1 u(1)])
  next
    case 2
    have "round_rat x = of_int 1 * pow2 (53 + u)" unfolding x 2 pow2_add by (simp add: pow2_def)
    then show ?thesis by (rule round_rat_exact) (use u(1) in simp_all)
  next
    case 3
    have "round_rat x = of_int (- 1) * pow2 (53 + u)" unfolding x 3 pow2_add by (simp add: pow2_def)
    then show ?thesis by (rule round_rat_exact) (use u(1) in simp_all)
  qed
qed simp

lemma is_float_fround [simp]: "is_float (fround x)"
  by (simp add: fround_def is_float_def Let_def abs_less_iff)

lemma is_float_fadd [simp]: "is_float x \<Longrightarrow> is_float y \<Longrightarrow> is_float (fadd x y)"
  by (cases x; cases y) (simp_all add: is_float_def[of PInf] is_float_def[of NInf] is_float_def[of NaN])

lemma is_float_fdiv [simp]: "is_float x \<Longrightarrow> is_float y \<Longrightarrow> is_float (fdiv x y)"
  by (cases x; cases y) (auto simp: is_float_def[of PInf] is_float_def[of NInf] is_float_def[of NaN]
    is_float_def[of "Fin 0"] fhuge_def finf_def)

lemma is_float_of [simp]: "is_float (float_of n)"
  by (simp add: float_of_def)

lemma fhuge_pos: "0 < fhuge"
  by (simp add: fhuge_def)

lemma fround_nonneg:
  assumes "0 \<le> x"
  shows "fround x = PInf \<or> fround x = Fin (round_rat x)" "0 \<le> round_rat x"
  using round_rat_nonneg[OF assms] fhuge_pos by (auto simp: fround_def Let_def)

lemma fround_ge:
  assumes "is_float (Fin b)" "b \<le> x"
  shows "fle (Fin b) (fround x)"
proof -
  have b: "round_rat b = b" "\<bar>b\<bar> < fhuge" using assms(1) by (simp_all add: is_float_def)
  have "b \<le> round_rat x" using round_rat_mono[OF assms(2)] b(1) by simp
  then show ?thesis using b(2) by (auto simp: fround_def Let_def)
qed

lemma fround_bounded:
  assumes "\<bar>x\<bar> \<le> of_int n" "n < 2 ^ 53"
  shows "fround x = Fin (round_rat x)" "\<bar>round_rat x\<bar> \<le> of_int n"
proof -
  have "0 \<le> n" using assms(1) by (metis abs_ge_zero of_int_0_le_iff order_trans)
  then have n: "\<bar>n\<bar> < 2 ^ 53" "\<bar>- n\<bar> < 2 ^ 53" using assms(2) by simp_all
  have "x \<le> of_int n" "of_int (- n) \<le> x" using assms(1) by (simp_all add: abs_le_iff)
  then have "round_rat x \<le> of_int n" "of_int (- n) \<le> round_rat x"
    using round_rat_le_int[OF _ n(1)] round_rat_ge_int[OF _ n(2)] by blast+
  then show r: "\<bar>round_rat x\<bar> \<le> of_int n" by (simp add: abs_le_iff)
  have "(of_int n :: rat) < of_int (2 ^ 53)" using assms(2) by (simp only: of_int_less_iff)
  then show "fround x = Fin (round_rat x)" using r fhuge_ge by (intro fround_Fin) linarith
qed

section \<open>The order of sort.Float64s: NaN first\<close>

instantiation float64 :: linorder
begin

definition less_eq_float64 :: "float64 \<Rightarrow> float64 \<Rightarrow> bool" where
  "less_eq_float64 x y \<longleftrightarrow> x = NaN \<or> y \<noteq> NaN \<and> fle x y"

definition less_float64 :: "float64 \<Rightarrow> float64 \<Rightarrow> bool" where
  "less_float64 x y \<longleftrightarrow> x \<le> y \<and> \<not> y \<le> (x :: float64)"

instance
proof
  fix x y z :: float64
  show "x < y \<longleftrightarrow> x \<le> y \<and> \<not> y \<le> x" by (simp add: less_float64_def)
  show "x \<le> x" by (cases x) (simp_all add: less_eq_float64_def)
  show "x \<le> y \<Longrightarrow> y \<le> z \<Longrightarrow> x \<le> z" by (auto simp: less_eq_float64_def intro: fle_trans)
  show "x \<le> y \<Longrightarrow> y \<le> x \<Longrightarrow> x = y" by (cases x; cases y) (simp_all add: less_eq_float64_def)
  show "x \<le> y \<or> y \<le> x" using fle_total[of x y] by (auto simp: less_eq_float64_def)
qed

end

lemma fle_iff_le: "y \<noteq> NaN \<Longrightarrow> x \<noteq> NaN \<Longrightarrow> fle x y \<longleftrightarrow> x \<le> y"
  by (simp add: less_eq_float64_def)

end
