(* ===== verification/Utf8.thy ===== *)
theory Utf8
  imports Go_Base
begin

text \<open>
  The byte-level text functions of Go's standard library that the validators and the cost
  estimator use: UTF-8 decoding (\<^verbatim>\<open>utf8.DecodeRuneInString\<close>, \<^verbatim>\<open>utf8.ValidString\<close>, \<^verbatim>\<open>range\<close> over a
  string) and the character classes \<^verbatim>\<open>unicode.IsControl\<close>, \<^verbatim>\<open>unicode.Cf\<close> and \<^verbatim>\<open>unicode.IsSpace\<close>.
\<close>

definition byte :: "char \<Rightarrow> nat" where
  "byte c = of_char c"

definition cont_in :: "nat \<Rightarrow> nat \<Rightarrow> nat \<Rightarrow> bool" where
  "cont_in lo hi b \<longleftrightarrow> lo \<le> b \<and> b \<le> hi"

definition rune_error :: nat where
  "rune_error = 0xFFFD"

text \<open>
  The result is the code point and its width in bytes; an invalid or truncated sequence decodes
  as the error rune of width 1, the empty string as the error rune of width 0.
\<close>

fun decode_rune :: "nat list \<Rightarrow> nat \<times> nat" where
  "decode_rune [] = (rune_error, 0)"
| "decode_rune (b0 # bs) =
     (if b0 < 0x80 then (b0, 1)
      else if 0xC2 \<le> b0 \<and> b0 \<le> 0xDF then
        (case bs of b1 # _ \<Rightarrow> if cont_in 0x80 0xBF b1 then ((b0 - 0xC0) * 64 + (b1 - 0x80), 2) else (rune_error, 1)
                  | _ \<Rightarrow> (rune_error, 1))
      else if 0xE0 \<le> b0 \<and> b0 \<le> 0xEF then
        (case bs of b1 # b2 # _ \<Rightarrow>
           if cont_in (if b0 = 0xE0 then 0xA0 else 0x80) (if b0 = 0xED then 0x9F else 0xBF) b1 \<and> cont_in 0x80 0xBF b2
           then ((b0 - 0xE0) * 4096 + (b1 - 0x80) * 64 + (b2 - 0x80), 3) else (rune_error, 1)
                  | _ \<Rightarrow> (rune_error, 1))
      else if 0xF0 \<le> b0 \<and> b0 \<le> 0xF4 then
        (case bs of b1 # b2 # b3 # _ \<Rightarrow>
           if cont_in (if b0 = 0xF0 then 0x90 else 0x80) (if b0 = 0xF4 then 0x8F else 0xBF) b1
              \<and> cont_in 0x80 0xBF b2 \<and> cont_in 0x80 0xBF b3
           then ((b0 - 0xF0) * 262144 + (b1 - 0x80) * 4096 + (b2 - 0x80) * 64 + (b3 - 0x80), 4) else (rune_error, 1)
                  | _ \<Rightarrow> (rune_error, 1))
      else (rune_error, 1))"

declare decode_rune.simps [simp del]

lemma decode_rune_width:
  assumes "bs \<noteq> []"
  shows "1 \<le> snd (decode_rune bs)" "snd (decode_rune bs) \<le> length bs" "snd (decode_rune bs) \<le> 4"
  using assms by (cases bs; simp add: decode_rune.simps split: list.splits)+

lemma decode_rune_ascii: "b < 0x80 \<Longrightarrow> decode_rune (b # bs) = (b, 1)"
  by (simp add: decode_rune.simps)

function valid_utf8 :: "nat list \<Rightarrow> bool" where
  \<comment> \<open>a width-1 decoding of a byte that is not ASCII is an encoding error\<close>
  "valid_utf8 bs =
     (if bs = [] then True
      else let (_, n) = decode_rune bs in
        if n = 1 \<and> \<not> hd bs < 0x80 then False else valid_utf8 (drop n bs))"
  by pat_completeness auto
termination
proof (relation "measure length")
  fix bs :: "nat list" and p r n
  assume "bs \<noteq> []" "p = decode_rune bs" "(r, n) = p"
  then have "1 \<le> n" using decode_rune_width(1)[of bs] by (metis snd_conv)
  with \<open>bs \<noteq> []\<close> show "(drop n bs, bs) \<in> measure length" by (cases bs) auto
qed simp

declare valid_utf8.simps [simp del]

function runes :: "nat list \<Rightarrow> nat list" where
  \<comment> \<open>the code points \<^verbatim>\<open>range\<close> visits\<close>
  "runes bs = (if bs = [] then [] else let (r, n) = decode_rune bs in r # runes (drop n bs))"
  by pat_completeness auto
termination
proof (relation "measure length")
  fix bs :: "nat list" and p r n
  assume "bs \<noteq> []" "p = decode_rune bs" "(r, n) = p"
  then have "1 \<le> n" using decode_rune_width(1)[of bs] by (metis snd_conv)
  with \<open>bs \<noteq> []\<close> show "(drop n bs, bs) \<in> measure length" by (cases bs) auto
qed simp

declare runes.simps [simp del]

lemma valid_utf8_Nil [simp]: "valid_utf8 []"
  by (simp add: valid_utf8.simps)

lemma runes_Nil [simp]: "runes [] = []"
  by (simp add: runes.simps)

lemma valid_utf8_ascii [simp]: "b < 0x80 \<Longrightarrow> valid_utf8 (b # bs) = valid_utf8 bs"
  by (subst valid_utf8.simps) (simp add: decode_rune_ascii)

lemma runes_ascii [simp]: "b < 0x80 \<Longrightarrow> runes (b # bs) = b # runes bs"
  by (subst runes.simps) (simp add: decode_rune_ascii)

definition in_ranges :: "(nat \<times> nat) list \<Rightarrow> nat \<Rightarrow> bool" where
  "in_ranges rs r \<longleftrightarrow> list_ex (\<lambda>(lo, hi). lo \<le> r \<and> r \<le> hi) rs"

definition is_control :: "nat \<Rightarrow> bool" where
  "is_control r \<longleftrightarrow> r \<le> 0x1F \<or> (0x7F \<le> r \<and> r \<le> 0x9F)"

definition is_Cf :: "nat \<Rightarrow> bool" where
  "is_Cf = in_ranges
     [(0xAD, 0xAD), (0x600, 0x605), (0x61C, 0x61C), (0x6DD, 0x6DD), (0x70F, 0x70F), (0x890, 0x891),
      (0x8E2, 0x8E2), (0x180E, 0x180E), (0x200B, 0x200F), (0x202A, 0x202E), (0x2060, 0x2064),
      (0x2066, 0x206F), (0xFEFF, 0xFEFF), (0xFFF9, 0xFFFB), (0x110BD, 0x110BD), (0x110CD, 0x110CD),
      (0x13430, 0x1343F), (0x1BCA0, 0x1BCA3), (0x1D173, 0x1D17A), (0xE0001, 0xE0001), (0xE0020, 0xE007F)]"

definition is_space :: "nat \<Rightarrow> bool" where
  "is_space = in_ranges
     [(0x09, 0x0D), (0x20, 0x20), (0x85, 0x85), (0xA0, 0xA0), (0x1680, 0x1680), (0x2000, 0x200A),
      (0x2028, 0x2029), (0x202F, 0x202F), (0x205F, 0x205F), (0x3000, 0x3000)]"

end
