(* ===== verification/Protocol.thy ===== *)
theory Protocol
  imports Float64 Utf8 "HOL-Library.Word"
begin

text \<open>
  \<^verbatim>\<open>pkg/protocol/worker.go\<close> and \<^verbatim>\<open>request.go\<close>: the worker life cycle, registration and heartbeat
  validation, the address policy, and the snapshot type the registry, the scheduler and the router
  share. A Go \<^verbatim>\<open>error\<close> is an option of \<open>proto_error\<close>, one constructor per message. \<^verbatim>\<open>url.Parse\<close> and
  \<^verbatim>\<open>netip.ParseAddr\<close> are arguments (\<open>netenv\<close>) of the definitions that call them.
\<close>

unbundle bit_operations_syntax

section \<open>Life cycle states and health\<close>

datatype worker_state = StateRegistering | StateLoadingModel | StateWarming | StateReady
  | StateDraining | StateTerminated | StateFailed | StateUnhealthy | StateLost
  | StateOther string \<comment> \<open>any other text a client may send\<close>

fun Reportable :: "worker_state \<Rightarrow> bool" where
  "Reportable StateRegistering = True"
| "Reportable StateLoadingModel = True"
| "Reportable StateWarming = True"
| "Reportable StateReady = True"
| "Reportable StateDraining = True"
| "Reportable StateFailed = True"
| "Reportable _ = False"

definition CanTransition :: "worker_state \<Rightarrow> worker_state \<Rightarrow> bool" where
  "CanTransition from next =
     (if \<not> Reportable next then False
      else case from of
        StateRegistering \<Rightarrow> True
      | StateLoadingModel \<Rightarrow> next \<noteq> StateRegistering
      | StateWarming \<Rightarrow> next = StateWarming \<or> next = StateReady \<or> next = StateDraining \<or> next = StateFailed
      | StateReady \<Rightarrow> next = StateReady \<or> next = StateDraining \<or> next = StateFailed
      | StateDraining \<Rightarrow> next = StateDraining \<or> next = StateFailed
      | StateFailed \<Rightarrow> next \<noteq> StateRegistering
      | _ \<Rightarrow> False)"

datatype health = HealthHealthy | HealthSuspect | HealthUnhealthy | HealthLost

fun health_rank :: "health \<Rightarrow> nat" where
  "health_rank HealthHealthy = 0"
| "health_rank HealthSuspect = 1"
| "health_rank HealthUnhealthy = 2"
| "health_rank HealthLost = 3"

lemma health_rank_inj: "health_rank a = health_rank b \<Longrightarrow> a = b"
  by (cases a; cases b) auto

text \<open>Health is ordered from best to worst.\<close>

instantiation health :: linorder
begin

definition less_eq_health :: "health \<Rightarrow> health \<Rightarrow> bool" where
  "less_eq_health a b \<longleftrightarrow> health_rank a \<le> health_rank b"

definition less_health :: "health \<Rightarrow> health \<Rightarrow> bool" where
  "less_health a b \<longleftrightarrow> health_rank a < health_rank b"

instance
  by standard (auto simp: less_eq_health_def less_health_def intro: health_rank_inj)

end

section \<open>Text validation\<close>

definition MaxWorkerIDLen :: nat where "MaxWorkerIDLen = 64"
definition MaxModelLen :: nat where "MaxModelLen = 128"
definition MaxAddressLen :: nat where "MaxAddressLen = 2048"
definition MaxConcurrencyCap :: int where "MaxConcurrencyCap = 100000"
definition MaxQueueSizeCap :: int where "MaxQueueSizeCap = 1000000"
definition MaxReasonLen :: nat where "MaxReasonLen = 256"
definition MaxRegistrationLen :: nat where "MaxRegistrationLen = 128"
definition maxCounter :: int where "maxCounter = 2 ^ 40"

lemmas proto_limits = MaxWorkerIDLen_def MaxModelLen_def MaxAddressLen_def MaxConcurrencyCap_def
  MaxQueueSizeCap_def MaxReasonLen_def MaxRegistrationLen_def maxCounter_def

definition is_lower :: "char \<Rightarrow> bool" where "is_lower c \<longleftrightarrow> CHR ''a'' \<le> c \<and> c \<le> CHR ''z''"
definition is_upper :: "char \<Rightarrow> bool" where "is_upper c \<longleftrightarrow> CHR ''A'' \<le> c \<and> c \<le> CHR ''Z''"
definition is_digit :: "char \<Rightarrow> bool" where "is_digit c \<longleftrightarrow> CHR ''0'' \<le> c \<and> c \<le> CHR ''9''"
definition is_alnum :: "char \<Rightarrow> bool" where "is_alnum c \<longleftrightarrow> is_lower c \<or> is_upper c \<or> is_digit c"

definition ValidWorkerID :: "string \<Rightarrow> bool" where
  \<comment> \<open>\<^verbatim>\<open>^[A-Za-z0-9][A-Za-z0-9._-]{0,63}$\<close>\<close>
  "ValidWorkerID s = (case s of [] \<Rightarrow> False
     | c # cs \<Rightarrow> is_alnum c \<and> length cs \<le> 63
         \<and> list_all (\<lambda>d. is_alnum d \<or> d = CHR ''.'' \<or> d = CHR ''_'' \<or> d = CHR ''-'') cs)"

definition cleanText :: "string \<Rightarrow> bool \<Rightarrow> bool" where
  "cleanText s allowSpace =
     (let bs = map byte s in
      if \<not> valid_utf8 bs then False
      else list_all (\<lambda>r. \<not> (is_control r \<or> is_Cf r \<or> (\<not> allowSpace \<and> is_space r))) (runes bs))"

datatype proto_error = EWorkerID | EModelLength | EModelText | EAddressURL | EAddressParts | EAddressHost
  | EAddressRoutable | EAddressPort | EAddressPathChars | EAddressDotDot | EMaxConcurrency | EQueueSize
  | ECounter | ETokensPerSecond | EGPUUtilization | EGPUMemory | ERegistrationID | EState | EReason

definition validModel :: "string \<Rightarrow> proto_error option" where
  "validModel m =
     (if m = [] \<or> length m > MaxModelLen then Some EModelLength
      else if \<not> cleanText m False then Some EModelText
      else None)"

section \<open>The address policy\<close>

text \<open>A \<^verbatim>\<open>netip.Addr\<close> without zone: four or sixteen bytes.\<close>

datatype addr = V4 "nat list" | V6 "nat list"

fun addr_ok :: "addr \<Rightarrow> bool" where
  "addr_ok (V4 b) = (length b = 4 \<and> list_all (\<lambda>x. x < 256) b)"
| "addr_ok (V6 b) = (length b = 16 \<and> list_all (\<lambda>x. x < 256) b)"

definition allZero :: "nat list \<Rightarrow> bool" where
  "allZero b = list_all (\<lambda>x. x = 0) b"

fun Unmap :: "addr \<Rightarrow> addr" where
  "Unmap (V4 b) = V4 b"
| "Unmap (V6 b) = (if allZero (take 10 b) \<and> b ! 10 = 0xff \<and> b ! 11 = 0xff then V4 (drop 12 b) else V6 b)"

fun IsUnspecified :: "addr \<Rightarrow> bool" where
  "IsUnspecified (V4 b) = allZero b"
| "IsUnspecified (V6 b) = allZero b"

fun IsLoopback :: "addr \<Rightarrow> bool" where
  "IsLoopback (V4 b) = (b ! 0 = 127)"
| "IsLoopback (V6 b) = (allZero (take 15 b) \<and> b ! 15 = 1)"

fun IsLinkLocalUnicast :: "addr \<Rightarrow> bool" where
  "IsLinkLocalUnicast (V4 b) = (b ! 0 = 169 \<and> b ! 1 = 254)"
| "IsLinkLocalUnicast (V6 b) = (b ! 0 = 0xfe \<and> b ! 1 div 64 = 2)"

fun IsLinkLocalMulticast :: "addr \<Rightarrow> bool" where
  "IsLinkLocalMulticast (V4 b) = (b ! 0 = 224 \<and> b ! 1 = 0 \<and> b ! 2 = 0)"
| "IsLinkLocalMulticast (V6 b) = (b ! 0 = 0xff \<and> b ! 1 mod 16 = 2)"

fun IsInterfaceLocalMulticast :: "addr \<Rightarrow> bool" where
  "IsInterfaceLocalMulticast (V4 b) = False"
| "IsInterfaceLocalMulticast (V6 b) = (b ! 0 = 0xff \<and> b ! 1 mod 16 = 1)"

fun IsMulticast :: "addr \<Rightarrow> bool" where
  "IsMulticast (V4 b) = (b ! 0 div 16 = 14)"
| "IsMulticast (V6 b) = (b ! 0 = 0xff)"

definition metadataAddrs :: "addr list" where
  "metadataAddrs = [V4 [168, 63, 129, 16], V4 [100, 100, 100, 200],
     V6 [0xfd, 0, 0x0e, 0xc2, 0, 0, 0, 0, 0, 0, 0, 0, 0, 0, 0x02, 0x54]]"

definition forbidden_plain :: "addr \<Rightarrow> bool" where
  "forbidden_plain a \<longleftrightarrow> IsUnspecified a \<or> IsLinkLocalUnicast a \<or> IsLinkLocalMulticast a
     \<or> IsInterfaceLocalMulticast a \<or> IsMulticast a \<or> a = V4 [255, 255, 255, 255]
     \<or> (case a of V4 b \<Rightarrow> b ! 0 = 0 | V6 _ \<Rightarrow> False) \<or> a \<in> set metadataAddrs"

text \<open>
  \<^verbatim>\<open>ForbiddenAddr\<close> calls itself on the embedded IPv4 address only, where the recursion ends: the
  model is a case distinction on the unmapped address.
\<close>

definition ForbiddenAddr :: "addr \<Rightarrow> bool" where
  "ForbiddenAddr a0 =
     (let a = Unmap a0 in
      if forbidden_plain a then True
      else case a of
        V4 _ \<Rightarrow> False
      | V6 b \<Rightarrow>
          if b ! 0 = 0x00 \<and> b ! 1 = 0x64 \<and> b ! 2 = 0xff \<and> b ! 3 = 0x9b \<and> allZero (take 8 (drop 4 b))
          then forbidden_plain (V4 (drop 12 b))
          else if b ! 0 = 0x00 \<and> b ! 1 = 0x64 \<and> b ! 2 = 0xff \<and> b ! 3 = 0x9b \<and> b ! 4 = 0x00 \<and> b ! 5 = 0x01
          then True
          else if b ! 0 = 0x20 \<and> b ! 1 = 0x02 then forbidden_plain (V4 (take 4 (drop 2 b)))
          else if allZero (take 12 b) \<and> \<not> IsLoopback a then forbidden_plain (V4 (drop 12 b))
          else if allZero (take 8 b) \<and> b ! 8 = 0xff \<and> b ! 9 = 0xff \<and> allZero (take 2 (drop 10 b))
          then forbidden_plain (V4 (drop 12 b))
          else False)"

definition checkRoutable :: "addr \<Rightarrow> proto_error option" where
  "checkRoutable a = (if ForbiddenAddr a then Some EAddressRoutable else None)"

record url =
  url_Scheme :: string
  url_Host :: string
  url_hasUser :: bool
  url_RawQuery :: string
  url_ForceQuery :: bool
  url_Fragment :: string
  url_Hostname :: string
  url_Port :: string
  url_Path :: string

record netenv =
  url_Parse :: "string \<Rightarrow> url option"
  ParseAddr :: "string \<Rightarrow> (addr \<times> string) option" \<comment> \<open>the address and its zone\<close>

fun split_on :: "char \<Rightarrow> string \<Rightarrow> string list" where
  \<comment> \<open>\<^verbatim>\<open>strings.Split\<close> with a one-byte separator\<close>
  "split_on c [] = [[]]"
| "split_on c (x # xs) =
     (if x = c then [] # split_on c xs
      else case split_on c xs of [] \<Rightarrow> [[x]] | y # ys \<Rightarrow> (x # y) # ys)"

definition host_label_ok :: "string \<Rightarrow> bool" where
  "host_label_ok l \<longleftrightarrow> l \<noteq> [] \<and> length l \<le> 63 \<and> hd l \<noteq> CHR ''-'' \<and> last l \<noteq> CHR ''-''
     \<and> list_all (\<lambda>c. is_alnum c \<or> c = CHR ''-'') l"

definition numeric_label :: "string \<Rightarrow> bool" where
  \<comment> \<open>the lower-cased label starts with \<open>0x\<close>, or is all digits\<close>
  "numeric_label l \<longleftrightarrow> take 2 l = ''0x'' \<or> take 2 l = ''0X'' \<or> list_all is_digit l"

definition validateHost :: "netenv \<Rightarrow> string \<Rightarrow> proto_error option" where
  "validateHost net host =
     (if host = [] \<or> length host > 253 then Some EAddressHost
      else if CHR '':'' \<in> set host \<or> CHR ''%'' \<in> set host then
        (case ParseAddr net host of
           Some (V6 b, zone) \<Rightarrow> if zone \<noteq> [] then Some EAddressHost else checkRoutable (Unmap (V6 b))
         | _ \<Rightarrow> Some EAddressHost)
      else
        let labels = split_on CHR ''.'' host in
        if \<not> list_all host_label_ok labels then Some EAddressHost
        else if numeric_label (last labels) then
          (case ParseAddr net host of
             Some (V4 b, _) \<Rightarrow> checkRoutable (V4 b)
           | _ \<Rightarrow> Some EAddressHost)
        else None)"

fun digits_val :: "nat \<Rightarrow> string \<Rightarrow> nat" where
  "digits_val acc [] = acc"
| "digits_val acc (c # cs) = digits_val (acc * 10 + (byte c - 48)) cs"

definition valid_port :: "string \<Rightarrow> bool" where
  \<comment> \<open>\<^verbatim>\<open>strconv.Atoi\<close> of the text \<^verbatim>\<open>u.Port()\<close> returns, which is empty or all digits\<close>
  "valid_port p \<longleftrightarrow> list_all is_digit p \<and> 1 \<le> digits_val 0 p \<and> digits_val 0 p \<le> 65535"

definition ValidateAddress :: "netenv \<Rightarrow> string \<Rightarrow> proto_error option" where
  "ValidateAddress net a =
     (if a = [] \<or> length a > MaxAddressLen then Some EAddressURL
      else case url_Parse net a of
        None \<Rightarrow> Some EAddressURL
      | Some u \<Rightarrow>
          if (url_Scheme u \<noteq> ''http'' \<and> url_Scheme u \<noteq> ''https'') \<or> url_Host u = [] then Some EAddressURL
          else if url_hasUser u \<or> url_RawQuery u \<noteq> [] \<or> url_ForceQuery u \<or> url_Fragment u \<noteq> [] then Some EAddressParts
          else case validateHost net (url_Hostname u) of
            Some e \<Rightarrow> Some e
          | None \<Rightarrow>
              if url_Port u \<noteq> [] \<and> \<not> valid_port (url_Port u) then Some EAddressPort
              else if list_ex (\<lambda>r. r \<le> 0x20 \<or> r = 0x7f) (runes (map byte (url_Path u))) then Some EAddressPathChars
              else if list_ex (\<lambda>seg. seg = ''..'') (split_on CHR ''/'' (url_Path u)) then Some EAddressDotDot
              else None)"

section \<open>Registrations, metrics and heartbeats\<close>

record worker_info =
  wi_WorkerID :: string
  wi_Model :: string
  wi_Address :: string
  wi_MaxConcurrency :: int
  wi_QueueSize :: int

definition WorkerInfo_Validate :: "netenv \<Rightarrow> worker_info \<Rightarrow> proto_error option" where
  "WorkerInfo_Validate net w =
     (if \<not> ValidWorkerID (wi_WorkerID w) then Some EWorkerID
      else case validModel (wi_Model w) of
        Some e \<Rightarrow> Some e
      | None \<Rightarrow>
          (case ValidateAddress net (wi_Address w) of
             Some e \<Rightarrow> Some e
           | None \<Rightarrow>
               if wi_MaxConcurrency w < 1 \<or> wi_MaxConcurrency w > MaxConcurrencyCap then Some EMaxConcurrency
               else if wi_QueueSize w < 0 \<or> wi_QueueSize w > MaxQueueSizeCap then Some EQueueSize
               else None))"

record metrics =
  ActiveRequests :: int
  QueueDepth :: int
  QueuedInputTokens :: int
  RecentTokensPerSecond :: float64
  GPUUtilization :: "float64 option"
  GPUMemoryUsedMB :: "int option"

definition metrics_zero :: metrics where
  "metrics_zero = \<lparr>ActiveRequests = 0, QueueDepth = 0, QueuedInputTokens = 0,
     RecentTokensPerSecond = Fin 0, GPUUtilization = None, GPUMemoryUsedMB = None\<rparr>"

definition finite64 :: "float64 \<Rightarrow> bool" where
  "finite64 f \<longleftrightarrow> \<not> is_nan f \<and> \<not> is_inf f"

definition counter_ok :: "int \<Rightarrow> bool" where
  "counter_ok v \<longleftrightarrow> \<not> (v < 0 \<or> v > maxCounter)"

definition Metrics_Validate :: "metrics \<Rightarrow> proto_error option" where
  "Metrics_Validate m =
     (if \<not> list_all counter_ok [ActiveRequests m, QueueDepth m, QueuedInputTokens m] then Some ECounter
      else if \<not> finite64 (RecentTokensPerSecond m) \<or> flt (RecentTokensPerSecond m) (Fin 0)
        \<or> fgt (RecentTokensPerSecond m) (Fin 1000000000) then Some ETokensPerSecond
      else if (case GPUUtilization m of None \<Rightarrow> False
               | Some g \<Rightarrow> \<not> finite64 g \<or> flt g (Fin 0) \<or> fgt g (Fin 100)) then Some EGPUUtilization
      else if (case GPUMemoryUsedMB m of None \<Rightarrow> False | Some g \<Rightarrow> g < 0 \<or> g > maxCounter) then Some EGPUMemory
      else None)"

record heartbeat =
  hb_RegistrationID :: string
  hb_State :: worker_state
  hb_Metrics :: metrics
  hb_Reason :: string

definition Heartbeat_Validate :: "heartbeat \<Rightarrow> proto_error option" where
  "Heartbeat_Validate h =
     (if hb_RegistrationID h = [] \<or> length (hb_RegistrationID h) > MaxRegistrationLen then Some ERegistrationID
      else if \<not> Reportable (hb_State h) then Some EState
      else if length (hb_Reason h) > MaxReasonLen \<or> \<not> cleanText (hb_Reason h) True then Some EReason
      else Metrics_Validate (hb_Metrics h))"

section \<open>Snapshots\<close>

type_synonym observed_flags = "8 word"

definition ObservedColdStart :: observed_flags where "ObservedColdStart = 1"
definition ObservedStale :: observed_flags where "ObservedStale = 2"
definition ObservedMissingGPU :: observed_flags where "ObservedMissingGPU = 4"
definition ObservedInvalid :: observed_flags where "ObservedInvalid = 8"
definition ObservedLedger :: observed_flags where "ObservedLedger = 16"
definition ObservedUntracked :: observed_flags where "ObservedUntracked = 32"
definition ObservedPriorCapacity :: observed_flags where "ObservedPriorCapacity = 64"
definition ObservedDegraded :: observed_flags where "ObservedDegraded = 128"

lemmas observed_flag_defs = ObservedColdStart_def ObservedStale_def ObservedMissingGPU_def ObservedInvalid_def
  ObservedLedger_def ObservedUntracked_def ObservedPriorCapacity_def ObservedDegraded_def

record observed_load =
  InflightRequests :: int
  WorkAheadTokens :: float64
  CapacityTPS :: float64
  TTFTSeconds :: float64
  EffectiveActive :: int
  Flags :: observed_flags

definition observed_zero :: observed_load where
  "observed_zero = \<lparr>InflightRequests = 0, WorkAheadTokens = Fin 0, CapacityTPS = Fin 0, TTFTSeconds = Fin 0,
     EffectiveActive = 0, Flags = 0\<rparr>"

record worker_snapshot =
  WorkerID :: string
  Model :: string
  Address :: string
  MaxConcurrency :: int
  QueueSize :: int
  WState :: worker_state
  WHealth :: health
  Eligible :: bool
  WMetrics :: metrics
  WReason :: string
  RegisteredAt :: time
  LastHeartbeat :: time
  HeartbeatAgeSeconds :: float64
  Observed :: observed_load

record message =
  Role :: string
  Content :: string

record inference_request =
  req_RequestID :: string
  req_TenantID :: string
  req_Model :: string
  req_Messages :: "message list"
  req_Prompt :: string
  req_Stream :: bool
  req_MaxTokens :: int
  req_Temperature :: float64
  req_Priority :: int
  EstInputTokens :: int
  EstOutputTokens :: int

record model_info =
  mi_Model :: string
  mi_Workers :: nat
  mi_Eligible :: nat

section \<open>Lemmas\<close>

lemma CanTransition_reportable: "CanTransition s t \<Longrightarrow> Reportable t"
  by (auto simp: CanTransition_def split: if_splits)

lemma CanTransition_failed: "Reportable s \<Longrightarrow> CanTransition s StateFailed"
  by (cases s) (auto simp: CanTransition_def)

lemma CanTransition_never_registering: "CanTransition s StateRegistering \<longleftrightarrow> s = StateRegistering"
  by (cases s) (auto simp: CanTransition_def)

lemma Metrics_Validate_None:
  assumes "Metrics_Validate m = None"
  shows "0 \<le> ActiveRequests m" "ActiveRequests m \<le> maxCounter"
    "0 \<le> QueueDepth m" "QueueDepth m \<le> maxCounter"
    "0 \<le> QueuedInputTokens m" "QueuedInputTokens m \<le> maxCounter"
  using assms by (auto simp: Metrics_Validate_def counter_ok_def split: if_splits)

lemma Heartbeat_Validate_None:
  assumes "Heartbeat_Validate h = None"
  shows "Reportable (hb_State h)" "Metrics_Validate (hb_Metrics h) = None"
  using assms by (auto simp: Heartbeat_Validate_def split: if_splits)

lemma WorkerInfo_Validate_None:
  assumes "WorkerInfo_Validate net w = None"
  shows "ValidWorkerID (wi_WorkerID w)" "1 \<le> wi_MaxConcurrency w" "wi_MaxConcurrency w \<le> MaxConcurrencyCap"
    "ValidateAddress net (wi_Address w) = None" "wi_Model w \<noteq> []"
  using assms by (auto simp: WorkerInfo_Validate_def validModel_def split: if_splits option.splits)

subsection \<open>Embedded addresses\<close>

definition v4_mapped :: "nat list \<Rightarrow> addr" where
  "v4_mapped b = V6 ([0, 0, 0, 0, 0, 0, 0, 0, 0, 0, 0xff, 0xff] @ b)"

definition v4_nat64 :: "nat list \<Rightarrow> addr" where
  "v4_nat64 b = V6 ([0x00, 0x64, 0xff, 0x9b, 0, 0, 0, 0, 0, 0, 0, 0] @ b)"

definition v4_6to4 :: "nat list \<Rightarrow> nat list \<Rightarrow> addr" where
  "v4_6to4 b rest = V6 ([0x20, 0x02] @ b @ rest)"

definition v4_compat :: "nat list \<Rightarrow> addr" where
  "v4_compat b = V6 (replicate 12 0 @ b)"

definition v4_siit :: "nat list \<Rightarrow> addr" where
  "v4_siit b = V6 ([0, 0, 0, 0, 0, 0, 0, 0, 0xff, 0xff, 0, 0] @ b)"

lemmas embed_defs = v4_mapped_def v4_nat64_def v4_6to4_def v4_compat_def v4_siit_def

lemma length4: "length b = 4 \<Longrightarrow> \<exists>w x y z. b = [w, x, y, z]"
  by (auto simp: numeral_eq_Suc length_Suc_conv)

lemma forbidden_embedded:
  assumes "length b = 4" "length rest = 10" "ForbiddenAddr (V4 b)"
  shows "ForbiddenAddr (v4_mapped b)" "ForbiddenAddr (v4_nat64 b)" "ForbiddenAddr (v4_6to4 b rest)"
    "b \<noteq> [0, 0, 0, 1] \<Longrightarrow> ForbiddenAddr (v4_compat b)" "ForbiddenAddr (v4_siit b)"
proof -
  obtain w x y z where b: "b = [w, x, y, z]"
    using length4[OF assms(1)] by blast
  have p: "forbidden_plain (V4 [w, x, y, z])"
    using assms(3) by (simp add: ForbiddenAddr_def b Let_def split: if_splits)
  show "ForbiddenAddr (v4_mapped b)" "ForbiddenAddr (v4_nat64 b)" "ForbiddenAddr (v4_siit b)"
    using p by (simp_all add: ForbiddenAddr_def embed_defs b Let_def allZero_def)
  show "ForbiddenAddr (v4_6to4 b rest)"
    using p by (simp add: ForbiddenAddr_def embed_defs b Let_def allZero_def)
  show "ForbiddenAddr (v4_compat b)" if "b \<noteq> [0, 0, 0, 1]"
    using p that
    by (simp add: ForbiddenAddr_def embed_defs b Let_def allZero_def numeral_eq_Suc)
qed



end
