(* ===== verification/Registry.thy ===== *)
theory Registry
  imports Protocol
begin

text \<open>
  \<^verbatim>\<open>internal/registry/registry.go\<close>: the control plane's in-memory worker registry. Every operation
  takes the clock reading (and, for \<^verbatim>\<open>Register\<close>, the random registration ID) as an argument and returns
  the new registry, the calls it makes to the logger and its Go result. The lock makes each
  operation one atomic step, so an execution is a sequence of steps (\<open>reg_step\<close>).
\<close>

section \<open>State\<close>

datatype reg_error = ErrInvalid proto_error | ErrUnknownWorker | ErrStaleRegistration
  | ErrIllegalTransition worker_state worker_state | ErrFull

record reg_config =
  Suspect :: duration
  Unhealthy :: duration
  Lost :: duration
  Retention :: duration
  MaxWorkers :: int
  HeartbeatInterval :: duration
  SuspectEligible :: bool

datatype config_error = EDurations | EThresholds | EMaxWorkers

definition Config_Validate :: "reg_config \<Rightarrow> config_error option" where
  "Config_Validate c =
     (if Suspect c \<le> 0 \<or> Unhealthy c \<le> 0 \<or> Lost c \<le> 0 \<or> Retention c \<le> 0 \<or> HeartbeatInterval c \<le> 0
      then Some EDurations
      else if Suspect c \<ge> Unhealthy c \<or> Unhealthy c \<ge> Lost c then Some EThresholds
      else if MaxWorkers c < 1 then Some EMaxWorkers
      else None)"

definition healthAt :: "reg_config \<Rightarrow> duration \<Rightarrow> health" where
  "healthAt c a =
     (if a > Lost c then HealthLost
      else if a > Unhealthy c then HealthUnhealthy
      else if a \<ge> Suspect c then HealthSuspect
      else HealthHealthy)"

record entry =
  e_info :: worker_info
  e_regID :: string
  e_state :: worker_state
  e_metrics :: metrics
  e_reason :: string
  e_registeredAt :: time
  e_lastBeat :: time
  e_observed :: worker_state
  e_drained :: bool

datatype hb_result = HbOK | HbInvalid | HbUnknownWorker | HbStaleRegistration | HbIllegalTransition

record registry =
  r_cfg :: reg_config
  r_workers :: "(string, entry) gomap"
  r_registrations :: nat
  r_heartbeats :: "hb_result \<Rightarrow> nat"

record transition =
  t_id :: string
  t_model :: string
  t_from :: worker_state
  t_to :: worker_state
  t_age :: duration
  t_reason :: string

datatype reg_log =
    LogReRegistered string string worker_state
  | LogRegistered string string int
  | LogTransition transition
  | LogEvicted string string
  | LogDeregistered string string worker_state

definition NewWithClock :: "reg_config \<Rightarrow> config_error + registry" where
  "NewWithClock c = (case Config_Validate c of
       Some e \<Rightarrow> Inl e
     | None \<Rightarrow> Inr \<lparr>r_cfg = c, r_workers = [], r_registrations = 0, r_heartbeats = (\<lambda>_. 0)\<rparr>)"

section \<open>Reads\<close>

definition age :: "entry \<Rightarrow> time \<Rightarrow> duration" where
  "age e now = (let a = now - e_lastBeat e in if a > 0 then a else 0)"

definition effective :: "reg_config \<Rightarrow> entry \<Rightarrow> time \<Rightarrow> worker_state" where
  "effective c e now =
     (case healthAt c (age e now) of
        HealthLost \<Rightarrow> StateLost
      | HealthUnhealthy \<Rightarrow> StateUnhealthy
      | _ \<Rightarrow> e_state e)"

definition snapshot :: "reg_config \<Rightarrow> entry \<Rightarrow> time \<Rightarrow> worker_snapshot" where
  "snapshot c e now =
     (let a = age e now;
          h = healthAt c a;
          st = effective c e now;
          elig = (st = StateReady \<and> (h = HealthHealthy \<or> (h = HealthSuspect \<and> SuspectEligible c)))
      in \<lparr>WorkerID = wi_WorkerID (e_info e), Model = wi_Model (e_info e), Address = wi_Address (e_info e),
          MaxConcurrency = wi_MaxConcurrency (e_info e), QueueSize = wi_QueueSize (e_info e),
          WState = st, WHealth = h, Eligible = elig, WMetrics = e_metrics e, WReason = e_reason e,
          RegisteredAt = e_registeredAt e, LastHeartbeat = e_lastBeat e,
          HeartbeatAgeSeconds = duration_seconds a, Observed = observed_zero\<rparr>)"

record list_filter =
  f_Model :: string
  f_State :: "worker_state option" \<comment> \<open>\<^verbatim>\<open>None\<close> is Go's empty string: match everything\<close>
  f_EligibleOnly :: bool

definition filter_match :: "list_filter \<Rightarrow> worker_snapshot \<Rightarrow> bool" where
  "filter_match f s \<longleftrightarrow> \<not> ((f_Model f \<noteq> [] \<and> Model s \<noteq> f_Model f)
     \<or> (case f_State f of None \<Rightarrow> False | Some st \<Rightarrow> WState s \<noteq> st)
     \<or> (f_EligibleOnly f \<and> \<not> Eligible s))"

definition List :: "registry \<Rightarrow> time \<Rightarrow> list_filter \<Rightarrow> worker_snapshot list" where
  "List r now f =
     sort_key WorkerID (filter (filter_match f) (map (\<lambda>(_, e). snapshot (r_cfg r) e now) (r_workers r)))"

definition Get :: "registry \<Rightarrow> time \<Rightarrow> string \<Rightarrow> worker_snapshot option" where
  "Get r now wid = (case mget (r_workers r) wid of
       None \<Rightarrow> None | Some e \<Rightarrow> Some (snapshot (r_cfg r) e now))"

definition Eligible_for :: "registry \<Rightarrow> time \<Rightarrow> string \<Rightarrow> worker_snapshot list" where
  "Eligible_for r now model = List r now \<lparr>f_Model = model, f_State = None, f_EligibleOnly = True\<rparr>"

definition count_model :: "reg_config \<Rightarrow> time \<Rightarrow> (string, model_info) gomap \<Rightarrow> entry \<Rightarrow> (string, model_info) gomap" where
  "count_model c now counts e =
     (let k = wi_Model (e_info e);
          m = (case mget counts k of None \<Rightarrow> \<lparr>mi_Model = k, mi_Workers = 0, mi_Eligible = 0\<rparr> | Some m \<Rightarrow> m);
          m1 = m\<lparr>mi_Workers := mi_Workers m + 1\<rparr>;
          m2 = (if Eligible (snapshot c e now) then m1\<lparr>mi_Eligible := mi_Eligible m1 + 1\<rparr> else m1)
      in mput k m2 counts)"

definition Models :: "registry \<Rightarrow> time \<Rightarrow> model_info list" where
  "Models r now =
     (let counts = foldl (count_model (r_cfg r) now) [] (map snd (r_workers r))
      in sort_key mi_Model (map snd counts))"

definition Len :: "registry \<Rightarrow> nat" where
  "Len r = length (r_workers r)"

section \<open>Writes\<close>

definition observeLocked :: "reg_config \<Rightarrow> string \<Rightarrow> entry \<Rightarrow> time \<Rightarrow> entry \<times> transition option" where
  "observeLocked c wid e now =
     (let cur = effective c e now in
      if cur = e_observed e then (e, None)
      else (e\<lparr>e_observed := cur\<rparr>,
            Some \<lparr>t_id = wid, t_model = wi_Model (e_info e), t_from = e_observed e, t_to = cur,
                  t_age = age e now, t_reason = e_reason e\<rparr>))"

definition expired :: "reg_config \<Rightarrow> time \<Rightarrow> entry \<Rightarrow> bool" where
  "expired c now e \<longleftrightarrow> age e now > Lost c + Retention c"

definition evictLocked :: "registry \<Rightarrow> time \<Rightarrow> registry \<times> reg_log list" where
  "evictLocked r now =
     (r\<lparr>r_workers := filter (\<lambda>(_, e). \<not> expired (r_cfg r) now e) (r_workers r)\<rparr>,
      map (\<lambda>(wid, e). LogEvicted wid (wi_Model (e_info e)))
        (filter (\<lambda>(_, e). expired (r_cfg r) now e) (r_workers r)))"

definition register_locked :: "time \<Rightarrow> string \<Rightarrow> worker_info \<Rightarrow> registry \<Rightarrow> registry \<times> reg_log list \<times> (reg_error + string)" where
  "register_locked now newID info r =
     (let old = mget (r_workers r) (wi_WorkerID info);
          (r1, logs) = (if old = None \<and> int (length (r_workers r)) \<ge> MaxWorkers (r_cfg r)
                        then evictLocked r now else (r, []))
      in if old = None \<and> int (length (r_workers r)) \<ge> MaxWorkers (r_cfg r)
            \<and> int (length (r_workers r1)) \<ge> MaxWorkers (r_cfg r)
         then (r1, logs, Inl ErrFull)
         else
           let e = \<lparr>e_info = info, e_regID = newID, e_state = StateRegistering, e_metrics = metrics_zero,
                    e_reason = [], e_registeredAt = now, e_lastBeat = now, e_observed = StateRegistering,
                    e_drained = False\<rparr>;
               r2 = r1\<lparr>r_workers := mput (wi_WorkerID info) e (r_workers r1)\<rparr>;
               lg = (case old of
                       Some o' \<Rightarrow> LogReRegistered (wi_WorkerID info) (wi_Model info) (effective (r_cfg r) o' now)
                     | None \<Rightarrow> LogRegistered (wi_WorkerID info) (wi_Model info) (wi_MaxConcurrency info))
           in (r2, logs @ [lg], Inr newID))"

definition Register :: "netenv \<Rightarrow> time \<Rightarrow> string \<Rightarrow> worker_info \<Rightarrow> registry \<Rightarrow> registry \<times> reg_log list \<times> (reg_error + string)" where
  "Register net now newID info r =
     (case WorkerInfo_Validate net info of
        Some e \<Rightarrow> (r, [], Inl (ErrInvalid e))
      | None \<Rightarrow>
          let (r1, logs, res) = register_locked now newID info r in
          (case res of
             Inl e \<Rightarrow> (r1, logs, Inl e)
           | Inr wid \<Rightarrow> (r1\<lparr>r_registrations := r_registrations r1 + 1\<rparr>, logs, Inr wid)))"

definition heartbeat_locked :: "time \<Rightarrow> string \<Rightarrow> string \<Rightarrow> heartbeat \<Rightarrow> registry \<Rightarrow> registry \<times> reg_log list \<times> reg_error option" where
  "heartbeat_locked now wid regID hb r =
     (case mget (r_workers r) wid of
        None \<Rightarrow> (r, [], Some ErrUnknownWorker)
      | Some e \<Rightarrow>
          if e_regID e \<noteq> regID then (r, [], Some ErrStaleRegistration)
          else if \<not> CanTransition (e_state e) (hb_State hb)
                  \<or> (e_drained e \<and> hb_State hb \<noteq> StateDraining \<and> hb_State hb \<noteq> StateFailed)
          then (r, [], Some (ErrIllegalTransition (e_state e) (hb_State hb)))
          else
            let e1 = e\<lparr>e_state := hb_State hb, e_metrics := hb_Metrics hb, e_reason := hb_Reason hb, e_lastBeat := now\<rparr>;
                e2 = (if hb_State hb = StateDraining then e1\<lparr>e_drained := True\<rparr> else e1);
                (e3, tr) = observeLocked (r_cfg r) wid e2 now
            in (r\<lparr>r_workers := mput wid e3 (r_workers r)\<rparr>,
                (case tr of None \<Rightarrow> [] | Some t \<Rightarrow> [LogTransition t]), None))"

fun heartbeatResult :: "reg_error option \<Rightarrow> hb_result" where
  "heartbeatResult None = HbOK"
| "heartbeatResult (Some ErrUnknownWorker) = HbUnknownWorker"
| "heartbeatResult (Some ErrStaleRegistration) = HbStaleRegistration"
| "heartbeatResult (Some (ErrIllegalTransition _ _)) = HbIllegalTransition"
| "heartbeatResult (Some _) = HbInvalid"

definition bump_hb :: "hb_result \<Rightarrow> registry \<Rightarrow> registry" where
  "bump_hb h r = r\<lparr>r_heartbeats := (r_heartbeats r)(h := r_heartbeats r h + 1)\<rparr>"

definition Heartbeat :: "time \<Rightarrow> string \<Rightarrow> string \<Rightarrow> heartbeat \<Rightarrow> registry \<Rightarrow> registry \<times> reg_log list \<times> reg_error option" where
  "Heartbeat now wid regID hb r =
     (case Heartbeat_Validate hb of
        Some e \<Rightarrow> (bump_hb HbInvalid r, [], Some (ErrInvalid e))
      | None \<Rightarrow>
          let (r1, logs, err) = heartbeat_locked now wid regID hb r
          in (bump_hb (heartbeatResult err) r1, logs, err))"

definition Deregister :: "string \<Rightarrow> string \<Rightarrow> registry \<Rightarrow> registry \<times> reg_log list \<times> reg_error option" where
  "Deregister wid regID r =
     (case mget (r_workers r) wid of
        None \<Rightarrow> (r, [], Some ErrUnknownWorker)
      | Some e \<Rightarrow>
          if e_regID e \<noteq> regID then (r, [], Some ErrStaleRegistration)
          else (r\<lparr>r_workers := mdel wid (r_workers r)\<rparr>,
                [LogDeregistered wid (wi_Model (e_info e)) (e_state e)], None))"

definition sweep_observe :: "reg_config \<Rightarrow> time \<Rightarrow> (string, entry) gomap \<Rightarrow> (string, entry) gomap \<times> reg_log list" where
  "sweep_observe c now ws =
     (map (\<lambda>(wid, e). (wid, fst (observeLocked c wid e now))) ws,
      map LogTransition (List.map_filter (\<lambda>(wid, e). snd (observeLocked c wid e now)) ws))"

definition Sweep :: "time \<Rightarrow> registry \<Rightarrow> registry \<times> reg_log list \<times> nat" where
  "Sweep now r =
     (let (ws, logs) = sweep_observe (r_cfg r) now (r_workers r);
          (r1, evictLogs) = evictLocked (r\<lparr>r_workers := ws\<rparr>) now
      in (r1, logs @ evictLogs, length evictLogs))"


section \<open>Executions\<close>

datatype reg_op = OpRegister time string worker_info | OpHeartbeat time string string heartbeat
  | OpDeregister string string | OpSweep time

fun apply_op :: "netenv \<Rightarrow> reg_op \<Rightarrow> registry \<Rightarrow> registry" where
  "apply_op net (OpRegister now newID info) r = fst (Register net now newID info r)"
| "apply_op net (OpHeartbeat now wid regID hb) r = fst (Heartbeat now wid regID hb r)"
| "apply_op net (OpDeregister wid regID) r = fst (Deregister wid regID r)"
| "apply_op net (OpSweep now) r = fst (Sweep now r)"

inductive reg_reachable :: "netenv \<Rightarrow> registry \<Rightarrow> bool" for net where
  start: "NewWithClock c = Inr r \<Longrightarrow> reg_reachable net r"
| step: "reg_reachable net r \<Longrightarrow> reg_reachable net (apply_op net op r)"

section \<open>The invariant\<close>

definition entry_ok :: "string \<Rightarrow> entry \<Rightarrow> bool" where
  "entry_ok k e \<longleftrightarrow> wi_WorkerID (e_info e) = k \<and> Reportable (e_state e)
     \<and> (e_drained e \<longrightarrow> e_state e = StateDraining \<or> e_state e = StateFailed)
     \<and> (e_state e = StateDraining \<longrightarrow> e_drained e)"

definition reg_inv :: "registry \<Rightarrow> bool" where
  "reg_inv r \<longleftrightarrow> Config_Validate (r_cfg r) = None \<and> mok (r_workers r)
     \<and> int (length (r_workers r)) \<le> MaxWorkers (r_cfg r)
     \<and> (\<forall>(k, e) \<in> set (r_workers r). entry_ok k e)"

lemma reg_invD:
  assumes "reg_inv r"
  shows "Config_Validate (r_cfg r) = None" "mok (r_workers r)"
    "int (length (r_workers r)) \<le> MaxWorkers (r_cfg r)"
    "(k, e) \<in> set (r_workers r) \<Longrightarrow> entry_ok k e"
    "mget (r_workers r) k = Some e \<Longrightarrow> entry_ok k e"
  using assms by (auto simp: reg_inv_def dest: mget_mem)

lemma reg_invI:
  assumes "Config_Validate (r_cfg r) = None" "mok (r_workers r)"
    "int (length (r_workers r)) \<le> MaxWorkers (r_cfg r)"
    "\<And>k e. (k, e) \<in> set (r_workers r) \<Longrightarrow> entry_ok k e"
  shows "reg_inv r"
  using assms by (auto simp: reg_inv_def)

lemma Config_Validate_None:
  assumes "Config_Validate c = None"
  shows "0 < Suspect c" "Suspect c < Unhealthy c" "Unhealthy c < Lost c" "0 < Retention c" "1 \<le> MaxWorkers c"
  using assms by (auto simp: Config_Validate_def split: if_splits)

lemma evictLocked_inv:
  assumes "reg_inv r"
  shows "reg_inv (fst (evictLocked r now))"
proof (rule reg_invI)
  have "int (length (filter P (r_workers r))) \<le> MaxWorkers (r_cfg r)" for P
    using reg_invD(3)[OF assms] length_filter_le[of P "r_workers r"] by linarith
  then show "int (length (r_workers (fst (evictLocked r now)))) \<le> MaxWorkers (r_cfg (fst (evictLocked r now)))"
    by (simp add: evictLocked_def)
qed (use reg_invD[OF assms] in \<open>auto simp: evictLocked_def\<close>)

lemma observeLocked_cases:
  "observeLocked c wid e now = (e', tr) \<Longrightarrow> e' = e\<lparr>e_observed := effective c e now\<rparr>"
  by (auto simp: observeLocked_def Let_def split: if_splits)

lemma observeLocked_fst [simp]: "fst (observeLocked c wid e now) = e\<lparr>e_observed := effective c e now\<rparr>"
  by (auto simp: observeLocked_def Let_def)

lemma entry_ok_observed [simp]: "entry_ok k (e\<lparr>e_observed := s\<rparr>) = entry_ok k e"
  by (simp add: entry_ok_def)


lemma evictLocked_cfg [simp]: "r_cfg (fst (evictLocked r now)) = r_cfg r"
  by (simp add: evictLocked_def)

lemma mput_inv:
  assumes "reg_inv r" "entry_ok k e"
    and "int (length (mput k e (r_workers r))) \<le> MaxWorkers (r_cfg r)"
  shows "reg_inv (r\<lparr>r_workers := mput k e (r_workers r)\<rparr>)"
  using reg_invD[OF assms(1)] assms(2,3) by (intro reg_invI) (auto simp: mput_mem)

lemma reg_inv_counters [simp]:
  "reg_inv (r\<lparr>r_registrations := n\<rparr>) = reg_inv r"
  "reg_inv (bump_hb h r) = reg_inv r"
  by (simp_all add: reg_inv_def bump_hb_def)

definition new_entry :: "time \<Rightarrow> string \<Rightarrow> worker_info \<Rightarrow> entry" where
  "new_entry now newID info = \<lparr>e_info = info, e_regID = newID, e_state = StateRegistering,
     e_metrics = metrics_zero, e_reason = [], e_registeredAt = now, e_lastBeat = now,
     e_observed = StateRegistering, e_drained = False\<rparr>"

lemma entry_ok_new [simp]: "entry_ok (wi_WorkerID info) (new_entry now newID info)"
  by (simp add: entry_ok_def new_entry_def)

text \<open>The three ways \<^verbatim>\<open>register\<close> ends: no room, room after evicting, room at once.\<close>

lemma register_locked_cases:
  obtains (full) "mget (r_workers r) (wi_WorkerID info) = None"
      "MaxWorkers (r_cfg r) \<le> int (length (r_workers r))"
      "MaxWorkers (r_cfg r) \<le> int (length (r_workers (fst (evictLocked r now))))"
      "register_locked now newID info r = (fst (evictLocked r now), snd (evictLocked r now), Inl ErrFull)"
  | (evicted) r1 lg where "mget (r_workers r) (wi_WorkerID info) = None"
      "MaxWorkers (r_cfg r) \<le> int (length (r_workers r))"
      "r1 = fst (evictLocked r now)" "int (length (r_workers r1)) < MaxWorkers (r_cfg r)"
      "register_locked now newID info r =
         (r1\<lparr>r_workers := mput (wi_WorkerID info) (new_entry now newID info) (r_workers r1)\<rparr>, lg, Inr newID)"
  | (room) lg where "mget (r_workers r) (wi_WorkerID info) \<noteq> None \<or> int (length (r_workers r)) < MaxWorkers (r_cfg r)"
      "register_locked now newID info r =
         (r\<lparr>r_workers := mput (wi_WorkerID info) (new_entry now newID info) (r_workers r)\<rparr>, lg, Inr newID)"
proof -
  obtain r1 lg where ev: "evictLocked r now = (r1, lg)" by force
  have cfg: "r_cfg r1 = r_cfg r" using evictLocked_cfg[of r now] ev by simp
  show thesis
    by (cases "mget (r_workers r) (wi_WorkerID info)"; cases "MaxWorkers (r_cfg r) \<le> int (length (r_workers r))";
        cases "MaxWorkers (r_cfg r) \<le> int (length (r_workers r1))")
      (use that ev cfg in \<open>auto simp: register_locked_def Let_def new_entry_def\<close>)
qed

lemma Register_inv:
  assumes "reg_inv r"
  shows "reg_inv (fst (Register net now newID info r))"
proof -
  have "reg_inv (fst (register_locked now newID info r))"
  proof (cases rule: register_locked_cases[of r info now newID])
    case full
    then show ?thesis using evictLocked_inv[OF assms] by simp
  next
    case (evicted r1 lg)
    have "reg_inv r1" using evictLocked_inv[OF assms] evicted(3) by simp
    moreover have "mget (r_workers r1) (wi_WorkerID info) = None"
      using evicted(1,3) by (auto simp: evictLocked_def map_of_eq_None_iff)
    moreover have "r_cfg r1 = r_cfg r" using evicted(3) by simp
    ultimately have "reg_inv (r1\<lparr>r_workers := mput (wi_WorkerID info) (new_entry now newID info) (r_workers r1)\<rparr>)"
      using evicted(4) by (intro mput_inv) auto
    then show ?thesis using evicted(5) by simp
  next
    case (room lg)
    have "int (length (mput (wi_WorkerID info) (new_entry now newID info) (r_workers r))) \<le> MaxWorkers (r_cfg r)"
      using room(1) reg_invD(3)[OF assms]
      by (cases "mget (r_workers r) (wi_WorkerID info)") auto
    then show ?thesis using room(2) mput_inv[OF assms entry_ok_new] by simp
  qed
  then show ?thesis
    by (auto simp: Register_def Let_def assms split: option.splits sum.splits prod.splits)
qed

text \<open>An accepted heartbeat, and the entry it writes.\<close>

definition beat_entry :: "reg_config \<Rightarrow> time \<Rightarrow> heartbeat \<Rightarrow> entry \<Rightarrow> entry" where
  "beat_entry c now hb e =
     (let e1 = e\<lparr>e_state := hb_State hb, e_metrics := hb_Metrics hb, e_reason := hb_Reason hb, e_lastBeat := now,
                 e_drained := (e_drained e \<or> hb_State hb = StateDraining)\<rparr>
      in e1\<lparr>e_observed := effective c e1 now\<rparr>)"

definition beat_accepted :: "string \<Rightarrow> string \<Rightarrow> heartbeat \<Rightarrow> registry \<Rightarrow> entry \<Rightarrow> bool" where
  "beat_accepted wid regID hb r e \<longleftrightarrow> mget (r_workers r) wid = Some e \<and> e_regID e = regID
     \<and> CanTransition (e_state e) (hb_State hb)
     \<and> (e_drained e \<longrightarrow> hb_State hb = StateDraining \<or> hb_State hb = StateFailed)"

lemma heartbeat_locked_accept:
  assumes "beat_accepted wid regID hb r e"
  shows "\<exists>lg. heartbeat_locked now wid regID hb r =
    (r\<lparr>r_workers := mput wid (beat_entry (r_cfg r) now hb e) (r_workers r)\<rparr>, lg, None)"
  using assms
  by (auto simp: heartbeat_locked_def beat_accepted_def beat_entry_def Let_def split: prod.splits
      dest!: observeLocked_cases)

lemma heartbeat_locked_reject:
  assumes "\<nexists>e. beat_accepted wid regID hb r e"
  shows "\<exists>err. heartbeat_locked now wid regID hb r = (r, [], Some err)"
  using assms by (auto simp: heartbeat_locked_def beat_accepted_def split: option.splits)

lemma entry_ok_beat:
  assumes "entry_ok k e" "CanTransition (e_state e) (hb_State hb)"
    "e_drained e \<longrightarrow> hb_State hb = StateDraining \<or> hb_State hb = StateFailed"
  shows "entry_ok k (beat_entry c now hb e)"
  using assms by (auto simp: entry_ok_def beat_entry_def Let_def intro: CanTransition_reportable)

lemma Heartbeat_workers:
  "r_workers (fst (Heartbeat now wid regID hb r)) =
     (if Heartbeat_Validate hb = None \<and> (\<exists>e. beat_accepted wid regID hb r e)
      then mput wid (beat_entry (r_cfg r) now hb (the (mget (r_workers r) wid))) (r_workers r)
      else r_workers r)"
proof (cases "Heartbeat_Validate hb = None \<and> (\<exists>e. beat_accepted wid regID hb r e)")
  case True
  then obtain e where e: "beat_accepted wid regID hb r e" by blast
  then have "mget (r_workers r) wid = Some e" by (simp add: beat_accepted_def)
  with True heartbeat_locked_accept[OF e, of now] e show ?thesis
    by (auto simp: Heartbeat_def Let_def bump_hb_def)
next
  case False
  then show ?thesis
    using heartbeat_locked_reject[of wid regID hb r now]
    by (auto simp: Heartbeat_def Let_def bump_hb_def split: option.splits)
qed

lemma heartbeat_cfg [simp]: "r_cfg (fst (Heartbeat now wid regID hb r)) = r_cfg r"
  by (auto simp: Heartbeat_def heartbeat_locked_def Let_def bump_hb_def split: option.splits prod.splits)

lemma Heartbeat_inv:
  assumes "reg_inv r"
  shows "reg_inv (fst (Heartbeat now wid regID hb r))"
proof -
  have "reg_inv (r\<lparr>r_workers := r_workers (fst (Heartbeat now wid regID hb r))\<rparr>)"
  proof (cases "Heartbeat_Validate hb = None \<and> (\<exists>e. beat_accepted wid regID hb r e)")
    case True
    then obtain e where e: "mget (r_workers r) wid = Some e" "CanTransition (e_state e) (hb_State hb)"
        "e_drained e \<longrightarrow> hb_State hb = StateDraining \<or> hb_State hb = StateFailed"
      by (auto simp: beat_accepted_def)
    have "reg_inv (r\<lparr>r_workers := mput wid (beat_entry (r_cfg r) now hb e) (r_workers r)\<rparr>)"
      by (intro mput_inv assms entry_ok_beat e reg_invD(5)[OF assms]) (use e(1) reg_invD(3)[OF assms] in auto)
    then show ?thesis using True e(1) by (simp add: Heartbeat_workers)
  next
    case False
    then show ?thesis by (simp add: Heartbeat_workers assms if_not_P del: not_ex de_Morgan_conj)
  qed
  then show ?thesis
    by (simp add: reg_inv_def)
qed

lemma Deregister_inv:
  assumes "reg_inv r"
  shows "reg_inv (fst (Deregister wid regID r))"
proof -
  have "reg_inv (r\<lparr>r_workers := mdel wid (r_workers r)\<rparr>)"
    using reg_invD[OF assms] length_mdel_le[of wid "r_workers r"]
    by (intro reg_invI) (auto simp: mdel_mem)
  then show ?thesis
    using assms by (auto simp: Deregister_def split: option.splits)
qed

lemma Sweep_fst: "fst (Sweep now r) =
  fst (evictLocked (r\<lparr>r_workers := map (\<lambda>(k, e). (k, e\<lparr>e_observed := effective (r_cfg r) e now\<rparr>)) (r_workers r)\<rparr>) now)"
  by (simp add: Sweep_def sweep_observe_def Let_def case_prod_beta)

lemma Sweep_inv:
  assumes "reg_inv r"
  shows "reg_inv (fst (Sweep now r))"
  unfolding Sweep_fst
  by (intro evictLocked_inv reg_invI) (use reg_invD[OF assms] in auto)

lemma apply_op_inv: "reg_inv r \<Longrightarrow> reg_inv (apply_op net op r)"
  by (cases op) (auto intro: Register_inv Heartbeat_inv Deregister_inv Sweep_inv)

lemma NewWithClock_inv: "NewWithClock c = Inr r \<Longrightarrow> reg_inv r"
  by (auto simp: NewWithClock_def reg_inv_def Config_Validate_def split: option.splits if_splits)

lemma reachable_inv: "reg_reachable net r \<Longrightarrow> reg_inv r"
  by (induction rule: reg_reachable.induct) (auto intro: NewWithClock_inv apply_op_inv)


section \<open>A concrete registry\<close>

text \<open>Two workers of one model, one ready and one draining; the witnesses evaluate on it.\<close>

definition ex_cfg :: reg_config where
  "ex_cfg = \<lparr>Suspect = 5, Unhealthy = 10, Lost = 20, Retention = 60, MaxWorkers = 2, HeartbeatInterval = 2,
     SuspectEligible = False\<rparr>"

definition ex_info :: "string \<Rightarrow> worker_info" where
  "ex_info w = \<lparr>wi_WorkerID = w, wi_Model = ''llama'', wi_Address = ''http://h'', wi_MaxConcurrency = 4, wi_QueueSize = 0\<rparr>"

definition ex_url :: url where
  "ex_url = \<lparr>url_Scheme = ''http'', url_Host = ''h'', url_hasUser = False, url_RawQuery = [], url_ForceQuery = False,
     url_Fragment = [], url_Hostname = ''h'', url_Port = [], url_Path = []\<rparr>"

definition ex_net :: netenv where
  "ex_net = \<lparr>url_Parse = (\<lambda>s. if s = ''http://h'' then Some ex_url else None), ParseAddr = (\<lambda>_. None)\<rparr>"

definition ex_hb :: "worker_state \<Rightarrow> heartbeat" where
  "ex_hb s = \<lparr>hb_RegistrationID = ''reg_a'', hb_State = s, hb_Metrics = metrics_zero, hb_Reason = []\<rparr>"

definition ex_entry :: "string \<Rightarrow> string \<Rightarrow> worker_state \<Rightarrow> entry" where
  "ex_entry w g s = (new_entry 100 g (ex_info w))\<lparr>e_state := s, e_observed := s, e_drained := (s = StateDraining)\<rparr>"

definition ex_reg :: registry where
  "ex_reg = \<lparr>r_cfg = ex_cfg,
     r_workers = [(''w1'', ex_entry ''w1'' ''reg_a'' StateReady), (''w2'', ex_entry ''w2'' ''reg_b'' StateDraining)],
     r_registrations = 2, r_heartbeats = (\<lambda>_. 0)\<rparr>"

lemma ex_reg_inv: "reg_inv ex_reg"
  by (simp add: reg_inv_def ex_reg_def ex_cfg_def Config_Validate_def mok_def entry_ok_def ex_entry_def
      new_entry_def ex_info_def)

lemmas ex_reg_defs = ex_reg_def ex_cfg_def ex_entry_def new_entry_def ex_info_def ex_hb_def

section \<open>Health and eligibility\<close>

lemma healthAt_mono: "Config_Validate c = None \<Longrightarrow> a \<le> b \<Longrightarrow> healthAt c a \<le> healthAt c b"
  using Config_Validate_None[of c] by (auto simp: healthAt_def less_eq_health_def)

lemma age_nonneg: "0 \<le> age e now"
  by (simp add: age_def Let_def)

lemma age_mono: "now \<le> now' \<Longrightarrow> age e now \<le> age e now'"
  by (simp add: age_def Let_def)

definition reg_routable :: "reg_config \<Rightarrow> time \<Rightarrow> entry \<Rightarrow> bool" where
  \<comment> \<open>what the contract of \<^verbatim>\<open>Eligible\<close> says: READY and heard from recently enough\<close>
  "reg_routable c now e \<longleftrightarrow> e_state e = StateReady
     \<and> (age e now < Suspect c \<or> (SuspectEligible c \<and> age e now \<le> Unhealthy c))"

lemma snapshot_simps [simp]:
  "WorkerID (snapshot c e now) = wi_WorkerID (e_info e)" "Model (snapshot c e now) = wi_Model (e_info e)"
  "WState (snapshot c e now) = effective c e now" "WHealth (snapshot c e now) = healthAt c (age e now)"
  "WMetrics (snapshot c e now) = e_metrics e" "MaxConcurrency (snapshot c e now) = wi_MaxConcurrency (e_info e)"
  "LastHeartbeat (snapshot c e now) = e_lastBeat e" "RegisteredAt (snapshot c e now) = e_registeredAt e"
  by (simp_all add: snapshot_def Let_def)

lemma Eligible_snapshot:
  assumes "Config_Validate c = None"
  shows "Eligible (snapshot c e now) \<longleftrightarrow> reg_routable c now e"
  using Config_Validate_None[OF assms]
  by (auto simp: snapshot_def Let_def reg_routable_def effective_def healthAt_def)

lemma snapshot_observed [simp]: "snapshot c (e\<lparr>e_observed := x\<rparr>) now = snapshot c e now"
  by (simp add: snapshot_def effective_def age_def Let_def cong: health.case_cong)

lemma set_List: "set (List r now f) = {s. \<exists>k e. (k, e) \<in> set (r_workers r) \<and> s = snapshot (r_cfg r) e now \<and> filter_match f s}"
  by (auto simp: List_def)

lemma List_sorted_distinct:
  assumes "reg_inv r"
  shows "sorted_wrt (<) (map WorkerID (List r now f))"
proof -
  let ?xs = "filter (filter_match f) (map (\<lambda>(_, e). snapshot (r_cfg r) e now) (r_workers r))"
  have "map WorkerID (map (\<lambda>(_, e). snapshot (r_cfg r) e now) (r_workers r)) = map fst (r_workers r)"
    using reg_invD(4)[OF assms] by (auto simp: entry_ok_def)
  then have "distinct (map WorkerID (map (\<lambda>(_, e). snapshot (r_cfg r) e now) (r_workers r)))"
    using reg_invD(2)[OF assms] by (simp only: mok_def)
  then have "distinct (map WorkerID ?xs)" by (rule distinct_map_filter)
  then have "distinct (map WorkerID (List r now f))"
    unfolding List_def by (simp add: distinct_map)
  moreover have "sorted (map WorkerID (List r now f))"
    by (simp add: List_def)
  ultimately show ?thesis by (simp add: strict_sorted_iff)
qed

text \<open>Health never improves as a worker's silence grows, and it is decided by the age of the
  last heartbeat alone: with valid thresholds, a longer silence gives a worse or equal health.\<close>

theorem health_worsens_with_silence:
  assumes "Config_Validate c = None" "now \<le> now'"
  shows "healthAt c (age e now) \<le> healthAt c (age e now')"
  using assms by (intro healthAt_mono age_mono)

theorem health_worsens_with_silence_witness:
  "healthAt ex_cfg (age (ex_entry ''w1'' ''reg_a'' StateReady) 103)
     \<le> healthAt ex_cfg (age (ex_entry ''w1'' ''reg_a'' StateReady) 112)"
  by (rule health_worsens_with_silence) (simp_all add: Config_Validate_def ex_cfg_def)

text \<open>\<^verbatim>\<open>Eligible(model)\<close> returns exactly the snapshots of the workers that serve the model, last
  reported READY and were heard from less than the suspect threshold ago (or, when suspect workers are
  allowed, no longer ago than the unhealthy threshold); it lists them in strictly increasing worker-ID order,
  so each at most once.\<close>

theorem eligible_exactly:
  assumes "reg_inv r" "model \<noteq> []"
  shows "set (Eligible_for r now model) =
      {s. \<exists>k e. mget (r_workers r) k = Some e \<and> s = snapshot (r_cfg r) e now
          \<and> wi_Model (e_info e) = model \<and> reg_routable (r_cfg r) now e}
    \<and> sorted_wrt (<) (map WorkerID (Eligible_for r now model))"
proof (intro conjI set_eqI)
  have mem: "(k, e) \<in> set (r_workers r) \<longleftrightarrow> mget (r_workers r) k = Some e" for k e
    using reg_invD(2)[OF assms(1)] by (simp add: mget_iff_mem)
  have match: "filter_match \<lparr>f_Model = model, f_State = None, f_EligibleOnly = True\<rparr> (snapshot (r_cfg r) e now)
      \<longleftrightarrow> wi_Model (e_info e) = model \<and> reg_routable (r_cfg r) now e" for e
    using assms reg_invD(1)[OF assms(1)] by (auto simp: filter_match_def Eligible_snapshot)
  show "s \<in> set (Eligible_for r now model) \<longleftrightarrow> s \<in> {s. \<exists>k e. mget (r_workers r) k = Some e
      \<and> s = snapshot (r_cfg r) e now \<and> wi_Model (e_info e) = model \<and> reg_routable (r_cfg r) now e}" for s
    unfolding Eligible_for_def set_List mem mem_Collect_eq using match by blast
  show "sorted_wrt (<) (map WorkerID (Eligible_for r now model))"
    unfolding Eligible_for_def by (rule List_sorted_distinct) (rule assms)
qed

theorem eligible_exactly_witness:
  "set (Eligible_for ex_reg 103 ''llama'') =
      {s. \<exists>k e. mget (r_workers ex_reg) k = Some e \<and> s = snapshot (r_cfg ex_reg) e 103
          \<and> wi_Model (e_info e) = ''llama'' \<and> reg_routable (r_cfg ex_reg) 103 e}
    \<and> sorted_wrt (<) (map WorkerID (Eligible_for ex_reg 103 ''llama''))"
  by (rule eligible_exactly) (simp_all add: ex_reg_inv)

section \<open>Heartbeats\<close>

text \<open>A heartbeat that is refused (invalid, unknown worker, stale registration or illegal
  transition) changes no worker; one that is accepted replaces the worker's state, metrics and reason,
  makes its age zero, and leaves every other worker untouched.\<close>

theorem heartbeat_effect:
  assumes "Heartbeat now wid regID hb r = (r', logs, err)"
  shows "(case err of
      Some _ \<Rightarrow> r_workers r' = r_workers r
    | None \<Rightarrow> \<exists>e e'. mget (r_workers r) wid = Some e \<and> e_regID e = regID
          \<and> mget (r_workers r') wid = Some e' \<and> e_state e' = hb_State hb \<and> e_metrics e' = hb_Metrics hb
          \<and> e_reason e' = hb_Reason hb \<and> age e' now = 0 \<and> e_regID e' = regID \<and> e_info e' = e_info e)
    \<and> (\<forall>k. k \<noteq> wid \<longrightarrow> mget (r_workers r') k = mget (r_workers r) k)"
proof -
  have r': "r' = fst (Heartbeat now wid regID hb r)" and err: "err = snd (snd (Heartbeat now wid regID hb r))"
    using assms by simp_all
  have other: "\<forall>k. k \<noteq> wid \<longrightarrow> mget (r_workers r') k = mget (r_workers r) k"
    by (simp add: r' Heartbeat_workers gomap_simps)
  show ?thesis
  proof (cases "Heartbeat_Validate hb = None \<and> (\<exists>e. beat_accepted wid regID hb r e)")
    case True
    then obtain e where e: "beat_accepted wid regID hb r e" by blast
    have none: "err = None"
      using heartbeat_locked_accept[OF e, of now] True by (auto simp: err Heartbeat_def Let_def)
    have "mget (r_workers r) wid = Some e" "e_regID e = regID" using e by (simp_all add: beat_accepted_def)
    moreover have "r_workers r' = mput wid (beat_entry (r_cfg r) now hb e) (r_workers r)"
      using True calculation(1) by (simp add: r' Heartbeat_workers)
    ultimately show ?thesis
      using none other by (auto simp: gomap_simps beat_entry_def Let_def age_def)
  next
    case False
    then have "err \<noteq> None"
      using heartbeat_locked_reject[of wid regID hb r now]
      by (auto simp: err Heartbeat_def Let_def split: option.splits)
    moreover have "r_workers r' = r_workers r"
      using False by (simp add: r' Heartbeat_workers if_not_P del: not_ex de_Morgan_conj)
    ultimately show ?thesis by auto
  qed
qed

theorem heartbeat_effect_witness:
  "\<exists>r' logs. Heartbeat 104 ''w1'' ''reg_a'' (ex_hb StateDraining) ex_reg = (r', logs, None)
    \<and> (\<exists>e'. mget (r_workers r') ''w1'' = Some e' \<and> e_state e' = StateDraining \<and> age e' 104 = 0)"
proof -
  obtain r' logs err where h: "Heartbeat 104 ''w1'' ''reg_a'' (ex_hb StateDraining) ex_reg = (r', logs, err)"
    by (cases "Heartbeat 104 ''w1'' ''reg_a'' (ex_hb StateDraining) ex_reg") auto
  have "Heartbeat_Validate (ex_hb StateDraining) = None"
    by (simp add: ex_hb_def Heartbeat_Validate_def proto_limits cleanText_def Metrics_Validate_def metrics_zero_def
        counter_ok_def finite64_def is_nan_def is_inf_def)
  moreover have "beat_accepted ''w1'' ''reg_a'' (ex_hb StateDraining) ex_reg (ex_entry ''w1'' ''reg_a'' StateReady)"
    by (simp add: beat_accepted_def ex_reg_defs CanTransition_def)
  ultimately have "err = None"
    using h heartbeat_locked_accept[of "''w1''" "''reg_a''" "ex_hb StateDraining" ex_reg _ 104]
    by (fastforce simp: Heartbeat_def Let_def)
  moreover have "hb_State (ex_hb StateDraining) = StateDraining" by (simp add: ex_hb_def)
  ultimately show ?thesis
    using heartbeat_effect[OF h] h by auto
qed

section \<open>Draining is one-way\<close>

definition other_registration :: "string \<Rightarrow> reg_op \<Rightarrow> bool" where
  \<comment> \<open>a registration never reuses the ID \<open>g\<close> (IDs are 128 random bits)\<close>
  "other_registration g op = (case op of OpRegister _ newID _ \<Rightarrow> newID \<noteq> g | _ \<Rightarrow> True)"

definition drained_incarnation :: "string \<Rightarrow> string \<Rightarrow> registry \<Rightarrow> bool" where
  "drained_incarnation wid g r \<longleftrightarrow> (\<forall>e. mget (r_workers r) wid = Some e \<longrightarrow> e_regID e = g \<longrightarrow> e_drained e)"

lemma mget_filter:
  assumes "mok m"
  shows "mget (filter (\<lambda>(k, v). P k v) m) k = (case mget m k of Some v \<Rightarrow> if P k v then Some v else None | None \<Rightarrow> None)"
  using assms
proof (induction m)
  case (Cons p m)
  obtain a b where p: "p = (a, b)" by force
  from Cons.prems have "mget m a = None" "mok m" by (auto simp: p mok_Cons)
  with Cons.IH show ?case
    by (cases "k = a") (auto simp: p split: option.splits)
qed simp

lemma mget_map_values: "mget (map (\<lambda>(k, v). (k, f v)) m) k = map_option f (mget m k)"
  by (induction m) auto

lemma evictLocked_mget:
  assumes "reg_inv r"
  shows "mget (r_workers (fst (evictLocked r now))) k =
    (case mget (r_workers r) k of Some e \<Rightarrow> if expired (r_cfg r) now e then None else Some e | None \<Rightarrow> None)"
  using mget_filter[OF reg_invD(2)[OF assms], of "\<lambda>_ e. \<not> expired (r_cfg r) now e"]
  by (auto simp: evictLocked_def split: option.splits)

lemma Register_workers:
  obtains "r_workers (fst (Register net now newID info r)) = r_workers r"
  | "r_workers (fst (Register net now newID info r)) = r_workers (fst (evictLocked r now))"
  | ws where "ws = r_workers r \<or> ws = r_workers (fst (evictLocked r now))"
      "r_workers (fst (Register net now newID info r)) = mput (wi_WorkerID info) (new_entry now newID info) ws"
proof (cases "WorkerInfo_Validate net info")
  case (Some a)
  then show ?thesis using that(1) by (simp add: Register_def)
next
  case None
  show ?thesis
    by (cases rule: register_locked_cases[of r info now newID])
      (use None that in \<open>auto simp: Register_def Let_def\<close>)
qed

lemma Sweep_mget:
  assumes "reg_inv r"
  shows "mget (r_workers (fst (Sweep now r))) k =
    (case mget (r_workers r) k of Some e \<Rightarrow> if expired (r_cfg r) now e then None
       else Some (e\<lparr>e_observed := effective (r_cfg r) e now\<rparr>) | None \<Rightarrow> None)"
proof -
  let ?r = "r\<lparr>r_workers := map (\<lambda>(k, e). (k, e\<lparr>e_observed := effective (r_cfg r) e now\<rparr>)) (r_workers r)\<rparr>"
  have "reg_inv ?r" using reg_invD[OF assms] by (intro reg_invI) auto
  moreover have "expired (r_cfg r) now (e\<lparr>e_observed := x\<rparr>) = expired (r_cfg r) now e" for e x
    by (simp add: expired_def age_def)
  ultimately show ?thesis
    by (auto simp: Sweep_fst evictLocked_mget mget_map_values split: option.splits)
qed

lemma drained_step:
  assumes "reg_inv r" "drained_incarnation wid g r" "other_registration g op"
  shows "drained_incarnation wid g (apply_op net op r)"
proof (cases op)
  case (OpRegister now newID info)
  with assms(3) have "newID \<noteq> g" by (simp add: other_registration_def)
  then have new: "e_regID (new_entry now newID info) \<noteq> g" by (simp add: new_entry_def)
  have ev: "drained_incarnation wid g (r\<lparr>r_workers := r_workers (fst (evictLocked r now))\<rparr>)"
    using assms(1,2) by (auto simp: drained_incarnation_def evictLocked_mget split: option.splits)
  show ?thesis
    by (rule Register_workers[of net now newID info r])
      (use assms(2) ev new OpRegister in \<open>auto simp: drained_incarnation_def gomap_simps\<close>)
next
  case (OpHeartbeat now w regID hb)
  then show ?thesis
    using assms(2) by (auto simp: drained_incarnation_def Heartbeat_workers gomap_simps beat_entry_def Let_def beat_accepted_def)
next
  case (OpDeregister w regID)
  then show ?thesis
    using assms(2) by (auto simp: drained_incarnation_def Deregister_def gomap_simps split: option.splits)
next
  case (OpSweep now)
  then show ?thesis
    using assms(1,2) by (auto simp: drained_incarnation_def Sweep_mget split: option.splits)
qed

lemma drained_run:
  assumes "reg_inv r" "drained_incarnation wid g r" "list_all (other_registration g) ops"
  shows "reg_inv (fold (apply_op net) ops r) \<and> drained_incarnation wid g (fold (apply_op net) ops r)"
  using assms
proof (induction ops arbitrary: r)
  case (Cons op ops)
  then show ?case using apply_op_inv drained_step by simp
qed simp

lemma heartbeat_accepted:
  assumes "Heartbeat t wid g hb r = (r1, logs, None)"
  obtains e where "Heartbeat_Validate hb = None" "beat_accepted wid g hb r e"
proof -
  have v: "Heartbeat_Validate hb = None" using assms by (auto simp: Heartbeat_def split: option.splits)
  have "\<exists>e. beat_accepted wid g hb r e"
  proof (rule ccontr)
    assume "\<nexists>e. beat_accepted wid g hb r e"
    from heartbeat_locked_reject[OF this, of t] show False using assms v by (auto simp: Heartbeat_def Let_def)
  qed
  with v show ?thesis using that by blast
qed

lemma drain_reported:
  assumes "Heartbeat t wid g hb r = (r1, logs, None)" "hb_State hb = StateDraining"
  shows "drained_incarnation wid g r1"
proof -
  obtain e where "Heartbeat_Validate hb = None" "beat_accepted wid g hb r e" by (rule heartbeat_accepted[OF assms(1)])
  moreover have "r1 = fst (Heartbeat t wid g hb r)" by (simp add: assms(1))
  ultimately show ?thesis using assms(2)
    by (auto simp: drained_incarnation_def Heartbeat_workers gomap_simps beat_entry_def Let_def)
qed

lemma drained_not_eligible:
  assumes "reg_inv r" "drained_incarnation wid g r" "mget (r_workers r) wid = Some e" "e_regID e = g"
  shows "\<not> Eligible (snapshot (r_cfg r) e now)"
proof -
  have "e_drained e" using assms(2-4) by (simp add: drained_incarnation_def)
  then have "e_state e \<noteq> StateReady" using reg_invD(5)[OF assms(1,3)] by (auto simp: entry_ok_def)
  then show ?thesis using reg_invD(1)[OF assms(1)] by (simp add: Eligible_snapshot reg_routable_def)
qed

text \<open>C3: a drain is one-way for the whole incarnation. Once a heartbeat that reports DRAINING has been accepted, then whatever heartbeats (including through FAILED), registrations
  with other IDs, deregistrations and sweeps follow, that registration is not eligible at any time, the routing query returns no worker of that name unless it has registered anew, and
  the only heartbeats accepted from it report DRAINING or FAILED.\<close>

theorem drained_never_eligible:
  assumes "reg_reachable net r" and "Heartbeat t wid g hb r = (r1, logs, None)" "hb_State hb = StateDraining"
    and "list_all (other_registration g) ops" and "r' = fold (apply_op net) ops r1"
  shows "(\<forall>e. mget (r_workers r') wid = Some e \<longrightarrow> e_regID e = g \<longrightarrow> \<not> Eligible (snapshot (r_cfg r') e now))
    \<and> (\<forall>w \<in> set (Eligible_for r' now model). WorkerID w = wid \<longrightarrow> (\<exists>e. mget (r_workers r') wid = Some e \<and> e_regID e \<noteq> g))
    \<and> (\<forall>t' hb'. snd (snd (Heartbeat t' wid g hb' r')) = None \<longrightarrow> hb_State hb' \<in> {StateDraining, StateFailed})"
proof (intro conjI allI impI ballI)
  have "r1 = apply_op net (OpHeartbeat t wid g hb) r" by (simp add: assms(2))
  then have "reg_inv r1" using reachable_inv[OF reg_reachable.step[OF assms(1)]] by metis
  then have inv: "reg_inv r'" and dr: "drained_incarnation wid g r'"
    using drained_run[OF _ drain_reported[OF assms(2,3)] assms(4)] assms(5) by auto
  show "\<not> Eligible (snapshot (r_cfg r') e now)" if "mget (r_workers r') wid = Some e" "e_regID e = g" for e
    by (rule drained_not_eligible[OF inv dr that])
  show "\<exists>e. mget (r_workers r') wid = Some e \<and> e_regID e \<noteq> g" if w: "w \<in> set (Eligible_for r' now model)" "WorkerID w = wid" for w
  proof -
    obtain k e where e: "(k, e) \<in> set (r_workers r')" "w = snapshot (r_cfg r') e now" "Eligible w"
      using w(1) by (auto simp: Eligible_for_def List_def filter_match_def)
    have "k = wid" using reg_invD(4)[OF inv e(1)] w(2) e(2) by (simp add: entry_ok_def snapshot_def Let_def)
    then have "mget (r_workers r') wid = Some e" using e(1) reg_invD(2)[OF inv] by (simp add: mget_iff_mem)
    then show ?thesis using drained_not_eligible[OF inv dr] e(2,3) by blast
  qed
  show "hb_State hb' \<in> {StateDraining, StateFailed}" if h: "snd (snd (Heartbeat t' wid g hb' r')) = None" for t' hb'
  proof -
    obtain x lg where "Heartbeat t' wid g hb' r' = (x, lg, None)" using h by (cases "Heartbeat t' wid g hb' r'") auto
    then obtain e where "beat_accepted wid g hb' r' e" by (rule heartbeat_accepted)
    then show ?thesis using dr by (auto simp: beat_accepted_def drained_incarnation_def)
  qed
qed

lemma ex_info_valid: "WorkerInfo_Validate ex_net (ex_info ''w1'') = None"
  by (simp add: WorkerInfo_Validate_def ex_info_def ex_net_def ex_url_def ValidWorkerID_def is_alnum_def is_lower_def
      is_upper_def is_digit_def validModel_def proto_limits cleanText_def byte_def is_control_def is_Cf_def
      is_space_def in_ranges_def ValidateAddress_def validateHost_def host_label_ok_def numeric_label_def Let_def
      less_eq_char_def)

lemma ex_hb_valid: "Heartbeat_Validate (ex_hb s) = None" if "Reportable s"
  using that by (simp add: ex_hb_def Heartbeat_Validate_def proto_limits cleanText_def Metrics_Validate_def metrics_zero_def counter_ok_def finite64_def is_nan_def is_inf_def)

lemma ex_drain:
  obtains r logs r1 where "reg_reachable ex_net r" "Heartbeat 101 ''w1'' ''reg_a'' (ex_hb StateDraining) r = (r1, logs, None)" "mget (r_workers r) ''w1'' \<noteq> None"
proof -
  define r0 where "r0 = \<lparr>r_cfg = ex_cfg, r_workers = [], r_registrations = 0, r_heartbeats = (\<lambda>_. 0)\<rparr>"
  define r where "r = apply_op ex_net (OpRegister 100 ''reg_a'' (ex_info ''w1'')) r0"
  have "NewWithClock ex_cfg = Inr r0" by (simp add: NewWithClock_def r0_def ex_cfg_def Config_Validate_def)
  then have 1: "reg_reachable ex_net r" unfolding r_def by (intro reg_reachable.intros)
  have w: "r_workers r = [(''w1'', new_entry 100 ''reg_a'' (ex_info ''w1''))]"
    by (simp add: r_def r0_def Register_def ex_info_valid register_locked_def Let_def ex_cfg_def new_entry_def)
      (simp add: ex_info_def)
  then have "beat_accepted ''w1'' ''reg_a'' (ex_hb StateDraining) r (new_entry 100 ''reg_a'' (ex_info ''w1''))"
    by (simp add: beat_accepted_def new_entry_def CanTransition_def ex_hb_def)
  from heartbeat_locked_accept[OF this, of 101]
  obtain logs r1 where "Heartbeat 101 ''w1'' ''reg_a'' (ex_hb StateDraining) r = (r1, logs, None)"
    by (auto simp: Heartbeat_def ex_hb_valid Let_def)
  then show ?thesis using that[OF 1] w by simp
qed

theorem drained_never_eligible_witness:
  "\<exists>r logs r1 r'. Heartbeat 101 ''w1'' ''reg_a'' (ex_hb StateDraining) r = (r1, logs, None)
    \<and> r' = fold (apply_op ex_net) [OpHeartbeat 102 ''w1'' ''reg_a'' (ex_hb StateFailed), OpHeartbeat 103 ''w1'' ''reg_a'' (ex_hb StateReady), OpSweep 104] r1
    \<and> snd (snd (Heartbeat 105 ''w1'' ''reg_a'' (ex_hb StateReady) r')) \<noteq> None"
proof -
  obtain r logs r1 where r: "reg_reachable ex_net r" "Heartbeat 101 ''w1'' ''reg_a'' (ex_hb StateDraining) r = (r1, logs, None)" by (rule ex_drain)
  define ops where "ops = [OpHeartbeat 102 ''w1'' ''reg_a'' (ex_hb StateFailed), OpHeartbeat 103 ''w1'' ''reg_a'' (ex_hb StateReady), OpSweep 104]"
  have d: "hb_State (ex_hb s) = s" for s by (simp add: ex_hb_def)
  have "list_all (other_registration ''reg_a'') ops" by (simp add: ops_def other_registration_def)
  from conjunct2[OF conjunct2[OF drained_never_eligible[OF r d this refl, of 105 "[]"]]]
  have "snd (snd (Heartbeat 105 ''w1'' ''reg_a'' (ex_hb StateReady) (fold (apply_op ex_net) ops r1))) \<noteq> None"
    using d[of StateReady] by (metis insertE singletonD worker_state.distinct)
  with r(2) show ?thesis unfolding ops_def by blast
qed

section \<open>Registration\<close>

lemma Register_result:
  assumes "WorkerInfo_Validate net info = None"
  shows "snd (snd (Register net now newID info r)) = Inl ErrFull \<longleftrightarrow>
     mget (r_workers r) (wi_WorkerID info) = None
     \<and> MaxWorkers (r_cfg r) \<le> int (length (r_workers (fst (evictLocked r now))))"
    (is "?L \<longleftrightarrow> ?R")
proof -
  have le: "length (r_workers (fst (evictLocked r now))) \<le> length (r_workers r)"
    by (simp add: evictLocked_def)
  show ?thesis
  proof (cases rule: register_locked_cases[of r info now newID])
    case full
    then show ?thesis using assms by (simp add: Register_def Let_def)
  next
    case (evicted r1 lg)
    then show ?thesis using assms by (simp add: Register_def Let_def)
  next
    case (room lg)
    then show ?thesis using assms le by (auto simp: Register_def Let_def)
  qed
qed

text \<open>C20: a valid registration of a new worker is refused with \<^verbatim>\<open>ErrFull\<close> exactly when, after dropping the
  workers lost for longer than the retention period, the registry still holds its maximum; otherwise the
  worker is registered under the new ID, in state REGISTERING with age zero, and any previous
  incarnation is gone: its registration ID no longer works for heartbeats or deregistration.\<close>

theorem register_supersedes:
  assumes "reg_inv r" "WorkerInfo_Validate net info = None"
    and "Register net now newID info r = (r', logs, res)"
  shows "(res = Inl ErrFull \<longleftrightarrow> mget (r_workers r) (wi_WorkerID info) = None
            \<and> MaxWorkers (r_cfg r) \<le> int (count_if (\<lambda>(_, e). \<not> expired (r_cfg r) now e) (r_workers r)))
    \<and> (res \<noteq> Inl ErrFull \<longrightarrow> res = Inr newID
        \<and> mget (r_workers r') (wi_WorkerID info) = Some (new_entry now newID info)
        \<and> (\<forall>g hb t. g \<noteq> newID \<longrightarrow> Heartbeat_Validate hb = None \<longrightarrow>
             snd (snd (Heartbeat t (wi_WorkerID info) g hb r')) = Some ErrStaleRegistration
           \<and> snd (snd (Deregister (wi_WorkerID info) g r')) = Some ErrStaleRegistration))"
proof (intro conjI impI)
  have res: "res = snd (snd (Register net now newID info r))" and r': "r' = fst (Register net now newID info r)"
    using assms(3) by simp_all
  show "res = Inl ErrFull \<longleftrightarrow> mget (r_workers r) (wi_WorkerID info) = None
            \<and> MaxWorkers (r_cfg r) \<le> int (count_if (\<lambda>(_, e). \<not> expired (r_cfg r) now e) (r_workers r))"
    unfolding res Register_result[OF assms(2)] by (simp add: count_if_def evictLocked_def)
  assume nf: "res \<noteq> Inl ErrFull"
  have ok: "res = Inr newID \<and> mget (r_workers r') (wi_WorkerID info) = Some (new_entry now newID info)"
    by (cases rule: register_locked_cases[of r info now newID])
      (use nf assms(2) in \<open>auto simp: res r' Register_def Let_def gomap_simps\<close>)
  then show "res = Inr newID" "mget (r_workers r') (wi_WorkerID info) = Some (new_entry now newID info)"
    by simp_all
  show "\<forall>g hb t. g \<noteq> newID \<longrightarrow> Heartbeat_Validate hb = None \<longrightarrow>
             snd (snd (Heartbeat t (wi_WorkerID info) g hb r')) = Some ErrStaleRegistration
           \<and> snd (snd (Deregister (wi_WorkerID info) g r')) = Some ErrStaleRegistration"
    using ok by (auto simp: Heartbeat_def heartbeat_locked_def Deregister_def Let_def new_entry_def)
qed

theorem register_supersedes_witness:
  "snd (snd (Register ex_net 200 ''reg_c'' (ex_info ''w1'') ex_reg)) = Inr ''reg_c''"
proof -
  obtain r' logs res where R: "Register ex_net 200 ''reg_c'' (ex_info ''w1'') ex_reg = (r', logs, res)"
    by (cases "Register ex_net 200 ''reg_c'' (ex_info ''w1'') ex_reg") auto
  have "mget (r_workers ex_reg) (wi_WorkerID (ex_info ''w1'')) \<noteq> None"
    by (simp add: ex_reg_def ex_info_def)
  then have "res = Inr ''reg_c''"
    using register_supersedes[OF ex_reg_inv ex_info_valid R] by auto
  then show ?thesis by (simp add: R)
qed

section \<open>Sweeping\<close>

lemma Get_after_sweep:
  assumes "reg_inv r"
  shows "Get (fst (Sweep now r)) t k =
    (case mget (r_workers r) k of Some e \<Rightarrow> if expired (r_cfg r) now e then None else Get r t k | None \<Rightarrow> None)"
proof -
  have "r_cfg (fst (Sweep now r)) = r_cfg r" by (simp add: Sweep_fst)
  then show ?thesis
    by (auto simp: Get_def Sweep_mget[OF assms] split: option.splits)
qed

text \<open>A sweep logs each change of a worker's effective state once and evicts exactly the workers
  lost for longer than the retention period. A second sweep at the same time logs and evicts
  nothing, and reads do not depend on sweeping: every worker that is kept reads the same at any time.\<close>

theorem sweep_once:
  assumes "reg_inv r" "Sweep now r = (r', logs, n)"
  shows "n = count_if (\<lambda>(_, e). expired (r_cfg r) now e) (r_workers r)
    \<and> (\<exists>r''. Sweep now r' = (r'', [], 0) \<and> r_workers r'' = r_workers r')
    \<and> (\<forall>k e t. mget (r_workers r) k = Some e \<longrightarrow>
          Get r' t k = (if expired (r_cfg r) now e then None else Get r t k))"
proof (intro conjI)
  let ?f = "\<lambda>e. e\<lparr>e_observed := effective (r_cfg r) e now\<rparr>"
  have exp: "expired (r_cfg r) now (?f e) = expired (r_cfg r) now e" for e
    by (simp add: expired_def age_def)
  have r': "r' = fst (Sweep now r)" and n: "n = snd (snd (Sweep now r))" using assms(2) by simp_all
  show "n = count_if (\<lambda>(_, e). expired (r_cfg r) now e) (r_workers r)"
    by (simp add: n Sweep_def sweep_observe_def evictLocked_def Let_def count_if_def filter_map o_def case_prod_unfold exp)
  have ws: "r_workers r' = filter (\<lambda>(_, e). \<not> expired (r_cfg r) now e) (map (\<lambda>(k, e). (k, ?f e)) (r_workers r))"
    and cfg: "r_cfg r' = r_cfg r"
    by (simp_all add: r' Sweep_fst evictLocked_def)
  have kept: "\<not> expired (r_cfg r) now e \<and> effective (r_cfg r) e now = e_observed e" if "(k, e) \<in> set (r_workers r')" for k e
  proof -
    from that obtain e0 where "e = ?f e0" "\<not> expired (r_cfg r) now e" by (auto simp: ws)
    then show ?thesis by (simp add: effective_def age_def cong: health.case_cong)
  qed
  have same: "map (\<lambda>(k, e). (k, fst (observeLocked (r_cfg r') k e now))) (r_workers r') = r_workers r'"
    by (rule map_idI) (auto simp: cfg dest: kept)
  have nolog: "List.map_filter (\<lambda>(k, e). snd (observeLocked (r_cfg r') k e now)) (r_workers r') = []"
    using kept by (fastforce simp: List.map_filter_def filter_empty_conv observeLocked_def cfg)
  have so: "sweep_observe (r_cfg r') now (r_workers r') = (r_workers r', [])"
    unfolding sweep_observe_def same nolog by simp
  have ev: "filter (\<lambda>(_, e). expired (r_cfg r') now e) (r_workers r') = []"
    "filter (\<lambda>(_, e). \<not> expired (r_cfg r') now e) (r_workers r') = r_workers r'"
    using kept by (auto simp: filter_empty_conv cfg intro!: filter_True)
  show "\<exists>r''. Sweep now r' = (r'', [], 0) \<and> r_workers r'' = r_workers r'"
    unfolding Sweep_def so Let_def prod.case by (simp add: evictLocked_def ev)
  show "\<forall>k e t. mget (r_workers r) k = Some e \<longrightarrow>
          Get r' t k = (if expired (r_cfg r) now e then None else Get r t k)"
    by (simp add: r' Get_after_sweep[OF assms(1)])
qed

theorem sweep_once_witness:
  "snd (snd (Sweep 500 ex_reg)) = 2 \<and> snd (Sweep 500 (fst (Sweep 500 ex_reg))) = ([], 0)"
proof -
  obtain r' logs n where S: "Sweep 500 ex_reg = (r', logs, n)" by (cases "Sweep 500 ex_reg") auto
  have "count_if (\<lambda>(_, e). expired (r_cfg ex_reg) 500 e) (r_workers ex_reg) = 2"
    by (simp add: ex_reg_defs expired_def age_def)
  then show ?thesis
    using sweep_once[OF ex_reg_inv S] by (auto simp: S)
qed

end
