(* ===== verification/Cost.thy ===== *)
theory Cost
  imports Protocol "HOL-Library.Sublist"
begin

text \<open>
  \<^verbatim>\<open>internal/cost/estimate.go\<close>: the token cost estimate that rate limiting charges and the work cost
  the scheduler uses. Byte counts are \<^typ>\<open>nat\<close> (the lengths of strings in memory, far below
  \<open>2^64\<close>); the saturation at \<open>MaxCost\<close> is as in the code.
\<close>

definition charsPerToken :: nat where "charsPerToken = 3"
definition perMessageOverhead :: nat where "perMessageOverhead = 4"
definition replyPriming :: nat where "replyPriming = 3"
definition MaxCost :: nat where "MaxCost = 2 ^ 32"

lemmas cost_consts = charsPerToken_def perMessageOverhead_def replyPriming_def MaxCost_def

section \<open>Text\<close>

function text_scan :: "nat list \<Rightarrow> nat \<Rightarrow> nat \<Rightarrow> nat \<times> nat" where
  "text_scan bs ascii wide =
     (case bs of
        [] \<Rightarrow> (ascii, wide)
      | b # rest \<Rightarrow> if b < 0x80 then text_scan rest (ascii + 1) wide
                    else text_scan (drop (snd (decode_rune bs)) bs) ascii (wide + 1))"
  by pat_completeness auto
termination
proof (relation "measure (\<lambda>(bs, _, _). length bs)", goal_cases)
  case (3 bs ascii wide b rest)
  then have "1 \<le> snd (decode_rune bs)" by (intro decode_rune_width) simp
  with 3 show ?case by simp
qed auto

declare text_scan.simps [simp del]

definition textTokens :: "string \<Rightarrow> nat" where
  "textTokens s = (let (ascii, wide) = text_scan (map byte s) 0 0
                   in (ascii + charsPerToken - 1) div charsPerToken + wide)"

section \<open>The estimate\<close>

definition sat_add :: "nat \<Rightarrow> nat \<Rightarrow> nat" where
  \<comment> \<open>the closure \<^verbatim>\<open>add\<close>\<close>
  "sat_add tot n = (let s = tot + n in if s > MaxCost then MaxCost else s)"

definition add_message :: "nat \<times> nat \<Rightarrow> message \<Rightarrow> nat \<times> nat" where
  "add_message = (\<lambda>(tot, counted) m.
     (sat_add (sat_add (sat_add tot perMessageOverhead) (textTokens (Role m))) (textTokens (Content m)),
      counted + length (Role m) + length (Content m)))"

definition input_estimate :: "message list \<Rightarrow> string \<Rightarrow> int \<Rightarrow> nat" where
  "input_estimate msgs prompt bodyBytes =
     (let (t1, c1) = foldl add_message (0, 0) msgs;
          t2 = sat_add t1 (textTokens prompt);
          counted = c1 + length prompt;
          t3 = (if bodyBytes > 0 \<and> nat bodyBytes > counted
                then sat_add t2 ((nat bodyBytes - counted + charsPerToken - 1) div charsPerToken) else t2)
      in sat_add t3 replyPriming)"

definition Estimate :: "message list \<Rightarrow> string \<Rightarrow> int \<Rightarrow> int \<Rightarrow> int \<Rightarrow> nat \<times> nat" where
  "Estimate msgs prompt bodyBytes maxTokens limit =
     (let inp = input_estimate msgs prompt bodyBytes;
          out = (if maxTokens \<le> 0 then limit else maxTokens);
          ou = (if out > 0 then nat out else 0);
          room = MaxCost - inp;
          ou' = (if ou > room then room else ou);
          inp' = (if inp + ou' < 1 then 1 else inp)
      in (inp', ou'))"

definition EstimateRequestCost :: "message list \<Rightarrow> string \<Rightarrow> int \<Rightarrow> int \<Rightarrow> int \<Rightarrow> nat" where
  "EstimateRequestCost msgs prompt bodyBytes maxTokens limit =
     (let (i, ou) = Estimate msgs prompt bodyBytes maxTokens limit in i + ou)"

definition EstimateCost :: "message list \<Rightarrow> string \<Rightarrow> int \<Rightarrow> int \<Rightarrow> nat" where
  "EstimateCost msgs prompt maxTokens limit = EstimateRequestCost msgs prompt 0 maxTokens limit"

section \<open>Work\<close>

record weights =
  InputWeight :: float64
  OutputFraction :: float64

definition DefaultWeights :: weights where
  "DefaultWeights = \<lparr>InputWeight = Fin 1, OutputFraction = Fin 1\<rparr>"

definition maxWeight :: float64 where "maxWeight = Fin 10000"

definition sane :: "float64 \<Rightarrow> float64 \<Rightarrow> float64" where
  "sane v def = (if is_nan v \<or> is_inf v \<or> flt v (Fin 0) then def else fmin v maxWeight)"

definition Work :: "int \<Rightarrow> int \<Rightarrow> weights \<Rightarrow> int" where
  "Work estInput estOutput w =
     (let inp = float_of (max estInput 0); out = float_of (max estOutput 0);
          iw = sane (InputWeight w) (Fin 1); of' = sane (OutputFraction w) (Fin 1);
          tot = trunc_of (fceil (fmul iw inp)) + trunc_of (fceil (fmul of' out))
      in if tot < 1 \<and> (estInput > 0 \<or> estOutput > 0) then 1 else tot)"

section \<open>Lemmas\<close>

definition message_grows :: "message \<Rightarrow> message \<Rightarrow> bool" where
  "message_grows m m' \<longleftrightarrow> Role m' = Role m \<and> valid_utf8 (map byte (Content m)) \<and> prefix (Content m) (Content m')"

definition text_grows :: "message list \<Rightarrow> string \<Rightarrow> message list \<Rightarrow> string \<Rightarrow> bool" where
  \<comment> \<open>more text: messages extended in place, messages added at the end, a longer prompt\<close>
  "text_grows msgs prompt msgs' prompt' \<longleftrightarrow>
     list_all2 message_grows msgs (take (length msgs) msgs') \<and>
     valid_utf8 (map byte prompt) \<and> prefix prompt prompt'"

lemma sat_add_min: "sat_add t n = min (t + n) MaxCost"
  by (simp add: sat_add_def Let_def min_def)

lemma sat_add_le [simp]: "sat_add t n \<le> MaxCost"
  by (simp add: sat_add_min)

lemma sat_add_mono: "t \<le> t' \<Longrightarrow> n \<le> n' \<Longrightarrow> sat_add t n \<le> sat_add t' n'"
  by (simp add: sat_add_min min_le_iff_disj add_mono)

lemma sat_add_ge: "t \<le> MaxCost \<Longrightarrow> t \<le> sat_add t n"
  by (simp add: sat_add_min)

lemma text_scan_Nil [simp]: "text_scan [] a w = (a, w)"
  by (simp add: text_scan.simps)

lemma text_scan_ascii: "b < 0x80 \<Longrightarrow> text_scan (b # bs) a w = text_scan bs (a + 1) w"
  by (subst text_scan.simps) simp

lemma text_scan_wide:
  "\<not> b < 0x80 \<Longrightarrow> text_scan (b # bs) a w = text_scan (drop (snd (decode_rune (b # bs))) (b # bs)) a (w + 1)"
  by (subst text_scan.simps) simp

lemma text_scan_acc: "text_scan bs a w = (let (a', w') = text_scan bs 0 0 in (a + a', w + w'))"
proof (induction "length bs" arbitrary: bs a w rule: less_induct)
  case less
  show ?case
  proof (cases bs)
    case Nil
    then show ?thesis by (simp add: text_scan.simps)
  next
    case (Cons b rest)
    have dr: "length (drop (snd (decode_rune bs)) bs) < length bs"
      using decode_rune_width(1)[of bs] Cons by simp
    show ?thesis
    proof (cases "b < 0x80")
      case True
      have "text_scan rest (a + 1) w = (let (a', w') = text_scan rest 0 0 in (a + 1 + a', w + w'))"
        "text_scan rest (0 + 1) 0 = (let (a', w') = text_scan rest 0 0 in (0 + 1 + a', 0 + w'))"
        using less[of rest "a + 1" w] less[of rest "0 + 1" 0] Cons by auto
      then show ?thesis
        by (simp add: Cons text_scan_ascii[OF True] split: prod.splits)
    next
      case False
      let ?r = "drop (snd (decode_rune bs)) bs"
      have "text_scan ?r a (w + 1) = (let (a', w') = text_scan ?r 0 0 in (a + a', w + 1 + w'))"
        "text_scan ?r 0 (0 + 1) = (let (a', w') = text_scan ?r 0 0 in (0 + a', 0 + 1 + w'))"
        using less[OF dr, of a "w + 1"] less[OF dr, of 0 "0 + 1"] by auto
      then show ?thesis
        by (simp add: Cons text_scan_wide[OF False] split: prod.splits)
    qed
  qed
qed

lemma decode_rune_append:
  assumes "bs \<noteq> []" "\<not> (snd (decode_rune bs) = 1 \<and> \<not> hd bs < 0x80)"
  shows "decode_rune (bs @ cs) = decode_rune bs"
proof -
  obtain b rest where bs: "bs = b # rest" using assms(1) by (cases bs) auto
  consider "b < 0x80" | "\<not> b < 0x80" "rest = []" | b1 where "\<not> b < 0x80" "rest = [b1]"
    | b1 b2 where "\<not> b < 0x80" "rest = [b1, b2]" | b1 b2 b3 r where "\<not> b < 0x80" "rest = b1 # b2 # b3 # r"
    by (metis neq_Nil_conv)
  then show ?thesis
    using assms(2) by cases (simp_all only: bs append_Cons append_Nil decode_rune.simps list.case list.sel
      if_False if_True split: if_split_asm, simp_all)
qed

lemma valid_utf8_step:
  assumes "valid_utf8 bs" "bs \<noteq> []"
  shows "\<not> (snd (decode_rune bs) = 1 \<and> \<not> hd bs < 0x80) \<and> valid_utf8 (drop (snd (decode_rune bs)) bs)"
  using assms(1) by (subst (asm) valid_utf8.simps) (simp add: assms(2) case_prod_beta Let_def split: if_splits)

lemma text_scan_append:
  assumes "valid_utf8 bs"
  shows "text_scan (bs @ cs) a w = (let (a', w') = text_scan bs a w in text_scan cs a' w')"
  using assms
proof (induction "length bs" arbitrary: bs a w rule: less_induct)
  case less
  show ?case
  proof (cases bs)
    case Nil
    then show ?thesis by simp
  next
    case (Cons b rest)
    show ?thesis
    proof (cases "b < 0x80")
      case True
      then have "valid_utf8 rest" using less.prems Cons by simp
      then show ?thesis
        using less.hyps[of rest "a + 1" w] by (simp add: Cons text_scan_ascii[OF True])
    next
      case False
      let ?n = "snd (decode_rune bs)"
      have v: "\<not> (?n = 1 \<and> \<not> hd bs < 0x80)" "valid_utf8 (drop ?n bs)"
        using valid_utf8_step[of bs] less.prems Cons by auto
      have n: "1 \<le> ?n" "?n \<le> length bs" using decode_rune_width[of bs] Cons by auto
      have "decode_rune (bs @ cs) = decode_rune bs"
        by (rule decode_rune_append) (use Cons v in auto)
      moreover have "drop ?n (bs @ cs) = drop ?n bs @ cs" using n by simp
      moreover have "length (drop ?n bs) < length bs" using n Cons by simp
      ultimately show ?thesis
        using less.hyps[of "drop ?n bs" a "w + 1"] v(2)
        by (simp add: Cons text_scan_wide[OF False])
    qed
  qed
qed

lemma textTokens_mono:
  assumes "valid_utf8 (map byte s)"
  shows "textTokens s \<le> textTokens (s @ t)"
proof -
  obtain a w where s: "text_scan (map byte s) 0 0 = (a, w)" by force
  obtain a' w' where t: "text_scan (map byte t) 0 0 = (a', w')" by force
  have "text_scan (map byte (s @ t)) 0 0 = (a + a', w + w')"
    using assms text_scan_acc[of "map byte t" a w] by (simp add: text_scan_append s t)
  then show ?thesis
    by (simp add: textTokens_def s charsPerToken_def)
qed

lemma textTokens_le: "textTokens s \<le> length s"
proof -
  have "\<exists>a' w'. text_scan bs a w = (a + a', w + w') \<and> a' + w' \<le> length bs" for bs a w
  proof (induction "length bs" arbitrary: bs a w rule: less_induct)
    case less
    show ?case
    proof (cases bs)
      case Nil
      then show ?thesis by simp
    next
      case (Cons b rest)
      let ?r = "drop (snd (decode_rune bs)) bs"
      have dr: "length ?r < length bs" using decode_rune_width(1)[of bs] Cons by simp
      obtain a1 w1 where 1: "text_scan rest (a + 1) w = (a + 1 + a1, w + w1)" "a1 + w1 \<le> length rest"
        using less[of rest "a + 1" w] Cons by auto
      obtain a2 w2 where 2: "text_scan ?r a (w + 1) = (a + a2, w + 1 + w2)" "a2 + w2 \<le> length ?r"
        using less[OF dr, of a "w + 1"] by auto
      show ?thesis
      proof (cases "b < 0x80")
        case True
        then have "text_scan bs a w = (a + (a1 + 1), w + w1)" using 1 by (simp add: Cons text_scan_ascii)
        moreover have "a1 + 1 + w1 \<le> length bs" using 1 Cons by simp
        ultimately show ?thesis by blast
      next
        case False
        then have "text_scan bs a w = (a + a2, w + (w2 + 1))" using 2 by (simp add: Cons text_scan_wide)
        moreover have "a2 + (w2 + 1) \<le> length bs" using 2 dr by simp
        ultimately show ?thesis by blast
      qed
    qed
  qed
  from this[of "map byte s" 0 0] obtain a w where "text_scan (map byte s) 0 0 = (a, w)" "a + w \<le> length s"
    by auto
  then show ?thesis
    by (simp add: textTokens_def charsPerToken_def)
qed

lemma foldl_add_message:
  "t \<le> MaxCost \<Longrightarrow> foldl add_message (t, c) msgs =
     (min MaxCost (t + (\<Sum>m\<leftarrow>msgs. perMessageOverhead + textTokens (Role m) + textTokens (Content m))),
      c + (\<Sum>m\<leftarrow>msgs. length (Role m) + length (Content m)))"
proof (induction msgs arbitrary: t c)
  case (Cons m msgs)
  have "sat_add (sat_add (sat_add t perMessageOverhead) (textTokens (Role m))) (textTokens (Content m)) =
    min MaxCost (t + perMessageOverhead + textTokens (Role m) + textTokens (Content m))"
    using Cons.prems by (simp add: sat_add_min min_def)
  then show ?case
    using Cons.IH by (simp add: add_message_def min_def ac_simps)
qed simp

lemma min_add_nested: "min M (min M a + b) = min M (a + b)" for M a b :: nat
  by (simp add: min_def)

lemma sat_add_min': "sat_add t n = min MaxCost (t + n)"
  by (simp add: sat_add_min min.commute)

lemma residual_min:
  assumes "t \<le> MaxCost"
  shows "(if b > 0 \<and> nat b > c then sat_add t ((nat b - c + charsPerToken - 1) div charsPerToken) else t)
    = min MaxCost (t + (nat b - c + 2) div 3)"
proof (cases "b > 0 \<and> nat b > c")
  case True
  have "nat b - c + charsPerToken - 1 = nat b - c + 2" by (simp add: charsPerToken_def)
  with True show ?thesis by (simp only: sat_add_min' charsPerToken_def if_True simp_thms)
next
  case False
  then have "nat b - c = 0" by auto
  with False assms show ?thesis by simp
qed

lemma input_estimate_min:
  "input_estimate msgs prompt bodyBytes = min MaxCost
     ((\<Sum>m\<leftarrow>msgs. perMessageOverhead + textTokens (Role m) + textTokens (Content m)) + textTokens prompt
      + (nat bodyBytes - ((\<Sum>m\<leftarrow>msgs. length (Role m) + length (Content m)) + length prompt) + 2) div 3
      + replyPriming)"
proof -
  let ?a = "\<Sum>m\<leftarrow>msgs. perMessageOverhead + textTokens (Role m) + textTokens (Content m)"
  have "foldl add_message (0, 0) msgs = (min MaxCost ?a, \<Sum>m\<leftarrow>msgs. length (Role m) + length (Content m))"
    by (simp add: foldl_add_message)
  then show ?thesis
    unfolding input_estimate_def Let_def
    by (simp only: prod.case residual_min sat_add_le) (simp only: sat_add_min' min_add_nested)
qed

lemma EstimateRequestCost_min:
  "EstimateRequestCost msgs prompt bodyBytes maxTokens limit =
     min MaxCost (input_estimate msgs prompt bodyBytes + nat (if maxTokens \<le> 0 then limit else maxTokens))"
proof -
  have "input_estimate msgs prompt bodyBytes \<le> MaxCost" "3 \<le> input_estimate msgs prompt bodyBytes"
    by (simp_all add: input_estimate_min cost_consts)
  then show ?thesis
    by (simp add: EstimateRequestCost_def Estimate_def Let_def min_def) linarith
qed

lemma message_grows_tokens: "message_grows m m' \<Longrightarrow> textTokens (Role m) + textTokens (Content m) \<le> textTokens (Role m') + textTokens (Content m')"
  by (auto simp: message_grows_def prefix_def intro: textTokens_mono)

lemma sum_list_grows:
  "list_all2 message_grows msgs (take (length msgs) msgs') \<Longrightarrow>
   (\<Sum>m\<leftarrow>msgs. perMessageOverhead + textTokens (Role m) + textTokens (Content m)) \<le>
   (\<Sum>m\<leftarrow>msgs'. perMessageOverhead + textTokens (Role m) + textTokens (Content m))"
proof (induction msgs arbitrary: msgs')
  case (Cons m msgs)
  then obtain m' ms' where "msgs' = m' # ms'" by (cases msgs') auto
  with Cons show ?case using message_grows_tokens[of m m'] by (fastforce simp: add.assoc)
qed simp

lemma sane_range: "\<exists>x. sane v (Fin 1) = Fin x \<and> 0 \<le> x \<and> x \<le> 10000"
  by (cases v) (auto simp: sane_def is_nan_def is_inf_def fmin_def maxWeight_def)

lemma weighted_range:
  assumes "0 \<le> n" "n \<le> 2 ^ 32" "0 \<le> x" "x \<le> 10000"
  shows "0 \<le> trunc_of (fceil (fmul (Fin x) (float_of n)))"
    and "trunc_of (fceil (fmul (Fin x) (float_of n))) \<le> 10000 * 2 ^ 32"
proof -
  have n: "float_of n = Fin (of_int n)" using assms by (intro float_of_exact) simp
  have "(of_int n :: rat) \<le> 2 ^ 32" using assms(2) by (metis of_int_le_iff of_int_numeral of_int_power)
  then have "x * of_int n \<le> 10000 * 2 ^ 32" using assms by (intro mult_mono) simp_all
  then have r: "round_rat (x * of_int n) \<le> of_int (10000 * 2 ^ 32)" by (intro round_rat_le_int) simp_all
  have r0: "0 \<le> round_rat (x * of_int n)" using assms by (intro round_rat_nonneg) simp
  have "fmul (Fin x) (float_of n) = Fin (round_rat (x * of_int n))"
    using r r0 fhuge_ge by (simp add: n fround_Fin)
  moreover have "\<lceil>round_rat (x * of_int n)\<rceil> \<le> 10000 * 2 ^ 32" using r by (simp add: ceiling_le_iff)
  moreover have "0 \<le> \<lceil>round_rat (x * of_int n)\<rceil>" using r0 by linarith
  ultimately show "0 \<le> trunc_of (fceil (fmul (Fin x) (float_of n)))"
    "trunc_of (fceil (fmul (Fin x) (float_of n))) \<le> 10000 * 2 ^ 32" by simp_all
qed

lemma weighted_one:
  assumes "0 \<le> n" "n \<le> 2 ^ 32"
  shows "trunc_of (fceil (fmul (Fin 1) (float_of n))) = n"
proof -
  have n: "\<bar>n\<bar> < 2 ^ 53" using assms by simp
  then have "float_of n = Fin (of_int n)" by (rule float_of_exact)
  moreover from n have "fround (of_int n) = Fin (of_int n)" using float_of_exact[of n] by (simp add: float_of_def)
  ultimately show ?thesis using assms(1) by simp
qed

lemma sane_DefaultWeights:
  "sane (InputWeight DefaultWeights) (Fin 1) = Fin 1" "sane (OutputFraction DefaultWeights) (Fin 1) = Fin 1"
  by (simp_all add: DefaultWeights_def sane_def is_nan_def is_inf_def fmin_def maxWeight_def)

section \<open>Properties\<close>

text \<open>C22: The estimate of a request equals the reference formula: framing and text tokens of every message,
  the prompt's tokens, the bytes of the body not yet counted at three per token, the reply priming and the output
  budget, saturated once at \<open>MaxCost\<close>. It is at least 1, and its two parts sum to it.\<close>

theorem estimate_reference:
  "EstimateRequestCost msgs prompt bodyBytes maxTokens limit = min MaxCost
     ((\<Sum>m\<leftarrow>msgs. perMessageOverhead + textTokens (Role m) + textTokens (Content m)) + textTokens prompt
      + (nat bodyBytes - ((\<Sum>m\<leftarrow>msgs. length (Role m) + length (Content m)) + length prompt) + 2) div 3
      + replyPriming + nat (if maxTokens \<le> 0 then limit else maxTokens))
   \<and> 1 \<le> EstimateRequestCost msgs prompt bodyBytes maxTokens limit
   \<and> fst (Estimate msgs prompt bodyBytes maxTokens limit) = input_estimate msgs prompt bodyBytes
   \<and> input_estimate msgs prompt bodyBytes + snd (Estimate msgs prompt bodyBytes maxTokens limit)
       = EstimateRequestCost msgs prompt bodyBytes maxTokens limit"
proof (intro conjI)
  show f: "fst (Estimate msgs prompt bodyBytes maxTokens limit) = input_estimate msgs prompt bodyBytes"
    by (simp add: Estimate_def Let_def input_estimate_min cost_consts)
  show "input_estimate msgs prompt bodyBytes + snd (Estimate msgs prompt bodyBytes maxTokens limit)
      = EstimateRequestCost msgs prompt bodyBytes maxTokens limit"
    unfolding f[symmetric] by (simp add: EstimateRequestCost_def case_prod_beta)
  show "1 \<le> EstimateRequestCost msgs prompt bodyBytes maxTokens limit"
    by (simp add: EstimateRequestCost_min input_estimate_min cost_consts)
qed (simp only: EstimateRequestCost_min input_estimate_min min_add_nested)

text \<open>The estimate is monotone: extending the content of messages, appending messages, extending the prompt and
  raising an explicit \<^verbatim>\<open>max_tokens\<close> never lower it. (Text arrives as valid UTF-8; a truncated multi-byte character
  that is completed would cost less.)\<close>

theorem estimate_monotone:
  assumes "text_grows msgs prompt msgs' prompt'" "0 < maxTokens" "maxTokens \<le> maxTokens'"
  shows "EstimateCost msgs prompt maxTokens limit \<le> EstimateCost msgs' prompt' maxTokens' limit"
proof -
  have "textTokens prompt \<le> textTokens prompt'"
    using assms(1) by (auto simp: text_grows_def prefix_def intro: textTokens_mono)
  moreover have "(\<Sum>m\<leftarrow>msgs. perMessageOverhead + textTokens (Role m) + textTokens (Content m)) \<le>
   (\<Sum>m\<leftarrow>msgs'. perMessageOverhead + textTokens (Role m) + textTokens (Content m))"
    using assms(1) by (intro sum_list_grows) (simp add: text_grows_def)
  ultimately have "input_estimate msgs prompt 0 \<le> input_estimate msgs' prompt' 0"
    by (simp add: input_estimate_min)
  then show ?thesis
    using assms(2,3) by (simp add: EstimateCost_def EstimateRequestCost_min)
qed

theorem estimate_monotone_witness:
  "EstimateCost [\<lparr>Role = ''user'', Content = ''hi''\<rparr>] '''' 5 100
   \<le> EstimateCost [\<lparr>Role = ''user'', Content = ''hi there''\<rparr>, \<lparr>Role = ''user'', Content = ''x''\<rparr>] ''p'' 7 100"
  by (rule estimate_monotone)
    (simp_all add: text_grows_def message_grows_def byte_def)

text \<open>The work of a request is never negative, is at least 1 as soon as either estimate is positive, stays within
  \<open>2 * MaxCost * maxWeight\<close> for every pair of weights, NaN and infinities included, and is the plain sum of the
  estimates at the default weights.\<close>

theorem work_bounds:
  assumes "estInput \<le> int MaxCost" "estOutput \<le> int MaxCost"
  shows "0 \<le> Work estInput estOutput w \<and> Work estInput estOutput w \<le> 2 * int MaxCost * 10000
    \<and> (0 < estInput \<or> 0 < estOutput \<longrightarrow> 1 \<le> Work estInput estOutput w)
    \<and> Work estInput estOutput DefaultWeights = max estInput 0 + max estOutput 0"
proof -
  obtain x where x: "sane (InputWeight w) (Fin 1) = Fin x" "0 \<le> x" "x \<le> 10000"
    using sane_range[of "InputWeight w"] by auto
  obtain y where y: "sane (OutputFraction w) (Fin 1) = Fin y" "0 \<le> y" "y \<le> 10000"
    using sane_range[of "OutputFraction w"] by auto
  have i: "0 \<le> max estInput 0" "max estInput 0 \<le> 2 ^ 32" and ou: "0 \<le> max estOutput 0" "max estOutput 0 \<le> 2 ^ 32"
    using assms by (simp_all add: MaxCost_def)
  define A B where "A = trunc_of (fceil (fmul (Fin x) (float_of (max estInput 0))))"
    and "B = trunc_of (fceil (fmul (Fin y) (float_of (max estOutput 0))))"
  have "0 \<le> A" "A \<le> 10000 * 2 ^ 32" "0 \<le> B" "B \<le> 10000 * 2 ^ 32"
    unfolding A_def B_def by (rule weighted_range; fact i ou x y)+
  moreover have "Work estInput estOutput w = (if A + B < 1 \<and> (estInput > 0 \<or> estOutput > 0) then 1 else A + B)"
    by (simp only: Work_def x(1) y(1) Let_def A_def B_def)
  moreover have "Work estInput estOutput DefaultWeights = max estInput 0 + max estOutput 0"
    unfolding Work_def sane_DefaultWeights Let_def weighted_one[OF i] weighted_one[OF ou]
    by (auto simp only: max_def split: if_splits)
  ultimately show ?thesis by (simp add: MaxCost_def)
qed

theorem work_bounds_witness:
  "0 \<le> Work 12 100 \<lparr>InputWeight = NaN, OutputFraction = PInf\<rparr> \<and> Work 12 100 DefaultWeights = 112"
  using work_bounds[of 12 100 "\<lparr>InputWeight = NaN, OutputFraction = PInf\<rparr>"] by (simp add: MaxCost_def)

end
