(* ===== verification/Scheduler.thy ===== *)
theory Scheduler
  imports Protocol Cost "HOL-Library.Multiset"
begin

text \<open>
  \<^verbatim>\<open>internal/scheduler/scheduler.go\<close>: the shared eligibility filter, the rotor and the random, round-robin and
  least-loaded strategies. A strategy's \<^verbatim>\<open>SelectWorker\<close> takes \<^verbatim>\<open>ctx.Err()\<close>, the draw of \<^verbatim>\<open>rand.IntN\<close>, the request,
  the snapshot list and the strategy's state and returns the new state and the Go result. Indices into the
  snapshot list are kept as in the code. The interface contract of \<^verbatim>\<open>Scheduler\<close> is the locale \<open>scheduler\<close>,
  which every strategy interprets.
\<close>

section \<open>Types\<close>

datatype ctx_error = Canceled | DeadlineExceeded

record no_worker_error =
  nw_Model :: string
  Serving :: nat
  NumEligible :: nat
  AtCapacity :: nat

datatype sched_error = CtxErr ctx_error | NoWorkerError no_worker_error

definition UnknownModel :: "no_worker_error \<Rightarrow> bool" where
  "UnknownModel e \<longleftrightarrow> Serving e = 0"

section \<open>The shared filter\<close>

definition routable :: "worker_snapshot \<Rightarrow> bool" where
  "routable w \<longleftrightarrow> \<not> (WState w \<noteq> StateReady \<or> \<not> Eligible w \<or> (WHealth w \<noteq> HealthHealthy \<and> WHealth w \<noteq> HealthSuspect))"

definition eligible_step :: "inference_request \<Rightarrow> worker_snapshot list \<Rightarrow> no_worker_error \<times> nat list \<Rightarrow> nat \<Rightarrow> no_worker_error \<times> nat list" where
  "eligible_step req workers = (\<lambda>(why, idx) i.
     let w = workers ! i in
     if Model w \<noteq> req_Model req then (why, idx)
     else let why1 = why\<lparr>Serving := Serving why + 1\<rparr> in
       if \<not> routable w then (why1, idx)
       else let why2 = why1\<lparr>NumEligible := NumEligible why1 + 1\<rparr> in
         if ActiveRequests (WMetrics w) \<ge> MaxConcurrency w
         then (why2\<lparr>AtCapacity := AtCapacity why2 + 1\<rparr>, idx)
         else (why2, idx @ [i]))"

definition eligible :: "inference_request \<Rightarrow> worker_snapshot list \<Rightarrow> no_worker_error + nat list" where
  "eligible req workers =
     (let (why, idx) = foldl (eligible_step req workers)
             (\<lparr>nw_Model = req_Model req, Serving = 0, NumEligible = 0, AtCapacity = 0\<rparr>, []) [0..<length workers];
          wid = (\<lambda>j. WorkerID (workers ! j))
      in if idx = [] then Inl why
         else if sorted (map wid idx) then Inr idx else Inr (sort_key wid idx))"

definition Candidates :: "inference_request \<Rightarrow> worker_snapshot list \<Rightarrow> no_worker_error + worker_snapshot list" where
  "Candidates req workers = (case eligible req workers of
       Inl why \<Rightarrow> Inl why | Inr idx \<Rightarrow> Inr (map (\<lambda>j. workers ! j) idx))"

section \<open>The rotor\<close>

type_synonym rotor = "(string, string) gomap" \<comment> \<open>per model, the worker handed out last\<close>

definition newRotor :: rotor where
  "newRotor = []"

definition rotor_next :: "string \<Rightarrow> nat \<Rightarrow> (nat \<Rightarrow> string) \<Rightarrow> rotor \<Rightarrow> rotor \<times> nat" where
  "rotor_next model n wid r =
     (let last = mget_or [] r model;
          i = sort_search n (\<lambda>i. last < wid i);
          i' = (if i = n then 0 else i)
      in (mput model (wid i') r, i'))"

definition rot_pick :: "string \<Rightarrow> worker_snapshot list \<Rightarrow> nat list \<Rightarrow> rotor \<Rightarrow> rotor \<times> worker_snapshot" where
  \<comment> \<open>\<^verbatim>\<open>workers[tied[rot.next(model, len(tied), ...)]]\<close>\<close>
  "rot_pick model workers tied r =
     (let (r', i) = rotor_next model (length tied) (\<lambda>i. WorkerID (workers ! (tied ! i))) r
      in (r', workers ! (tied ! i)))"

section \<open>The strategies\<close>

definition random_SelectWorker :: "ctx_error option \<Rightarrow> (nat \<Rightarrow> nat) \<Rightarrow> inference_request \<Rightarrow> worker_snapshot list \<Rightarrow> unit
    \<Rightarrow> unit \<times> (sched_error + worker_snapshot)" where
  "random_SelectWorker ctx intN req workers s =
     (case ctx of
        Some e \<Rightarrow> (s, Inl (CtxErr e))
      | None \<Rightarrow> (case eligible req workers of
          Inl why \<Rightarrow> (s, Inl (NoWorkerError why))
        | Inr idx \<Rightarrow> (s, Inr (workers ! (idx ! intN (length idx))))))"

definition roundRobin_SelectWorker :: "ctx_error option \<Rightarrow> (nat \<Rightarrow> nat) \<Rightarrow> inference_request \<Rightarrow> worker_snapshot list \<Rightarrow> rotor
    \<Rightarrow> rotor \<times> (sched_error + worker_snapshot)" where
  "roundRobin_SelectWorker ctx intN req workers rot =
     (case ctx of
        Some e \<Rightarrow> (rot, Inl (CtxErr e))
      | None \<Rightarrow> (case eligible req workers of
          Inl why \<Rightarrow> (rot, Inl (NoWorkerError why))
        | Inr idx \<Rightarrow> let (rot', w) = rot_pick (req_Model req) workers idx rot in (rot', Inr w)))"

definition activeLoad :: "worker_snapshot \<Rightarrow> int" where
  "activeLoad w = ActiveRequests (WMetrics w)"

definition queueLoad :: "worker_snapshot \<Rightarrow> int" where
  "queueLoad w = QueueDepth (WMetrics w)"

definition chooseWith :: "(worker_snapshot \<Rightarrow> int) \<Rightarrow> rotor \<Rightarrow> string \<Rightarrow> worker_snapshot list \<Rightarrow> nat list \<Rightarrow> rotor \<times> worker_snapshot" where
  "chooseWith load rot model workers idx =
     (let mn = foldl (\<lambda>mn j. let l = load (workers ! j) in if l < mn then l else mn)
                 (load (workers ! (idx ! 0))) (drop 1 idx);
          tied = filter (\<lambda>j. load (workers ! j) = mn) idx
      in rot_pick model workers tied rot)"

definition leastLoaded_SelectWorker :: "(worker_snapshot \<Rightarrow> int) \<Rightarrow> ctx_error option \<Rightarrow> (nat \<Rightarrow> nat) \<Rightarrow> inference_request
    \<Rightarrow> worker_snapshot list \<Rightarrow> rotor \<Rightarrow> rotor \<times> (sched_error + worker_snapshot)" where
  "leastLoaded_SelectWorker load ctx intN req workers rot =
     (case ctx of
        Some e \<Rightarrow> (rot, Inl (CtxErr e))
      | None \<Rightarrow> (case eligible req workers of
          Inl why \<Rightarrow> (rot, Inl (NoWorkerError why))
        | Inr idx \<Rightarrow> let (rot', w) = chooseWith load rot (req_Model req) workers idx in (rot', Inr w)))"

section \<open>What the filter keeps\<close>

definition candidate :: "inference_request \<Rightarrow> worker_snapshot \<Rightarrow> bool" where
  \<comment> \<open>the invariants of section 15 of the specification\<close>
  "candidate req w \<longleftrightarrow> Model w = req_Model req \<and> WState w = StateReady \<and> Eligible w
     \<and> WHealth w \<in> {HealthHealthy, HealthSuspect} \<and> ActiveRequests (WMetrics w) < MaxConcurrency w"

definition same_worker :: "worker_snapshot \<Rightarrow> worker_snapshot \<Rightarrow> bool" where
  \<comment> \<open>a copy that differs in its diagnostic flags at most\<close>
  "same_worker w v \<longleftrightarrow> (\<exists>fl. w = v\<lparr>Observed := (Observed v)\<lparr>Flags := fl\<rparr>\<rparr>)"

definition snapshot_ok :: "worker_snapshot \<Rightarrow> bool" where
  \<comment> \<open>the float fields hold \<^verbatim>\<open>float64\<close> values\<close>
  "snapshot_ok w \<longleftrightarrow> is_float (WorkAheadTokens (Observed w)) \<and> is_float (CapacityTPS (Observed w))"

definition rng_ok :: "(nat \<Rightarrow> nat) \<Rightarrow> bool" where
  \<comment> \<open>the documented range of \<^verbatim>\<open>rand.IntN\<close>\<close>
  "rng_ok intN \<longleftrightarrow> (\<forall>n. 0 < n \<longrightarrow> intN n < n)"

lemma same_worker_refl [simp]: "same_worker w w"
  unfolding same_worker_def by (rule exI[of _ "Flags (Observed w)"]) simp

lemma same_worker_fields:
  assumes "same_worker w v"
  shows "WorkerID w = WorkerID v" "candidate req w = candidate req v" "WMetrics w = WMetrics v"
    "MaxConcurrency w = MaxConcurrency v" "Model w = Model v"
  using assms by (auto simp: same_worker_def candidate_def)

lemma eligible_step_candidate:
  "eligible_step req ws (why, idx) i =
     (why\<lparr>Serving := Serving why + (if Model (ws ! i) = req_Model req then 1 else 0),
          NumEligible := NumEligible why + (if Model (ws ! i) = req_Model req \<and> routable (ws ! i) then 1 else 0),
          AtCapacity := AtCapacity why + (if Model (ws ! i) = req_Model req \<and> routable (ws ! i)
             \<and> ActiveRequests (WMetrics (ws ! i)) \<ge> MaxConcurrency (ws ! i) then 1 else 0)\<rparr>,
      if candidate req (ws ! i) then idx @ [i] else idx)"
  by (auto simp: eligible_step_def Let_def candidate_def routable_def)

lemma eligible_fold:
  "foldl (eligible_step req ws) (why, idx) is =
     (why\<lparr>Serving := Serving why + count_if (\<lambda>i. Model (ws ! i) = req_Model req) is,
          NumEligible := NumEligible why + count_if (\<lambda>i. Model (ws ! i) = req_Model req \<and> routable (ws ! i)) is,
          AtCapacity := AtCapacity why + count_if (\<lambda>i. Model (ws ! i) = req_Model req \<and> routable (ws ! i)
             \<and> ActiveRequests (WMetrics (ws ! i)) \<ge> MaxConcurrency (ws ! i)) is\<rparr>,
      idx @ filter (\<lambda>i. candidate req (ws ! i)) is)"
  by (induction "is" arbitrary: why idx) (simp_all add: eligible_step_candidate)

lemma count_if_nth: "count_if (\<lambda>i. P (ws ! i)) [0..<length ws] = count_if P ws"
  using count_if_map[of P "\<lambda>i. ws ! i" "[0..<length ws]"] by (simp add: map_nth comp_def)

lemma eligible_Inr:
  assumes "eligible req ws = Inr idx"
  shows "idx \<noteq> []" "set idx = {i. i < length ws \<and> candidate req (ws ! i)}" "distinct idx"
    "sorted (map (\<lambda>j. WorkerID (ws ! j)) idx)"
proof -
  let ?f = "filter (\<lambda>i. candidate req (ws ! i)) [0..<length ws]"
  have "?f \<noteq> []" and *: "idx = (if sorted (map (\<lambda>j. WorkerID (ws ! j)) ?f) then ?f else sort_key (\<lambda>j. WorkerID (ws ! j)) ?f)"
    using assms by (auto simp: eligible_def eligible_fold Let_def split: if_splits)
  show "set idx = {i. i < length ws \<and> candidate req (ws ! i)}" "distinct idx"
    unfolding * by auto
  show "idx \<noteq> []"
    using \<open>?f \<noteq> []\<close> unfolding * by (metis set_empty set_sort)
  show "sorted (map (\<lambda>j. WorkerID (ws ! j)) idx)"
    unfolding * by (cases "sorted (map (\<lambda>j. WorkerID (ws ! j)) ?f)") simp_all
qed

lemma eligible_Inl_iff: "(\<exists>why. eligible req ws = Inl why) \<longleftrightarrow> (\<forall>w \<in> set ws. \<not> candidate req w)"
proof -
  have "(\<exists>why. eligible req ws = Inl why) \<longleftrightarrow> filter (\<lambda>i. candidate req (ws ! i)) [0..<length ws] = []"
    by (auto simp: eligible_def eligible_fold Let_def)
  also have "\<dots> \<longleftrightarrow> (\<forall>w \<in> set ws. \<not> candidate req w)"
    by (auto simp: filter_empty_conv in_set_conv_nth all_set_conv_all_nth)
  finally show ?thesis .
qed

lemma eligible_Inl:
  assumes "eligible req ws = Inl why"
  shows "nw_Model why = req_Model req"
    "Serving why = count_if (\<lambda>w. Model w = req_Model req) ws"
    "NumEligible why = count_if (\<lambda>w. Model w = req_Model req \<and> routable w) ws"
    "AtCapacity why = NumEligible why"
proof -
  have none: "\<not> candidate req w" if "w \<in> set ws" for w
    using assms eligible_Inl_iff[of req ws] that by blast
  have why: "why = fst (foldl (eligible_step req ws)
      (\<lparr>nw_Model = req_Model req, Serving = 0, NumEligible = 0, AtCapacity = 0\<rparr>, []) [0..<length ws])"
    using assms by (auto simp: eligible_def Let_def split: if_splits prod.splits)
  show "nw_Model why = req_Model req" "Serving why = count_if (\<lambda>w. Model w = req_Model req) ws"
    "NumEligible why = count_if (\<lambda>w. Model w = req_Model req \<and> routable w) ws"
    unfolding why by (simp_all add: eligible_fold count_if_nth[of "\<lambda>w. Model w = req_Model req"]
      count_if_nth[of "\<lambda>w. Model w = req_Model req \<and> routable w"])
  have "count_if (\<lambda>w. Model w = req_Model req \<and> routable w \<and> ActiveRequests (WMetrics w) \<ge> MaxConcurrency w) ws
      = count_if (\<lambda>w. Model w = req_Model req \<and> routable w) ws"
    by (rule count_if_cong) (use none in \<open>auto simp: candidate_def routable_def not_less\<close>)
  then show "AtCapacity why = NumEligible why"
    unfolding why by (simp add: eligible_fold count_if_nth[of "\<lambda>w. Model w = req_Model req \<and> routable w"]
      count_if_nth[of "\<lambda>w. Model w = req_Model req \<and> routable w \<and> ActiveRequests (WMetrics w) \<ge> MaxConcurrency w"])
qed

section \<open>The rotor takes turns\<close>

lemma rotor_next_lt:
  assumes "0 < n"
  shows "snd (rotor_next model n wid r) < n"
  using assms sort_search_le[of n "\<lambda>i. mget_or [] r model < wid i"]
  by (auto simp: rotor_next_def Let_def)

lemma rotor_next_last: "mget_or [] (fst (rotor_next model n wid r)) model = wid (snd (rotor_next model n wid r))"
  by (simp add: rotor_next_def Let_def mget_or_mput)

lemma rotor_next_other: "m \<noteq> model \<Longrightarrow> mget_or [] (fst (rotor_next model n wid r)) m = mget_or [] r m"
  by (simp add: rotor_next_def Let_def mget_or_mput)

definition ids_ordered :: "(nat \<Rightarrow> string) \<Rightarrow> nat \<Rightarrow> bool" where
  "ids_ordered wid n \<longleftrightarrow> (\<forall>j < n. \<forall>i < j. wid i < wid j)"

lemma rotor_next_succ:
  assumes "ids_ordered wid n" "k < n" "mget_or [] r model = wid k"
  shows "snd (rotor_next model n wid r) = Suc k mod n"
proof -
  have ord: "wid i < wid j \<longleftrightarrow> i < j" if "i < n" "j < n" for i j
    using assms(1) that unfolding ids_ordered_def by (metis linorder_neqE_nat order_less_asym order_less_irrefl)
  let ?f = "\<lambda>i. wid k < wid i"
  have "search_mono ?f n"
    using ord assms(2) unfolding search_mono_def by (meson order_less_le_trans order_le_less_trans)
  moreover have "search_result ?f n (Suc k)"
    using ord assms(2) unfolding search_result_def by fastforce
  ultimately have "sort_search n ?f = Suc k" by (rule sort_search_eq)
  then show ?thesis
    using assms(2,3) by (simp add: rotor_next_def Let_def)
qed

primrec rotor_run :: "nat \<Rightarrow> string \<Rightarrow> nat \<Rightarrow> (nat \<Rightarrow> string) \<Rightarrow> rotor \<Rightarrow> nat list" where
  "rotor_run 0 model n wid r = []"
| "rotor_run (Suc k) model n wid r =
     (let (r', i) = rotor_next model n wid r in i # rotor_run k model n wid r')"

lemma rotor_run_from:
  assumes "ids_ordered wid n" "k < n" "mget_or [] r model = wid k"
  shows "rotor_run c model n wid r = map (\<lambda>t. (k + Suc t) mod n) [0..<c]"
  using assms(2,3)
proof (induction c arbitrary: k r)
  case (Suc c)
  obtain r' i where n: "rotor_next model n wid r = (r', i)" by force
  have i: "i = Suc k mod n" using rotor_next_succ[OF assms(1) Suc.prems] by (simp add: n)
  have last: "mget_or [] r' model = wid i" using rotor_next_last[of model n wid r] by (simp add: n)
  have "i < n" using Suc.prems by (simp add: i)
  have "rotor_run (Suc c) model n wid r = i # map (\<lambda>t. (i + Suc t) mod n) [0..<c]"
    using Suc.IH[OF \<open>i < n\<close> last] by (simp add: n)
  also have "\<dots> = (Suc k mod n) # map (\<lambda>t. (k + Suc (Suc t)) mod n) [0..<c]"
    using mod_add_left_eq[of "Suc k" n "Suc t" for t] by (simp add: i)
  also have "\<dots> = map (\<lambda>t. (k + Suc t) mod n) (0 # map Suc [0..<c])" by simp
  also have "0 # map Suc [0..<c] = [0..<Suc c]" by (metis map_Suc_upt upt_conv_Cons zero_less_Suc)
  finally show ?case .
qed simp

lemma rotation_inj:
  fixes k n :: nat
  assumes "(k + a) mod n = (k + b) mod n" "a \<le> b" "b < n"
  shows "a = b"
proof -
  have "n dvd (k + b) - (k + a)"
    using assms(1,2) mod_eq_dvd_iff_nat[of "k + a" "k + b" n] by simp
  then have "n dvd b - a" by simp
  then show ?thesis using assms(2,3) by (auto dest: dvd_imp_le)
qed

lemma distinct_rotation: "distinct (map (\<lambda>t. (k + t) mod n) [0..<n])" for k n :: nat
proof (subst distinct_map, intro conjI inj_onI)
  fix a b assume *: "a \<in> set [0..<n]" "b \<in> set [0..<n]" "(k + a) mod n = (k + b) mod n"
  then show "a = b"
    using rotation_inj[of k a n b] rotation_inj[of k b n a] by (cases "a \<le> b") auto
qed simp

lemma rotor_run_first:
  assumes "ids_ordered wid n" "0 < n"
  shows "\<exists>k. rotor_run n model n wid r = map (\<lambda>t. (k + t) mod n) [0..<n]"
proof -
  obtain m where m: "n = Suc m" using assms(2) gr0_conv_Suc by auto
  obtain r' i where n: "rotor_next model n wid r = (r', i)" by force
  have i: "i < n" using rotor_next_lt[OF assms(2), of model wid r] by (simp add: n)
  have last: "mget_or [] r' model = wid i" using rotor_next_last[of model n wid r] by (simp add: n)
  have "rotor_run n model n wid r = i # map (\<lambda>t. (i + Suc t) mod n) [0..<m]"
    using rotor_run_from[OF assms(1) i last, of m] n by (simp add: m)
  also have "\<dots> = map (\<lambda>t. (i + t) mod n) (0 # map Suc [0..<m])" using i by simp
  also have "0 # map Suc [0..<m] = [0..<n]" unfolding m by (metis map_Suc_upt upt_conv_Cons zero_less_Suc)
  finally show ?thesis ..
qed

lemma rotor_run_fair:
  \<comment> \<open>in \<open>n\<close> consecutive turns over the same workers each of them is handed out exactly once\<close>
  assumes "ids_ordered wid n" "0 < n"
  shows "distinct (rotor_run n model n wid r)" "set (rotor_run n model n wid r) = {0..<n}"
proof -
  obtain k where k: "rotor_run n model n wid r = map (\<lambda>t. (k + t) mod n) [0..<n]"
    using rotor_run_first[OF assms] by blast
  show d: "distinct (rotor_run n model n wid r)" unfolding k by (rule distinct_rotation)
  have "set (rotor_run n model n wid r) \<subseteq> {0..<n}" unfolding k using assms(2) by auto
  moreover have "card (set (rotor_run n model n wid r)) = card {0..<n}"
    using distinct_card[OF d] by (simp add: k)
  ultimately show "set (rotor_run n model n wid r) = {0..<n}" by (metis card_subset_eq finite_atLeastLessThan)
qed

lemma rot_pick_mem: "tied \<noteq> [] \<Longrightarrow> \<exists>j \<in> set tied. snd (rot_pick model ws tied r) = ws ! j"
  using rotor_next_lt[of "length tied" model "\<lambda>i. WorkerID (ws ! (tied ! i))" r]
  by (auto simp: rot_pick_def case_prod_beta Let_def intro: nth_mem)

section \<open>The contract of a scheduler\<close>

locale scheduler =
  fixes select :: "ctx_error option \<Rightarrow> (nat \<Rightarrow> nat) \<Rightarrow> inference_request \<Rightarrow> worker_snapshot list \<Rightarrow> 's
    \<Rightarrow> 's \<times> (sched_error + worker_snapshot)"
  assumes cancelled: "select (Some e) intN req ws s = (s, Inl (CtxErr e))"
    and none: "eligible req ws = Inl why \<Longrightarrow> select None intN req ws s = (s, Inl (NoWorkerError why))"
    and some: "eligible req ws = Inr idx \<Longrightarrow> rng_ok intN \<Longrightarrow> \<forall>w \<in> set ws. snapshot_ok w
      \<Longrightarrow> \<exists>j \<in> set idx. \<exists>s' w. select None intN req ws s = (s', Inr w) \<and> same_worker w (ws ! j)"
begin

lemma selects_candidate:
  assumes "select ctx intN req ws s = (s', Inr w)" "rng_ok intN" "\<forall>w \<in> set ws. snapshot_ok w"
  shows "candidate req w \<and> (\<exists>v \<in> set ws. same_worker w v)"
proof -
  have ctx: "ctx = None" using assms(1) cancelled by (cases ctx) auto
  obtain idx where idx: "eligible req ws = Inr idx"
    using assms(1) none[of req ws] unfolding ctx by (cases "eligible req ws") auto
  obtain j where j: "j \<in> set idx" "same_worker w (ws ! j)"
    using some[OF idx assms(2,3), of s] assms(1) unfolding ctx by auto
  then have "j < length ws" "candidate req (ws ! j)" using eligible_Inr(2)[OF idx] by auto
  with j(2) show ?thesis using same_worker_fields(2) nth_mem by blast
qed

lemma selects_iff:
  assumes "rng_ok intN" "\<forall>w \<in> set ws. snapshot_ok w"
  shows "(\<exists>s' w. select ctx intN req ws s = (s', Inr w)) \<longleftrightarrow> ctx = None \<and> (\<exists>w \<in> set ws. candidate req w)"
proof (cases ctx)
  case None
  show ?thesis
  proof (cases "eligible req ws")
    case (Inl why)
    then have "\<not> (\<exists>w \<in> set ws. candidate req w)" using eligible_Inl_iff[of req ws] by blast
    then show ?thesis using none[OF Inl] None by auto
  next
    case (Inr idx)
    then have "\<exists>w \<in> set ws. candidate req w" using eligible_Inl_iff[of req ws] by auto
    then show ?thesis using some[OF Inr assms, of s] None by auto
  qed
qed (simp add: cancelled)

lemma refusal_explains:
  assumes "select None intN req ws s = (s', Inl e)" "rng_ok intN" "\<forall>w \<in> set ws. snapshot_ok w"
  shows "\<exists>why. e = NoWorkerError why \<and> eligible req ws = Inl why"
proof (cases "eligible req ws")
  case (Inl why)
  then show ?thesis using none[OF Inl] assms(1) by simp
next
  case (Inr idx)
  then show ?thesis using some[OF Inr assms(2,3), of s] assms(1) by auto
qed

end

interpretation rand_sched: scheduler random_SelectWorker
proof
  fix req ws idx s and intN :: "nat \<Rightarrow> nat"
  assume "eligible req ws = Inr idx" "rng_ok intN"
  moreover from this have "idx ! intN (length idx) \<in> set idx"
    using eligible_Inr(1)[of req ws idx] by (auto simp: rng_ok_def)
  ultimately show "\<exists>j \<in> set idx. \<exists>s' w. random_SelectWorker None intN req ws s = (s', Inr w) \<and> same_worker w (ws ! j)"
    by (auto simp: random_SelectWorker_def intro!: bexI same_worker_refl)
qed (simp_all add: random_SelectWorker_def)

interpretation rr_sched: scheduler roundRobin_SelectWorker
proof
  fix req ws idx s and intN :: "nat \<Rightarrow> nat"
  assume e: "eligible req ws = Inr idx"
  then show "\<exists>j \<in> set idx. \<exists>s' w. roundRobin_SelectWorker None intN req ws s = (s', Inr w) \<and> same_worker w (ws ! j)"
    using rot_pick_mem[OF eligible_Inr(1)[OF e], of "req_Model req" ws s]
    by (auto simp: roundRobin_SelectWorker_def case_prod_beta intro!: bexI same_worker_refl)
qed (simp_all add: roundRobin_SelectWorker_def)

lemma fold_min:
  fixes f :: "'a \<Rightarrow> int"
  defines "r \<equiv> \<lambda>m js. foldl (\<lambda>mn j. let l = f j in if l < mn then l else mn) m js"
  shows "r m js \<in> insert m (f ` set js) \<and> r m js \<le> m \<and> (\<forall>j \<in> set js. r m js \<le> f j)"
proof (induction js arbitrary: m)
  case (Cons j js)
  have "r m (j # js) = r (if f j < m then f j else m) js" by (simp add: r_def Let_def)
  with Cons[of "f j"] Cons[of m] show ?case by auto
qed (simp add: r_def)

lemma chooseWith_spec:
  assumes "idx \<noteq> []"
  shows "\<exists>j \<in> set idx. snd (chooseWith load rot model ws idx) = ws ! j \<and> (\<forall>i \<in> set idx. load (ws ! j) \<le> load (ws ! i))"
proof -
  obtain x xs where x: "idx = x # xs" using assms by (cases idx) auto
  define mn where "mn = foldl (\<lambda>mn j. let l = load (ws ! j) in if l < mn then l else mn) (load (ws ! x)) xs"
  have mn: "mn \<in> (\<lambda>j. load (ws ! j)) ` set idx" "\<forall>i \<in> set idx. mn \<le> load (ws ! i)"
    using fold_min[of "\<lambda>j. load (ws ! j)" "load (ws ! x)" xs] unfolding mn_def[symmetric] by (auto simp: x)
  have eq: "chooseWith load rot model ws idx = rot_pick model ws (filter (\<lambda>j. load (ws ! j) = mn) idx) rot"
    by (simp add: chooseWith_def mn_def x)
  have "filter (\<lambda>j. load (ws ! j) = mn) idx \<noteq> []" using mn(1) by (auto simp: filter_empty_conv)
  from rot_pick_mem[OF this, of model ws rot] obtain j
    where "j \<in> set idx" "load (ws ! j) = mn" "snd (chooseWith load rot model ws idx) = ws ! j"
    by (auto simp: eq)
  with mn(2) show ?thesis by auto
qed

interpretation ll_sched: scheduler "leastLoaded_SelectWorker load" for load
proof
  fix req ws idx s and intN :: "nat \<Rightarrow> nat"
  assume e: "eligible req ws = Inr idx"
  then show "\<exists>j \<in> set idx. \<exists>s' w. leastLoaded_SelectWorker load None intN req ws s = (s', Inr w) \<and> same_worker w (ws ! j)"
    using chooseWith_spec[OF eligible_Inr(1)[OF e], of load s "req_Model req" ws]
    by (auto simp: leastLoaded_SelectWorker_def case_prod_beta intro!: bexI same_worker_refl)
qed (simp_all add: leastLoaded_SelectWorker_def)

section \<open>Properties\<close>

primrec rr_run :: "nat \<Rightarrow> inference_request \<Rightarrow> worker_snapshot list \<Rightarrow> rotor \<Rightarrow> (sched_error + worker_snapshot) list" where
  \<comment> \<open>the results of consecutive selections over the same snapshot\<close>
  "rr_run 0 req ws rot = []"
| "rr_run (Suc k) req ws rot =
     (let (rot', res) = roundRobin_SelectWorker None (\<lambda>_. 0) req ws rot in res # rr_run k req ws rot')"

lemma rr_run_rotor:
  assumes "eligible req ws = Inr idx"
  shows "rr_run k req ws rot = map (\<lambda>i. Inr (ws ! (idx ! i)))
    (rotor_run k (req_Model req) (length idx) (\<lambda>i. WorkerID (ws ! (idx ! i))) rot)"
proof (induction k arbitrary: rot)
  case (Suc k)
  obtain r i where "rotor_next (req_Model req) (length idx) (\<lambda>i. WorkerID (ws ! (idx ! i))) rot = (r, i)" by force
  then show ?case using Suc by (simp add: roundRobin_SelectWorker_def assms rot_pick_def)
qed simp

lemma eligible_ids_ordered:
  assumes "eligible req ws = Inr idx" "distinct (map WorkerID ws)"
  shows "ids_ordered (\<lambda>i. WorkerID (ws ! (idx ! i))) (length idx)"
  unfolding ids_ordered_def
proof (intro allI impI)
  fix i j assume ij: "j < length idx" "i < j"
  have lt: "idx ! i < length ws" "idx ! j < length ws"
    using eligible_Inr(2)[OF assms(1)] ij nth_mem[of i idx] nth_mem[of j idx] by auto
  have "WorkerID (ws ! (idx ! i)) \<le> WorkerID (ws ! (idx ! j))"
    using eligible_Inr(4)[OF assms(1)] ij by (auto simp: sorted_iff_nth_mono)
  moreover have "idx ! i \<noteq> idx ! j"
    using eligible_Inr(3)[OF assms(1)] ij by (simp add: nth_eq_iff_index_eq)
  then have "WorkerID (ws ! (idx ! i)) \<noteq> WorkerID (ws ! (idx ! j))"
    using assms(2) lt by (metis length_map nth_eq_iff_index_eq nth_map)
  ultimately show "WorkerID (ws ! (idx ! i)) < WorkerID (ws ! (idx ! j))" by simp
qed

definition ex_worker :: "string \<Rightarrow> int \<Rightarrow> worker_snapshot" where
  "ex_worker n active = \<lparr>WorkerID = n, Model = ''m'', Address = ''http://w'', MaxConcurrency = 4, QueueSize = 8,
     WState = StateReady, WHealth = HealthHealthy, Eligible = True, WMetrics = metrics_zero\<lparr>ActiveRequests := active\<rparr>,
     WReason = [], RegisteredAt = 0, LastHeartbeat = 0, HeartbeatAgeSeconds = Fin 0, Observed = observed_zero\<rparr>"

definition ex_request :: inference_request where
  "ex_request = \<lparr>req_RequestID = ''r'', req_TenantID = ''t'', req_Model = ''m'', req_Messages = [], req_Prompt = [],
     req_Stream = False, req_MaxTokens = 10, req_Temperature = Fin 0, req_Priority = 0, EstInputTokens = 5, EstOutputTokens = 10\<rparr>"

lemma ex_eligible: "eligible ex_request [ex_worker ''b'' 2, ex_worker ''a'' 1] = Inr [1, 0]"
  by (simp add: eligible_def eligible_step_def ex_request_def ex_worker_def routable_def metrics_zero_def upt_rec
    sort_key_def insort_key.simps Let_def)

text \<open>C24: Round-robin is fair. Over an unchanged snapshot with distinct worker IDs, as many consecutive selections as
  there are candidates return every candidate exactly once, whatever the rotor handed out before.\<close>

theorem round_robin_fair:
  assumes "eligible req ws = Inr idx" "distinct (map WorkerID ws)"
  shows "mset (rr_run (length idx) req ws rot) = mset (map (\<lambda>j. Inr (ws ! j)) idx)"
proof -
  let ?run = "rotor_run (length idx) (req_Model req) (length idx) (\<lambda>i. WorkerID (ws ! (idx ! i))) rot"
  have "0 < length idx" using eligible_Inr(1)[OF assms(1)] by simp
  note fair = rotor_run_fair[OF eligible_ids_ordered[OF assms] this, of "req_Model req" rot]
  have "mset ?run = mset [0..<length idx]"
    using fair by (intro set_eq_iff_mset_eq_distinct[THEN iffD1]) auto
  then have "mset (rr_run (length idx) req ws rot) = image_mset (\<lambda>i. Inr (ws ! (idx ! i))) (mset [0..<length idx])"
    by (simp add: rr_run_rotor[OF assms(1)])
  also have "\<dots> = mset (map (\<lambda>j. Inr (ws ! j)) (map (\<lambda>i. idx ! i) [0..<length idx]))"
    by (simp add: multiset.map_comp comp_def)
  finally show ?thesis by (simp add: map_nth)
qed

theorem round_robin_fair_witness:
  "mset (rr_run 2 ex_request [ex_worker ''b'' 2, ex_worker ''a'' 1] [(''m'', ''a'')])
   = {# Inr (ex_worker ''a'' 1), Inr (ex_worker ''b'' 2) #}"
  using round_robin_fair[OF ex_eligible, of "[(''m'', ''a'')]"] by (simp add: ex_worker_def numeral_2_eq_2)

text \<open>A least-loaded strategy (least-active, least-queue) returns a candidate of minimum load: a worker that serves
  the model, is ready, is offered by the registry and has a free slot, and no other such worker is less loaded.\<close>

theorem least_loaded_minimal:
  assumes "leastLoaded_SelectWorker load ctx intN req ws rot = (rot', Inr w)"
  shows "w \<in> set ws \<and> candidate req w \<and> (\<forall>v \<in> set ws. candidate req v \<longrightarrow> load w \<le> load v)"
proof -
  obtain idx where idx: "eligible req ws = Inr idx" and w: "snd (chooseWith load rot (req_Model req) ws idx) = w"
    using assms by (auto simp: leastLoaded_SelectWorker_def split: option.splits sum.splits prod.splits)
  obtain j where j: "j \<in> set idx" "w = ws ! j" "\<forall>i \<in> set idx. load (ws ! j) \<le> load (ws ! i)"
    using chooseWith_spec[OF eligible_Inr(1)[OF idx], of load rot "req_Model req" ws] w by auto
  have "load w \<le> load v" if "v \<in> set ws" "candidate req v" for v
    using j(2,3) that eligible_Inr(2)[OF idx] by (auto simp: in_set_conv_nth)
  with j show ?thesis using eligible_Inr(2)[OF idx] by auto
qed

theorem least_loaded_minimal_witness:
  "candidate ex_request (ex_worker ''a'' 1) \<and> activeLoad (ex_worker ''a'' 1) \<le> activeLoad (ex_worker ''b'' 2)"
proof -
  have "leastLoaded_SelectWorker activeLoad None (\<lambda>_. 0) ex_request [ex_worker ''b'' 2, ex_worker ''a'' 1] []
      = ([(''m'', ''a'')], Inr (ex_worker ''a'' 1))"
    by code_simp
  from least_loaded_minimal[OF this] show ?thesis
    by (simp add: candidate_def ex_request_def ex_worker_def metrics_zero_def activeLoad_def)
qed

text \<open>The shared filter refuses a request exactly when no given worker may serve it, and the error it returns counts
  the workers that serve the model and those of them that are offered; all the offered ones are then full, so "all
  full" (some offered), "all dead" (some serving, none offered) and "unknown model" (none serving) are told apart.\<close>

theorem no_worker_diagnosis:
  "(case eligible req ws of
      Inl why \<Rightarrow> (\<forall>w \<in> set ws. \<not> candidate req w)
        \<and> Serving why = count_if (\<lambda>w. Model w = req_Model req) ws
        \<and> NumEligible why = count_if (\<lambda>w. Model w = req_Model req \<and> routable w) ws
        \<and> AtCapacity why = NumEligible why
        \<and> (UnknownModel why \<longleftrightarrow> (\<forall>w \<in> set ws. Model w \<noteq> req_Model req))
    | Inr idx \<Rightarrow> idx \<noteq> [] \<and> distinct idx \<and> sorted (map (\<lambda>j. WorkerID (ws ! j)) idx)
        \<and> set idx = {i. i < length ws \<and> candidate req (ws ! i)})"
proof (cases "eligible req ws")
  case (Inl why)
  then have "\<forall>w \<in> set ws. \<not> candidate req w" using eligible_Inl_iff[of req ws] by blast
  then show ?thesis using eligible_Inl[OF Inl] by (simp add: Inl UnknownModel_def count_if_0)
next
  case (Inr idx)
  show ?thesis using eligible_Inr[OF Inr] by (simp add: Inr)
qed

theorem no_worker_diagnosis_witness:
  "Inr [1, 0] = eligible ex_request [ex_worker ''b'' 2, ex_worker ''a'' 1] \<and> distinct [1, 0 :: nat]"
  using no_worker_diagnosis[where req = ex_request and ws = "[ex_worker ''b'' 2, ex_worker ''a'' 1]"] by (simp add: ex_eligible)

end
