(* ===== verification/Window.thy ===== *)
theory Window
  imports Go_Base
begin

text \<open>
  The sliding window of \<^verbatim>\<open>internal/resilience/doc.go\<close>: two counters per whole-second bucket, kept in a ring that is
  allocated once. The abstraction \<open>wcount\<close> reads the ring as a function from buckets to counters; the locale
  \<open>window\<close> is what the retry budget and the circuit breakers rely on, and the ring interprets it.
\<close>

section \<open>The ring\<close>

definition bucketWidth :: duration where
  "bucketWidth = second"

datatype counter = Counter0 | Counter1

record slidingWindow =
  sw_n :: int
  stamp :: "int list"
  vals :: "(int \<times> int) list"

definition newSlidingWindow :: "duration \<Rightarrow> slidingWindow" where
  "newSlidingWindow w =
     (let n0 = go_div (w + bucketWidth - 1) bucketWidth; n = (if n0 < 1 then 1 else n0)
      in \<lparr>sw_n = n, stamp = replicate (nat n) 0, vals = replicate (nat n) (0, 0)\<rparr>)"

definition bucketOf :: "time \<Rightarrow> int" where
  "bucketOf t = go_div t bucketWidth"

definition slot :: "slidingWindow \<Rightarrow> int \<Rightarrow> nat" where
  "slot w idx = nat (go_mod (go_mod idx (sw_n w) + sw_n w) (sw_n w))"

fun get_counter :: "counter \<Rightarrow> int \<times> int \<Rightarrow> int" where
  "get_counter Counter0 (a, b) = a"
| "get_counter Counter1 (a, b) = b"

fun add_counter :: "counter \<Rightarrow> int \<Rightarrow> int \<times> int \<Rightarrow> int \<times> int" where
  "add_counter Counter0 d (a, b) = (if a + d < 0 then 0 else a + d, b)"
| "add_counter Counter1 d (a, b) = (a, if b + d < 0 then 0 else b + d)"

definition window_add :: "time \<Rightarrow> time \<Rightarrow> counter \<Rightarrow> int \<Rightarrow> slidingWindow \<Rightarrow> slidingWindow" where
  "window_add t now which delta w =
     (let idx = bucketOf t; cur = bucketOf now in
      if idx \<le> cur - sw_n w \<or> idx > cur then w
      else let s = slot w idx;
               w1 = (if stamp w ! s \<noteq> idx
                     then w\<lparr>stamp := (stamp w)[s := idx], vals := (vals w)[s := (0, 0)]\<rparr> else w)
           in w1\<lparr>vals := (vals w1)[s := add_counter which delta (vals w1 ! s)]\<rparr>)"

definition window_sum :: "time \<Rightarrow> slidingWindow \<Rightarrow> int \<times> int" where
  "window_sum now w =
     (let cur = bucketOf now in
      foldl (\<lambda>(a, b) s.
          let idx = stamp w ! s in
          if idx > cur - sw_n w \<and> idx \<le> cur then (a + fst (vals w ! s), b + snd (vals w ! s)) else (a, b))
        (0, 0) [0..<length (stamp w)])"

definition window_reset :: "slidingWindow \<Rightarrow> slidingWindow" where
  "window_reset w = w\<lparr>stamp := map (\<lambda>_. 0) (stamp w), vals := map (\<lambda>_. (0, 0)) (vals w)\<rparr>"

section \<open>Invariant and abstraction\<close>

definition window_ok :: "slidingWindow \<Rightarrow> bool" where
  "window_ok w \<longleftrightarrow> 1 \<le> sw_n w \<and> length (stamp w) = nat (sw_n w) \<and> length (vals w) = nat (sw_n w)
     \<and> (\<forall>s < nat (sw_n w). (slot w (stamp w ! s) = s \<or> vals w ! s = (0, 0))
          \<and> 0 \<le> fst (vals w ! s) \<and> 0 \<le> snd (vals w ! s))"

definition wpair :: "slidingWindow \<Rightarrow> int \<Rightarrow> int \<times> int" where
  "wpair w idx = (if stamp w ! slot w idx = idx then vals w ! slot w idx else (0, 0))"

definition wcount :: "counter \<Rightarrow> slidingWindow \<Rightarrow> int \<Rightarrow> int" where
  "wcount c w idx = get_counter c (wpair w idx)"

definition no_future :: "int \<Rightarrow> slidingWindow \<Rightarrow> bool" where
  \<comment> \<open>nothing is counted after bucket \<open>cur\<close>\<close>
  "no_future cur w \<longleftrightarrow> (\<forall>c idx. cur < idx \<longrightarrow> wcount c w idx = 0)"

lemma slot_mod: "1 \<le> sw_n w \<Longrightarrow> slot w idx = nat (idx mod sw_n w)"
  by (simp add: slot_def go_floor_mod)

lemma slot_lt: "1 \<le> sw_n w \<Longrightarrow> slot w idx < nat (sw_n w)"
  by (simp add: slot_mod nat_less_eq_zless)

lemma slot_eq_iff: "1 \<le> sw_n w \<Longrightarrow> slot w i = slot w j \<longleftrightarrow> i mod sw_n w = j mod sw_n w"
  by (simp add: slot_mod eq_nat_nat_iff)

lemma slot_cong: "sw_n w = sw_n v \<Longrightarrow> slot w = slot v"
  by (auto simp: slot_def)

lemma slot_window_inj:
  assumes "1 \<le> sw_n w" "slot w i = slot w j" "cur - sw_n w < i" "i \<le> cur" "cur - sw_n w < j" "j \<le> cur"
  shows "i = j"
proof -
  have "sw_n w dvd i - j" using assms(1,2) by (simp add: slot_eq_iff mod_eq_dvd_iff)
  moreover have "\<bar>i - j\<bar> < sw_n w" using assms(3-6) by linarith
  ultimately show ?thesis using zdvd_not_zless[of "i - j" "sw_n w"] zdvd_not_zless[of "j - i" "sw_n w"]
    by (metis abs_if dvd_diff_commute diff_gt_0_iff_gt linorder_neqE_linordered_idom neg_0_less_iff_less minus_diff_eq)
qed

lemma bucketOf_mono: "s \<le> t \<Longrightarrow> bucketOf s \<le> bucketOf t"
  by (simp add: bucketOf_def bucketWidth_def go_div_mono)

section \<open>The ring implements the counters\<close>

lemma slot_bij:
  assumes "1 \<le> sw_n w"
  shows "bij_betw (slot w) {cur - sw_n w<..cur} {0..<nat (sw_n w)}"
proof -
  have inj: "inj_on (slot w) {cur - sw_n w<..cur}"
    using slot_window_inj[OF assms, of _ _ cur] by (auto intro!: inj_onI)
  have "card (slot w ` {cur - sw_n w<..cur}) = card {0..<nat (sw_n w)}"
    using card_image[OF inj] by simp
  moreover have "slot w ` {cur - sw_n w<..cur} \<subseteq> {0..<nat (sw_n w)}"
    using slot_lt[OF assms] by auto
  ultimately have "slot w ` {cur - sw_n w<..cur} = {0..<nat (sw_n w)}"
    by (intro card_subset_eq) simp_all
  with inj show ?thesis by (simp add: bij_betw_def)
qed

lemma foldl_pair_sum:
  "foldl (\<lambda>(a, b) s. if P s then (a + f s, b + g s) else (a, b)) (a, b) xs =
     (a + (\<Sum>s\<leftarrow>xs. if P s then f s else 0), b + (\<Sum>s\<leftarrow>xs. if P s then g s else 0))" for f g :: "'a \<Rightarrow> int"
  by (induction xs arbitrary: a b) auto

lemma ring_sum:
  assumes "window_ok w"
  shows "(\<Sum>s \<in> {0..<nat (sw_n w)}. if cur - sw_n w < stamp w ! s \<and> stamp w ! s \<le> cur then get_counter c (vals w ! s) else 0)
    = (\<Sum>idx \<in> {cur - sw_n w<..cur}. wcount c w idx)"
proof -
  have n: "1 \<le> sw_n w" using assms by (simp add: window_ok_def)
  have z: "get_counter c (0, 0) = 0" by (cases c) simp_all
  let ?g = "\<lambda>s. if cur - sw_n w < stamp w ! s \<and> stamp w ! s \<le> cur then get_counter c (vals w ! s) else 0"
  have "wcount c w idx = ?g (slot w idx)" if "idx \<in> {cur - sw_n w<..cur}" for idx
  proof (cases "stamp w ! slot w idx = idx")
    case False
    have "slot w (stamp w ! slot w idx) = slot w idx \<or> vals w ! slot w idx = (0, 0)"
      using assms slot_lt[OF n, of idx] by (auto simp: window_ok_def)
    moreover have "slot w (stamp w ! slot w idx) = slot w idx \<Longrightarrow> \<not> (cur - sw_n w < stamp w ! slot w idx \<and> stamp w ! slot w idx \<le> cur)"
      using slot_window_inj[OF n, of "stamp w ! slot w idx" idx cur] False that by auto
    ultimately show ?thesis using False z by (auto simp: wcount_def wpair_def)
  qed (use that in \<open>simp add: wcount_def wpair_def\<close>)
  then have "(\<Sum>idx \<in> {cur - sw_n w<..cur}. wcount c w idx) = (\<Sum>idx \<in> {cur - sw_n w<..cur}. ?g (slot w idx))"
    by (rule sum.cong[OF refl])
  also have "\<dots> = (\<Sum>s \<in> {0..<nat (sw_n w)}. ?g s)" by (rule sum.reindex_bij_betw[OF slot_bij[OF n]])
  finally show ?thesis by simp
qed

lemma window_sum_wcount:
  assumes "window_ok w"
  shows "window_sum now w = (\<Sum>idx \<in> {bucketOf now - sw_n w<..bucketOf now}. wcount Counter0 w idx,
    \<Sum>idx \<in> {bucketOf now - sw_n w<..bucketOf now}. wcount Counter1 w idx)"
proof -
  have c: "get_counter Counter0 p = fst p" "get_counter Counter1 p = snd p" for p by (cases p; simp)+
  have "length (stamp w) = nat (sw_n w)" using assms by (simp add: window_ok_def)
  then show ?thesis
    unfolding ring_sum[OF assms, symmetric] window_sum_def Let_def foldl_pair_sum c
    by (simp add: interv_sum_list_conv_sum_set_nat)
qed

lemma add_counter_nonneg:
  "0 \<le> fst p \<Longrightarrow> 0 \<le> snd p \<Longrightarrow> 0 \<le> fst (add_counter c d p) \<and> 0 \<le> snd (add_counter c d p)"
  by (cases c; cases p) auto

lemma get_add_counter: "get_counter c (add_counter c' d p) = (if c = c' then max 0 (get_counter c p + d) else get_counter c p)"
  by (cases c; cases c'; cases p) auto

lemma window_add_n [simp]: "sw_n (window_add t now c d w) = sw_n w"
  by (simp add: window_add_def Let_def)

lemma window_add_out: "bucketOf t \<le> bucketOf now - sw_n w \<or> bucketOf now < bucketOf t \<Longrightarrow> window_add t now c d w = w"
  by (auto simp: window_add_def Let_def)

lemma window_add_ok:
  assumes "window_ok w"
  shows "window_ok (window_add t now c d w)"
proof -
  have n: "1 \<le> sw_n w" using assms by (simp add: window_ok_def)
  let ?s = "slot w (bucketOf t)"
  have s: "?s < nat (sw_n w)" by (rule slot_lt[OF n])
  have sl: "slot (w\<lparr>stamp := a, vals := b\<rparr>) = slot w" "slot (w\<lparr>vals := b\<rparr>) = slot w" for a b by (simp_all add: slot_def fun_eq_iff)
  have nn: "0 \<le> fst (vals w ! k) \<and> 0 \<le> snd (vals w ! k)" if "k < nat (sw_n w)" for k
    using assms that by (simp add: window_ok_def)
  show ?thesis
    using assms s add_counter_nonneg[of "(0, 0)" c d] add_counter_nonneg[of "vals w ! ?s" c d] nn[OF s]
    by (auto simp: window_add_def Let_def window_ok_def sl nth_list_update)
qed

lemma wcount_window_add:
  assumes "window_ok w" "bucketOf now - sw_n w < bucketOf t" "bucketOf t \<le> bucketOf now"
  shows "wcount c (window_add t now c' d w) idx =
    (if idx = bucketOf t then if c = c' then max 0 (wcount c w idx + d) else wcount c w idx
     else if slot w idx = slot w (bucketOf t) then 0 else wcount c w idx)"
proof -
  have n: "1 \<le> sw_n w" using assms by (simp add: window_ok_def)
  let ?s = "slot w (bucketOf t)"
  have s: "?s < length (stamp w)" "?s < length (vals w)" using slot_lt[OF n] assms(1) by (simp_all add: window_ok_def)
  have sl: "slot (w\<lparr>stamp := a, vals := b\<rparr>) = slot w" "slot (w\<lparr>vals := b\<rparr>) = slot w" for a b by (simp_all add: slot_def fun_eq_iff)
  have z: "get_counter c (0, 0) = 0" by (cases c) simp_all
  show ?thesis
    using assms(2,3) s z
    by (auto simp: window_add_def Let_def wcount_def wpair_def sl nth_list_update get_add_counter)
qed

lemma wcount_nonneg: "window_ok w \<Longrightarrow> 0 \<le> wcount c w idx"
  using slot_lt[of w idx] by (cases c; cases "vals w ! slot w idx") (force simp: wcount_def wpair_def window_ok_def)+

lemma window_reset_ok: "window_ok w \<Longrightarrow> window_ok (window_reset w)"
  by (auto simp: window_ok_def window_reset_def)

lemma wcount_reset: "window_ok w \<Longrightarrow> wcount c (window_reset w) idx = 0"
  using slot_lt[of w idx] slot_cong[of "window_reset w" w]
  by (cases c) (auto simp: wcount_def wpair_def window_ok_def window_reset_def)

lemma newSlidingWindow_n: "sw_n (newSlidingWindow d) = (if go_div (d + bucketWidth - 1) bucketWidth < 1 then 1 else go_div (d + bucketWidth - 1) bucketWidth)"
  by (simp add: newSlidingWindow_def Let_def)

lemma newSlidingWindow_ok: "window_ok (newSlidingWindow d)"
  by (auto simp: window_ok_def newSlidingWindow_def Let_def)

lemma wcount_new: "wcount c (newSlidingWindow d) idx = 0"
proof -
  have "slot (newSlidingWindow d) idx < nat (sw_n (newSlidingWindow d))"
    using newSlidingWindow_ok[of d] by (intro slot_lt) (simp add: window_ok_def)
  then show ?thesis by (cases c) (auto simp: wcount_def wpair_def newSlidingWindow_def Let_def)
qed

section \<open>What the owners of a window rely on\<close>

record window_event =
  ev_t :: time
  ev_now :: time
  ev_counter :: counter
  ev_delta :: int

locale window =
  fixes wok :: "'w \<Rightarrow> bool"
    and len :: "'w \<Rightarrow> int"
    and cnt :: "counter \<Rightarrow> 'w \<Rightarrow> int \<Rightarrow> int"
    and add :: "time \<Rightarrow> time \<Rightarrow> counter \<Rightarrow> int \<Rightarrow> 'w \<Rightarrow> 'w"
    and wsum :: "time \<Rightarrow> 'w \<Rightarrow> int \<times> int"
    and reset :: "'w \<Rightarrow> 'w"
  assumes len_pos: "wok w \<Longrightarrow> 1 \<le> len w"
    and cnt_nonneg: "wok w \<Longrightarrow> 0 \<le> cnt c w idx"
    and sum_cnt: "wok w \<Longrightarrow> wsum now w = (\<Sum>idx \<in> {bucketOf now - len w<..bucketOf now}. cnt Counter0 w idx,
          \<Sum>idx \<in> {bucketOf now - len w<..bucketOf now}. cnt Counter1 w idx)"
    and add_ok: "wok w \<Longrightarrow> wok (add t now c d w)"
    and add_len: "wok w \<Longrightarrow> len (add t now c d w) = len w"
    and add_out: "bucketOf t \<le> bucketOf now - len w \<or> bucketOf now < bucketOf t \<Longrightarrow> add t now c d w = w"
    and add_cnt: "wok w \<Longrightarrow> bucketOf now - len w < bucketOf t \<Longrightarrow> bucketOf t \<le> bucketOf now
          \<Longrightarrow> bucketOf now - len w < idx \<Longrightarrow> idx \<le> bucketOf now
          \<Longrightarrow> cnt c (add t now c' d w) idx = (if idx = bucketOf t \<and> c = c' then max 0 (cnt c w idx + d) else cnt c w idx)"
    and add_future: "wok w \<Longrightarrow> bucketOf now < idx \<Longrightarrow> cnt c w idx = 0 \<Longrightarrow> cnt c (add t now c' d w) idx = 0"
    and reset_ok: "wok w \<Longrightarrow> wok (reset w)"
    and reset_len: "wok w \<Longrightarrow> len (reset w) = len w"
    and reset_cnt: "wok w \<Longrightarrow> cnt c (reset w) idx = 0"
begin

lemma get_sum: "wok w \<Longrightarrow> get_counter c (wsum now w) = (\<Sum>idx \<in> {bucketOf now - len w<..bucketOf now}. cnt c w idx)"
  by (cases c) (simp_all add: sum_cnt)

lemma sum_nonneg': "wok w \<Longrightarrow> 0 \<le> get_counter c (wsum now w)"
  by (simp add: get_sum sum_nonneg cnt_nonneg)

lemma cnt_le_sum:
  assumes "wok w" "bucketOf now - len w < idx" "idx \<le> bucketOf now"
  shows "cnt c w idx \<le> get_counter c (wsum now w)"
  unfolding get_sum[OF assms(1)] using assms cnt_nonneg[OF assms(1)] by (intro member_le_sum) auto

lemma sum_add:
  \<comment> \<open>an addition inside the window moves one counter's sum by the change of one bucket\<close>
  assumes "wok w" "bucketOf now - len w < bucketOf t" "bucketOf t \<le> bucketOf now"
  shows "get_counter c (wsum now (add t now c' d w)) = get_counter c (wsum now w)
    + (if c = c' then max 0 (cnt c w (bucketOf t) + d) - cnt c w (bucketOf t) else 0)"
proof -
  let ?W = "{bucketOf now - len w<..bucketOf now}"
  have t: "bucketOf t \<in> ?W" using assms by simp
  have "get_counter c (wsum now (add t now c' d w)) = (\<Sum>idx \<in> ?W. cnt c (add t now c' d w) idx)"
    using assms(1) by (simp add: get_sum add_ok add_len)
  also have "\<dots> = (\<Sum>idx \<in> ?W. cnt c w idx + (if idx = bucketOf t then if c = c' then max 0 (cnt c w (bucketOf t) + d) - cnt c w (bucketOf t) else 0 else 0))"
    using assms by (intro sum.cong) (auto simp: add_cnt)
  also have "\<dots> = get_counter c (wsum now w) + (if c = c' then max 0 (cnt c w (bucketOf t) + d) - cnt c w (bucketOf t) else 0)"
    using assms(1) t by (simp add: sum.distrib sum.delta get_sum)
  finally show ?thesis .
qed

lemma sum_add_now:
  assumes "wok w" "0 \<le> d"
  shows "get_counter c (wsum now (add now now c' d w)) = get_counter c (wsum now w) + (if c = c' then d else 0)"
  using sum_add[OF assms(1), of now now c c' d] len_pos[OF assms(1)] cnt_nonneg[OF assms(1), of c "bucketOf now"] assms(2)
  by (auto simp: max_def split: if_splits)

lemma add_cnt_all:
  assumes "wok w" "bucketOf now - len w < idx" "\<forall>i > bucketOf now. cnt c w i = 0"
  shows "cnt c (add t now c' d w) idx = (if c = c' \<and> idx = bucketOf t \<and> idx \<le> bucketOf now
    then max 0 (cnt c w idx + d) else cnt c w idx)"
proof (cases "bucketOf now - len w < bucketOf t \<and> bucketOf t \<le> bucketOf now")
  case True
  show ?thesis
  proof (cases "idx \<le> bucketOf now")
    case False
    with True assms show ?thesis by (auto intro: add_future)
  qed (use assms True in \<open>auto simp: add_cnt\<close>)
next
  case False
  then have "add t now c' d w = w" by (intro add_out) auto
  with False assms(2) show ?thesis by auto
qed

lemma sum_reset: "wok w \<Longrightarrow> wsum now (reset w) = (0, 0)"
  by (simp add: sum_cnt reset_ok reset_cnt)

primrec run_log :: "window_event list \<Rightarrow> 'w \<Rightarrow> 'w" where
  "run_log [] w = w"
| "run_log (e # es) w = run_log es (add (ev_t e) (ev_now e) (ev_counter e) (ev_delta e) w)"

lemma run_log_append: "run_log (xs @ ys) w = run_log ys (run_log xs w)"
  by (induction xs arbitrary: w) simp_all

lemma run_log_ok: "wok w \<Longrightarrow> wok (run_log es w) \<and> len (run_log es w) = len w"
  by (induction es arbitrary: w) (simp_all add: add_ok add_len)

end

fun bucket_count :: "int \<Rightarrow> counter \<Rightarrow> int \<Rightarrow> window_event list \<Rightarrow> int" where
  \<comment> \<open>what one bucket's counter holds after the additions: each moves it, never below zero, while it is in the window\<close>
  "bucket_count n c idx [] = 0"
| "bucket_count n c idx (e # es) =
     (let x = bucket_count n c idx es in
      if idx = bucketOf (ev_t e) \<and> c = ev_counter e \<and> bucketOf (ev_now e) - n < idx \<and> idx \<le> bucketOf (ev_now e)
      then max 0 (x + ev_delta e) else x)"

context window
begin

lemma log_counts:
  \<comment> \<open>events newest first; the clock does not run backwards\<close>
  assumes "wok w" "\<And>c idx. cnt c w idx = 0" "sorted_wrt (\<lambda>e e'. bucketOf (ev_now e') \<le> bucketOf (ev_now e)) es"
    and "\<forall>e \<in> set es. bucketOf (ev_now e) \<le> cur" "cur - len w < idx"
  shows "cnt c (run_log (rev es) w) idx = bucket_count (len w) c idx es"
  using assms(3-5)
proof (induction es arbitrary: cur c idx)
  case Nil
  then show ?case by (simp add: assms(2))
next
  case (Cons e es)
  let ?v = "run_log (rev es) w" and ?now = "bucketOf (ev_now e)"
  have v: "wok ?v" "len ?v = len w" using run_log_ok[OF assms(1)] by auto
  have IH: "cnt c' ?v i = bucket_count (len w) c' i es" if "?now - len w < i" for c' i
    using Cons.IH[of "?now" i c'] Cons.prems that by auto
  have future: "bucket_count (len w) c' i es = 0" if "?now < i" for c' i
    using Cons.prems(1) that by (induction es) (auto simp: Let_def)
  have step: "run_log (rev (e # es)) w = add (ev_t e) (ev_now e) (ev_counter e) (ev_delta e) ?v"
    by (simp add: run_log_append)
  have "?now \<le> cur" using Cons.prems(2) by simp
  then have i: "?now - len w < idx" using Cons.prems(3) by linarith
  show ?case
  proof (cases "idx \<le> ?now")
    case True
    show ?thesis
    proof (cases "?now - len w < bucketOf (ev_t e) \<and> bucketOf (ev_t e) \<le> ?now")
      case t: True
      have "cnt c (run_log (rev (e # es)) w) idx
          = (if idx = bucketOf (ev_t e) \<and> c = ev_counter e then max 0 (cnt c ?v idx + ev_delta e) else cnt c ?v idx)"
        unfolding step by (rule add_cnt) (use t i True v in auto)
      then show ?thesis using IH[OF i] i True by (auto simp: Let_def)
    next
      case False
      then have "run_log (rev (e # es)) w = ?v" unfolding step by (intro add_out) (use v in auto)
      then show ?thesis using IH[OF i] False i True by (auto simp: Let_def)
    qed
  next
    case False
    then have "cnt c ?v idx = 0" using IH[OF i] future by simp
    then have "cnt c (run_log (rev (e # es)) w) idx = 0" unfolding step using v False by (intro add_future) auto
    then show ?thesis using False future[of idx c] by (simp add: Let_def)
  qed
qed

lemma log_sum:
  assumes "wok w" "\<And>c idx. cnt c w idx = 0" "sorted_wrt (\<lambda>e e'. bucketOf (ev_now e') \<le> bucketOf (ev_now e)) es"
    and "\<forall>e \<in> set es. bucketOf (ev_now e) \<le> bucketOf now"
  shows "get_counter c (wsum now (run_log (rev es) w)) = (\<Sum>idx \<in> {bucketOf now - len w<..bucketOf now}. bucket_count (len w) c idx es)"
proof -
  have v: "wok (run_log (rev es) w)" "len (run_log (rev es) w) = len w" using run_log_ok[OF assms(1)] by auto
  show ?thesis
    unfolding get_sum[OF v(1)] v(2) using assms by (intro sum.cong[OF refl] log_counts) auto
qed

end

interpretation win: window window_ok sw_n wcount window_add window_sum window_reset
proof
  fix w :: slidingWindow and t now c d idx c'
  assume w: "window_ok w"
  show "1 \<le> sw_n w" using w by (simp add: window_ok_def)
  show "0 \<le> wcount c w idx" by (rule wcount_nonneg[OF w])
  show "window_ok (window_add t now c d w)" by (rule window_add_ok[OF w])
  show "sw_n (window_add t now c d w) = sw_n w" by simp
  show "window_ok (window_reset w)" by (rule window_reset_ok[OF w])
  show "sw_n (window_reset w) = sw_n w" by (simp add: window_reset_def)
  show "wcount c (window_reset w) idx = 0" by (rule wcount_reset[OF w])
  show "wcount c (window_add t now c' d w) idx = (if idx = bucketOf t \<and> c = c' then max 0 (wcount c w idx + d) else wcount c w idx)"
    if "bucketOf now - sw_n w < bucketOf t" "bucketOf t \<le> bucketOf now" "bucketOf now - sw_n w < idx" "idx \<le> bucketOf now"
    using slot_window_inj[of w idx "bucketOf t" "bucketOf now"] w that
    by (auto simp: wcount_window_add window_ok_def)
  show "wcount c (window_add t now c' d w) idx = 0" if "bucketOf now < idx" "wcount c w idx = 0"
  proof (cases "bucketOf t \<le> bucketOf now - sw_n w \<or> bucketOf now < bucketOf t")
    case True
    then show ?thesis using that(2) by (simp add: window_add_out)
  next
    case False
    then show ?thesis using that by (simp add: wcount_window_add[OF w])
  qed
qed (simp_all add: window_sum_wcount window_add_out)

section \<open>Property\<close>

definition tick :: "counter \<Rightarrow> time \<Rightarrow> window_event" where
  "tick c t = \<lparr>ev_t = t, ev_now = t, ev_counter = c, ev_delta = 1\<rparr>"

lemma bucket_count_ticks:
  assumes "1 \<le> n"
  shows "bucket_count n c idx (map (\<lambda>(c', t). tick c' t) ts) = int (count_if (\<lambda>p. fst p = c \<and> bucketOf (snd p) = idx) ts)"
proof (induction ts)
  case (Cons p ts)
  obtain c' t where p: "p = (c', t)" by force
  have m: "max 0 (int k + 1) = int (Suc k)" for k by (simp add: max_def)
  have w: "bucketOf t - n < bucketOf t" using assms by simp
  show ?case
    using Cons w by (cases "idx = bucketOf t \<and> c = c'") (auto simp: p tick_def Let_def m simp del: of_nat_Suc)
qed simp

definition run_window :: "(counter \<times> time) list \<Rightarrow> slidingWindow \<Rightarrow> slidingWindow" where
  \<comment> \<open>each event counted at the time it happens, oldest first\<close>
  "run_window evs w = fold (\<lambda>(c, t). window_add t t c 1) evs w"

lemma run_window_log: "run_window evs w = win.run_log (map (\<lambda>(c, t). tick c t) evs) w"
  by (induction evs arbitrary: w) (auto simp: run_window_def tick_def)

lemma run_window_counts:
  assumes "sorted (map snd evs)" "\<forall>(c, t) \<in> set evs. t \<le> now" "w = newSlidingWindow d"
  shows "get_counter c (window_sum now (run_window evs w)) =
    int (count_if (\<lambda>(c', t). c' = c \<and> bucketOf now - sw_n w < bucketOf t) evs)"
proof -
  let ?es = "map (\<lambda>(c, t). tick c t) (rev evs)"
  have "sorted_wrt (\<lambda>e e'. bucketOf (ev_now e') \<le> bucketOf (ev_now e)) ?es"
    using assms(1) unfolding sorted_map sorted_wrt_map rev_map[symmetric] sorted_wrt_rev
    by (rule sorted_wrt_mono_rel[rotated]) (auto simp: tick_def bucketOf_mono case_prod_beta)
  moreover have "\<forall>e \<in> set ?es. bucketOf (ev_now e) \<le> bucketOf now"
    using assms(2) by (auto simp: tick_def bucketOf_mono)
  moreover have "run_window evs w = win.run_log (rev ?es) w" by (simp add: run_window_log rev_map)
  ultimately have "get_counter c (window_sum now (run_window evs w)) =
      (\<Sum>idx \<in> {bucketOf now - sw_n w<..bucketOf now}. bucket_count (sw_n w) c idx ?es)"
    using win.log_sum[of w ?es now c] by (simp add: assms(3) newSlidingWindow_ok wcount_new)
  also have "\<dots> = int (count_if (\<lambda>p. fst p = c \<and> bucketOf (snd p) \<in> {bucketOf now - sw_n w<..bucketOf now}) (rev evs))"
    using newSlidingWindow_ok[of d] by (subst bucket_count_ticks) (simp_all add: sum_count_if assms(3) window_ok_def)
  also have "\<dots> = int (count_if (\<lambda>(c', t). c' = c \<and> bucketOf now - sw_n w < bucketOf t) evs)"
    using assms(2) by (auto simp: count_if_def bucketOf_mono simp flip: rev_filter intro!: arg_cong[of _ _ length] filter_cong)
  finally show ?thesis .
qed

text \<open>C25: The ring counts exactly the events of the last \<open>n\<close> whole seconds. Events counted as they happen, with a clock
  that does not run backwards, are summed to the number of those whose bucket is one of the last \<open>n\<close>, however often
  the ring has wrapped around.\<close>

theorem window_counts_events:
  assumes "sorted (map snd evs)" "\<forall>(c, t) \<in> set evs. t \<le> now" "w = newSlidingWindow d"
  shows "get_counter c (window_sum now (run_window evs w)) =
    int (count_if (\<lambda>(c', t). c' = c \<and> bucketOf now - sw_n w < bucketOf t) evs)"
  using assms by (rule run_window_counts)

theorem window_counts_events_witness:
  "get_counter Counter1 (window_sum (5 * second) (run_window [(Counter1, second), (Counter1, 4 * second), (Counter0, 5 * second)]
     (newSlidingWindow (3 * second)))) = 1"
proof -
  have "sw_n (newSlidingWindow (3 * second)) = 3"
    by (simp add: newSlidingWindow_n bucketWidth_def second_def go_div_def)
  then show ?thesis
    using window_counts_events[of "[(Counter1, second), (Counter1, 4 * second), (Counter0, 5 * second)]" "5 * second"
      "newSlidingWindow (3 * second)" "3 * second" Counter1]
    by (simp add: bucketOf_def bucketWidth_def second_def go_div_def)
qed

end
