(* ===== verification/Breaker.thy ===== *)
theory Breaker
  imports Window Float64
begin

text \<open>
  \<^verbatim>\<open>internal/resilience/breaker.go\<close>: the state machine of one worker's circuit breaker, with its sliding window, the ring that
  remembers the last consecutive faults, the cool-down doubling and the probe tickets of the half-open state. The
  random draw of the jitter is an argument.
\<close>

section \<open>Types\<close>

datatype breaker_state = Closed | HalfOpen | Open

datatype verdict = Neutral | OK | Fault | RatioFault

datatype change_reason = ReasonConsecutive | ReasonRatio | ReasonCoolDown | ReasonProbeFailed
  | ReasonProbesPassed | ReasonSuppressed | ReasonCapRelaxed

record worker_key =
  k_ID :: string
  k_Registered :: int

definition KeyOf :: "string \<Rightarrow> time \<Rightarrow> worker_key" where
  "KeyOf wid registeredAt = \<lparr>k_ID = wid, k_Registered = registeredAt\<rparr>"

record breaker_params =
  cp_ConsecutiveFailures :: int
  cp_FailureRatio :: float64
  cp_MinVolume :: int
  cp_Window :: duration
  cp_CoolDown :: duration
  cp_MaxCoolDown :: duration
  cp_ProbeConcurrency :: int
  cp_ProbeSuccesses :: int
  cp_MaxOpenFraction :: float64
  cp_HeaderTimeout :: duration

record change =
  ch_Key :: worker_key
  ch_From :: breaker_state
  ch_To :: breaker_state
  ch_Reason :: change_reason
  ch_Failures :: int
  ch_CoolDown :: duration
  ch_Suppressed :: bool

record breaker =
  b_key :: worker_key
  b_model :: string
  b_eligible :: bool
  b_state :: breaker_state
  b_win :: slidingWindow
  b_streak :: "time list"
  b_streakPos :: nat
  b_streakLen :: nat
  b_suppressed :: bool
  b_level :: nat
  b_everOpened :: bool
  b_closedAt :: time
  b_ejectedAt :: time
  b_openUntil :: time
  b_coolDown :: duration
  b_epoch :: nat
  b_nextID :: nat
  b_tickets :: "(nat, time) gomap"
  b_successes :: int

section \<open>Operations\<close>

definition normalize :: "breaker_params \<Rightarrow> breaker_params" where
  "normalize p0 =
     (let p1 = (if cp_ConsecutiveFailures p0 < 1 then p0\<lparr>cp_ConsecutiveFailures := 1\<rparr> else p0);
          p2 = (if cp_MinVolume p1 < 1 then p1\<lparr>cp_MinVolume := 1\<rparr> else p1);
          p3 = (if cp_Window p2 < bucketWidth then p2\<lparr>cp_Window := bucketWidth\<rparr> else p2);
          p4 = (if cp_CoolDown p3 \<le> 0 then p3\<lparr>cp_CoolDown := millisecond\<rparr> else p3);
          p5 = (if cp_MaxCoolDown p4 < cp_CoolDown p4 then p4\<lparr>cp_MaxCoolDown := cp_CoolDown p4\<rparr> else p4);
          p6 = (if cp_ProbeConcurrency p5 < 1 then p5\<lparr>cp_ProbeConcurrency := 1\<rparr> else p5)
      in if cp_ProbeSuccesses p6 < 1 then p6\<lparr>cp_ProbeSuccesses := 1\<rparr> else p6)"

definition ticketBackstop :: "breaker_params \<Rightarrow> duration" where
  "ticketBackstop p = max (2 * cp_CoolDown p) (cp_HeaderTimeout p + 5 * second)"

definition newBreaker :: "worker_key \<Rightarrow> breaker_params \<Rightarrow> breaker" where
  "newBreaker k p = \<lparr>b_key = k, b_model = [], b_eligible = False, b_state = Closed, b_win = newSlidingWindow (cp_Window p),
     b_streak = replicate (nat (cp_ConsecutiveFailures p)) zero_time, b_streakPos = 0, b_streakLen = 0,
     b_suppressed = False, b_level = 0, b_everOpened = False, b_closedAt = zero_time, b_ejectedAt = zero_time,
     b_openUntil = zero_time, b_coolDown = 0, b_epoch = 0, b_nextID = 0, b_tickets = [], b_successes = 0\<rparr>"

definition advance :: "time \<Rightarrow> breaker_params \<Rightarrow> breaker \<Rightarrow> breaker \<times> change option" where
  "advance now p b =
     (let (b1, ch) =
        (if b_state b = Open \<and> \<not> now < b_openUntil b
         then (b\<lparr>b_state := HalfOpen, b_successes := 0, b_tickets := []\<rparr>,
               Some \<lparr>ch_Key = b_key b, ch_From = Open, ch_To = HalfOpen, ch_Reason = ReasonCoolDown, ch_Failures = 0,
                     ch_CoolDown = b_coolDown b, ch_Suppressed = False\<rparr>)
         else (b, None));
          b2 = (if b_state b1 = HalfOpen \<and> length (b_tickets b1) > 0
                then b1\<lparr>b_tickets := filter (\<lambda>(_, since). \<not> now - since > ticketBackstop p) (b_tickets b1)\<rparr> else b1)
      in (b2, ch))"

definition probeFree :: "breaker_params \<Rightarrow> breaker \<Rightarrow> bool" where
  "probeFree p b \<longleftrightarrow> b_state b = HalfOpen \<and> int (length (b_tickets b)) < cp_ProbeConcurrency p"

definition count_outcome :: "time \<Rightarrow> verdict \<Rightarrow> breaker \<Rightarrow> breaker" where
  \<comment> \<open>the \<^verbatim>\<open>switch\<close> of \<^verbatim>\<open>recordClosed\<close>\<close>
  "count_outcome now v b =
     (case v of
        OK \<Rightarrow> b\<lparr>b_win := window_add now now Counter0 1 (b_win b), b_streakLen := 0, b_streakPos := 0\<rparr>
      | Fault \<Rightarrow> b\<lparr>b_win := window_add now now Counter1 1 (window_add now now Counter0 1 (b_win b)),
                  b_streak := (b_streak b)[b_streakPos b := now],
                  b_streakPos := (b_streakPos b + 1) mod length (b_streak b),
                  b_streakLen := (if b_streakLen b < length (b_streak b) then b_streakLen b + 1 else b_streakLen b)\<rparr>
      | RatioFault \<Rightarrow> b\<lparr>b_win := window_add now now Counter1 1 (window_add now now Counter0 1 (b_win b))\<rparr>
      | Neutral \<Rightarrow> b)"

definition trip_reason :: "time \<Rightarrow> verdict \<Rightarrow> breaker_params \<Rightarrow> breaker \<Rightarrow> change_reason option \<times> int" where
  \<comment> \<open>the two trip rules of \<^verbatim>\<open>recordClosed\<close>, after the outcome was counted; \<^verbatim>\<open>None\<close> is the empty reason\<close>
  "trip_reason now v p b =
     (if v \<noteq> OK \<and> b_streakLen b = length (b_streak b) \<and> now - b_streak b ! b_streakPos b \<le> cp_Window p
      then (Some ReasonConsecutive, int (b_streakLen b))
      else if flt (Fin 0) (cp_FailureRatio p)
      then let (tot, faults) = window_sum now (b_win b) in
           if tot \<ge> cp_MinVolume p \<and> tot > 0 \<and> fle (fmul (cp_FailureRatio p) (float_of tot)) (float_of faults)
           then (Some ReasonRatio, faults) else (None, 0)
      else (None, 0))"

definition recordClosed :: "time \<Rightarrow> verdict \<Rightarrow> breaker_params \<Rightarrow> breaker \<Rightarrow> breaker \<times> change_reason option \<times> int" where
  "recordClosed now v p b =
     (if v = Neutral then (b, None, 0)
      else let b1 = count_outcome now v b in (b1, trip_reason now v p b1))"

fun baseCoolDown_loop :: "breaker_params \<Rightarrow> nat \<Rightarrow> duration \<Rightarrow> duration" where
  "baseCoolDown_loop p 0 d = min d (cp_MaxCoolDown p)"
| "baseCoolDown_loop p (Suc k) d =
     (if d \<ge> go_div (cp_MaxCoolDown p) 2 + go_mod (cp_MaxCoolDown p) 2 then cp_MaxCoolDown p
      else baseCoolDown_loop p k (d * 2))"

definition baseCoolDown :: "breaker_params \<Rightarrow> nat \<Rightarrow> duration" where
  "baseCoolDown p level = baseCoolDown_loop p level (cp_CoolDown p)"

partial_function (option) maxLevel_from :: "breaker_params \<Rightarrow> nat \<Rightarrow> nat option" where
  "maxLevel_from p l = (if baseCoolDown p l < cp_MaxCoolDown p then maxLevel_from p (l + 1) else Some l)"

definition maxLevel :: "breaker_params \<Rightarrow> nat" where
  \<comment> \<open>the loop returns for every normalised parameter set (\<open>maxLevel_returns\<close>)\<close>
  "maxLevel p = the (maxLevel_from p 0)"

definition jitterSpan :: float64 where
  "jitterSpan = flit (2 / 10)"

definition jittered :: "breaker_params \<Rightarrow> float64 \<Rightarrow> nat \<Rightarrow> duration" where
  "jittered p rnd level =
     (let d = trunc_of (fmul (float_of (baseCoolDown p level))
                (fadd (Fin 1) (fmul jitterSpan (fsub (fmul (Fin 2) rnd) (Fin 1)))))
      in min (max d 1) (cp_MaxCoolDown p))"

definition next_level :: "time \<Rightarrow> bool \<Rightarrow> breaker_params \<Rightarrow> breaker \<Rightarrow> nat" where
  "next_level now fromProbe p b =
     (if fromProbe then if b_level b < maxLevel p then b_level b + 1 else b_level b
      else if \<not> b_everOpened b \<or> now - b_closedAt b \<ge> cp_MaxCoolDown p then 0
      else b_level b)"

definition breaker_open :: "time \<Rightarrow> bool \<Rightarrow> breaker_params \<Rightarrow> float64 \<Rightarrow> breaker \<Rightarrow> breaker" where
  "breaker_open now fromProbe p rnd b =
     (let l = next_level now fromProbe p b; d = jittered p rnd l
      in b\<lparr>b_level := l, b_everOpened := True, b_ejectedAt := (if fromProbe then b_ejectedAt b else now),
           b_state := Open, b_coolDown := d, b_openUntil := now + d, b_epoch := b_epoch b + 1,
           b_tickets := [], b_successes := 0, b_suppressed := False\<rparr>)"

definition breaker_close :: "time \<Rightarrow> breaker \<Rightarrow> breaker" where
  "breaker_close now b = b\<lparr>b_state := Closed, b_closedAt := now, b_tickets := [], b_successes := 0,
     b_win := window_reset (b_win b), b_streakLen := 0, b_streakPos := 0, b_suppressed := False\<rparr>"

section \<open>Parameters and cool-downs\<close>

definition params_ok :: "breaker_params \<Rightarrow> bool" where
  "params_ok p \<longleftrightarrow> 1 \<le> cp_ConsecutiveFailures p \<and> 1 \<le> cp_MinVolume p \<and> bucketWidth \<le> cp_Window p \<and> 0 < cp_CoolDown p
     \<and> cp_CoolDown p \<le> cp_MaxCoolDown p \<and> 1 \<le> cp_ProbeConcurrency p \<and> 1 \<le> cp_ProbeSuccesses p"

lemma normalize_ok: "params_ok (normalize p)"
  by (simp add: params_ok_def normalize_def Let_def millisecond_def)

lemma normalize_id: "params_ok p \<Longrightarrow> normalize p = p"
  by (simp add: params_ok_def normalize_def Let_def)

lemma half_up: "0 < m \<Longrightarrow> go_div m 2 + go_mod m 2 \<le> d \<longleftrightarrow> m \<le> d * 2"
  by (simp add: go_div_nonneg go_mod_nonneg) presburger

lemma baseCoolDown_loop_min:
  assumes "0 < cp_MaxCoolDown p" "0 < d"
  shows "baseCoolDown_loop p k d = min (d * 2 ^ k) (cp_MaxCoolDown p)"
  using assms(2)
proof (induction k arbitrary: d)
  case (Suc k)
  show ?case
  proof (cases "cp_MaxCoolDown p \<le> d * 2")
    case True
    have "d * 2 * 1 \<le> d * 2 * 2 ^ k" using Suc.prems by (intro mult_left_mono) simp_all
    then have "cp_MaxCoolDown p \<le> d * 2 ^ Suc k" using True by (simp add: mult.assoc)
    then show ?thesis using True by (simp add: half_up[OF assms(1)] min_def)
  next
    case False
    then show ?thesis using Suc.IH[of "d * 2"] Suc.prems by (simp add: half_up[OF assms(1)] mult.assoc)
  qed
qed simp

lemma baseCoolDown_min: "params_ok p \<Longrightarrow> baseCoolDown p level = min (cp_CoolDown p * 2 ^ level) (cp_MaxCoolDown p)"
  by (simp add: baseCoolDown_def baseCoolDown_loop_min params_ok_def)

lemma maxLevel_from_returns:
  assumes "cp_MaxCoolDown p \<le> baseCoolDown p m" "l \<le> m" "\<And>k. l \<le> k \<Longrightarrow> k < m \<Longrightarrow> baseCoolDown p k < cp_MaxCoolDown p"
  shows "maxLevel_from p l = Some m"
  using assms(2,3)
proof (induction "m - l" arbitrary: l)
  case 0
  then have "l = m" by simp
  then show ?case using assms(1) by (subst maxLevel_from.simps) simp
next
  case (Suc n)
  then have "l < m" by simp
  then have "maxLevel_from p (l + 1) = Some m" using Suc by (intro Suc.hyps(1)) auto
  then show ?case using Suc.prems \<open>l < m\<close> by (simp add: maxLevel_from.simps[of p l])
qed

lemma maxLevel_returns:
  assumes "params_ok p"
  shows "maxLevel_from p 0 = Some (LEAST l. cp_MaxCoolDown p \<le> cp_CoolDown p * 2 ^ l)"
proof -
  let ?P = "\<lambda>l. cp_MaxCoolDown p \<le> cp_CoolDown p * 2 ^ l"
  have "int (nat (cp_MaxCoolDown p)) < 2 ^ nat (cp_MaxCoolDown p)" by (rule of_nat_less_two_power)
  then have "cp_MaxCoolDown p \<le> 2 ^ nat (cp_MaxCoolDown p)" using assms by (simp add: params_ok_def)
  also have "\<dots> \<le> cp_CoolDown p * 2 ^ nat (cp_MaxCoolDown p)"
    using assms by (simp add: params_ok_def)
  finally have ex: "?P (nat (cp_MaxCoolDown p))" .
  have b: "baseCoolDown p l < cp_MaxCoolDown p \<longleftrightarrow> \<not> ?P l" for l
    by (auto simp: baseCoolDown_min[OF assms] min_def)
  show ?thesis
  proof (rule maxLevel_from_returns)
    show "cp_MaxCoolDown p \<le> baseCoolDown p (LEAST l. ?P l)" using LeastI[of ?P, OF ex] b[of "LEAST l. ?P l"] by linarith
    show "baseCoolDown p k < cp_MaxCoolDown p" if "k < (LEAST l. ?P l)" for k using not_less_Least[OF that] b by simp
  qed simp
qed

lemma jittered_range: "params_ok p \<Longrightarrow> 1 \<le> jittered p rnd l \<and> jittered p rnd l \<le> cp_MaxCoolDown p"
  by (auto simp: jittered_def Let_def params_ok_def)

section \<open>The invariant of a breaker\<close>

definition breaker_ok :: "breaker_params \<Rightarrow> breaker \<Rightarrow> bool" where
  "breaker_ok p b \<longleftrightarrow> window_ok (b_win b) \<and> length (b_streak b) = nat (cp_ConsecutiveFailures p)
     \<and> b_streakPos b < length (b_streak b) \<and> b_streakLen b \<le> length (b_streak b)
     \<and> mok (b_tickets b) \<and> (\<forall>(i, since) \<in> set (b_tickets b). i \<le> b_nextID b)
     \<and> int (length (b_tickets b)) \<le> cp_ProbeConcurrency p
     \<and> (b_state b \<noteq> HalfOpen \<longrightarrow> b_tickets b = [] \<and> b_successes b = 0)
     \<and> 0 \<le> b_successes b \<and> b_successes b < cp_ProbeSuccesses p
     \<and> (b_state b = Open \<longrightarrow> 1 \<le> b_coolDown b \<and> b_coolDown b \<le> cp_MaxCoolDown p)"

lemma newBreaker_ok: "params_ok p \<Longrightarrow> breaker_ok p (newBreaker k p)"
  by (simp add: breaker_ok_def newBreaker_def newSlidingWindow_ok params_ok_def)

lemma length_filter_int: "int (length xs) \<le> n \<Longrightarrow> int (length (filter P xs)) \<le> n"
  using length_filter_le[of P xs] by linarith

lemma advance_ok:
  assumes "params_ok p" "breaker_ok p b"
  shows "breaker_ok p (fst (advance now p b))"
  using assms by (auto simp: advance_def breaker_ok_def params_ok_def Let_def length_filter_int)

lemma count_outcome_ok:
  assumes "breaker_ok p b" "b_state b = Closed"
  shows "breaker_ok p (count_outcome now v b)"
  using assms by (cases v) (auto simp: count_outcome_def breaker_ok_def window_add_ok)

lemma breaker_open_ok:
  assumes "params_ok p" "breaker_ok p b"
  shows "breaker_ok p (breaker_open now fromProbe p rnd b)"
  using assms jittered_range[OF assms(1)] by (auto simp: breaker_open_def breaker_ok_def Let_def params_ok_def)

lemma breaker_close_ok:
  assumes "params_ok p" "breaker_ok p b"
  shows "breaker_ok p (breaker_close now b)"
  using assms by (auto simp: breaker_close_def breaker_ok_def window_reset_ok params_ok_def)

lemma advance_fields [simp]:
  "b_key (fst (advance now p b)) = b_key b" "b_model (fst (advance now p b)) = b_model b"
  "b_eligible (fst (advance now p b)) = b_eligible b" "b_epoch (fst (advance now p b)) = b_epoch b"
  "b_state (fst (advance now p b)) = Closed \<longleftrightarrow> b_state b = Closed"
  "b_ejectedAt (fst (advance now p b)) = b_ejectedAt b" "b_nextID (fst (advance now p b)) = b_nextID b"
  by (auto simp: advance_def Let_def)

lemma count_outcome_fields [simp]:
  "b_key (count_outcome now v b) = b_key b" "b_model (count_outcome now v b) = b_model b"
  "b_eligible (count_outcome now v b) = b_eligible b" "b_state (count_outcome now v b) = b_state b"
  "b_epoch (count_outcome now v b) = b_epoch b"
  by (cases v; simp add: count_outcome_def)+

lemma breaker_open_fields [simp]:
  "b_key (breaker_open now f p rnd b) = b_key b" "b_model (breaker_open now f p rnd b) = b_model b"
  "b_eligible (breaker_open now f p rnd b) = b_eligible b" "b_state (breaker_open now f p rnd b) = Open"
  by (simp_all add: breaker_open_def Let_def)

lemma breaker_close_fields [simp]:
  "b_key (breaker_close now b) = b_key b" "b_model (breaker_close now b) = b_model b"
  "b_eligible (breaker_close now b) = b_eligible b" "b_state (breaker_close now b) = Closed"
  "b_ejectedAt (breaker_close now b) = b_ejectedAt b" "b_epoch (breaker_close now b) = b_epoch b"
  by (simp_all add: breaker_close_def)

section \<open>The trip rules over a history\<close>

type_synonym outcome_log = "(verdict \<times> time) list" \<comment> \<open>newest first\<close>

fun streak_faults :: "outcome_log \<Rightarrow> time list" where
  \<comment> \<open>the faults since the last OK, newest first; a ratio fault neither extends nor breaks the streak\<close>
  "streak_faults [] = []"
| "streak_faults ((v, t) # es) = (case v of OK \<Rightarrow> [] | Fault \<Rightarrow> t # streak_faults es | _ \<Rightarrow> streak_faults es)"

fun count_log :: "outcome_log \<Rightarrow> breaker \<Rightarrow> breaker" where
  "count_log [] b = b"
| "count_log ((v, t) # es) b = count_outcome t v (count_log es b)"

definition streak_rep :: "nat \<Rightarrow> time list \<Rightarrow> breaker \<Rightarrow> bool" where
  \<comment> \<open>the ring holds the last \<open>n\<close> faults, the newest just before the write position\<close>
  "streak_rep n fs b \<longleftrightarrow> 0 < n \<and> length (b_streak b) = n \<and> b_streakPos b < n \<and> b_streakLen b = min n (length fs)
     \<and> (\<forall>i < b_streakLen b. b_streak b ! ((b_streakPos b + (n - 1 - i)) mod n) = fs ! i)"

lemma streak_rep_oldest:
  assumes "streak_rep n fs b" "n \<le> length fs"
  shows "b_streakLen b = n" "b_streak b ! b_streakPos b = fs ! (n - 1)"
proof -
  show len: "b_streakLen b = n" using assms by (simp add: streak_rep_def)
  have "0 < n" using assms(1) by (simp add: streak_rep_def)
  then have "b_streak b ! ((b_streakPos b + (n - 1 - (n - 1))) mod n) = fs ! (n - 1)"
    using assms len unfolding streak_rep_def by (metis diff_less zero_less_one)
  then show "b_streak b ! b_streakPos b = fs ! (n - 1)" using assms(1) by (simp add: streak_rep_def)
qed

lemma ring_pos:
  fixes n pos i :: nat
  assumes "pos < n" "i < n"
  shows "(Suc pos mod n + (n - 1 - i)) mod n = (if i = 0 then pos else (pos + (n - 1 - (i - 1))) mod n)"
proof -
  have "(Suc pos mod n + (n - 1 - i)) mod n = (Suc pos + (n - 1 - i)) mod n" by (rule mod_add_left_eq)
  also have "Suc pos + (n - 1 - i) = (if i = 0 then pos + n else pos + (n - 1 - (i - 1)))" using assms by auto
  finally show ?thesis using assms(1) by simp
qed

lemma ring_other:
  fixes n pos i :: nat
  assumes "pos < n" "i < n - 1"
  shows "(pos + (n - 1 - i)) mod n \<noteq> pos"
proof
  assume *: "(pos + (n - 1 - i)) mod n = pos"
  then have "(pos + (n - 1 - i)) mod n = (pos + 0) mod n" using assms by simp
  then have "n dvd n - 1 - i" by (metis mod_eq_dvd_iff_nat add_diff_cancel_left' le_add1 add_0_right)
  then show False using assms by (auto dest: dvd_imp_le)
qed

lemma streak_rep_step:
  assumes "streak_rep n fs b"
  shows "streak_rep n (streak_faults [(v, t)] @ (if v = OK then [] else fs)) (count_outcome t v b)"
proof (cases v)
  case Fault
  let ?b = "count_outcome t v b"
  have n: "0 < n" "b_streakPos b < n" "length (b_streak b) = n" "b_streakLen b = min n (length fs)"
    using assms by (simp_all add: streak_rep_def)
  have f: "b_streak ?b = (b_streak b)[b_streakPos b := t]" "b_streakPos ?b = Suc (b_streakPos b) mod n"
    "b_streakLen ?b = min n (length (t # fs))"
    using n by (auto simp: count_outcome_def Fault)
  have "b_streak ?b ! ((b_streakPos ?b + (n - 1 - i)) mod n) = (t # fs) ! i" if i: "i < min n (length (t # fs))" for i
  proof (cases i)
    case 0
    then show ?thesis using n ring_pos[of "b_streakPos b" n 0] by (simp add: f)
  next
    case (Suc j)
    have "j < n - 1" "j < b_streakLen b" using i Suc n by auto
    have "(b_streakPos ?b + (n - 1 - i)) mod n = (b_streakPos b + (n - 1 - j)) mod n"
      using ring_pos[of "b_streakPos b" n i] i n Suc by (simp add: f)
    moreover have "(b_streakPos b + (n - 1 - j)) mod n \<noteq> b_streakPos b" using ring_other n \<open>j < n - 1\<close> by blast
    moreover have "b_streak b ! ((b_streakPos b + (n - 1 - j)) mod n) = fs ! j"
      using assms \<open>j < b_streakLen b\<close> unfolding streak_rep_def by blast
    ultimately show ?thesis by (simp add: f Suc)
  qed
  then show ?thesis using n f by (simp add: streak_rep_def Fault)
qed (use assms in \<open>auto simp: streak_rep_def count_outcome_def\<close>)

lemma streak_faults_Cons: "streak_faults ((v, t) # es) = streak_faults [(v, t)] @ (if v = OK then [] else streak_faults es)"
  by (cases v) auto

lemma streak_rep_log: "streak_rep n [] b \<Longrightarrow> streak_rep n (streak_faults es) (count_log es b)"
proof (induction es)
  case (Cons e es)
  obtain v t where e: "e = (v, t)" by force
  from streak_rep_step[OF Cons.IH[OF Cons.prems], of v t] show ?case
    by (simp only: e count_log.simps streak_faults_Cons[of v t es])
qed simp

lemma streak_rep_new: "params_ok p \<Longrightarrow> streak_rep (nat (cp_ConsecutiveFailures p)) [] (newBreaker k p)"
  by (simp add: streak_rep_def newBreaker_def params_ok_def)

definition outcome_events :: "verdict \<times> time \<Rightarrow> (counter \<times> time) list" where
  "outcome_events = (\<lambda>(v, t). case v of Neutral \<Rightarrow> [] | OK \<Rightarrow> [(Counter0, t)] | _ \<Rightarrow> [(Counter0, t), (Counter1, t)])"

lemma run_window_append: "run_window (xs @ ys) w = run_window ys (run_window xs w)"
  by (simp add: run_window_def)

lemma count_log_win: "b_win (count_log es b) = run_window (concat (map outcome_events (rev es))) (b_win b)"
proof (induction es)
  case (Cons e es)
  obtain v t where "e = (v, t)" by force
  then show ?case using Cons by (cases v) (simp_all add: run_window_append outcome_events_def count_outcome_def run_window_def)
qed (simp add: run_window_def)

definition counted :: "verdict \<Rightarrow> bool" where "counted v \<longleftrightarrow> v \<noteq> Neutral"
definition faulty :: "verdict \<Rightarrow> bool" where "faulty v \<longleftrightarrow> v = Fault \<or> v = RatioFault"

lemma count_events:
  "count_if (\<lambda>(c', t). c' = Counter0 \<and> Q t) (concat (map outcome_events es)) = count_if (\<lambda>(v, t). counted v \<and> Q t) es"
  "count_if (\<lambda>(c', t). c' = Counter1 \<and> Q t) (concat (map outcome_events es)) = count_if (\<lambda>(v, t). faulty v \<and> Q t) es"
proof -
  have "count_if (\<lambda>(c', t). c' = Counter0 \<and> Q t) (outcome_events e) = (if counted (fst e) \<and> Q (snd e) then 1 else 0)"
    "count_if (\<lambda>(c', t). c' = Counter1 \<and> Q t) (outcome_events e) = (if faulty (fst e) \<and> Q (snd e) then 1 else 0)" for e
    by (cases e; cases "fst e"; simp add: outcome_events_def counted_def faulty_def)+
  then show "count_if (\<lambda>(c', t). c' = Counter0 \<and> Q t) (concat (map outcome_events es)) = count_if (\<lambda>(v, t). counted v \<and> Q t) es"
    "count_if (\<lambda>(c', t). c' = Counter1 \<and> Q t) (concat (map outcome_events es)) = count_if (\<lambda>(v, t). faulty v \<and> Q t) es"
    by (induction es) (auto simp: case_prod_beta)
qed

lemma count_if_rev [simp]: "count_if P (rev xs) = count_if P xs"
  by (simp add: count_if_def rev_filter[symmetric])

lemma outcome_events_snd: "x \<in> set (outcome_events e) \<Longrightarrow> snd x = snd e"
  by (cases e; cases "fst e") (auto simp: outcome_events_def)

lemma sorted_events: "sorted (map snd es) \<Longrightarrow> sorted (map snd (concat (map outcome_events es)))"
proof (induction es)
  case (Cons e es)
  have "sorted (map snd (outcome_events e))" by (cases e; cases "fst e") (auto simp: outcome_events_def)
  then show ?case using Cons by (auto simp: sorted_append outcome_events_snd)
qed simp

lemma count_log_sums:
  assumes "sorted (map snd (rev es))" "\<forall>(v, t) \<in> set es. t \<le> now"
    and recent_def: "recent = (\<lambda>t. bucketOf now - sw_n (newSlidingWindow (cp_Window p)) < bucketOf t)"
  shows "window_sum now (b_win (count_log es (newBreaker k p))) =
    (int (count_if (\<lambda>(v, t). counted v \<and> recent t) es), int (count_if (\<lambda>(v, t). faulty v \<and> recent t) es))"
proof -
  let ?evs = "concat (map outcome_events (rev es))"
  have "\<forall>(c, t) \<in> set ?evs. t \<le> now" using assms(2) by (auto dest!: outcome_events_snd)
  then have "get_counter c (window_sum now (run_window ?evs (newSlidingWindow (cp_Window p)))) =
      int (count_if (\<lambda>(c', t). c' = c \<and> recent t) ?evs)" for c
    unfolding recent_def using sorted_events[OF assms(1)] by (intro run_window_counts) auto
  from this[of Counter0] this[of Counter1] show ?thesis
    unfolding count_log_win count_events
    by (cases "window_sum now (run_window ?evs (newSlidingWindow (cp_Window p)))") (simp add: newBreaker_def)
qed

lemma trip_reason_cases:
  assumes "window_sum now (b_win b) = (tot, faults)" "length (b_streak b) = n" "b_streakLen b = n \<longleftrightarrow> n \<le> length fs"
    and "n \<le> length fs \<Longrightarrow> b_streak b ! b_streakPos b = fs ! (n - 1)"
  shows "trip_reason now v p b =
      (if v \<noteq> OK \<and> n \<le> length fs \<and> now - fs ! (n - 1) \<le> cp_Window p then (Some ReasonConsecutive, int n)
       else if flt (Fin 0) (cp_FailureRatio p) \<and> tot \<ge> cp_MinVolume p \<and> tot > 0
         \<and> fle (fmul (cp_FailureRatio p) (float_of tot)) (float_of faults) then (Some ReasonRatio, faults)
       else (None, 0))"
  using assms unfolding trip_reason_def by (cases "n \<le> length fs") (simp_all only: Let_def prod.case, auto)

section \<open>Properties\<close>

text \<open>C26: The trip rules, over the whole history of a closed breaker. After any sequence of verdicts with a clock that does not run
  backwards, counting one more verdict asks for a trip exactly when it is not an OK and the last
  \<^verbatim>\<open>ConsecutiveFailures\<close> faults with no OK between them fit in \<^verbatim>\<open>Window\<close>, or the ratio rule is on and, among the outcomes
  of the last window seconds, there are \<^verbatim>\<open>MinVolume\<close> and the faults reach \<^verbatim>\<open>FailureRatio\<close> of them. The fixed-size rings
  lose nothing the rules need.\<close>

theorem trip_rules:
  assumes "params_ok p" "sorted (map snd (rev ((v, now) # es)))" "v \<noteq> Neutral"
  shows "let b = count_log es (newBreaker k p);
      n = nat (cp_ConsecutiveFailures p);
      hist = (v, now) # es;
      fs = streak_faults hist;
      recent = (\<lambda>t. bucketOf now - sw_n (newSlidingWindow (cp_Window p)) < bucketOf t);
      tot = int (count_if (\<lambda>(v, t). counted v \<and> recent t) hist);
      faults = int (count_if (\<lambda>(v, t). faulty v \<and> recent t) hist)
    in snd (recordClosed now v p b) =
      (if v \<noteq> OK \<and> n \<le> length fs \<and> now - fs ! (n - 1) \<le> cp_Window p then (Some ReasonConsecutive, int n)
       else if flt (Fin 0) (cp_FailureRatio p) \<and> tot \<ge> cp_MinVolume p \<and> tot > 0
         \<and> fle (fmul (cp_FailureRatio p) (float_of tot)) (float_of faults) then (Some ReasonRatio, faults)
       else (None, 0))"
proof -
  let ?hist = "(v, now) # es" and ?n = "nat (cp_ConsecutiveFailures p)"
  let ?b = "count_log ?hist (newBreaker k p)"
  have rep: "streak_rep ?n (streak_faults ?hist) ?b" by (rule streak_rep_log[OF streak_rep_new[OF assms(1)]])
  have len: "length (b_streak ?b) = ?n" "b_streakLen ?b = ?n \<longleftrightarrow> ?n \<le> length (streak_faults ?hist)"
    using rep by (auto simp: streak_rep_def)
  have old: "?n \<le> length (streak_faults ?hist) \<Longrightarrow> b_streak ?b ! b_streakPos ?b = streak_faults ?hist ! (?n - 1)"
    using streak_rep_oldest(2)[OF rep] .
  have le: "\<forall>(v, t) \<in> set ?hist. t \<le> now" using assms(2) by (auto simp: sorted_append)
  note sums = count_log_sums[OF assms(2) le refl, where p = p and k = k]
  have r: "recordClosed now v p (count_log es (newBreaker k p)) = (?b, trip_reason now v p ?b)"
    using assms(3) by (simp add: recordClosed_def Let_def)
  show ?thesis
    unfolding Let_def r snd_conv by (rule trip_reason_cases[OF sums len(1) len(2) old])
qed

definition ex_params :: breaker_params where
  "ex_params = \<lparr>cp_ConsecutiveFailures = 2, cp_FailureRatio = Fin 0, cp_MinVolume = 10, cp_Window = 10 * second,
     cp_CoolDown = 5 * second, cp_MaxCoolDown = 60 * second, cp_ProbeConcurrency = 1, cp_ProbeSuccesses = 1,
     cp_MaxOpenFraction = Fin (1 / 2), cp_HeaderTimeout = 30 * second\<rparr>"

lemma ex_params_ok: "params_ok ex_params"
  by (simp add: params_ok_def ex_params_def bucketWidth_def second_def)

theorem trip_rules_witness:
  "snd (recordClosed (3 * second) Fault ex_params (count_log [(RatioFault, 2 * second), (Fault, second)] (newBreaker \<lparr>k_ID = ''w'', k_Registered = 0\<rparr> ex_params)))
   = (Some ReasonConsecutive, 2)"
  using trip_rules[OF ex_params_ok, of Fault "3 * second" "[(RatioFault, 2 * second), (Fault, second)]" "\<lparr>k_ID = ''w'', k_Registered = 0\<rparr>"]
  by (simp add: ex_params_def second_def)

text \<open>C27: The cool-down doubles with the level and is clamped: the loop of \<^verbatim>\<open>baseCoolDown\<close>, which tests for overflow before it
  doubles, computes \<open>min (CoolDown * 2 ^ level) MaxCoolDown\<close>; the unbounded loop of \<^verbatim>\<open>maxLevel\<close> returns, with the least
  level whose cool-down is the cap; and the jittered open period is always between 1 ns and \<^verbatim>\<open>MaxCoolDown\<close>.\<close>

theorem cool_down_doubling:
  assumes "params_ok p"
  shows "baseCoolDown p level = min (cp_CoolDown p * 2 ^ level) (cp_MaxCoolDown p)
    \<and> maxLevel_from p 0 = Some (LEAST l. cp_MaxCoolDown p \<le> cp_CoolDown p * 2 ^ l)
    \<and> baseCoolDown p (maxLevel p) = cp_MaxCoolDown p
    \<and> 1 \<le> jittered p rnd level \<and> jittered p rnd level \<le> cp_MaxCoolDown p"
proof -
  let ?P = "\<lambda>l. cp_MaxCoolDown p \<le> cp_CoolDown p * 2 ^ l"
  have m: "maxLevel p = (LEAST l. ?P l)" by (simp add: maxLevel_def maxLevel_returns[OF assms])
  have "int (nat (cp_MaxCoolDown p)) < 2 ^ nat (cp_MaxCoolDown p)" by (rule of_nat_less_two_power)
  then have "cp_MaxCoolDown p * 1 \<le> 2 ^ nat (cp_MaxCoolDown p) * cp_CoolDown p"
    using assms by (intro mult_mono) (auto simp: params_ok_def)
  then have "?P (nat (cp_MaxCoolDown p))" by (simp add: mult.commute)
  then have "?P (maxLevel p)" unfolding m by (rule LeastI)
  then have "baseCoolDown p (maxLevel p) = cp_MaxCoolDown p" by (simp add: baseCoolDown_min[OF assms] min_def)
  then show ?thesis
    using baseCoolDown_min[OF assms] maxLevel_returns[OF assms] jittered_range[OF assms] by blast
qed

theorem cool_down_doubling_witness: "baseCoolDown ex_params 2 = 20 * second \<and> baseCoolDown ex_params 9 = 60 * second"
  using cool_down_doubling[OF ex_params_ok, of 2] cool_down_doubling[OF ex_params_ok, of 9]
  by (simp add: ex_params_def second_def)

end
