(* ===== verification/Breakers.thy ===== *)
theory Breakers
  imports Breaker
begin

text \<open>
  \<^verbatim>\<open>internal/resilience/breakers.go\<close>: the set of breakers of one gateway, with the ejection cap. Every operation runs
  under the lock, so it is one step: it takes the clock reading and the random draw and returns the new set, what it
  returns in Go, and the changes delivered to the hook by \<^verbatim>\<open>unlock\<close>. A \<^verbatim>\<open>*breaker\<close> is the map entry of its worker ID.
\<close>

section \<open>State\<close>

record member =
  m_Key :: worker_key
  m_Model :: string
  m_Eligible :: bool

record ticket =
  tk_key :: worker_key
  tk_id :: nat
  tk_epoch :: nat
  tk_probe :: bool
  tk_valid :: bool

record breaker_info =
  in_Key :: worker_key
  in_State :: breaker_state
  in_Eligible :: bool
  in_OpenUntil :: time
  in_Level :: nat
  in_Probes :: nat

record breakers =
  bs_p :: breaker_params
  bs_byID :: "(string, breaker) gomap"
  bs_eligible :: nat
  bs_eligibleBy :: "(string, nat) gomap"
  bs_suppressed :: nat
  bs_pending :: "change list"

definition NewBreakers :: "breaker_params \<Rightarrow> breakers" where
  "NewBreakers p = \<lparr>bs_p = normalize p, bs_byID = [], bs_eligible = 0, bs_eligibleBy = [], bs_suppressed = 0, bs_pending = []\<rparr>"

definition no_ticket :: ticket where
  \<comment> \<open>\<^verbatim>\<open>Ticket{}\<close>\<close>
  "no_ticket = \<lparr>tk_key = \<lparr>k_ID = [], k_Registered = 0\<rparr>, tk_id = 0, tk_epoch = 0, tk_probe = False, tk_valid = False\<rparr>"

definition lookup :: "worker_key \<Rightarrow> breakers \<Rightarrow> breaker option" where
  "lookup k bs = (case mget (bs_byID bs) (k_ID k) of
       Some b \<Rightarrow> if b_key b = k then Some b else None | None \<Rightarrow> None)"

definition emit :: "change \<Rightarrow> breakers \<Rightarrow> breakers" where
  "emit c bs = bs\<lparr>bs_pending := bs_pending bs @ [c]\<rparr>"

definition unlock :: "breakers \<Rightarrow> breakers \<times> change list" where
  "unlock bs = (bs\<lparr>bs_pending := []\<rparr>, bs_pending bs)"

definition bs_put :: "breaker \<Rightarrow> breakers \<Rightarrow> breakers" where
  \<comment> \<open>a write through the pointer \<^verbatim>\<open>b\<close>\<close>
  "bs_put b bs = bs\<lparr>bs_byID := mput (k_ID (b_key b)) b (bs_byID bs)\<rparr>"

section \<open>The ejection cap\<close>

definition MaxOpen :: "float64 \<Rightarrow> int \<Rightarrow> int" where
  "MaxOpen fraction elig =
     (if fle fraction (Fin 0) \<or> elig \<le> 0 then 0
      else if fle (Fin 1) fraction then elig
      else trunc_of (ffloor (fadd (fmul fraction (float_of elig)) (flit (1 / 10 ^ 9)))))"

definition counts_open :: "string \<Rightarrow> breaker \<Rightarrow> bool" where
  "counts_open model b \<longleftrightarrow> b_eligible b \<and> b_model b = model \<and> b_state b \<noteq> Closed"

definition open_count :: "string \<Rightarrow> (string, breaker) gomap \<Rightarrow> nat" where
  "open_count model byID = count_if (\<lambda>p. counts_open model (snd p)) byID"

definition roomToOpen :: "breaker \<Rightarrow> breakers \<Rightarrow> bool" where
  "roomToOpen b bs =
     (if \<not> b_eligible b then True
      else int (open_count (b_model b) (bs_byID bs))
             < MaxOpen (cp_MaxOpenFraction (bs_p bs)) (int (mget_or 0 (bs_eligibleBy bs) (b_model b))))"

definition count_eligible :: "breakers \<Rightarrow> string \<times> breaker \<Rightarrow> breakers" where
  "count_eligible bs = (\<lambda>(_, b).
     if b_eligible b
     then bs\<lparr>bs_eligible := bs_eligible bs + 1,
             bs_eligibleBy := mput (b_model b) (mget_or 0 (bs_eligibleBy bs) (b_model b) + 1) (bs_eligibleBy bs)\<rparr>
     else bs)"

definition recountEligible :: "breakers \<Rightarrow> breakers" where
  "recountEligible bs = foldl count_eligible (bs\<lparr>bs_eligible := 0, bs_eligibleBy := []\<rparr>) (bs_byID bs)"

definition ejected_later :: "breaker \<Rightarrow> breaker \<Rightarrow> bool" where
  "ejected_later b v \<longleftrightarrow> b_ejectedAt b > b_ejectedAt v
     \<or> (b_ejectedAt b = b_ejectedAt v \<and> k_ID (b_key b) > k_ID (b_key v))"

definition cap_step :: "string \<Rightarrow> (string, breaker) gomap \<Rightarrow> nat \<times> nat option \<Rightarrow> nat \<Rightarrow> nat \<times> nat option" where
  "cap_step model byID = (\<lambda>(n, victim) i.
     let b = snd (byID ! i) in
     if \<not> counts_open model b then (n, victim)
     else (n + 1, case victim of
             None \<Rightarrow> Some i
           | Some j \<Rightarrow> if ejected_later b (snd (byID ! j)) then Some i else Some j))"

definition cap_scan :: "string \<Rightarrow> (string, breaker) gomap \<Rightarrow> nat \<times> nat option" where
  \<comment> \<open>the inner loop of \<^verbatim>\<open>enforceCap\<close>: the number of open ones and the position of the victim\<close>
  "cap_scan model byID = foldl (cap_step model byID) (0, None) [0..<length byID]"

lemma cap_scan_upto:
  "k \<le> length byID \<Longrightarrow> foldl (cap_step model byID) (0, None) [0..<k] = (n, v) \<Longrightarrow>
   n = count_if (\<lambda>p. counts_open model (snd p)) (take k byID) \<and>
   (case v of None \<Rightarrow> n = 0
      | Some i \<Rightarrow> i < k \<and> counts_open model (snd (byID ! i))
          \<and> (\<forall>j < k. counts_open model (snd (byID ! j)) \<longrightarrow> \<not> ejected_later (snd (byID ! j)) (snd (byID ! i))))"
proof (induction k arbitrary: n v)
  case (Suc k)
  obtain n0 v0 where p: "foldl (cap_step model byID) (0, None) [0..<k] = (n0, v0)" by force
  note IH = Suc.IH[OF _ p]
  have k: "k < length byID" using Suc.prems(1) by simp
  have t: "take (Suc k) byID = take k byID @ [byID ! k]" by (rule take_Suc_conv_app_nth[OF k])
  have irr: "\<not> ejected_later b b" for b by (simp add: ejected_later_def)
  have tr: "\<not> ejected_later a c" if "ejected_later b c'" "\<not> ejected_later a c'" "c = b" for a b c c'
    using that by (auto simp: ejected_later_def)
  show ?case
  proof (cases "counts_open model (snd (byID ! k))")
    case False
    then have "n = n0" "v = v0" using Suc.prems(2) p by (auto simp: cap_step_def)
    then show ?thesis using IH k False by (auto simp: t case_prod_beta less_Suc_eq split: option.splits)
  next
    case True
    show ?thesis
    proof (cases v0)
      case None
      then have nv: "n = Suc n0" "v = Some k" using Suc.prems(2) p True by (auto simp: cap_step_def)
      have z: "count_if (\<lambda>p. counts_open model (snd p)) (take k byID) = 0" using IH k None by auto
      have none: "\<not> counts_open model (snd (byID ! j))" if "j < k" for j
      proof -
        have "byID ! j \<in> set (take k byID)" using that k by (auto simp: in_set_conv_nth)
        then show ?thesis using z by (auto simp: count_if_0 case_prod_beta)
      qed
      show ?thesis using nv IH k None True none irr by (auto simp: t case_prod_beta less_Suc_eq)
    next
      case (Some j)
      have j: "j < k" "counts_open model (snd (byID ! j))" "\<forall>i < k. counts_open model (snd (byID ! i)) \<longrightarrow> \<not> ejected_later (snd (byID ! i)) (snd (byID ! j))"
        and c: "n0 = count_if (\<lambda>p. counts_open model (snd p)) (take k byID)"
        using IH k Some by auto
      have nv: "n = Suc n0" "v = (if ejected_later (snd (byID ! k)) (snd (byID ! j)) then Some k else Some j)"
        using Suc.prems(2) p True Some by (auto simp: cap_step_def)
      show ?thesis
      proof (cases "ejected_later (snd (byID ! k)) (snd (byID ! j))")
        case later: True
        then show ?thesis using nv c j True irr tr[OF later] by (auto simp: t case_prod_beta less_Suc_eq)
      next
        case False
        then show ?thesis using nv c j True by (auto simp: t case_prod_beta less_Suc_eq)
      qed
    qed
  qed
qed simp

lemma cap_scan_spec:
  assumes "cap_scan model byID = (n, v)"
  shows "n = open_count model byID"
    "v = None \<Longrightarrow> n = 0"
    "v = Some i \<Longrightarrow> i < length byID \<and> counts_open model (snd (byID ! i))
       \<and> (\<forall>j < length byID. counts_open model (snd (byID ! j)) \<longrightarrow> \<not> ejected_later (snd (byID ! j)) (snd (byID ! i)))"
  using cap_scan_upto[of "length byID" byID model n v] assms by (auto simp: cap_scan_def open_count_def)

lemma open_count_close:
  assumes "i < length byID" "counts_open model (snd (byID ! i))"
  shows "open_count model (byID[i := (fst (byID ! i), breaker_close now (snd (byID ! i)))]) < open_count model byID"
  using count_if_update[OF assms(1), of "\<lambda>p. counts_open model (snd p)" "(fst (byID ! i), breaker_close now (snd (byID ! i)))"] assms(2)
  by (simp add: open_count_def counts_open_def case_prod_beta)

function enforce_model :: "time \<Rightarrow> int \<Rightarrow> string \<Rightarrow> (string, breaker) gomap \<Rightarrow> change list \<Rightarrow> (string, breaker) gomap \<times> change list" where
  "enforce_model now limit model byID chs =
     (let (n, victim) = cap_scan model byID in
      case victim of
        None \<Rightarrow> (byID, chs)
      | Some i \<Rightarrow>
          if int n \<le> limit then (byID, chs)
          else let b = snd (byID ! i) in
               enforce_model now limit model (byID[i := (fst (byID ! i), breaker_close now b)])
                 (chs @ [\<lparr>ch_Key = b_key b, ch_From = b_state b, ch_To = Closed, ch_Reason = ReasonCapRelaxed,
                          ch_Failures = 0, ch_CoolDown = 0, ch_Suppressed = False\<rparr>]))"
  by pat_completeness auto
termination
proof (relation "measure (\<lambda>(now, limit, model, byID, chs). open_count model byID)", goal_cases)
  case (2 now limit model byID chs x n victim i b)
  then have "cap_scan model byID = (n, Some i)" by simp
  from cap_scan_spec(3)[OF this refl] 2 show ?case using open_count_close by auto
qed simp

declare enforce_model.simps [simp del]

definition enforce_one :: "time \<Rightarrow> breakers \<Rightarrow> string \<times> nat \<Rightarrow> breakers" where
  \<comment> \<open>one round of the outer loop: a model and the number of its eligible workers\<close>
  "enforce_one now bs = (\<lambda>(model, elig).
     let (byID, chs) = enforce_model now (MaxOpen (cp_MaxOpenFraction (bs_p bs)) (int elig)) model (bs_byID bs) (bs_pending bs)
     in bs\<lparr>bs_byID := byID, bs_pending := chs\<rparr>)"

definition enforceCap :: "time \<Rightarrow> breakers \<Rightarrow> breakers" where
  "enforceCap now bs = foldl (enforce_one now) bs (bs_eligibleBy bs)"

section \<open>Membership\<close>

definition sync_member :: "breakers \<Rightarrow> member \<Rightarrow> breakers" where
  "sync_member bs m =
     (let b = (case lookup (m_Key m) bs of Some b \<Rightarrow> b | None \<Rightarrow> newBreaker (m_Key m) (bs_p bs))
      in bs_put (b\<lparr>b_eligible := m_Eligible m, b_model := m_Model m\<rparr>) bs)"

definition Sync :: "time \<Rightarrow> member list \<Rightarrow> breakers \<Rightarrow> breakers \<times> change list" where
  "Sync now members bs =
     (let bs1 = foldl sync_member bs members;
          keep = map (\<lambda>m. k_ID (m_Key m)) members;
          bs2 = bs1\<lparr>bs_byID := filter (\<lambda>(i, _). i \<in> set keep) (bs_byID bs1)\<rparr>
      in unlock (enforceCap now (recountEligible bs2)))"

definition Breakers_Prune :: "time \<Rightarrow> worker_key list \<Rightarrow> breakers \<Rightarrow> breakers \<times> change list" where
  "Breakers_Prune now keep bs =
     (let bs1 = bs\<lparr>bs_byID := filter (\<lambda>(_, b). b_key b \<in> set keep) (bs_byID bs)\<rparr>
      in unlock (enforceCap now (recountEligible bs1)))"

section \<open>Tickets and verdicts\<close>

definition advanceLocked :: "time \<Rightarrow> breaker \<Rightarrow> breakers \<Rightarrow> breakers \<times> breaker" where
  "advanceLocked now b bs =
     (let (b', ch) = advance now (bs_p bs) b; bs' = bs_put b' bs
      in (case ch of None \<Rightarrow> bs' | Some c \<Rightarrow> emit c bs', b'))"

definition Admissible :: "time \<Rightarrow> worker_key \<Rightarrow> breakers \<Rightarrow> breakers \<times> change list \<times> bool" where
  "Admissible now k bs =
     (case lookup k bs of
        None \<Rightarrow> (let (bs', chs) = unlock bs in (bs', chs, True))
      | Some b \<Rightarrow>
          let (bs1, b1) = advanceLocked now b bs; (bs', chs) = unlock bs1
          in (bs', chs, b_state b1 = Closed \<or> probeFree (bs_p bs) b1))"

definition Breakers_Acquire :: "time \<Rightarrow> worker_key \<Rightarrow> breakers \<Rightarrow> breakers \<times> change list \<times> ticket \<times> bool" where
  "Breakers_Acquire now k bs =
     (case lookup k bs of
        None \<Rightarrow> (let (bs', chs) = unlock bs in (bs', chs, no_ticket\<lparr>tk_key := k, tk_valid := True\<rparr>, True))
      | Some b \<Rightarrow>
          let (bs1, b1) = advanceLocked now b bs in
          (case b_state b1 of
             Closed \<Rightarrow> (let (bs', chs) = unlock bs1
                        in (bs', chs, no_ticket\<lparr>tk_key := k, tk_epoch := b_epoch b1, tk_valid := True\<rparr>, True))
           | HalfOpen \<Rightarrow>
               if \<not> probeFree (bs_p bs) b1 then (let (bs', chs) = unlock bs1 in (bs', chs, no_ticket, False))
               else let n = b_nextID b1 + 1;
                        b2 = b1\<lparr>b_nextID := n, b_tickets := mput n now (b_tickets b1)\<rparr>;
                        (bs', chs) = unlock (bs_put b2 bs1)
                    in (bs', chs, \<lparr>tk_key = k, tk_id = n, tk_epoch = b_epoch b1, tk_probe = True, tk_valid = True\<rparr>, True)
           | Open \<Rightarrow> (let (bs', chs) = unlock bs1 in (bs', chs, no_ticket, False))))"

definition Breakers_Release :: "ticket \<Rightarrow> breakers \<Rightarrow> breakers \<times> change list" where
  "Breakers_Release t bs =
     (if \<not> tk_probe t then (bs, [])
      else unlock (case lookup (tk_key t) bs of
             Some b \<Rightarrow> if b_state b = HalfOpen \<and> b_epoch b = tk_epoch t
                       then bs_put (b\<lparr>b_tickets := mdel (tk_id t) (b_tickets b)\<rparr>) bs else bs
           | None \<Rightarrow> bs))"

definition countClosed :: "time \<Rightarrow> float64 \<Rightarrow> verdict \<Rightarrow> breaker \<Rightarrow> breakers \<Rightarrow> breakers" where
  "countClosed now rnd v b bs =
     (if b_state b \<noteq> Closed \<or> v = Neutral then bs
      else let (b1, reason, failures) = recordClosed now v (bs_p bs) b; bs1 = bs_put b1 bs in
        case reason of
          None \<Rightarrow> bs_put (b1\<lparr>b_suppressed := False\<rparr>) bs1
        | Some rs \<Rightarrow>
            if \<not> roomToOpen b1 bs1
            then if \<not> b_suppressed b1
                 then let bs2 = bs_put (b1\<lparr>b_suppressed := True\<rparr>) bs1
                      in emit \<lparr>ch_Key = b_key b1, ch_From = Closed, ch_To = Closed, ch_Reason = ReasonSuppressed,
                               ch_Failures = failures, ch_CoolDown = 0, ch_Suppressed = True\<rparr>
                           (bs2\<lparr>bs_suppressed := bs_suppressed bs2 + 1\<rparr>)
                 else bs1
            else let b2 = breaker_open now False (bs_p bs) rnd b1
                 in emit \<lparr>ch_Key = b_key b2, ch_From = Closed, ch_To = Open, ch_Reason = rs, ch_Failures = failures,
                          ch_CoolDown = b_coolDown b2, ch_Suppressed = False\<rparr> (bs_put b2 bs1))"

definition probe_failed :: "time \<Rightarrow> float64 \<Rightarrow> breaker \<Rightarrow> breakers \<Rightarrow> breakers" where
  "probe_failed now rnd b bs =
     (let b' = breaker_open now True (bs_p bs) rnd b
      in emit \<lparr>ch_Key = b_key b', ch_From = HalfOpen, ch_To = Open, ch_Reason = ReasonProbeFailed, ch_Failures = 0,
               ch_CoolDown = b_coolDown b', ch_Suppressed = False\<rparr> (bs_put b' bs))"

definition recordLocked :: "time \<Rightarrow> float64 \<Rightarrow> ticket \<Rightarrow> verdict \<Rightarrow> breakers \<Rightarrow> breakers" where
  "recordLocked now rnd t v bs =
     (case lookup (tk_key t) bs of
        None \<Rightarrow> bs
      | Some b \<Rightarrow>
          let (bs1, b1) = advanceLocked now b bs in
          if tk_probe t then
            if b_state b1 \<noteq> HalfOpen \<or> b_epoch b1 \<noteq> tk_epoch t then bs1
            else if mget (b_tickets b1) (tk_id t) = None then bs1
            else let b2 = b1\<lparr>b_tickets := mdel (tk_id t) (b_tickets b1)\<rparr>; bs2 = bs_put b2 bs1 in
              (case v of
                 OK \<Rightarrow> (let b3 = b2\<lparr>b_successes := b_successes b2 + 1\<rparr> in
                        if b_successes b3 \<ge> cp_ProbeSuccesses (bs_p bs)
                        then emit \<lparr>ch_Key = b_key b3, ch_From = HalfOpen, ch_To = Closed, ch_Reason = ReasonProbesPassed,
                                   ch_Failures = 0, ch_CoolDown = 0, ch_Suppressed = False\<rparr>
                               (bs_put (breaker_close now b3) bs2)
                        else bs_put b3 bs2)
               | Neutral \<Rightarrow> bs2
               | _ \<Rightarrow> probe_failed now rnd b2 bs2)
          else if b_epoch b1 \<noteq> tk_epoch t then bs1
          else countClosed now rnd v b1 bs1)"

definition Record :: "time \<Rightarrow> float64 \<Rightarrow> ticket \<Rightarrow> verdict \<Rightarrow> breakers \<Rightarrow> breakers \<times> change list" where
  "Record now rnd t v bs = (if \<not> tk_valid t then (bs, []) else unlock (recordLocked now rnd t v bs))"

definition RecordLate :: "time \<Rightarrow> float64 \<Rightarrow> ticket \<Rightarrow> verdict \<Rightarrow> breakers \<Rightarrow> breakers \<times> change list" where
  "RecordLate now rnd t v bs =
     (if \<not> tk_valid t \<or> (v \<noteq> Fault \<and> v \<noteq> RatioFault) then (bs, [])
      else unlock (case lookup (tk_key t) bs of
        None \<Rightarrow> bs
      | Some b \<Rightarrow>
          let (bs1, b1) = advanceLocked now b bs in
          if tk_probe t \<and> b_epoch b1 \<noteq> tk_epoch t then bs1
          else if tk_probe t \<and> b_state b1 = HalfOpen then probe_failed now rnd b1 bs1
          else if b_epoch b1 \<noteq> tk_epoch t then bs1
          else countClosed now rnd v b1 bs1))"

definition RecordAbort :: "time \<Rightarrow> float64 \<Rightarrow> ticket \<Rightarrow> time \<Rightarrow> breakers \<Rightarrow> breakers \<times> change list" where
  "RecordAbort now rnd t okAt bs =
     (if \<not> tk_valid t then (bs, [])
      else if tk_probe t then RecordLate now rnd t Fault bs
      else unlock (case lookup (tk_key t) bs of
        None \<Rightarrow> bs
      | Some b \<Rightarrow>
          let (bs1, b1) = advanceLocked now b bs in
          if b_epoch b1 \<noteq> tk_epoch t \<or> b_state b1 \<noteq> Closed then bs1
          else let b2 = b1\<lparr>b_win := window_add okAt now Counter0 (- 1) (b_win b1)\<rparr>
               in countClosed now rnd Fault b2 (bs_put b2 bs1)))"

section \<open>Reads that apply the lazy transitions\<close>

definition advance_all :: "time \<Rightarrow> breakers \<Rightarrow> breakers" where
  \<comment> \<open>\<^verbatim>\<open>advanceLocked\<close> on every breaker, in map order\<close>
  "advance_all now bs = bs\<lparr>bs_byID := map (\<lambda>(i, b). (i, fst (advance now (bs_p bs) b))) (bs_byID bs),
     bs_pending := bs_pending bs @ List.map_filter (\<lambda>(_, b). snd (advance now (bs_p bs) b)) (bs_byID bs)\<rparr>"

definition Breakers_Snapshot :: "time \<Rightarrow> breakers \<Rightarrow> breakers \<times> change list \<times> breaker_info list" where
  "Breakers_Snapshot now bs =
     (let bs1 = advance_all now bs; (bs', chs) = unlock bs1
      in (bs', chs, map (\<lambda>(_, b). \<lparr>in_Key = b_key b, in_State = b_state b, in_Eligible = b_eligible b,
            in_OpenUntil = b_openUntil b, in_Level = b_level b, in_Probes = length (b_tickets b)\<rparr>)
          (filter (\<lambda>(_, b). b_state b \<noteq> Closed) (bs_byID bs1))))"

definition Breakers_State :: "time \<Rightarrow> worker_key \<Rightarrow> breakers \<Rightarrow> breakers \<times> change list \<times> breaker_state" where
  "Breakers_State now k bs =
     (case lookup k bs of
        None \<Rightarrow> (let (bs', chs) = unlock bs in (bs', chs, Closed))
      | Some b \<Rightarrow> let (bs1, b1) = advanceLocked now b bs; (bs', chs) = unlock bs1 in (bs', chs, b_state b1))"

definition Counts :: "time \<Rightarrow> breakers \<Rightarrow> breakers \<times> change list \<times> nat \<times> nat \<times> nat" where
  "Counts now bs =
     (let bs1 = advance_all now bs; (bs', chs) = unlock bs1
      in (bs', chs, bs_eligible bs1, count_if (\<lambda>(_, b). b_eligible b \<and> b_state b = Open) (bs_byID bs1),
          count_if (\<lambda>(_, b). b_eligible b \<and> b_state b = HalfOpen) (bs_byID bs1)))"

fun retry_scan :: "time \<Rightarrow> breaker_params \<Rightarrow> (string, breaker) gomap \<Rightarrow> duration \<Rightarrow> (string, breaker) gomap \<times> change list \<times> duration" where
  \<comment> \<open>the loop of \<^verbatim>\<open>RetryAfter\<close>; it stops at the first half-open breaker and leaves the rest as they are\<close>
  "retry_scan now p [] earliest = ([], [], earliest)"
| "retry_scan now p ((i, b) # rest) earliest =
     (let (b1, ch) = advance now p b;
          e1 = (if \<not> b_eligible b1 then earliest
                else case b_state b1 of
                    HalfOpen \<Rightarrow> 0
                  | Open \<Rightarrow> (let d = b_openUntil b1 - now in if earliest < 0 \<or> d < earliest then d else earliest)
                  | Closed \<Rightarrow> earliest);
          chs = (case ch of None \<Rightarrow> [] | Some c \<Rightarrow> [c])
      in if b_eligible b1 \<and> e1 = 0 then ((i, b1) # rest, chs, e1)
         else let (rest', chs', e') = retry_scan now p rest e1 in ((i, b1) # rest', chs @ chs', e'))"

definition Breakers_RetryAfter :: "time \<Rightarrow> breakers \<Rightarrow> breakers \<times> change list \<times> int" where
  "Breakers_RetryAfter now bs =
     (let (byID, chs, earliest) = retry_scan now (bs_p bs) (bs_byID bs) (- 1);
          (bs', out) = unlock (bs\<lparr>bs_byID := byID, bs_pending := bs_pending bs @ chs\<rparr>);
          secs = trunc_of (fceil (duration_seconds earliest))
      in (bs', out, min (max secs 1) 30))"

end
