(* ===== verification/Snapshot.thy ===== *)
theory Snapshot
  imports Registry Scheduler Breakers
begin

text \<open>
  \<^verbatim>\<open>internal/gateway/snapshot.go\<close>: the gateway's cached view of the registry, with \<^verbatim>\<open>schedulable\<close> and \<^verbatim>\<open>keyOf\<close> of \<^verbatim>\<open>resilience.go\<close>. The answer of the
  registry client, the clock readings, the state of the context and whether \<^verbatim>\<open>TryLock\<close> succeeds are arguments; what a hook is called with is returned. A Go map is
  ranged over in the order of its association list.
\<close>

section \<open>Workers\<close>

definition schedulable :: "worker_snapshot \<Rightarrow> bool" where
  "schedulable w \<longleftrightarrow> WState w = StateReady \<and> Eligible w \<and> (WHealth w = HealthHealthy \<or> WHealth w = HealthSuspect)"

definition keyOf :: "worker_snapshot \<Rightarrow> worker_key" where
  "keyOf w = KeyOf (WorkerID w) (RegisteredAt w)"

definition believable :: "netenv \<Rightarrow> worker_snapshot \<Rightarrow> bool" where
  "believable net w =
     (let ag = HeartbeatAgeSeconds w in
      if is_nan ag \<or> is_inf ag \<or> flt ag (Fin 0) then False
      else if MaxConcurrency w < 1 \<or> ActiveRequests (WMetrics w) < 0 \<or> QueueDepth (WMetrics w) < 0 then False
      else ValidateAddress net (Address w) = None)"

section \<open>The cache\<close>

record snap =
  sn_byModel :: "(string, worker_snapshot list) gomap"
  sn_fetched :: time
  sn_nextAge :: int

record snap_cache =
  ca_refresh :: duration
  ca_maxStale :: duration
  ca_suspectAfter :: duration
  ca_cur :: "snap option"
  ca_failed :: bool
  ca_refreshFailures :: nat
  ca_created :: time
  ca_onSync :: bool \<comment> \<open>the hook is set\<close>

definition newSnapshotCache :: "duration \<Rightarrow> duration \<Rightarrow> duration \<Rightarrow> time \<Rightarrow> snap_cache" where
  "newSnapshotCache refresh maxStale suspectAfter now =
     \<lparr>ca_refresh = refresh, ca_maxStale = maxStale, ca_suspectAfter = suspectAfter, ca_cur = None, ca_failed = False, ca_refreshFailures = 0, ca_created = now, ca_onSync = False\<rparr>"

type_synonym sync_report = "member list \<times> (string, string) gomap" \<comment> \<open>the arguments of \<^verbatim>\<open>onSync\<close>\<close>

definition math_MaxInt64 :: int where "math_MaxInt64 = 2 ^ 63 - 1"

definition sync_worker :: "duration \<Rightarrow> duration \<Rightarrow> string \<Rightarrow> sync_report \<times> int \<Rightarrow> worker_snapshot \<Rightarrow> sync_report \<times> int" where
  \<comment> \<open>the inner body of \<^verbatim>\<open>runSync\<close>\<close>
  "sync_worker suspectAfter ag model = (\<lambda>((members, models), nxt) w.
     let suspect = duration_seconds suspectAfter;
         elig = (schedulable w \<and> \<not> fge (fadd (HeartbeatAgeSeconds w) (duration_seconds ag)) suspect);
         secs = fsub suspect (HeartbeatAgeSeconds w);
         nxt1 = (if elig \<and> flt secs (fdiv (float_of math_MaxInt64) (Fin 1000000000)) then min nxt (trunc_of (fceil (fmul secs (Fin 1000000000)))) else nxt)
     in ((members @ [\<lparr>m_Key = keyOf w, m_Model = model, m_Eligible = elig\<rparr>], mput (WorkerID w) model models), nxt1))"

definition runSync :: "duration \<Rightarrow> duration \<Rightarrow> snap \<Rightarrow> snap \<times> sync_report" where
  "runSync suspectAfter ag s =
     (let (rep, nxt) = foldl (\<lambda>a (model, ws). foldl (sync_worker suspectAfter ag model) a ws) (([], []), math_MaxInt64) (sn_byModel s)
      in (s\<lparr>sn_nextAge := nxt\<rparr>, rep))"

definition add_worker :: "netenv \<Rightarrow> (string, worker_snapshot list) gomap \<Rightarrow> worker_snapshot \<Rightarrow> (string, worker_snapshot list) gomap" where
  "add_worker net by' w0 =
     (let w = (if \<not> believable net w0 then w0\<lparr>Eligible := False\<rparr> else w0)
      in mput (Model w) (mget_or [] by' (Model w) @ [w]) by')"

definition byModel_of :: "netenv \<Rightarrow> worker_snapshot list \<Rightarrow> (string, worker_snapshot list) gomap" where
  \<comment> \<open>\<^verbatim>\<open>sort.Slice\<close> by ID; the IDs of a registry are distinct, so the order is determined\<close>
  "byModel_of net ws = map (\<lambda>(m, l). (m, sort_key WorkerID l)) (foldl (add_worker net) [] ws)"

datatype refresh_answer = WorkersFailed | Workers "worker_snapshot list"

definition Refresh :: "netenv \<Rightarrow> time \<Rightarrow> time \<Rightarrow> bool \<Rightarrow> refresh_answer \<Rightarrow> snap_cache \<Rightarrow> snap_cache \<times> worker_snapshot list option \<times> sync_report option" where
  \<comment> \<open>the clock at the start and at \<^verbatim>\<open>runSync\<close>, and whether the context has ended; with the lists handed to \<^verbatim>\<open>onSnapshot\<close> and \<^verbatim>\<open>onSync\<close>\<close>
  "Refresh net started now ctxEnded ans c =
     (case ans of
        WorkersFailed \<Rightarrow> (if ctxEnded then c else c\<lparr>ca_refreshFailures := ca_refreshFailures c + 1, ca_failed := True\<rparr>, None, None)
      | Workers ws \<Rightarrow>
          let s = \<lparr>sn_byModel = byModel_of net ws, sn_fetched = started, sn_nextAge = math_MaxInt64\<rparr>; c1 = c\<lparr>ca_failed := False\<rparr> in
          if ca_onSync c then let (s1, rep) = runSync (ca_suspectAfter c) (now - started) s in (c1\<lparr>ca_cur := Some s1\<rparr>, Some ws, Some rep)
          else (c1\<lparr>ca_cur := Some s\<rparr>, Some ws, None))"

definition fresh :: "time \<Rightarrow> snap_cache \<Rightarrow> (snap \<times> duration) option \<times> bool" where
  \<comment> \<open>\<^verbatim>\<open>Fresh\<close> is the same without the snapshot\<close>
  "fresh now c = (case ca_cur c of None \<Rightarrow> (None, False) | Some s \<Rightarrow> (Some (s, now - sn_fetched s), now - sn_fetched s \<le> ca_maxStale c))"

definition Degraded :: "time \<Rightarrow> snap_cache \<Rightarrow> bool" where
  "Degraded now c =
     (if \<not> ca_failed c then False
      else case fresh now c of (s, ok) \<Rightarrow> \<not> ok \<or> (case s of Some (_, ag) \<Rightarrow> ag | None \<Rightarrow> 0) > 2 * ca_refresh c)"

definition syncAged :: "bool \<Rightarrow> duration \<Rightarrow> snap \<Rightarrow> snap_cache \<Rightarrow> snap_cache \<times> sync_report option" where
  \<comment> \<open>the flag says whether \<^verbatim>\<open>TryLock\<close> succeeds; a snapshot that has been replaced meanwhile is not reported\<close>
  "syncAged lock ag s c =
     (if \<not> ca_onSync c \<or> ag < sn_nextAge s \<or> \<not> lock then (c, None)
      else if ca_cur c \<noteq> Some s \<or> ag < sn_nextAge s then (c, None)
      else let (s1, rep) = runSync (ca_suspectAfter c) ag s in (c\<lparr>ca_cur := Some s1\<rparr>, Some rep))"

definition age_worker :: "duration \<Rightarrow> duration \<Rightarrow> worker_snapshot \<Rightarrow> worker_snapshot" where
  "age_worker suspectAfter ag w0 =
     (let w = w0\<lparr>HeartbeatAgeSeconds := fadd (HeartbeatAgeSeconds w0) (duration_seconds ag)\<rparr>
      in if Eligible w \<and> fge (HeartbeatAgeSeconds w) (duration_seconds suspectAfter) then w\<lparr>Eligible := False, WHealth := HealthSuspect\<rparr> else w)"

definition cache_age :: "duration \<Rightarrow> worker_snapshot list \<Rightarrow> snap_cache \<Rightarrow> worker_snapshot list" where
  "cache_age ag ws c = map (age_worker (ca_suspectAfter c) ag) ws"

definition viewAt :: "bool \<Rightarrow> time \<Rightarrow> string \<Rightarrow> snap_cache \<Rightarrow> snap_cache \<times> sync_report option \<times> (worker_snapshot list \<times> time) option" where
  \<comment> \<open>\<^verbatim>\<open>View\<close> is the same without the instant\<close>
  "viewAt lock now model c =
     (case fresh now c of
        (Some (s, ag), True) \<Rightarrow>
          let (c1, rep) = syncAged lock ag s c in (c1, rep, Some (cache_age ag (mget_or [] (sn_byModel s) model) c, sn_fetched s + ag))
      | _ \<Rightarrow> (c, None, None))"

definition Serves :: "time \<Rightarrow> string \<Rightarrow> snap_cache \<Rightarrow> bool \<times> bool" where
  "Serves now model c =
     (case fresh now c of
        (Some (s, _), True) \<Rightarrow> (mget_or [] (sn_byModel s) model \<noteq> [], True)
      | _ \<Rightarrow> (False, False))"

definition cache_worker :: "time \<Rightarrow> string \<Rightarrow> string \<Rightarrow> snap_cache \<Rightarrow> worker_snapshot option" where
  "cache_worker now model i c =
     (case fresh now c of
        (Some (s, ag), True) \<Rightarrow>
          let l = mget_or [] (sn_byModel s) model; j = sort_search (length l) (\<lambda>k. i \<le> WorkerID (l ! k)) in
          if j \<ge> length l \<or> WorkerID (l ! j) \<noteq> i then None else Some (cache_age ag [l ! j] c ! 0)
      | _ \<Rightarrow> None)"

definition cache_Models :: "time \<Rightarrow> snap_cache \<Rightarrow> string list option" where
  "cache_Models now c =
     (case fresh now c of
        (Some (s, ag), True) \<Rightarrow> Some (sort (map fst (filter (\<lambda>(m, ws). list_ex Eligible (cache_age ag ws c)) (sn_byModel s))))
      | _ \<Rightarrow> None)"

section \<open>What a view is made of\<close>

definition mark :: "netenv \<Rightarrow> worker_snapshot \<Rightarrow> worker_snapshot" where
  "mark net w = (if \<not> believable net w then w\<lparr>Eligible := False\<rparr> else w)"

definition listed :: "netenv \<Rightarrow> string \<Rightarrow> worker_snapshot list \<Rightarrow> worker_snapshot list" where
  \<comment> \<open>the workers of a model in an answer of the registry, as they are kept\<close>
  "listed net model ws = sort_key WorkerID (map (mark net) (filter (\<lambda>w. Model w = model) ws))"

lemma mark_fields [simp]: "Model (mark net w) = Model w" "WorkerID (mark net w) = WorkerID w"
  by (simp_all add: mark_def)

lemma added_workers: "mget_or [] (foldl (add_worker net) by' ws) m = mget_or [] by' m @ map (mark net) (filter (\<lambda>w. Model w = m) ws)"
proof (induction ws arbitrary: by')
  case (Cons w ws)
  have "mget_or [] (add_worker net by' w) m = mget_or [] by' m @ (if Model w = m then [mark net w] else [])"
    by (simp add: add_worker_def mark_def Let_def mget_or_def gomap_simps)
  then show ?case using Cons.IH[of "add_worker net by' w"] by simp
qed simp

lemma byModel_listed: "mget_or [] (byModel_of net ws) m = listed net m ws"
  using added_workers[of net "[]" ws m] by (simp add: byModel_of_def mget_or_def mget_map_values listed_def split: option.splits)

lemma age_worker_fields [simp]: "WorkerID (age_worker s a w) = WorkerID w" "Model (age_worker s a w) = Model w" "MaxConcurrency (age_worker s a w) = MaxConcurrency w"
    "RegisteredAt (age_worker s a w) = RegisteredAt w" "WMetrics (age_worker s a w) = WMetrics w"
  by (simp_all add: age_worker_def Let_def)

lemma listed_sorted: "sorted (map WorkerID (listed net model ws))"
  by (simp add: listed_def)

lemma search_is_find:
  assumes "sorted (map WorkerID l)"
  shows "(let j = sort_search (length l) (\<lambda>k. i \<le> WorkerID (l ! k)) in if j \<ge> length l \<or> WorkerID (l ! j) \<noteq> i then None else Some (l ! j))
    = find (\<lambda>w. WorkerID w = i) l"
proof -
  let ?f = "\<lambda>k. i \<le> WorkerID (l ! k)"
  let ?j = "sort_search (length l) ?f"
  have nth: "WorkerID (l ! k) \<le> WorkerID (l ! k')" if "k \<le> k'" "k' < length l" for k k'
    using sorted_nth_mono[OF assms that(1)] that by simp
  have "search_mono ?f (length l)" unfolding search_mono_def using nth order_trans by meson
  then have "search_result ?f (length l) ?j" by (rule sort_search_spec)
  then have lo: "\<And>k. k < ?j \<Longrightarrow> \<not> i \<le> WorkerID (l ! k)" and hi: "\<And>k. ?j \<le> k \<Longrightarrow> k < length l \<Longrightarrow> i \<le> WorkerID (l ! k)" unfolding search_result_def by blast+
  show ?thesis
  proof (cases "?j < length l \<and> WorkerID (l ! ?j) = i")
    case True
    have "WorkerID (l ! k) \<noteq> i" if "k < ?j" for k using lo[OF that] by force
    then have "\<exists>k<length l. WorkerID (l ! k) = i \<and> l ! ?j = l ! k \<and> (\<forall>m<k. WorkerID (l ! m) \<noteq> i)" using True by (intro exI[of _ ?j]) blast
    then have "find (\<lambda>w. WorkerID w = i) l = Some (l ! ?j)" unfolding find_Some_iff .
    then show ?thesis unfolding Let_def using True by (simp del: not_less)
  next
    case False
    have "WorkerID (l ! k) \<noteq> i" if k: "k < length l" for k
    proof
      assume eq: "WorkerID (l ! k) = i"
      have "\<not> k < ?j" using lo[of k] eq by blast
      then have j: "?j \<le> k" by simp
      then have "WorkerID (l ! ?j) \<le> i" "?j < length l" using nth[OF j k] eq k by simp_all
      moreover have "i \<le> WorkerID (l ! ?j)" using hi[OF order_refl] calculation(2) .
      ultimately show False using False by (simp add: order_antisym)
    qed
    then have "find (\<lambda>w. WorkerID w = i) l = None" by (auto simp: find_None_iff in_set_conv_nth)
    moreover have "?j \<ge> length l \<or> WorkerID (l ! ?j) \<noteq> i" using False by (meson not_less)
    ultimately show ?thesis unfolding Let_def by (simp only: if_True)
  qed
qed

lemma find_map: "find P (map f l) = map_option f (find (P \<circ> f) l)"
  by (induction l) auto

section \<open>Histories\<close>

datatype cache_event = CaRefresh time time bool refresh_answer | CaView bool time string

primrec cache_step :: "netenv \<Rightarrow> cache_event \<Rightarrow> snap_cache \<Rightarrow> snap_cache" where
  "cache_step net (CaRefresh started now ctxEnded ans) c = fst (Refresh net started now ctxEnded ans c)"
| "cache_step net (CaView lock now model) c = fst (viewAt lock now model c)"

definition cache_history :: "netenv \<Rightarrow> snap_cache \<Rightarrow> cache_event list \<Rightarrow> snap_cache" where
  "cache_history net c xs = foldl (\<lambda>c x. cache_step net x c) c xs"

definition succeeds :: "cache_event \<Rightarrow> bool" where
  "succeeds x = (case x of CaRefresh _ _ _ (Workers _) \<Rightarrow> True | _ \<Rightarrow> False)"

definition from_last :: "netenv \<Rightarrow> cache_event list \<Rightarrow> snap option \<Rightarrow> bool" where
  \<comment> \<open>the snapshot is that of the latest successful refresh\<close>
  "from_last net xs cur = (case cur of
     None \<Rightarrow> \<not> list_ex succeeds xs
   | Some s \<Rightarrow> \<exists>ys zs now x src. xs = ys @ CaRefresh (sn_fetched s) now x (Workers src) # zs \<and> \<not> list_ex succeeds zs \<and> sn_byModel s = byModel_of net src)"

lemma runSync_fields [simp]: "sn_byModel (fst (runSync d a s)) = sn_byModel s" "sn_fetched (fst (runSync d a s)) = sn_fetched s"
  by (simp_all add: runSync_def split_beta Let_def)

lemma from_last_mono:
  assumes "from_last net xs cur" "\<not> succeeds x" "map_option (\<lambda>s. (sn_byModel s, sn_fetched s)) cur' = map_option (\<lambda>s. (sn_byModel s, sn_fetched s)) cur"
  shows "from_last net (xs @ [x]) cur'"
proof (cases cur)
  case None
  then show ?thesis using assms by (auto simp: from_last_def)
next
  case (Some s)
  then obtain s' where s': "cur' = Some s'" "sn_byModel s' = sn_byModel s" "sn_fetched s' = sn_fetched s" using assms(3) by auto
  obtain ys zs now b src where d: "xs = ys @ CaRefresh (sn_fetched s) now b (Workers src) # zs" "\<not> list_ex succeeds zs" "sn_byModel s = byModel_of net src"
    using assms(1) Some unfolding from_last_def by auto
  have "xs @ [x] = ys @ CaRefresh (sn_fetched s') now b (Workers src) # (zs @ [x])" "\<not> list_ex succeeds (zs @ [x])" "sn_byModel s' = byModel_of net src"
    using d assms(2) s' by simp_all
  then show ?thesis unfolding s'(1) from_last_def option.case by blast
qed

lemma viewAt_cache: "ca_maxStale (fst (viewAt lock now model c)) = ca_maxStale c" "ca_suspectAfter (fst (viewAt lock now model c)) = ca_suspectAfter c"
    "map_option (\<lambda>s. (sn_byModel s, sn_fetched s)) (ca_cur (fst (viewAt lock now model c))) = map_option (\<lambda>s. (sn_byModel s, sn_fetched s)) (ca_cur c)"
  by (auto simp: viewAt_def fresh_def syncAged_def split_beta Let_def split: option.splits bool.splits)

lemma cache_step_last:
  assumes "from_last net xs (ca_cur c)"
  shows "from_last net (xs @ [x]) (ca_cur (cache_step net x c))"
proof (cases x)
  case (CaView lock now model)
  then show ?thesis using from_last_mono[OF assms, of x] viewAt_cache(3) by (simp add: succeeds_def)
next
  case (CaRefresh started now b ans)
  show ?thesis
  proof (cases ans)
    case WorkersFailed
    then show ?thesis using from_last_mono[OF assms, of x] CaRefresh by (simp add: succeeds_def Refresh_def)
  next
    case (Workers src)
    let ?s0 = "\<lparr>sn_byModel = byModel_of net src, sn_fetched = started, sn_nextAge = math_MaxInt64\<rparr>"
    let ?s = "if ca_onSync c then fst (runSync (ca_suspectAfter c) (now - started) ?s0) else ?s0"
    have "ca_cur (cache_step net x c) = Some ?s" "sn_byModel ?s = byModel_of net src" "sn_fetched ?s = started"
      by (simp_all add: CaRefresh Workers Refresh_def split_beta Let_def)
    then obtain s where s: "ca_cur (cache_step net x c) = Some s" "sn_byModel s = byModel_of net src" "sn_fetched s = started" by blast
    have "xs @ [x] = xs @ CaRefresh (sn_fetched s) now b (Workers src) # []" "\<not> list_ex succeeds []" using CaRefresh Workers s by simp_all
    then show ?thesis unfolding s(1) from_last_def option.case using s(2) by blast
  qed
qed

lemma cache_history_last:
  assumes "ca_cur c = None"
  shows "from_last net xs (ca_cur (cache_history net c xs))"
proof (induction xs rule: rev_induct)
  case Nil
  then show ?case using assms by (simp add: cache_history_def from_last_def)
next
  case (snoc x xs)
  then show ?case using cache_step_last by (simp add: cache_history_def)
qed

lemma aged_schedulable:
  assumes "schedulable (age_worker d a (mark net v))"
  shows "believable net v \<and> schedulable v \<and> age_worker d a (mark net v) = v\<lparr>HeartbeatAgeSeconds := fadd (HeartbeatAgeSeconds v) (duration_seconds a)\<rparr>
    \<and> \<not> fge (fadd (HeartbeatAgeSeconds v) (duration_seconds a)) (duration_seconds d)"
  using assms by (auto simp: age_worker_def mark_def schedulable_def Let_def split: if_splits)

lemma history_config: "ca_maxStale (cache_history net c xs) = ca_maxStale c" "ca_suspectAfter (cache_history net c xs) = ca_suspectAfter c"
proof (induction xs rule: rev_induct)
  case (snoc x xs)
  case 1
  show ?case using snoc by (cases x) (auto simp: cache_history_def viewAt_cache Refresh_def split_beta Let_def split: refresh_answer.splits)
next
  case (snoc x xs)
  case 2
  show ?case using snoc by (cases x) (auto simp: cache_history_def viewAt_cache Refresh_def split_beta Let_def split: refresh_answer.splits)
qed (simp_all add: cache_history_def)

lemma last_success_unique:
  assumes "xs = ys @ CaRefresh a n b (Workers src) # zs" "\<not> list_ex succeeds zs" "xs = ys' @ CaRefresh a' n' b' (Workers src') # zs'" "\<not> list_ex succeeds zs'"
  shows "a = a' \<and> src = src'"
proof -
  have s: "succeeds (CaRefresh a n b (Workers src))" "succeeds (CaRefresh a' n' b' (Workers src'))" by (simp_all add: succeeds_def)
  have "ys @ CaRefresh a n b (Workers src) # zs = ys' @ CaRefresh a' n' b' (Workers src') # zs'" using assms(1,3) by simp
  then obtain us where "ys = ys' @ us \<and> us @ CaRefresh a n b (Workers src) # zs = CaRefresh a' n' b' (Workers src') # zs'
      \<or> ys @ us = ys' \<and> CaRefresh a n b (Workers src) # zs = us @ CaRefresh a' n' b' (Workers src') # zs'" by (auto simp: append_eq_append_conv2)
  then show ?thesis using assms(2,4) s by (cases us) auto
qed

text \<open>C32: the gateway never trusts an old view. In every history of refreshes and reads a view exists exactly when the latest successful refresh was sent no longer than \<^verbatim>\<open>maxStale\<close> ago, and is
  that refresh's answer for the model in ID order. A worker it offers was offered in that answer, has numbers and an address that registration would have accepted, and by the age of the snapshot
  has not gone \<^verbatim>\<open>suspectAfter\<close> without a heartbeat. The binary search for one worker finds exactly what a scan of the view finds.\<close>

theorem view_trust_bounded:
  assumes c: "c = cache_history net (newSnapshotCache refresh maxStale suspectAfter began) xs" and v: "viewAt lock now model c = (c', rep, view)"
  shows "(view = None \<longleftrightarrow> (\<forall>ys started n b src zs. xs = ys @ CaRefresh started n b (Workers src) # zs \<longrightarrow> \<not> list_ex succeeds zs \<longrightarrow> maxStale < now - started))
    \<and> (\<forall>ws t. view = Some (ws, t) \<longrightarrow>
        (\<exists>ys started n b src zs. xs = ys @ CaRefresh started n b (Workers src) # zs \<and> \<not> list_ex succeeds zs \<and> now - started \<le> maxStale \<and> t = now
          \<and> ws = map (age_worker suspectAfter (now - started)) (listed net model src)
          \<and> (\<forall>w \<in> set ws. schedulable w \<longrightarrow> (\<exists>v \<in> set src. Model v = model \<and> believable net v \<and> schedulable v
                \<and> w = v\<lparr>HeartbeatAgeSeconds := fadd (HeartbeatAgeSeconds v) (duration_seconds (now - started))\<rparr>
                \<and> \<not> fge (HeartbeatAgeSeconds w) (duration_seconds suspectAfter))))
        \<and> (\<forall>i. cache_worker now model i c = find (\<lambda>w. WorkerID w = i) ws))"
proof -
  have l: "from_last net xs (ca_cur c)" unfolding c by (rule cache_history_last) (simp add: newSnapshotCache_def)
  have f: "ca_maxStale c = maxStale" "ca_suspectAfter c = suspectAfter" using history_config[of net "newSnapshotCache refresh maxStale suspectAfter began" xs]
    by (simp_all add: c newSnapshotCache_def)
  show ?thesis
  proof (cases "ca_cur c")
    case None
    then have n: "\<not> list_ex succeeds xs" using l by (simp add: from_last_def)
    have "view = None" using v None by (simp add: viewAt_def fresh_def)
    moreover have False if "xs = ys @ CaRefresh started n' b (Workers src) # zs" for ys started n' b src zs using n by (simp add: that succeeds_def)
    ultimately show ?thesis by blast
  next
    case (Some s)
    obtain ys zs n b src where d: "xs = ys @ CaRefresh (sn_fetched s) n b (Workers src) # zs" "\<not> list_ex succeeds zs" "sn_byModel s = byModel_of net src"
      using l unfolding Some from_last_def option.case by blast
    have u: "started = sn_fetched s" if "xs = ys' @ CaRefresh started n' b' (Workers src') # zs'" "\<not> list_ex succeeds zs'" for ys' started n' b' src' zs'
      using last_success_unique[OF that d(1,2)] by simp
    let ?ag = "now - sn_fetched s"
    let ?ws = "map (age_worker suspectAfter ?ag) (listed net model src)"
    have view: "view = (if ?ag \<le> maxStale then Some (?ws, now) else None)"
      using v by (auto simp: viewAt_def fresh_def Some f d(3) byModel_listed cache_age_def split_beta split: if_splits)
    have none: "view = None \<longleftrightarrow> (\<forall>ys started n b src zs. xs = ys @ CaRefresh started n b (Workers src) # zs \<longrightarrow> \<not> list_ex succeeds zs \<longrightarrow> maxStale < now - started)"
    proof
      assume "view = None"
      then have "maxStale < ?ag" by (simp add: view split: if_splits)
      then show "\<forall>ys started n b src zs. xs = ys @ CaRefresh started n b (Workers src) # zs \<longrightarrow> \<not> list_ex succeeds zs \<longrightarrow> maxStale < now - started"
        by (intro allI impI) (use u in simp)
    next
      assume "\<forall>ys started n b src zs. xs = ys @ CaRefresh started n b (Workers src) # zs \<longrightarrow> \<not> list_ex succeeds zs \<longrightarrow> maxStale < now - started"
      from this[rule_format, OF d(1,2)] have "maxStale < ?ag" .
      then show "view = None" by (simp add: view)
    qed
    have offered: "\<exists>v \<in> set src. Model v = model \<and> believable net v \<and> schedulable v
                \<and> w = v\<lparr>HeartbeatAgeSeconds := fadd (HeartbeatAgeSeconds v) (duration_seconds ?ag)\<rparr> \<and> \<not> fge (HeartbeatAgeSeconds w) (duration_seconds suspectAfter)"
      if w: "w \<in> set ?ws" "schedulable w" for w
    proof -
      obtain v where v': "v \<in> set src" "Model v = model" "w = age_worker suspectAfter ?ag (mark net v)" using w(1) by (auto simp: listed_def)
      from aged_schedulable[of suspectAfter ?ag net v] w(2) v' show ?thesis by (auto intro!: bexI[of _ v])
    qed
    have find: "cache_worker now model i c = find (\<lambda>w. WorkerID w = i) ?ws" if "?ag \<le> maxStale" for i
    proof -
      have "cache_worker now model i c = map_option (age_worker suspectAfter ?ag)
          (let j = sort_search (length (listed net model src)) (\<lambda>k. i \<le> WorkerID (listed net model src ! k))
           in if j \<ge> length (listed net model src) \<or> WorkerID (listed net model src ! j) \<noteq> i then None else Some (listed net model src ! j))"
        using that by (simp add: cache_worker_def fresh_def Some f d(3) byModel_listed cache_age_def Let_def)
      also have "\<dots> = find (\<lambda>w. WorkerID w = i) ?ws" unfolding search_is_find[OF listed_sorted] find_map by (simp add: comp_def)
      finally show ?thesis .
    qed
    have some: "(\<exists>ys started n b src zs. xs = ys @ CaRefresh started n b (Workers src) # zs \<and> \<not> list_ex succeeds zs \<and> now - started \<le> maxStale \<and> t = now
          \<and> ws = map (age_worker suspectAfter (now - started)) (listed net model src)
          \<and> (\<forall>w \<in> set ws. schedulable w \<longrightarrow> (\<exists>v \<in> set src. Model v = model \<and> believable net v \<and> schedulable v
                \<and> w = v\<lparr>HeartbeatAgeSeconds := fadd (HeartbeatAgeSeconds v) (duration_seconds (now - started))\<rparr>
                \<and> \<not> fge (HeartbeatAgeSeconds w) (duration_seconds suspectAfter))))
        \<and> (\<forall>i. cache_worker now model i c = find (\<lambda>w. WorkerID w = i) ws)" if "view = Some (ws, t)" for ws t
    proof -
      have q: "?ag \<le> maxStale" "ws = ?ws" "t = now" using that unfolding view by (auto split: if_splits)
      have "\<forall>w \<in> set ws. schedulable w \<longrightarrow> (\<exists>v \<in> set src. Model v = model \<and> believable net v \<and> schedulable v
                \<and> w = v\<lparr>HeartbeatAgeSeconds := fadd (HeartbeatAgeSeconds v) (duration_seconds ?ag)\<rparr> \<and> \<not> fge (HeartbeatAgeSeconds w) (duration_seconds suspectAfter))"
        using offered unfolding q(2) by blast
      then have A: "xs = ys @ CaRefresh (sn_fetched s) n b (Workers src) # zs \<and> \<not> list_ex succeeds zs \<and> ?ag \<le> maxStale \<and> t = now
          \<and> ws = map (age_worker suspectAfter ?ag) (listed net model src)
          \<and> (\<forall>w \<in> set ws. schedulable w \<longrightarrow> (\<exists>v \<in> set src. Model v = model \<and> believable net v \<and> schedulable v
                \<and> w = v\<lparr>HeartbeatAgeSeconds := fadd (HeartbeatAgeSeconds v) (duration_seconds ?ag)\<rparr> \<and> \<not> fge (HeartbeatAgeSeconds w) (duration_seconds suspectAfter)))"
        by (intro conjI d(1,2) q)
      have B: "\<forall>i. cache_worker now model i c = find (\<lambda>w. WorkerID w = i) ws" using find[OF q(1)] unfolding q(2) by (rule allI)
      show ?thesis by (rule conjI[OF _ B]) ((rule exI)+, rule A)
    qed
    show ?thesis by (rule conjI[OF none]) (intro allI impI some)
  qed
qed

definition sample_refreshes :: "cache_event list" where
  \<comment> \<open>a refresh, a read, and a refresh that fails\<close>
  "sample_refreshes = [CaRefresh 0 1 False (Workers [ex_worker ''b'' 2, ex_worker ''a'' 1]), CaView True second ''m'', CaRefresh (2 * second) (2 * second) False WorkersFailed]"

theorem view_trust_bounded_witness:
  "\<exists>ws. snd (snd (viewAt True (3 * second) ''m'' (cache_history ex_net (newSnapshotCache second (10 * second) (5 * second) 0) sample_refreshes))) = Some (ws, 3 * second)
    \<and> (\<forall>i. cache_worker (3 * second) ''m'' i (cache_history ex_net (newSnapshotCache second (10 * second) (5 * second) 0) sample_refreshes) = find (\<lambda>w. WorkerID w = i) ws)"
proof -
  let ?c = "cache_history ex_net (newSnapshotCache second (10 * second) (5 * second) 0) sample_refreshes"
  obtain c' rep view where v: "viewAt True (3 * second) ''m'' ?c = (c', rep, view)" by (metis prod.exhaust)
  note T = view_trust_bounded[OF refl v]
  have "sample_refreshes = [] @ CaRefresh 0 1 False (Workers [ex_worker ''b'' 2, ex_worker ''a'' 1]) # tl sample_refreshes" by (simp add: sample_refreshes_def)
  moreover have "\<not> list_ex succeeds (tl sample_refreshes)" by (simp add: sample_refreshes_def succeeds_def)
  moreover have "\<not> 10 * second < 3 * second - 0" by (simp add: second_def)
  ultimately have "view \<noteq> None" using T[THEN conjunct1] by blast
  then obtain ws t where "view = Some (ws, t)" by auto
  then show ?thesis using T[THEN conjunct2, rule_format, of ws t] v by (metis snd_conv)
qed

end
