(* ===== verification/WorkAware.thy ===== *)
theory WorkAware
  imports Scheduler
begin

text \<open>
  \<^verbatim>\<open>internal/scheduler/workaware.go\<close>: the work-aware strategies \<^verbatim>\<open>least-tokens\<close> and \<^verbatim>\<open>least-work\<close>, with their handling
  of missing and invalid signals, and the strategy table \<^verbatim>\<open>New\<close> of \<^verbatim>\<open>scheduler.go\<close>. All arithmetic is binary64.
\<close>

section \<open>Scores\<close>

definition tieEps :: float64 where
  "tieEps = flit (1 / 10 ^ 9)"

definition validRate :: "float64 \<Rightarrow> bool" where
  "validRate r \<longleftrightarrow> flt (Fin 0) r \<and> \<not> is_inf r"

definition trusted :: "worker_snapshot \<Rightarrow> bool" where
  "trusted w \<longleftrightarrow> and (Flags (Observed w)) ObservedLedger \<noteq> 0 \<and> and (Flags (Observed w)) ObservedUntracked = 0"

record scorer =
  sc_work :: bool
  sc_c :: float64
  sc_prior :: float64
  sc_degraded :: bool

definition score :: "scorer \<Rightarrow> worker_snapshot \<Rightarrow> float64 option" where
  \<comment> \<open>\<^verbatim>\<open>None\<close> is Go's \<^verbatim>\<open>(0, false)\<close>\<close>
  "score sc w =
     (if \<not> trusted w then None
      else let ahead = WorkAheadTokens (Observed w) in
        if \<not> fle (Fin 0) ahead \<or> is_inf ahead then None
        else if \<not> sc_work sc then Some ahead
        else let r = (if validRate (CapacityTPS (Observed w)) then CapacityTPS (Observed w) else sc_prior sc);
                 v = fdiv (fadd ahead (sc_c sc)) r
             in if is_nan v \<or> is_inf v then None else Some v)"

definition medianOf :: "float64 list \<Rightarrow> float64" where
  "medianOf v =
     (let s = sort v; n = length s in
      if n mod 2 = 1 then s ! (n div 2) else fdiv (fadd (s ! (n div 2 - 1)) (s ! (n div 2))) (Fin 2))"

definition prepare :: "worker_snapshot list \<Rightarrow> nat list \<Rightarrow> scorer \<Rightarrow> scorer" where
  "prepare workers idx sc =
     (let rates = filter validRate (map (\<lambda>j. CapacityTPS (Observed (workers ! j))) idx); known = length rates
      in if known = 0 then sc\<lparr>sc_work := False, sc_degraded := True\<rparr>
         else if known < length idx then sc\<lparr>sc_prior := medianOf rates\<rparr>
         else sc)"

section \<open>The strategy\<close>

record work_aware =
  wa_rot :: rotor
  wa_work :: bool
  wa_weights :: weights

definition set_flags :: "observed_flags \<Rightarrow> worker_snapshot \<Rightarrow> worker_snapshot" where
  \<comment> \<open>\<^verbatim>\<open>chosen.Observed.Flags |= f\<close>\<close>
  "set_flags f w = w\<lparr>Observed := (Observed w)\<lparr>Flags := or (Flags (Observed w)) f\<rparr>\<rparr>"

definition scorer_for :: "work_aware \<Rightarrow> inference_request \<Rightarrow> worker_snapshot list \<Rightarrow> nat list \<Rightarrow> scorer" where
  "scorer_for s req workers idx =
     (let sc = \<lparr>sc_work = wa_work s, sc_c = Fin 0, sc_prior = Fin 0, sc_degraded = False\<rparr>
      in if wa_work s
         then prepare workers idx (sc\<lparr>sc_c := float_of (Work (EstInputTokens req) (EstOutputTokens req) (wa_weights s))\<rparr>)
         else sc)"

definition pass1 :: "scorer \<Rightarrow> worker_snapshot list \<Rightarrow> nat list \<Rightarrow> float64 \<times> nat \<times> nat" where
  "pass1 sc workers idx = foldl (\<lambda>(best, nValid, nInvalid) j.
       case score sc (workers ! j) of
         Some v \<Rightarrow> (fmin best v, nValid + 1, nInvalid)
       | None \<Rightarrow> (best, nValid, nInvalid + 1)) (PInf, 0, 0) idx"

definition neutral_score :: "scorer \<Rightarrow> worker_snapshot list \<Rightarrow> nat list \<Rightarrow> nat \<Rightarrow> nat \<Rightarrow> float64" where
  "neutral_score sc workers idx nValid nInvalid =
     (if nInvalid > 0 \<and> nValid > 0 then medianOf (List.map_filter (\<lambda>j. score sc (workers ! j)) idx) else PInf)"

definition tied_within :: "scorer \<Rightarrow> worker_snapshot list \<Rightarrow> nat list \<Rightarrow> float64 \<Rightarrow> float64 \<Rightarrow> bool \<Rightarrow> nat list" where
  \<comment> \<open>pass 2\<close>
  "tied_within sc workers idx best neutral allInvalid = filter (\<lambda>j.
       let v = (case score sc (workers ! j) of Some v \<Rightarrow> v | None \<Rightarrow> neutral)
       in allInvalid \<or> fle v (fadd best (fmul tieEps (fabs best)))) idx"

definition workAware_SelectWorker :: "ctx_error option \<Rightarrow> (nat \<Rightarrow> nat) \<Rightarrow> inference_request \<Rightarrow> worker_snapshot list \<Rightarrow> work_aware
    \<Rightarrow> work_aware \<times> (sched_error + worker_snapshot)" where
  "workAware_SelectWorker ctx intN req workers s =
     (case ctx of
        Some e \<Rightarrow> (s, Inl (CtxErr e))
      | None \<Rightarrow> (case eligible req workers of
          Inl why \<Rightarrow> (s, Inl (NoWorkerError why))
        | Inr idx \<Rightarrow>
            if \<not> list_ex (\<lambda>j. trusted (workers ! j)) idx
            then let (rot, chosen) = chooseWith activeLoad (wa_rot s) (req_Model req) workers idx
                 in (s\<lparr>wa_rot := rot\<rparr>, Inr (set_flags ObservedDegraded chosen))
            else
              let sc = scorer_for s req workers idx;
                  (best, nValid, nInvalid) = pass1 sc workers idx;
                  neutral = neutral_score sc workers idx nValid nInvalid;
                  tied = tied_within sc workers idx best neutral (nValid = 0);
                  (rot, chosen0) = rot_pick (req_Model req) workers tied (wa_rot s);
                  chosen1 = (if sc_degraded sc then set_flags ObservedDegraded chosen0 else chosen0);
                  chosen2 = (if score sc chosen1 = None \<and> and (Flags (Observed chosen1)) ObservedUntracked = 0
                             then set_flags ObservedInvalid chosen1 else chosen1)
              in (s\<lparr>wa_rot := rot\<rparr>, Inr chosen2)))"

definition PredictedWait :: "observed_load \<Rightarrow> float64 \<Rightarrow> float64 option" where
  "PredictedWait ob cst =
     (if and (Flags ob) ObservedLedger = 0 \<or> \<not> validRate (CapacityTPS ob) \<or> \<not> fle (Fin 0) (WorkAheadTokens ob)
         \<or> is_inf (WorkAheadTokens ob) \<or> \<not> fle (Fin 0) cst
      then None
      else let v = fdiv (fadd (WorkAheadTokens ob) cst) (CapacityTPS ob)
           in if is_nan v \<or> is_inf v then None else Some v)"

section \<open>The strategy table\<close>

definition Random :: string where "Random = ''random''"
definition RoundRobin :: string where "RoundRobin = ''round-robin''"
definition LeastActive :: string where "LeastActive = ''least-active''"
definition LeastQueue :: string where "LeastQueue = ''least-queue''"
definition LeastTokens :: string where "LeastTokens = ''least-tokens''"
definition LeastWork :: string where "LeastWork = ''least-work''"

lemmas strategy_names = Random_def RoundRobin_def LeastActive_def LeastQueue_def LeastTokens_def LeastWork_def

definition Strategies :: "string list" where
  "Strategies = [Random, RoundRobin, LeastActive, LeastQueue, LeastTokens, LeastWork]"

definition WorkAware :: "string \<Rightarrow> bool" where
  "WorkAware strategy \<longleftrightarrow> strategy = LeastTokens \<or> strategy = LeastWork"

datatype strategy_state = RandomScheduler | RoundRobinScheduler rotor
  | LeastLoadedScheduler "worker_snapshot \<Rightarrow> int" rotor | WorkAwareScheduler work_aware

definition New_scheduler :: "string \<Rightarrow> weights \<Rightarrow> strategy_state option" where
  \<comment> \<open>\<^verbatim>\<open>None\<close> is the error of an unknown strategy; the weights are \<^verbatim>\<open>DefaultWeights\<close> unless an option sets them\<close>
  "New_scheduler strategy w =
     (if strategy = Random then Some RandomScheduler
      else if strategy = RoundRobin then Some (RoundRobinScheduler newRotor)
      else if strategy = LeastActive then Some (LeastLoadedScheduler activeLoad newRotor)
      else if strategy = LeastQueue then Some (LeastLoadedScheduler queueLoad newRotor)
      else if strategy = LeastTokens \<or> strategy = LeastWork
      then Some (WorkAwareScheduler \<lparr>wa_rot = newRotor, wa_work = (strategy = LeastWork), wa_weights = w\<rparr>)
      else None)"

fun SelectWorker :: "ctx_error option \<Rightarrow> (nat \<Rightarrow> nat) \<Rightarrow> inference_request \<Rightarrow> worker_snapshot list \<Rightarrow> strategy_state
    \<Rightarrow> strategy_state \<times> (sched_error + worker_snapshot)" where
  "SelectWorker ctx intN req ws RandomScheduler =
     (let (_, res) = random_SelectWorker ctx intN req ws () in (RandomScheduler, res))"
| "SelectWorker ctx intN req ws (RoundRobinScheduler rot) =
     (let (rot', res) = roundRobin_SelectWorker ctx intN req ws rot in (RoundRobinScheduler rot', res))"
| "SelectWorker ctx intN req ws (LeastLoadedScheduler load rot) =
     (let (rot', res) = leastLoaded_SelectWorker load ctx intN req ws rot in (LeastLoadedScheduler load rot', res))"
| "SelectWorker ctx intN req ws (WorkAwareScheduler s) =
     (let (s', res) = workAware_SelectWorker ctx intN req ws s in (WorkAwareScheduler s', res))"

section \<open>Lemmas\<close>

lemma set_flags_same [simp]: "same_worker (set_flags f w) w"
  by (auto simp: same_worker_def set_flags_def)

lemma same_worker_trans: "same_worker u v \<Longrightarrow> same_worker v w \<Longrightarrow> same_worker u w"
  by (auto simp: same_worker_def)

lemma set_flags_same2: "same_worker v w \<Longrightarrow> same_worker (set_flags f v) w"
  by (rule same_worker_trans[OF set_flags_same])

lemma score_Fin: "score sc w = Some v \<Longrightarrow> v \<noteq> NaN \<and> v \<noteq> PInf \<and> v \<noteq> NInf"
  by (cases "WorkAheadTokens (Observed w)") (auto simp: score_def Let_def is_nan_def is_inf_def split: if_splits)

lemma score_float:
  assumes "score sc w = Some v" "snapshot_ok w" "is_float (sc_c sc)" "is_float (sc_prior sc)"
  shows "is_float v"
  using assms by (auto simp: score_def Let_def snapshot_ok_def split: if_splits)

lemma fmin_Fin [simp]: "fmin (Fin x) (Fin y) = Fin (min x y)" "fmin PInf (Fin y) = Fin y"
  by (auto simp: fmin_def min_def)

lemma tieEps_Fin: "tieEps = Fin (round_rat (1 / 10 ^ 9))" "0 \<le> round_rat (1 / 10 ^ 9)"
proof -
  show "tieEps = Fin (round_rat (1 / 10 ^ 9))"
    unfolding tieEps_def flit_def by (rule fround_bounded[where n = 1]) simp_all
  show "0 \<le> round_rat (1 / 10 ^ 9)" by (rule round_rat_nonneg) simp
qed

lemma tie_above:
  assumes "is_float (Fin b)"
  shows "fle (Fin b) (fadd (Fin b) (fmul tieEps (fabs (Fin b))))"
proof -
  let ?x = "round_rat (1 / 10 ^ 9) * \<bar>b\<bar>"
  have x: "0 \<le> ?x" using tieEps_Fin(2) by simp
  show ?thesis
    using fround_nonneg(1)[OF x]
  proof
    assume "fround ?x = Fin (round_rat ?x)"
    then show ?thesis using fround_nonneg(2)[OF x] assms by (simp add: tieEps_Fin(1) fround_ge)
  qed (simp add: tieEps_Fin(1))
qed

lemma pass1_snoc:
  "pass1 sc ws (idx @ [j]) = (let (best, nv, ni) = pass1 sc ws idx in
     case score sc (ws ! j) of Some v \<Rightarrow> (fmin best v, nv + 1, ni) | None \<Rightarrow> (best, nv, ni + 1))"
  by (simp add: pass1_def case_prod_beta)

lemma fmin_score:
  assumes "score sc w = Some v" "best = PInf \<or> score sc w' = Some best"
  shows "fle (fmin best v) v" "fle (fmin best v) best" "fmin best v = v \<or> best \<noteq> PInf \<and> fmin best v = best"
  using score_Fin[OF assms(1)] score_Fin[of sc w' best] assms(2)
  by (cases v; cases best; auto simp: fmin_def)+

lemma pass1_spec:
  assumes "pass1 sc ws idx = (best, nv, ni)"
  shows "nv = count_if (\<lambda>j. score sc (ws ! j) \<noteq> None) idx \<and> ni = count_if (\<lambda>j. score sc (ws ! j) = None) idx
    \<and> (if nv = 0 then best = PInf else \<exists>m \<in> set idx. score sc (ws ! m) = Some best)
    \<and> (\<forall>i \<in> set idx. \<forall>v. score sc (ws ! i) = Some v \<longrightarrow> fle best v)"
  using assms
proof (induction idx arbitrary: best nv ni rule: rev_induct)
  case Nil
  then show ?case by (simp add: pass1_def)
next
  case (snoc j idx)
  obtain b n i where p: "pass1 sc ws idx = (b, n, i)" by (cases "pass1 sc ws idx") auto
  note IH = snoc.IH[OF p]
  show ?case
  proof (cases "score sc (ws ! j)")
    case None
    then show ?thesis using snoc.prems IH by (auto simp: pass1_snoc p)
  next
    case (Some v)
    have e: "best = fmin b v" "nv = Suc n" "ni = i" using snoc.prems by (simp_all add: pass1_snoc p Some)
    obtain m where m: "b = PInf \<or> m \<in> set idx \<and> score sc (ws ! m) = Some b" using IH by (auto split: if_splits)
    have f: "fle best v" "fle best b" "best = v \<or> b \<noteq> PInf \<and> best = b"
      using fmin_score[OF Some, of b "ws ! m"] m unfolding e(1) by auto
    have "\<exists>m \<in> set (idx @ [j]). score sc (ws ! m) = Some best" using f(3) m Some by auto
    moreover have "fle best u" if "i' \<in> set idx" "score sc (ws ! i') = Some u" for i' u
      using IH that f(2) fle_trans by blast
    ultimately show ?thesis using e(2,3) IH Some f(1) by auto
  qed
qed

lemma medianOf_float: "\<forall>v \<in> set vs. is_float v \<Longrightarrow> vs \<noteq> [] \<Longrightarrow> is_float (medianOf vs)"
proof -
  assume *: "\<forall>v \<in> set vs. is_float v" "vs \<noteq> []"
  have "is_float (sort vs ! k)" if "k < length vs" for k
    using * that nth_mem[of k "sort vs"] by simp
  moreover have "is_float (Fin 2)"
    using float_of_exact[of 2] is_float_of[of 2] by simp
  moreover have "length vs div 2 < length vs" "length vs div 2 - 1 < length vs"
    using *(2) by (cases vs; simp)+
  ultimately show ?thesis by (simp add: medianOf_def Let_def)
qed

lemma float_0 [simp]: "is_float (Fin 0)"
  using float_of_exact[of 0] is_float_of[of 0] by simp

lemma prepare_float:
  assumes "\<forall>j \<in> set idx. snapshot_ok (ws ! j)" "is_float (sc_c sc)" "is_float (sc_prior sc)"
  shows "is_float (sc_c (prepare ws idx sc)) \<and> is_float (sc_prior (prepare ws idx sc))"
proof -
  have "\<forall>v \<in> set (filter validRate (map (\<lambda>j. CapacityTPS (Observed (ws ! j))) idx)). is_float v"
    using assms(1) by (auto simp: snapshot_ok_def)
  from medianOf_float[OF this] show ?thesis
    using assms(2,3) by (auto simp: prepare_def Let_def)
qed

lemma scorer_for_float:
  assumes "\<forall>j \<in> set idx. snapshot_ok (ws ! j)"
  shows "is_float (sc_c (scorer_for s req ws idx)) \<and> is_float (sc_prior (scorer_for s req ws idx))"
  unfolding scorer_for_def Let_def
  by (cases "wa_work s") (use prepare_float[OF assms] in \<open>simp_all\<close>)

lemma tied_nonempty:
  assumes "pass1 sc ws idx = (best, nv, ni)" "idx \<noteq> []" "\<forall>j \<in> set idx. snapshot_ok (ws ! j)"
    and "is_float (sc_c sc)" "is_float (sc_prior sc)"
  shows "tied_within sc ws idx best neutral (nv = 0) \<noteq> []"
proof (cases "nv = 0")
  case True
  with assms(2) show ?thesis by (simp add: tied_within_def)
next
  case False
  with pass1_spec[OF assms(1)] obtain m where m: "m \<in> set idx" "score sc (ws ! m) = Some best" by auto
  obtain b where b: "best = Fin b" using score_Fin[OF m(2)] by (cases best) auto
  have "is_float (Fin b)" using score_float[OF m(2)] assms(3-5) m(1) b by simp
  with m tie_above[of b] show ?thesis by (auto simp: tied_within_def filter_empty_conv b intro!: bexI[of _ m])
qed

definition wa_choice :: "scorer \<Rightarrow> worker_snapshot \<Rightarrow> worker_snapshot" where
  "wa_choice sc chosen0 =
     (let chosen1 = (if sc_degraded sc then set_flags ObservedDegraded chosen0 else chosen0)
      in if score sc chosen1 = None \<and> and (Flags (Observed chosen1)) ObservedUntracked = 0
         then set_flags ObservedInvalid chosen1 else chosen1)"

lemma wa_choice_same: "same_worker (wa_choice sc w) w"
  by (simp add: wa_choice_def Let_def set_flags_same2)

lemma workAware_scored:
  assumes "eligible req ws = Inr idx" "list_ex (\<lambda>j. trusted (ws ! j)) idx" "\<forall>w \<in> set ws. snapshot_ok w"
    and sc_def: "sc = scorer_for s req ws idx"
  obtains best nv ni j rot where "pass1 sc ws idx = (best, nv, ni)"
    "j \<in> set (tied_within sc ws idx best (neutral_score sc ws idx nv ni) (nv = 0))"
    "workAware_SelectWorker None intN req ws s = (s\<lparr>wa_rot := rot\<rparr>, Inr (wa_choice sc (ws ! j)))"
proof -
  obtain best nv ni where p: "pass1 sc ws idx = (best, nv, ni)" by (cases "pass1 sc ws idx") auto
  let ?t = "tied_within sc ws idx best (neutral_score sc ws idx nv ni) (nv = 0)"
  have ok: "\<forall>j \<in> set idx. snapshot_ok (ws ! j)" using eligible_Inr(2)[OF assms(1)] assms(3) by auto
  have "?t \<noteq> []"
    using scorer_for_float[OF ok, of s req] unfolding sc_def[symmetric]
    by (intro tied_nonempty[OF p eligible_Inr(1)[OF assms(1)] ok]) auto
  from rot_pick_mem[OF this, of "req_Model req" ws "wa_rot s"] obtain j rot
    where "j \<in> set ?t" "rot_pick (req_Model req) ws ?t (wa_rot s) = (rot, ws ! j)"
    by (metis prod.collapse)
  with p show ?thesis
    using assms(2) by (intro that[of best nv ni j rot])
      (simp_all add: workAware_SelectWorker_def assms(1) sc_def wa_choice_def Let_def)
qed

lemma workAware_fallback:
  assumes "eligible req ws = Inr idx" "\<not> list_ex (\<lambda>j. trusted (ws ! j)) idx"
  obtains j rot where "j \<in> set idx" "\<forall>i \<in> set idx. activeLoad (ws ! j) \<le> activeLoad (ws ! i)"
    "workAware_SelectWorker None intN req ws s = (s\<lparr>wa_rot := rot\<rparr>, Inr (set_flags ObservedDegraded (ws ! j)))"
proof -
  obtain j where j: "j \<in> set idx" "snd (chooseWith activeLoad (wa_rot s) (req_Model req) ws idx) = ws ! j"
    "\<forall>i \<in> set idx. activeLoad (ws ! j) \<le> activeLoad (ws ! i)"
    using chooseWith_spec[OF eligible_Inr(1)[OF assms(1)], of activeLoad "wa_rot s" "req_Model req" ws] by blast
  then show ?thesis
    using assms by (intro that[of j "fst (chooseWith activeLoad (wa_rot s) (req_Model req) ws idx)"])
      (auto simp: workAware_SelectWorker_def case_prod_beta)
qed

interpretation wa_sched: scheduler workAware_SelectWorker
proof
  fix req ws idx s and intN :: "nat \<Rightarrow> nat"
  assume e: "eligible req ws = Inr idx" and ok: "\<forall>w \<in> set ws. snapshot_ok w"
  show "\<exists>j \<in> set idx. \<exists>s' w. workAware_SelectWorker None intN req ws s = (s', Inr w) \<and> same_worker w (ws ! j)"
  proof (cases "list_ex (\<lambda>j. trusted (ws ! j)) idx")
    case True
    obtain best nv ni j rot where
      "j \<in> set (tied_within (scorer_for s req ws idx) ws idx best (neutral_score (scorer_for s req ws idx) ws idx nv ni) (nv = 0))"
      "workAware_SelectWorker None intN req ws s = (s\<lparr>wa_rot := rot\<rparr>, Inr (wa_choice (scorer_for s req ws idx) (ws ! j)))"
      by (rule workAware_scored[OF e True ok refl])
    then show ?thesis using wa_choice_same by (auto simp: tied_within_def intro!: bexI[of _ j])
  next
    case False
    obtain j rot where "j \<in> set idx"
      "workAware_SelectWorker None intN req ws s = (s\<lparr>wa_rot := rot\<rparr>, Inr (set_flags ObservedDegraded (ws ! j)))"
      by (rule workAware_fallback[OF e False])
    then show ?thesis by (auto intro!: bexI[of _ j])
  qed
qed (simp_all add: workAware_SelectWorker_def)

interpretation sched: scheduler SelectWorker
proof
  fix e intN req ws s
  show "SelectWorker (Some e) intN req ws s = (s, Inl (CtxErr e))"
    by (cases s) (simp_all add: rand_sched.cancelled rr_sched.cancelled ll_sched.cancelled wa_sched.cancelled)
next
  fix req ws why intN s
  assume *: "eligible req ws = Inl why"
  show "SelectWorker None intN req ws s = (s, Inl (NoWorkerError why))"
    by (cases s) (simp_all add: rand_sched.none[OF *] rr_sched.none[OF *] ll_sched.none[OF *] wa_sched.none[OF *])
next
  fix req ws idx s and intN :: "nat \<Rightarrow> nat"
  assume *: "eligible req ws = Inr idx" "rng_ok intN" "\<forall>w \<in> set ws. snapshot_ok w"
  show "\<exists>j \<in> set idx. \<exists>s' w. SelectWorker None intN req ws s = (s', Inr w) \<and> same_worker w (ws ! j)"
  proof (cases s)
    case RandomScheduler
    then show ?thesis using rand_sched.some[OF *, of "()"] by auto
  next
    case (RoundRobinScheduler r)
    then show ?thesis using rr_sched.some[OF *, of r] by auto
  next
    case (LeastLoadedScheduler load r)
    then show ?thesis using ll_sched.some[OF *, of load r] by auto
  next
    case (WorkAwareScheduler w)
    then show ?thesis using wa_sched.some[OF *, of w] by auto
  qed
qed

section \<open>Properties\<close>

text \<open>C13: Every strategy keeps the contract of \<^verbatim>\<open>Scheduler\<close>: it returns a worker exactly when the context is live and some
  given worker may serve the request, and the worker is a copy (up to diagnostic flags) of a given one that serves
  the model, is ready, is offered by the registry and has a free slot.\<close>

theorem scheduler_contract:
  assumes "rng_ok intN" "\<forall>w \<in> set ws. snapshot_ok w"
  shows "((\<exists>s' w. SelectWorker ctx intN req ws s = (s', Inr w)) \<longleftrightarrow> ctx = None \<and> (\<exists>w \<in> set ws. candidate req w))
    \<and> (\<forall>s' w. SelectWorker ctx intN req ws s = (s', Inr w) \<longrightarrow> candidate req w \<and> (\<exists>v \<in> set ws. same_worker w v))
    \<and> (\<forall>s' e. SelectWorker None intN req ws s = (s', Inl e) \<longrightarrow> (\<exists>why. e = NoWorkerError why \<and> eligible req ws = Inl why))"
  by (intro conjI sched.selects_iff[OF assms] allI impI sched.selects_candidate[OF _ assms] sched.refusal_explains[OF _ assms])

theorem scheduler_contract_witness:
  "\<exists>s' w. SelectWorker None (\<lambda>_. 0) ex_request [ex_worker ''b'' 2, ex_worker ''a'' 1]
      (the (New_scheduler LeastWork DefaultWeights)) = (s', Inr w) \<and> candidate ex_request w"
proof -
  have 1: "rng_ok (\<lambda>_. 0)" by (simp add: rng_ok_def)
  have 2: "\<forall>w \<in> set [ex_worker ''b'' 2, ex_worker ''a'' 1]. snapshot_ok w"
    by (simp add: snapshot_ok_def ex_worker_def observed_zero_def)
  have "\<exists>w \<in> set [ex_worker ''b'' 2, ex_worker ''a'' 1]. candidate ex_request w"
    by (simp add: candidate_def ex_worker_def ex_request_def metrics_zero_def)
  then obtain s' w where "SelectWorker None (\<lambda>_. 0) ex_request [ex_worker ''b'' 2, ex_worker ''a'' 1]
      (the (New_scheduler LeastWork DefaultWeights)) = (s', Inr w)"
    using scheduler_contract[OF 1 2, of None ex_request "the (New_scheduler LeastWork DefaultWeights)"] by auto
  then show ?thesis
    using scheduler_contract[OF 1 2, of None ex_request "the (New_scheduler LeastWork DefaultWeights)"] by auto
qed

definition ranks_as :: "scorer \<Rightarrow> worker_snapshot list \<Rightarrow> nat list \<Rightarrow> nat \<Rightarrow> float64" where
  \<comment> \<open>the score a candidate is ranked by: its own, or the median of the valid ones\<close>
  "ranks_as sc ws idx j = (case score sc (ws ! j) of
     Some v \<Rightarrow> v | None \<Rightarrow> medianOf (List.map_filter (\<lambda>j. score sc (ws ! j)) idx))"

text \<open>C23: A work-aware strategy with a ledger observation and a valid score among the candidates chooses a candidate
  whose rank is within the tie tolerance of the least valid score; a candidate without a valid score is ranked by
  the median of the valid ones, so garbage neither wins outright nor is exiled, and if it is chosen and tracked the
  copy says so. Without any ledger observation the choice is least-active's and is flagged as degraded.\<close>

theorem work_aware_choice:
  assumes "eligible req ws = Inr idx" "\<forall>w \<in> set ws. snapshot_ok w"
    and "workAware_SelectWorker None intN req ws s = (s', Inr w)" "sc = scorer_for s req ws idx"
  shows "if \<exists>j \<in> set idx. trusted (ws ! j) then
      \<exists>j \<in> set idx. same_worker w (ws ! j)
        \<and> (score sc (ws ! j) = None \<and> \<not> sc_degraded sc \<and> and (Flags (Observed (ws ! j))) ObservedUntracked = 0
             \<longrightarrow> w = set_flags ObservedInvalid (ws ! j))
        \<and> ((\<exists>i \<in> set idx. score sc (ws ! i) \<noteq> None) \<longrightarrow>
            (\<exists>m \<in> set idx. \<exists>best. score sc (ws ! m) = Some best
               \<and> (\<forall>i \<in> set idx. \<forall>v. score sc (ws ! i) = Some v \<longrightarrow> fle best v)
               \<and> fle (ranks_as sc ws idx j) (fadd best (fmul tieEps (fabs best)))))
    else \<exists>j \<in> set idx. w = set_flags ObservedDegraded (ws ! j) \<and> (\<forall>i \<in> set idx. activeLoad (ws ! j) \<le> activeLoad (ws ! i))"
proof (cases "list_ex (\<lambda>j. trusted (ws ! j)) idx")
  case True
  obtain best nv ni j rot where p: "pass1 sc ws idx = (best, nv, ni)"
    and j: "j \<in> set (tied_within sc ws idx best (neutral_score sc ws idx nv ni) (nv = 0))"
    and w: "workAware_SelectWorker None intN req ws s = (s\<lparr>wa_rot := rot\<rparr>, Inr (wa_choice sc (ws ! j)))"
    by (rule workAware_scored[OF assms(1) True assms(2,4)])
  have eq: "w = wa_choice sc (ws ! j)" using w assms(3) by simp
  have jm: "j \<in> set idx" using j by (simp add: tied_within_def)
  note sp = pass1_spec[OF p]
  have best: "\<exists>m \<in> set idx. \<exists>best. score sc (ws ! m) = Some best
       \<and> (\<forall>i \<in> set idx. \<forall>v. score sc (ws ! i) = Some v \<longrightarrow> fle best v)
       \<and> fle (ranks_as sc ws idx j) (fadd best (fmul tieEps (fabs best)))" if "i \<in> set idx" "score sc (ws ! i) \<noteq> None" for i
  proof -
    have "0 < count_if (\<lambda>j. score sc (ws ! j) \<noteq> None) idx" unfolding count_if_pos using that by blast
    then have nv: "nv \<noteq> 0" using sp by auto
    have "ni > 0" if "score sc (ws ! j) = None"
      using sp jm that count_if_pos[of "\<lambda>j. score sc (ws ! j) = None" idx] by auto
    then have "fle (ranks_as sc ws idx j) (fadd best (fmul tieEps (fabs best)))"
      using j nv by (auto simp: tied_within_def ranks_as_def neutral_score_def Let_def split: option.splits)
    then show ?thesis using sp nv by auto
  qed
  have inv: "score sc (ws ! j) = None \<and> \<not> sc_degraded sc \<and> and (Flags (Observed (ws ! j))) ObservedUntracked = 0
      \<longrightarrow> w = set_flags ObservedInvalid (ws ! j)"
    by (simp add: eq wa_choice_def)
  have same: "same_worker w (ws ! j)" unfolding eq by (rule wa_choice_same)
  have t: "\<exists>j \<in> set idx. trusted (ws ! j)" using True by (simp add: list_ex_iff)
  show ?thesis
    unfolding if_P[OF t] by (intro bexI[OF _ jm] conjI same inv) (use best in blast)
next
  case False
  obtain j rot where "j \<in> set idx" "\<forall>i \<in> set idx. activeLoad (ws ! j) \<le> activeLoad (ws ! i)"
    "workAware_SelectWorker None intN req ws s = (s\<lparr>wa_rot := rot\<rparr>, Inr (set_flags ObservedDegraded (ws ! j)))"
    by (rule workAware_fallback[OF assms(1) False])
  with assms(3) False show ?thesis by (auto simp: list_ex_iff)
qed

definition ex_observed :: "string \<Rightarrow> rat \<Rightarrow> worker_snapshot" where
  "ex_observed n ahead = (ex_worker n 0)\<lparr>Observed := observed_zero\<lparr>WorkAheadTokens := Fin ahead, Flags := ObservedLedger\<rparr>\<rparr>"

theorem work_aware_choice_witness:
  "\<exists>s' w. workAware_SelectWorker None (\<lambda>_. 0) ex_request [ex_observed ''a'' 5, ex_observed ''b'' 3]
      \<lparr>wa_rot = [], wa_work = False, wa_weights = DefaultWeights\<rparr> = (s', Inr w)
    \<and> (\<exists>j \<in> {0, 1}. same_worker w ([ex_observed ''a'' 5, ex_observed ''b'' 3] ! j))"
proof -
  let ?ws = "[ex_observed ''a'' 5, ex_observed ''b'' 3]"
    and ?s = "\<lparr>wa_rot = [], wa_work = False, wa_weights = DefaultWeights\<rparr>"
  have e: "eligible ex_request ?ws = Inr [0, 1]" by code_simp
  have ok: "\<forall>w \<in> set ?ws. snapshot_ok w"
    using is_float_of[of 5] is_float_of[of 3] float_of_exact[of 5] float_of_exact[of 3]
    by (simp add: snapshot_ok_def ex_observed_def ex_worker_def observed_zero_def)
  have t: "\<exists>j \<in> set [0, 1]. trusted (?ws ! j)"
    by (simp add: trusted_def ex_observed_def observed_flag_defs)
  obtain j :: nat and s' w where sel: "workAware_SelectWorker None (\<lambda>_. 0) ex_request ?ws ?s = (s', Inr w)"
    using wa_sched.some[OF e _ ok, of "\<lambda>_. 0" ?s] by (auto simp: rng_ok_def)
  have "\<exists>j \<in> set [0, 1]. same_worker w (?ws ! j)"
    using work_aware_choice[OF e ok sel refl] t by (simp only: if_True) blast
  with sel show ?thesis by auto
qed

text \<open>The wait the router reports for a decision is the score the least-work strategy ranked the worker by.\<close>

theorem predicted_wait_is_score:
  assumes "trusted w" "sc_work sc" "validRate (CapacityTPS (Observed w))" "fle (Fin 0) (sc_c sc)"
  shows "PredictedWait (Observed w) (sc_c sc) = score sc w"
  using assms by (auto simp: PredictedWait_def score_def trusted_def Let_def)

theorem predicted_wait_is_score_witness:
  "PredictedWait (Observed (ex_observed ''a'' 5\<lparr>Observed := (Observed (ex_observed ''a'' 5))\<lparr>CapacityTPS := Fin 10\<rparr>\<rparr>)) (Fin 3)
   = score \<lparr>sc_work = True, sc_c = Fin 3, sc_prior = Fin 0, sc_degraded = False\<rparr>
       (ex_observed ''a'' 5\<lparr>Observed := (Observed (ex_observed ''a'' 5))\<lparr>CapacityTPS := Fin 10\<rparr>\<rparr>)"
  using predicted_wait_is_score[of "ex_observed ''a'' 5\<lparr>Observed := (Observed (ex_observed ''a'' 5))\<lparr>CapacityTPS := Fin 10\<rparr>\<rparr>"
    "\<lparr>sc_work = True, sc_c = Fin 3, sc_prior = Fin 0, sc_degraded = False\<rparr>"]
  by (simp add: trusted_def ex_observed_def observed_flag_defs validRate_def is_inf_def)

end
