(* ===== verification/Budget.thy ===== *)
theory Budget
  imports Window Float64
begin

text \<open>
  \<^verbatim>\<open>internal/resilience/budget.go\<close> and \<^verbatim>\<open>admission.go\<close>: the per-model retry budget and the global admission counter.
  A \<^verbatim>\<open>*Reservation\<close> (and an admission \<^verbatim>\<open>*Slot\<close>) is an index into the list of the ones handed out, so that the
  idempotence of \<^verbatim>\<open>Refund\<close> and \<^verbatim>\<open>Release\<close> is a statement about the shared flag.
\<close>

section \<open>The retry budget\<close>

definition OtherModel :: string where
  "OtherModel = ''other''"

record budget_params =
  bp_Ratio :: float64
  bp_Min :: int
  bp_Window :: duration
  bp_MaxModels :: int

record reservation =
  rv_model :: string
  rv_at :: time
  rv_refunded :: bool

record budget =
  bg_p :: budget_params
  bg_models :: "(string, slidingWindow) gomap"
  bg_reservations :: "reservation list"

definition NewBudget :: "budget_params \<Rightarrow> budget" where
  "NewBudget p = (let p' = (if bp_Window p < bucketWidth then p\<lparr>bp_Window := bucketWidth\<rparr> else p)
     in \<lparr>bg_p = p', bg_models = [], bg_reservations = []\<rparr>)"

definition budget_new_window :: "string \<Rightarrow> budget \<Rightarrow> budget" where
  "budget_new_window model b = b\<lparr>bg_models := mput model (newSlidingWindow (bp_Window (bg_p b))) (bg_models b)\<rparr>"

definition budget_window :: "string \<Rightarrow> budget \<Rightarrow> budget \<times> string" where
  \<comment> \<open>the window exists in the new state under the returned key; the recursive call for \<^verbatim>\<open>OtherModel\<close> is unfolded\<close>
  "budget_window model b =
     (if mget (bg_models b) model \<noteq> None then (b, model)
      else if bp_MaxModels (bg_p b) > 0 \<and> int (length (bg_models b)) \<ge> bp_MaxModels (bg_p b) \<and> model \<noteq> OtherModel
      then (if mget (bg_models b) OtherModel \<noteq> None then b else budget_new_window OtherModel b, OtherModel)
      else (budget_new_window model b, model))"

definition budget_upd :: "string \<Rightarrow> (slidingWindow \<Rightarrow> slidingWindow) \<Rightarrow> budget \<Rightarrow> budget" where
  \<comment> \<open>a method call on the window pointer\<close>
  "budget_upd key f b = (case mget (bg_models b) key of
       None \<Rightarrow> b | Some w \<Rightarrow> b\<lparr>bg_models := mput key (f w) (bg_models b)\<rparr>)"

definition budget_sum :: "time \<Rightarrow> string \<Rightarrow> budget \<Rightarrow> int \<times> int" where
  "budget_sum now key b = (case mget (bg_models b) key of None \<Rightarrow> (0, 0) | Some w \<Rightarrow> window_sum now w)"

definition NoteFirst :: "time \<Rightarrow> string \<Rightarrow> budget \<Rightarrow> budget" where
  "NoteFirst now model b =
     (let (b1, key) = budget_window model b in budget_upd key (window_add now now Counter0 1) b1)"

definition budget_limit :: "budget_params \<Rightarrow> int \<Rightarrow> int" where
  "budget_limit p firsts =
     max (bp_Min p) (trunc_of (ffloor (fadd (fmul (bp_Ratio p) (float_of firsts)) (flit (1 / 10 ^ 9)))))"

definition Reserve :: "time \<Rightarrow> string \<Rightarrow> budget \<Rightarrow> budget \<times> nat option" where
  "Reserve now model b =
     (let (b1, key) = budget_window model b;
          (firsts, retries) = budget_sum now key b1
      in if retries \<ge> budget_limit (bg_p b) firsts then (b1, None)
         else let b2 = budget_upd key (window_add now now Counter1 1) b1
              in (b2\<lparr>bg_reservations := bg_reservations b2 @ [\<lparr>rv_model = key, rv_at = now, rv_refunded = False\<rparr>]\<rparr>,
                  Some (length (bg_reservations b2))))"

definition Refund :: "time \<Rightarrow> nat option \<Rightarrow> budget \<Rightarrow> budget" where
  "Refund now h b =
     (case h of
        None \<Rightarrow> b
      | Some i \<Rightarrow>
          let r = bg_reservations b ! i in
          if rv_refunded r then b
          else let b1 = b\<lparr>bg_reservations := (bg_reservations b)[i := r\<lparr>rv_refunded := True\<rparr>]\<rparr>
               in budget_upd (rv_model r) (window_add (rv_at r) now Counter1 (- 1)) b1)"

definition Usage :: "time \<Rightarrow> string \<Rightarrow> budget \<Rightarrow> int \<times> int" where
  "Usage now model b =
     (let key = (if mget (bg_models b) model = None \<and> bp_MaxModels (bg_p b) > 0
                    \<and> int (length (bg_models b)) \<ge> bp_MaxModels (bg_p b) then OtherModel else model)
      in budget_sum now key b)"

definition Budget_Prune :: "time \<Rightarrow> (string \<Rightarrow> bool) \<Rightarrow> budget \<Rightarrow> budget" where
  "Budget_Prune now keep b = b\<lparr>bg_models := filter (\<lambda>(m, w).
       keep m \<or> (m = OtherModel \<and> (let (f, r) = window_sum now w in f \<noteq> 0 \<or> r \<noteq> 0))) (bg_models b)\<rparr>"

section \<open>Invariant\<close>

definition budget_ok :: "budget \<Rightarrow> bool" where
  "budget_ok b \<longleftrightarrow> mok (bg_models b)
     \<and> (\<forall>(m, w) \<in> set (bg_models b). window_ok w \<and> sw_n w = sw_n (newSlidingWindow (bp_Window (bg_p b))))
     \<and> (bp_MaxModels (bg_p b) > 0 \<longrightarrow>
          int (card (mkeys (bg_models b) - {OtherModel})) \<le> bp_MaxModels (bg_p b))"

lemma budget_okD:
  assumes "budget_ok b"
  shows "mok (bg_models b)"
    "mget (bg_models b) m = Some w \<Longrightarrow> window_ok w"
    "mget (bg_models b) m = Some w \<Longrightarrow> sw_n w = sw_n (newSlidingWindow (bp_Window (bg_p b)))"
    "bp_MaxModels (bg_p b) > 0 \<Longrightarrow> int (card (mkeys (bg_models b) - {OtherModel})) \<le> bp_MaxModels (bg_p b)"
  using assms by (auto simp: budget_ok_def dest: mget_mem)

lemma NewBudget_ok: "budget_ok (NewBudget p)"
  by (simp add: budget_ok_def NewBudget_def Let_def)

lemma budget_ok_mput:
  assumes "budget_ok b" "window_ok w" "sw_n w = sw_n (newSlidingWindow (bp_Window (bg_p b)))"
    and "bp_MaxModels (bg_p b) > 0 \<Longrightarrow> mget (bg_models b) m \<noteq> None \<or> m = OtherModel \<or> int (length (bg_models b)) < bp_MaxModels (bg_p b)"
  shows "budget_ok (b\<lparr>bg_models := mput m w (bg_models b)\<rparr>)"
proof -
  have "int (card (insert m (mkeys (bg_models b)) - {OtherModel})) \<le> bp_MaxModels (bg_p b)" if pos: "bp_MaxModels (bg_p b) > 0"
  proof (cases "m \<in> mkeys (bg_models b) \<or> m = OtherModel")
    case True
    then have "insert m (mkeys (bg_models b)) - {OtherModel} = mkeys (bg_models b) - {OtherModel}" by auto
    then show ?thesis using budget_okD(4)[OF assms(1) pos] by simp
  next
    case False
    then have "int (length (bg_models b)) < bp_MaxModels (bg_p b)" using assms(4)[OF pos] by (auto simp: mkeys_iff)
    moreover have "card (insert m (mkeys (bg_models b)) - {OtherModel}) \<le> Suc (length (bg_models b))"
    proof -
      have "card (insert m (mkeys (bg_models b)) - {OtherModel}) \<le> card (insert m (mkeys (bg_models b)))"
        by (rule card_mono) auto
      also have "\<dots> \<le> Suc (card (mkeys (bg_models b)))" by (rule card_insert_le_m1) auto
      also have "card (mkeys (bg_models b)) \<le> length (bg_models b)"
        using card_image_le[of "set (bg_models b)" fst] card_length[of "bg_models b"] by (meson List.finite_set order_trans)
      finally show ?thesis by simp
    qed
    ultimately show ?thesis by linarith
  qed
  moreover have "\<forall>(k, v) \<in> set (mput m w (bg_models b)). window_ok v \<and> sw_n v = sw_n (newSlidingWindow (bp_Window (bg_p b)))"
    using assms(1-3) by (auto simp: budget_ok_def mput_mem)
  ultimately show ?thesis
    using budget_okD(1)[OF assms(1)] by (simp add: budget_ok_def mkeys_mput)
qed

lemma budget_window_ok:
  assumes "budget_ok b"
  shows "budget_ok (fst (budget_window model b))"
proof -
  have new: "budget_ok (budget_new_window m b)" if "m = OtherModel \<or> \<not> (bp_MaxModels (bg_p b) > 0 \<and> int (length (bg_models b)) \<ge> bp_MaxModels (bg_p b))" for m
    unfolding budget_new_window_def using that
    by (intro budget_ok_mput[OF assms newSlidingWindow_ok]) auto
  show ?thesis using assms new[of OtherModel] new[of model] by (auto simp: budget_window_def)
qed

lemma budget_upd_ok:
  assumes "budget_ok b" "\<And>w. window_ok w \<Longrightarrow> window_ok (f w) \<and> sw_n (f w) = sw_n w"
  shows "budget_ok (budget_upd key f b)"
proof (cases "mget (bg_models b) key")
  case (Some w)
  show ?thesis unfolding budget_upd_def Some option.case
    by (rule budget_ok_mput) (use assms(1) assms(2)[of w] budget_okD(2,3)[OF assms(1) Some] Some in auto)
qed (simp add: budget_upd_def assms(1))

lemma budget_upd_simps [simp]:
  "bg_p (budget_upd key f b) = bg_p b" "bg_reservations (budget_upd key f b) = bg_reservations b"
  by (simp_all add: budget_upd_def split: option.splits)

lemma budget_window_simps [simp]:
  "bg_p (fst (budget_window m b)) = bg_p b" "bg_reservations (fst (budget_window m b)) = bg_reservations b"
  by (simp_all add: budget_window_def budget_new_window_def)

lemma mget_budget_upd:
  "mget (bg_models (budget_upd key f b)) k = (if k = key then map_option f (mget (bg_models b) k) else mget (bg_models b) k)"
  by (auto simp: budget_upd_def gomap_simps split: option.splits)

lemma budget_window_key: "mget (bg_models (fst (budget_window m b))) (snd (budget_window m b)) \<noteq> None"
  by (auto simp: budget_window_def budget_new_window_def gomap_simps)

lemma budget_window_old: "mget (bg_models b) k = Some w \<Longrightarrow> mget (bg_models (fst (budget_window m b))) k = Some w"
  by (auto simp: budget_window_def budget_new_window_def gomap_simps)

lemma budget_window_new:
  "mget (bg_models (fst (budget_window m b))) k = Some w \<Longrightarrow> mget (bg_models b) k = Some w
     \<or> mget (bg_models b) k = None \<and> w = newSlidingWindow (bp_Window (bg_p b))"
  by (auto simp: budget_window_def budget_new_window_def gomap_simps split: if_splits)

lemma NoteFirst_ok: "budget_ok b \<Longrightarrow> budget_ok (NoteFirst now m b)"
  by (simp add: NoteFirst_def case_prod_beta budget_upd_ok budget_window_ok window_add_ok)

lemma budget_ok_reservations [simp]: "budget_ok (b\<lparr>bg_reservations := r\<rparr>) = budget_ok b"
  by (simp add: budget_ok_def)

lemma Reserve_ok: "budget_ok b \<Longrightarrow> budget_ok (fst (Reserve now m b))"
  by (simp add: Reserve_def case_prod_beta Let_def budget_upd_ok budget_window_ok window_add_ok)

lemma Refund_ok: "budget_ok b \<Longrightarrow> budget_ok (Refund now h b)"
  by (simp add: Refund_def Let_def budget_upd_ok window_add_ok split: option.splits)

lemma Budget_Prune_ok:
  assumes "budget_ok b"
  shows "budget_ok (Budget_Prune now keep b)"
proof -
  have "int (card (mkeys (filter P (bg_models b)) - {OtherModel})) \<le> bp_MaxModels (bg_p b)" if "bp_MaxModels (bg_p b) > 0" for P
  proof -
    have "card (mkeys (filter P (bg_models b)) - {OtherModel}) \<le> card (mkeys (bg_models b) - {OtherModel})"
      by (rule card_mono) auto
    then show ?thesis using budget_okD(4)[OF assms that] by linarith
  qed
  moreover have "\<forall>(m, w) \<in> set (filter P (bg_models b)). window_ok w \<and> sw_n w = sw_n (newSlidingWindow (bp_Window (bg_p b)))" for P
    using assms by (auto simp: budget_ok_def)
  ultimately show ?thesis
    using budget_okD(1)[OF assms] unfolding budget_ok_def Budget_Prune_def by simp
qed

section \<open>The budget over its history\<close>

text \<open>The log of a history keeps what the budget itself does not: the first attempts, which reservations were made in a window that \<^verbatim>\<open>Prune\<close> has dropped since, and the
  refunds of such reservations that were taken from the window the key has now.\<close>

record budget_log =
  lg_firsts :: "(string \<times> time) list"
  lg_gone :: "nat set"
  lg_stray :: "(string \<times> time) list"

definition log_refund :: "nat option \<Rightarrow> budget \<Rightarrow> budget_log \<Rightarrow> budget_log" where
  "log_refund h b g = (case h of None \<Rightarrow> g | Some i \<Rightarrow> let r = bg_reservations b ! i in
     if \<not> rv_refunded r \<and> i \<in> lg_gone g \<and> mget (bg_models b) (rv_model r) \<noteq> None then g\<lparr>lg_stray := lg_stray g @ [(rv_model r, rv_at r)]\<rparr> else g)"

definition log_prune :: "budget \<Rightarrow> budget_log \<Rightarrow> budget_log" where
  \<comment> \<open>from the budget after the call\<close>
  "log_prune b g = (let kept = (\<lambda>x. mget (bg_models b) (fst x) \<noteq> None) in
     \<lparr>lg_firsts = filter kept (lg_firsts g),
      lg_gone = lg_gone g \<union> {i. i < length (bg_reservations b) \<and> mget (bg_models b) (rv_model (bg_reservations b ! i)) = None},
      lg_stray = filter kept (lg_stray g)\<rparr>)"

inductive budget_reach :: "budget_params \<Rightarrow> time \<Rightarrow> budget \<Rightarrow> budget_log \<Rightarrow> bool" for p where
  \<comment> \<open>first attempts, reservations, refunds of reservations that were granted and prunes, by a clock that does not run backwards\<close>
  new: "budget_reach p now (NewBudget p) \<lparr>lg_firsts = [], lg_gone = {}, lg_stray = []\<rparr>"
| first: "budget_reach p t b g \<Longrightarrow> t \<le> now \<Longrightarrow> budget_reach p now (NoteFirst now m b) (g\<lparr>lg_firsts := lg_firsts g @ [(snd (budget_window m b), now)]\<rparr>)"
| reserve: "budget_reach p t b g \<Longrightarrow> t \<le> now \<Longrightarrow> budget_reach p now (fst (Reserve now m b)) g"
| refund: "budget_reach p t b g \<Longrightarrow> t \<le> now \<Longrightarrow> (case h of None \<Rightarrow> True | Some i \<Rightarrow> i < length (bg_reservations b))
    \<Longrightarrow> budget_reach p now (Refund now h b) (log_refund h b g)"
| prune: "budget_reach p t b g \<Longrightarrow> t \<le> now \<Longrightarrow> budget_reach p now (Budget_Prune now keep b) (log_prune (Budget_Prune now keep b) g)"

definition counted :: "budget_log \<Rightarrow> budget \<Rightarrow> string \<Rightarrow> nat \<Rightarrow> bool" where
  \<comment> \<open>a reservation of the key, made since its window was created and not refunded\<close>
  "counted g b k i \<longleftrightarrow> i \<notin> lg_gone g \<and> rv_model (bg_reservations b ! i) = k \<and> \<not> rv_refunded (bg_reservations b ! i)"

definition live :: "budget_log \<Rightarrow> budget \<Rightarrow> string \<Rightarrow> int \<Rightarrow> int" where
  "live g b k idx = int (count_if (\<lambda>i. counted g b k i \<and> bucketOf (rv_at (bg_reservations b ! i)) = idx) [0..<length (bg_reservations b)])"

definition noted :: "(string \<times> time) list \<Rightarrow> string \<Rightarrow> int \<Rightarrow> int" where
  "noted xs k idx = int (count_if (\<lambda>x. fst x = k \<and> bucketOf (snd x) = idx) xs)"

definition recent :: "time \<Rightarrow> budget \<Rightarrow> int set" where
  \<comment> \<open>the buckets of the sliding window\<close>
  "recent now b = {bucketOf now - sw_n (newSlidingWindow (bp_Window (bg_p b)))<..bucketOf now}"

definition outstanding :: "time \<Rightarrow> string \<Rightarrow> budget \<Rightarrow> budget_log \<Rightarrow> int" where
  "outstanding now k b g = int (count_if (\<lambda>i. counted g b k i \<and> bucketOf (rv_at (bg_reservations b ! i)) \<in> recent now b) [0..<length (bg_reservations b)])"

definition recent_of :: "time \<Rightarrow> string \<Rightarrow> budget \<Rightarrow> (string \<times> time) list \<Rightarrow> int" where
  "recent_of now k b xs = int (count_if (\<lambda>x. fst x = k \<and> bucketOf (snd x) \<in> recent now b) xs)"

definition budget_hist :: "int \<Rightarrow> budget \<Rightarrow> budget_log \<Rightarrow> bool" where
  "budget_hist cur b g \<longleftrightarrow> budget_ok b
     \<and> (\<forall>i < length (bg_reservations b). bucketOf (rv_at (bg_reservations b ! i)) \<le> cur \<and> (i \<notin> lg_gone g \<longrightarrow> mget (bg_models b) (rv_model (bg_reservations b ! i)) \<noteq> None))
     \<and> lg_gone g \<subseteq> {..<length (bg_reservations b)}
     \<and> (\<forall>x \<in> set (lg_firsts g) \<union> set (lg_stray g). bucketOf (snd x) \<le> cur \<and> mget (bg_models b) (fst x) \<noteq> None)
     \<and> (\<forall>k w. mget (bg_models b) k = Some w \<longrightarrow> (\<forall>idx > cur - sw_n w. wcount Counter0 w idx = noted (lg_firsts g) k idx
          \<and> wcount Counter1 w idx \<le> live g b k idx \<and> live g b k idx - noted (lg_stray g) k idx \<le> wcount Counter1 w idx))"

lemma budget_histD:
  assumes "budget_hist cur b g"
  shows "budget_ok b" "i < length (bg_reservations b) \<Longrightarrow> bucketOf (rv_at (bg_reservations b ! i)) \<le> cur"
    "i < length (bg_reservations b) \<Longrightarrow> i \<notin> lg_gone g \<Longrightarrow> mget (bg_models b) (rv_model (bg_reservations b ! i)) \<noteq> None"
    "lg_gone g \<subseteq> {..<length (bg_reservations b)}"
    "x \<in> set (lg_firsts g) \<union> set (lg_stray g) \<Longrightarrow> bucketOf (snd x) \<le> cur \<and> mget (bg_models b) (fst x) \<noteq> None"
    "mget (bg_models b) k = Some w \<Longrightarrow> cur - sw_n w < idx \<Longrightarrow> wcount Counter0 w idx = noted (lg_firsts g) k idx
       \<and> wcount Counter1 w idx \<le> live g b k idx \<and> live g b k idx - noted (lg_stray g) k idx \<le> wcount Counter1 w idx"
  using assms unfolding budget_hist_def by blast+

lemma budget_hist_mono:
  assumes "budget_hist cur b g" "cur \<le> cur'"
  shows "budget_hist cur' b g"
proof -
  have "cur - sw_n w < idx" if "cur' - sw_n w < idx" for w idx using assms(2) that by linarith
  then show ?thesis using budget_histD[OF assms(1)] assms(2) unfolding budget_hist_def by (meson order_trans)
qed

lemma nothing_later:
  assumes "budget_hist cur b g" "cur < idx"
  shows "live g b k idx = 0" "noted (lg_firsts g) k idx = 0"
  using budget_histD(2,5)[OF assms(1)] assms(2) by (fastforce simp: live_def noted_def count_if_0)+

lemma nothing_absent:
  assumes "budget_hist cur b g" "mget (bg_models b) k = None"
  shows "live g b k idx = 0" "noted (lg_firsts g) k idx = 0" "noted (lg_stray g) k idx = 0"
  using budget_histD(3,5)[OF assms(1)] assms(2) by (fastforce simp: live_def noted_def counted_def count_if_0)+

lemma noted_nonneg: "0 \<le> noted xs k idx" and live_nonneg: "0 \<le> live g b k idx"
  by (simp_all add: noted_def live_def)

lemma noted_snoc: "noted (xs @ [x]) k idx = noted xs k idx + (if fst x = k \<and> bucketOf (snd x) = idx then 1 else 0)"
  by (simp add: noted_def)

lemma live_same: "bg_reservations b' = bg_reservations b \<Longrightarrow> live g b' = live g b"
  by (simp add: live_def counted_def fun_eq_iff)

lemma budget_hist_window:
  assumes "budget_hist cur b g"
  shows "budget_hist cur (fst (budget_window m b)) g"
proof -
  let ?b = "fst (budget_window m b)"
  have l: "live g ?b = live g b" by (rule live_same) simp
  have keep: "mget (bg_models ?b) k \<noteq> None" if "mget (bg_models b) k \<noteq> None" for k using budget_window_old[of b k _ m] that by auto
  have "wcount Counter0 w idx = noted (lg_firsts g) k idx \<and> wcount Counter1 w idx \<le> live g b k idx \<and> live g b k idx - noted (lg_stray g) k idx \<le> wcount Counter1 w idx"
    if "mget (bg_models ?b) k = Some w" "cur - sw_n w < idx" for k w idx
    using budget_window_new[OF that(1)]
  proof
    assume "mget (bg_models b) k = None \<and> w = newSlidingWindow (bp_Window (bg_p b))"
    with nothing_absent[OF assms] show ?thesis by (simp add: wcount_new)
  qed (rule budget_histD(6)[OF assms _ that(2)])
  then show ?thesis unfolding budget_hist_def l using budget_histD(1-5)[OF assms] keep by (simp add: budget_window_ok)
qed

lemma budget_upd_None: "mget (bg_models (budget_upd key f b)) k = None \<longleftrightarrow> mget (bg_models b) k = None"
  by (simp add: mget_budget_upd)

lemma budget_hist_add:
  \<comment> \<open>one addition to one window, with the matching change of the log\<close>
  assumes h: "budget_hist (bucketOf now) b g"
    and res: "\<And>i. i < length rs \<Longrightarrow> bucketOf (rv_at (rs ! i)) \<le> bucketOf now \<and> (i \<notin> lg_gone g' \<longrightarrow> mget (bg_models b) (rv_model (rs ! i)) \<noteq> None)"
      "lg_gone g' \<subseteq> {..<length rs}" "\<forall>x \<in> set (lg_firsts g') \<union> set (lg_stray g'). bucketOf (snd x) \<le> bucketOf now \<and> mget (bg_models b) (fst x) \<noteq> None"
    and upd: "\<And>k idx w. mget (bg_models b) k = Some w \<Longrightarrow> wcount Counter0 w idx = noted (lg_firsts g) k idx \<Longrightarrow> wcount Counter1 w idx \<le> live g b k idx
        \<Longrightarrow> live g b k idx - noted (lg_stray g) k idx \<le> wcount Counter1 w idx \<Longrightarrow> 0 \<le> wcount Counter0 w idx \<Longrightarrow>
      (if k = key \<and> Counter0 = c \<and> idx = bucketOf t \<and> idx \<le> bucketOf now then max 0 (wcount Counter0 w idx + d) else wcount Counter0 w idx) = noted (lg_firsts g') k idx
      \<and> (if k = key \<and> Counter1 = c \<and> idx = bucketOf t \<and> idx \<le> bucketOf now then max 0 (wcount Counter1 w idx + d) else wcount Counter1 w idx) \<le> live g' (b\<lparr>bg_reservations := rs\<rparr>) k idx
      \<and> live g' (b\<lparr>bg_reservations := rs\<rparr>) k idx - noted (lg_stray g') k idx
          \<le> (if k = key \<and> Counter1 = c \<and> idx = bucketOf t \<and> idx \<le> bucketOf now then max 0 (wcount Counter1 w idx + d) else wcount Counter1 w idx)"
  shows "budget_hist (bucketOf now) (budget_upd key (window_add t now c d) (b\<lparr>bg_reservations := rs\<rparr>)) g'"
proof -
  let ?b = "budget_upd key (window_add t now c d) (b\<lparr>bg_reservations := rs\<rparr>)"
  have bok: "budget_ok b" by (rule budget_histD(1)[OF h])
  have l: "live g' ?b = live g' (b\<lparr>bg_reservations := rs\<rparr>)" by (rule live_same) simp
  have "wcount Counter0 v idx = noted (lg_firsts g') k idx \<and> wcount Counter1 v idx \<le> live g' ?b k idx \<and> live g' ?b k idx - noted (lg_stray g') k idx \<le> wcount Counter1 v idx"
    if v: "mget (bg_models ?b) k = Some v" and idx: "bucketOf now - sw_n v < idx" for k v idx
  proof -
    obtain w where w: "mget (bg_models b) k = Some w" and v': "v = (if k = key then window_add t now c d w else w)"
      using v by (auto simp: mget_budget_upd split: if_splits)
    have n: "sw_n v = sw_n w" "window_ok w" using v' budget_okD(2)[OF bok w] by auto
    note old = budget_histD(6)[OF h w]
    have fut: "\<forall>i > bucketOf now. wcount c' w i = 0" for c'
    proof (intro allI impI)
      fix i assume i: "bucketOf now < i"
      have "bucketOf now - sw_n w < i" using i n(2) by (simp add: window_ok_def)
      from old[OF this] show "wcount c' w i = 0" using nothing_later[OF h i] wcount_nonneg[OF n(2), of Counter1 i] by (cases c') auto
    qed
    have i': "bucketOf now - sw_n w < idx" using idx n(1) by simp
    have wc: "wcount c' v idx = (if k = key \<and> c' = c \<and> idx = bucketOf t \<and> idx \<le> bucketOf now then max 0 (wcount c' w idx + d) else wcount c' w idx)" for c'
      using win.add_cnt_all[OF n(2) i' fut[of c'], of t c d] v' by auto
    show ?thesis unfolding l wc by (rule upd[OF w]) (use old[OF i'] wcount_nonneg[OF n(2), of Counter0 idx] in blast)+
  qed
  moreover have "budget_ok ?b" using bok by (simp add: budget_upd_ok window_add_ok)
  ultimately show ?thesis unfolding budget_hist_def using res by (simp add: budget_upd_None)
qed

lemma hist_NoteFirst:
  assumes "budget_hist (bucketOf now) b g"
  shows "budget_hist (bucketOf now) (NoteFirst now m b) (g\<lparr>lg_firsts := lg_firsts g @ [(snd (budget_window m b), now)]\<rparr>)"
proof -
  obtain b1 key where b1: "budget_window m b = (b1, key)" by force
  have h: "budget_hist (bucketOf now) b1 g" using budget_hist_window[OF assms, of m] by (simp add: b1)
  have k: "mget (bg_models b1) key \<noteq> None" using budget_window_key[of m b] by (simp add: b1)
  let ?g = "g\<lparr>lg_firsts := lg_firsts g @ [(key, now)]\<rparr>"
  have l: "live ?g = live g" by (simp add: live_def counted_def fun_eq_iff)
  have "budget_hist (bucketOf now) (budget_upd key (window_add now now Counter0 1) (b1\<lparr>bg_reservations := bg_reservations b1\<rparr>)) ?g"
    by (rule budget_hist_add[OF h]) (use budget_histD(2-5)[OF h] k in \<open>auto simp: l noted_snoc\<close>)
  then show ?thesis by (simp add: NoteFirst_def b1)
qed

lemma live_snoc:
  assumes "lg_gone g \<subseteq> {..<length (bg_reservations b)}"
  shows "live g (b\<lparr>bg_reservations := bg_reservations b @ [r]\<rparr>) k idx = live g b k idx + (if rv_model r = k \<and> \<not> rv_refunded r \<and> bucketOf (rv_at r) = idx then 1 else 0)"
proof -
  let ?n = "length (bg_reservations b)"
  have "count_if (\<lambda>i. counted g (b\<lparr>bg_reservations := bg_reservations b @ [r]\<rparr>) k i \<and> bucketOf (rv_at ((bg_reservations b @ [r]) ! i)) = idx) [0..<?n]
      = count_if (\<lambda>i. counted g b k i \<and> bucketOf (rv_at (bg_reservations b ! i)) = idx) [0..<?n]"
    by (rule count_if_cong) (simp add: counted_def nth_append)
  moreover have "?n \<notin> lg_gone g" using assms by auto
  ultimately show ?thesis by (simp add: live_def counted_def)
qed

lemma hist_Reserve:
  assumes "budget_hist (bucketOf now) b g"
  shows "budget_hist (bucketOf now) (fst (Reserve now m b)) g"
proof -
  obtain b1 key where b1: "budget_window m b = (b1, key)" by force
  have h: "budget_hist (bucketOf now) b1 g" using budget_hist_window[OF assms, of m] by (simp add: b1)
  let ?r = "\<lparr>rv_model = key, rv_at = now, rv_refunded = False\<rparr>"
  have k: "mget (bg_models b1) key \<noteq> None" using budget_window_key[of m b] by (simp add: b1)
  have l: "live g (b1\<lparr>bg_reservations := bg_reservations b1 @ [?r]\<rparr>) k' idx = live g b1 k' idx + (if key = k' \<and> bucketOf now = idx then 1 else 0)" for k' idx
    using live_snoc[OF budget_histD(4)[OF h], of ?r] by simp
  have "budget_hist (bucketOf now) (budget_upd key (window_add now now Counter1 1) (b1\<lparr>bg_reservations := bg_reservations b1 @ [?r]\<rparr>)) g"
  proof (rule budget_hist_add[OF h])
    fix i assume "i < length (bg_reservations b1 @ [?r])"
    then show "bucketOf (rv_at ((bg_reservations b1 @ [?r]) ! i)) \<le> bucketOf now
        \<and> (i \<notin> lg_gone g \<longrightarrow> mget (bg_models b1) (rv_model ((bg_reservations b1 @ [?r]) ! i)) \<noteq> None)"
      using budget_histD(2,3)[OF h, of i] k by (cases "i = length (bg_reservations b1)") (auto simp: nth_append)
  qed (use budget_histD(4,5)[OF h] live_nonneg[of g b1] in \<open>auto simp: l add_nonneg_nonneg\<close>)
  moreover have "budget_upd key f (b1\<lparr>bg_reservations := rs\<rparr>) = (budget_upd key f b1)\<lparr>bg_reservations := rs\<rparr>" for f rs
    by (simp add: budget_upd_def split: option.splits)
  ultimately show ?thesis using h by (simp add: Reserve_def b1 Let_def case_prod_beta)
qed

lemma count_if_upt_change:
  assumes "i < n" "\<And>j. j < n \<Longrightarrow> j \<noteq> i \<Longrightarrow> Q j = P j"
  shows "int (count_if Q [0..<n]) = int (count_if P [0..<n]) - (if P i then 1 else 0) + (if Q i then 1 else 0)"
proof -
  have c: "count_if R [0..<n] = count_if (\<lambda>x. x) (map R [0..<n])" for R by (simp add: count_if_map comp_def)
  have "map Q [0..<n] = (map P [0..<n])[i := Q i]" using assms by (intro nth_equalityI) (auto simp: nth_list_update)
  then show ?thesis unfolding c using count_if_update[of i "map P [0..<n]" "\<lambda>x. x" "Q i"] assms(1) by simp
qed

lemma live_refund:
  assumes "i < length (bg_reservations b)" "\<not> rv_refunded (bg_reservations b ! i)" "lg_gone g' = lg_gone g"
  shows "live g' (b\<lparr>bg_reservations := (bg_reservations b)[i := (bg_reservations b ! i)\<lparr>rv_refunded := True\<rparr>]\<rparr>) k idx
    = live g b k idx - (if i \<notin> lg_gone g \<and> rv_model (bg_reservations b ! i) = k \<and> bucketOf (rv_at (bg_reservations b ! i)) = idx then 1 else 0)"
proof -
  let ?rs = "(bg_reservations b)[i := (bg_reservations b ! i)\<lparr>rv_refunded := True\<rparr>]"
  let ?P = "\<lambda>j. counted g b k j \<and> bucketOf (rv_at (bg_reservations b ! j)) = idx"
  let ?Q = "\<lambda>j. counted g' (b\<lparr>bg_reservations := ?rs\<rparr>) k j \<and> bucketOf (rv_at (?rs ! j)) = idx"
  have "int (count_if ?Q [0..<length (bg_reservations b)]) = int (count_if ?P [0..<length (bg_reservations b)]) - (if ?P i then 1 else 0) + (if ?Q i then 1 else 0)"
    by (rule count_if_upt_change[OF assms(1)]) (simp add: counted_def assms(3))
  moreover have "?P i \<longleftrightarrow> i \<notin> lg_gone g \<and> rv_model (bg_reservations b ! i) = k \<and> bucketOf (rv_at (bg_reservations b ! i)) = idx" "\<not> ?Q i"
    using assms(1,2) by (auto simp: counted_def)
  ultimately show ?thesis by (simp add: live_def)
qed

lemma live_pos:
  assumes "i < length (bg_reservations b)" "counted g b k i"
  shows "1 \<le> live g b k (bucketOf (rv_at (bg_reservations b ! i)))"
proof -
  have "0 < count_if (\<lambda>j. counted g b k j \<and> bucketOf (rv_at (bg_reservations b ! j)) = bucketOf (rv_at (bg_reservations b ! i))) [0..<length (bg_reservations b)]"
    unfolding count_if_pos using assms by (intro bexI[of _ i]) auto
  then show ?thesis by (simp add: live_def)
qed

lemma hist_Refund:
  assumes h: "budget_hist (bucketOf now) b g" and i: "i < length (bg_reservations b)"
  shows "budget_hist (bucketOf now) (Refund now (Some i) b) (log_refund (Some i) b g)"
proof (cases "rv_refunded (bg_reservations b ! i)")
  case False
  define r where "r = bg_reservations b ! i"
  define g' where "g' = log_refund (Some i) b g"
  let ?rs = "(bg_reservations b)[i := r\<lparr>rv_refunded := True\<rparr>]"
  have at: "bucketOf (rv_at r) \<le> bucketOf now" using budget_histD(2)[OF h i] by (simp add: r_def)
  have g': "lg_gone g' = lg_gone g" "lg_firsts g' = lg_firsts g"
      "lg_stray g' = lg_stray g @ (if i \<in> lg_gone g \<and> mget (bg_models b) (rv_model r) \<noteq> None then [(rv_model r, rv_at r)] else [])"
    using False by (simp_all add: g'_def log_refund_def r_def Let_def)
  have l: "live g' (b\<lparr>bg_reservations := ?rs\<rparr>) k idx = live g b k idx - (if i \<notin> lg_gone g \<and> rv_model r = k \<and> bucketOf (rv_at r) = idx then 1 else 0)" for k idx
    using live_refund[OF i False g'(1)] by (simp add: r_def)
  have pos: "1 \<le> live g b (rv_model r) (bucketOf (rv_at r))" if "i \<notin> lg_gone g"
    using live_pos[OF i, of g] False that by (simp add: counted_def r_def)
  have "budget_hist (bucketOf now) (budget_upd (rv_model r) (window_add (rv_at r) now Counter1 (- 1)) (b\<lparr>bg_reservations := ?rs\<rparr>)) g'"
  proof (rule budget_hist_add[OF h])
    fix j assume "j < length ?rs"
    then show "bucketOf (rv_at (?rs ! j)) \<le> bucketOf now \<and> (j \<notin> lg_gone g' \<longrightarrow> mget (bg_models b) (rv_model (?rs ! j)) \<noteq> None)"
      using budget_histD(2,3)[OF h, of j] at by (cases "j = i") (auto simp: g' r_def nth_list_update)
  next
    show "\<forall>x \<in> set (lg_firsts g') \<union> set (lg_stray g'). bucketOf (snd x) \<le> bucketOf now \<and> mget (bg_models b) (fst x) \<noteq> None"
      using budget_histD(5)[OF h] at by (auto simp: g')
  next
    fix k idx w
    assume w: "mget (bg_models b) k = Some w" and c: "wcount Counter0 w idx = noted (lg_firsts g) k idx" "wcount Counter1 w idx \<le> live g b k idx"
      "live g b k idx - noted (lg_stray g) k idx \<le> wcount Counter1 w idx"
    show "(if k = rv_model r \<and> Counter0 = Counter1 \<and> idx = bucketOf (rv_at r) \<and> idx \<le> bucketOf now then max 0 (wcount Counter0 w idx + - 1) else wcount Counter0 w idx) = noted (lg_firsts g') k idx
      \<and> (if k = rv_model r \<and> Counter1 = Counter1 \<and> idx = bucketOf (rv_at r) \<and> idx \<le> bucketOf now then max 0 (wcount Counter1 w idx + - 1) else wcount Counter1 w idx) \<le> live g' (b\<lparr>bg_reservations := ?rs\<rparr>) k idx
      \<and> live g' (b\<lparr>bg_reservations := ?rs\<rparr>) k idx - noted (lg_stray g') k idx
          \<le> (if k = rv_model r \<and> Counter1 = Counter1 \<and> idx = bucketOf (rv_at r) \<and> idx \<le> bucketOf now then max 0 (wcount Counter1 w idx + - 1) else wcount Counter1 w idx)"
    proof (cases "k = rv_model r \<and> idx = bucketOf (rv_at r)")
      case True
      then show ?thesis using w c at pos live_nonneg[of g b k idx] by (cases "i \<in> lg_gone g") (auto simp: l g' noted_snoc)
    next
      case other: False
      then have "noted (lg_stray g') k idx = noted (lg_stray g) k idx" by (auto simp: g' noted_snoc)
      then show ?thesis using c other by (auto simp: l g')
    qed
  qed (use budget_histD(4)[OF h] in \<open>simp add: g'\<close>)
  then show ?thesis using False by (simp add: Refund_def r_def Let_def g'_def)
qed (simp add: Refund_def log_refund_def h Let_def)

lemma noted_filter: "noted (filter (\<lambda>x. P (fst x)) xs) k idx = (if P k then noted xs k idx else 0)"
  by (induction xs) (auto simp: noted_def)

lemma mget_Prune:
  assumes "budget_ok b"
  shows "mget (bg_models (Budget_Prune now keep b)) k = Some w \<Longrightarrow> mget (bg_models b) k = Some w"
  using budget_okD(1)[OF assms] budget_okD(1)[OF Budget_Prune_ok[OF assms, of now keep]] by (auto simp: mget_iff_mem Budget_Prune_def)

lemma hist_Prune:
  assumes h: "budget_hist cur b g"
  shows "budget_hist cur (Budget_Prune now keep b) (log_prune (Budget_Prune now keep b) g)"
proof -
  let ?b = "Budget_Prune now keep b"
  let ?g = "log_prune ?b g"
  have ok: "budget_ok b" by (rule budget_histD(1)[OF h])
  have res: "bg_reservations ?b = bg_reservations b" by (simp add: Budget_Prune_def)
  have g: "lg_gone ?g = lg_gone g \<union> {i. i < length (bg_reservations b) \<and> mget (bg_models ?b) (rv_model (bg_reservations b ! i)) = None}"
      "lg_firsts ?g = filter (\<lambda>x. mget (bg_models ?b) (fst x) \<noteq> None) (lg_firsts g)" "lg_stray ?g = filter (\<lambda>x. mget (bg_models ?b) (fst x) \<noteq> None) (lg_stray g)"
    by (simp_all add: log_prune_def Let_def res)
  have "live ?g ?b k idx = live g b k idx" if "mget (bg_models ?b) k \<noteq> None" for k idx
    unfolding live_def res by (rule arg_cong[where f = int], rule count_if_cong) (use that in \<open>auto simp: counted_def g res\<close>)
  moreover have nf: "noted (lg_firsts ?g) k idx = noted (lg_firsts g) k idx \<and> noted (lg_stray ?g) k idx = noted (lg_stray g) k idx" if "mget (bg_models ?b) k \<noteq> None" for k idx
    unfolding g noted_filter[where P = "\<lambda>k. mget (bg_models ?b) k \<noteq> None"] using that by simp
  ultimately have "wcount Counter0 w idx = noted (lg_firsts ?g) k idx \<and> wcount Counter1 w idx \<le> live ?g ?b k idx \<and> live ?g ?b k idx - noted (lg_stray ?g) k idx \<le> wcount Counter1 w idx"
    if "mget (bg_models ?b) k = Some w" "cur - sw_n w < idx" for k w idx
    using budget_histD(6)[OF h mget_Prune[OF ok that(1)] that(2)] that(1) nf[of k] by simp
  moreover have "bucketOf (snd x) \<le> cur \<and> mget (bg_models ?b) (fst x) \<noteq> None" if "x \<in> set (lg_firsts ?g) \<union> set (lg_stray ?g)" for x
    using budget_histD(5)[OF h, of x] that by (simp only: g set_filter Un_iff mem_Collect_eq) blast
  ultimately show ?thesis unfolding budget_hist_def
    using budget_histD(2,4)[OF h] Budget_Prune_ok[OF ok, of now keep] by (simp add: res g(1) subset_iff)
qed

lemma reach_hist: "budget_reach p t b g \<Longrightarrow> budget_hist (bucketOf t) b g"
proof (induction rule: budget_reach.induct)
  case (new now)
  show ?case using NewBudget_ok[of p] by (simp add: budget_hist_def NewBudget_def Let_def)
next
  case (first t b g now m)
  then show ?case by (intro hist_NoteFirst) (auto intro: budget_hist_mono bucketOf_mono)
next
  case (reserve t b g now m)
  then show ?case by (intro hist_Reserve) (auto intro: budget_hist_mono bucketOf_mono)
next
  case (refund t b g now h)
  then have "budget_hist (bucketOf now) b g" by (auto intro: budget_hist_mono bucketOf_mono)
  then show ?case using refund(3) hist_Refund by (cases h) (auto simp: Refund_def log_refund_def)
next
  case (prune t b g now keep)
  then show ?case by (intro hist_Prune) (auto intro: budget_hist_mono bucketOf_mono)
qed

lemma hist_sums:
  assumes "budget_hist (bucketOf now) b g" "mget (bg_models b) k = Some w"
  shows "fst (window_sum now w) = recent_of now k b (lg_firsts g)" "snd (window_sum now w) \<le> outstanding now k b g"
    "outstanding now k b g \<le> snd (window_sum now w) + recent_of now k b (lg_stray g)"
proof -
  note w = budget_okD(2,3)[OF budget_histD(1)[OF assms(1)] assms(2)]
  let ?W = "{bucketOf now - sw_n w<..bucketOf now}"
  have W: "recent now b = ?W" by (simp add: recent_def w(2))
  have s: "fst (window_sum now w) = (\<Sum>idx \<in> ?W. wcount Counter0 w idx)" "snd (window_sum now w) = (\<Sum>idx \<in> ?W. wcount Counter1 w idx)"
    using win.sum_cnt[OF w(1)] by simp_all
  have n: "(\<Sum>idx \<in> ?W. noted xs k idx) = recent_of now k b xs" for xs unfolding noted_def recent_of_def W by (rule sum_count_if) simp
  have o': "(\<Sum>idx \<in> ?W. live g b k idx) = outstanding now k b g" unfolding live_def outstanding_def W by (rule sum_count_if) simp
  have c: "wcount Counter0 w idx = noted (lg_firsts g) k idx \<and> wcount Counter1 w idx \<le> live g b k idx \<and> live g b k idx - noted (lg_stray g) k idx \<le> wcount Counter1 w idx"
    if "idx \<in> ?W" for idx using budget_histD(6)[OF assms, of idx] that by simp
  show "fst (window_sum now w) = recent_of now k b (lg_firsts g)" unfolding s n[symmetric] using c by (intro sum.cong) simp_all
  show "snd (window_sum now w) \<le> outstanding now k b g" unfolding s o'[symmetric] using c by (intro sum_mono) simp
  have "(\<Sum>idx \<in> ?W. live g b k idx) \<le> (\<Sum>idx \<in> ?W. wcount Counter1 w idx + noted (lg_stray g) k idx)"
  proof (rule sum_mono)
    show "live g b k idx \<le> wcount Counter1 w idx + noted (lg_stray g) k idx" if "idx \<in> ?W" for idx using c[OF that] by linarith
  qed
  then show "outstanding now k b g \<le> snd (window_sum now w) + recent_of now k b (lg_stray g)" unfolding s o'[symmetric] by (simp add: sum.distrib n)
qed

lemma budget_reach_window: "budget_reach p t b g \<Longrightarrow> bg_p b = bg_p (NewBudget p)"
  by (induction rule: budget_reach.induct)
    (auto simp: NoteFirst_def Reserve_def Refund_def Budget_Prune_def Let_def case_prod_beta split: option.splits)

section \<open>Properties of the budget\<close>


definition ex_budget :: budget_params where
  "ex_budget = \<lparr>bp_Ratio = Fin (1 / 2), bp_Min = 1, bp_Window = 10 * second, bp_MaxModels = 1\<rparr>"

lemma ex_reserve:
  "Reserve second ''m'' (NewBudget ex_budget) =
    (\<lparr>bg_p = ex_budget, bg_models = [(''m'', window_add second second Counter1 1 (newSlidingWindow (10 * second)))],
      bg_reservations = [\<lparr>rv_model = ''m'', rv_at = second, rv_refunded = False\<rparr>]\<rparr>, Some 0)"
proof -
  have "window_sum second (newSlidingWindow (10 * second)) = (0, 0)"
    by (simp add: window_sum_wcount newSlidingWindow_ok wcount_new)
  moreover have "1 \<le> budget_limit ex_budget 0" by (simp add: budget_limit_def ex_budget_def)
  moreover have "NewBudget ex_budget = \<lparr>bg_p = ex_budget, bg_models = [], bg_reservations = []\<rparr>"
    by (simp add: NewBudget_def ex_budget_def bucketWidth_def second_def)
  moreover have "bp_Window ex_budget = 10 * second" by (simp add: ex_budget_def)
  ultimately show ?thesis
    by (simp add: Reserve_def budget_window_def budget_new_window_def budget_sum_def budget_upd_def OtherModel_def Let_def)
qed


text \<open>A refund gives one retry back exactly once. Refunding a granted reservation whose bucket is still in the window of its key lowers the retries counted for the key by one, refunding it
  again (or refunding a denied reservation) changes nothing, and no refund touches another key.\<close>

theorem refund_once:
  assumes "budget_reach p t b g" "t \<le> now" "i < length (bg_reservations b)" "counted g b k i" "lg_stray g = []" "bucketOf (rv_at (bg_reservations b ! i)) \<in> recent now b"
  shows "snd (budget_sum now k (Refund now (Some i) b)) = snd (budget_sum now k b) - 1
    \<and> Refund now' (Some i) (Refund now (Some i) b) = Refund now (Some i) b
    \<and> Refund now None b = b
    \<and> (\<forall>j. j \<noteq> k \<longrightarrow> budget_sum now j (Refund now (Some i) b) = budget_sum now j b)"
proof -
  define r where "r = bg_reservations b ! i"
  have h: "budget_hist (bucketOf now) b g" by (rule budget_hist_mono[OF reach_hist[OF assms(1)] bucketOf_mono[OF assms(2)]])
  have c: "i \<notin> lg_gone g" "rv_model r = k" "\<not> rv_refunded r" using assms(4) by (simp_all add: counted_def r_def)
  have R: "Refund now (Some i) b = budget_upd k (window_add (rv_at r) now Counter1 (- 1)) (b\<lparr>bg_reservations := (bg_reservations b)[i := r\<lparr>rv_refunded := True\<rparr>]\<rparr>)"
    using c by (simp add: Refund_def Let_def r_def)
  obtain w where w: "mget (bg_models b) k = Some w" using budget_histD(3)[OF h assms(3)] c by (auto simp: r_def)
  have wok: "window_ok w" "sw_n w = sw_n (newSlidingWindow (bp_Window (bg_p b)))" using budget_okD(2,3)[OF budget_histD(1)[OF h] w] by simp_all
  have at: "bucketOf now - sw_n w < bucketOf (rv_at r)" "bucketOf (rv_at r) \<le> bucketOf now" using assms(6) by (simp_all add: recent_def wok(2) r_def)
  have "1 \<le> wcount Counter1 w (bucketOf (rv_at r))"
    using budget_histD(6)[OF h w at(1)] live_pos[OF assms(3,4)] by (simp add: assms(5) noted_def r_def)
  then have "get_counter Counter1 (window_sum now (window_add (rv_at r) now Counter1 (- 1) w)) = get_counter Counter1 (window_sum now w) - 1"
    using win.sum_add[OF wok(1), of now "rv_at r" Counter1 Counter1 "- 1"] at by (simp add: max_def)
  then have 1: "snd (budget_sum now k (Refund now (Some i) b)) = snd (budget_sum now k b) - 1"
    by (cases "window_sum now w"; cases "window_sum now (window_add (rv_at r) now Counter1 (- 1) w)") (simp add: R budget_sum_def mget_budget_upd w)
  have "rv_refunded (bg_reservations (Refund now (Some i) b) ! i)" using assms(3) by (simp add: R)
  then have 2: "Refund now' (Some i) (Refund now (Some i) b) = Refund now (Some i) b" by (simp add: Refund_def[of now'])
  show ?thesis using 1 2 by (auto simp: R budget_sum_def mget_budget_upd Refund_def[of now None])
qed

text \<open>The budget's memory is bounded by its configuration: with a positive model cap, it holds the windows of at most
  that many models besides the shared one, however many names it is asked about; operations keep the invariant.\<close>

theorem budget_models_bounded:
  assumes "budget_reach p t b g" "0 < bp_MaxModels p"
  shows "int (length (bg_models b)) \<le> bp_MaxModels p + 1"
proof -
  have ok: "budget_ok b" using reach_hist[OF assms(1)] by (simp add: budget_hist_def)
  have m: "bp_MaxModels (bg_p b) = bp_MaxModels p"
    using budget_reach_window[OF assms(1)] by (simp add: NewBudget_def Let_def)
  have "length (bg_models b) = card (mkeys (bg_models b))"
    using distinct_card[of "map fst (bg_models b)"] budget_okD(1)[OF ok] by (simp add: mok_def)
  also have "\<dots> \<le> Suc (card (mkeys (bg_models b) - {OtherModel}))"
    by (cases "OtherModel \<in> mkeys (bg_models b)") (simp_all add: card_Diff_singleton)
  finally show ?thesis using budget_okD(4)[OF ok] assms(2) m by simp
qed

end
