(* ===== verification/Breakers_Cap.thy ===== *)
theory Breakers_Cap
  imports Breakers
begin

text \<open>
  The invariant of the breaker set and its preservation by every operation of \<^verbatim>\<open>breakers.go\<close>: the bookkeeping counts are
  exact, every breaker keeps its own invariant, and per model the ejected workers stay within the ejection cap. The
  histories of a set are the relation \<open>bs_reach\<close>.
\<close>

section \<open>The invariant\<close>

definition elig_count :: "string \<Rightarrow> (string, breaker) gomap \<Rightarrow> nat" where
  "elig_count model byID = count_if (\<lambda>p. b_eligible (snd p) \<and> b_model (snd p) = model) byID"

definition cap_of :: "breakers \<Rightarrow> string \<Rightarrow> int" where
  "cap_of bs model = max 0 (MaxOpen (cp_MaxOpenFraction (bs_p bs)) (int (elig_count model (bs_byID bs))))"

definition bs_wf :: "breakers \<Rightarrow> bool" where
  "bs_wf bs \<longleftrightarrow> params_ok (bs_p bs) \<and> mok (bs_byID bs)
     \<and> (\<forall>q \<in> set (bs_byID bs). k_ID (b_key (snd q)) = fst q \<and> breaker_ok (bs_p bs) (snd q))"

definition bs_counted :: "breakers \<Rightarrow> bool" where
  "bs_counted bs \<longleftrightarrow> bs_eligible bs = count_if (\<lambda>q. b_eligible (snd q)) (bs_byID bs)
     \<and> (\<forall>m. mget_or 0 (bs_eligibleBy bs) m = elig_count m (bs_byID bs))"

definition bs_capped :: "breakers \<Rightarrow> bool" where
  "bs_capped bs \<longleftrightarrow> (\<forall>m. int (open_count m (bs_byID bs)) \<le> cap_of bs m)"

definition bs_inv :: "breakers \<Rightarrow> bool" where
  "bs_inv bs \<longleftrightarrow> bs_wf bs \<and> bs_counted bs \<and> bs_capped bs"

lemma bs_inv_pending [simp]: "bs_inv (bs\<lparr>bs_pending := c\<rparr>) = bs_inv bs"
  by (simp add: bs_inv_def bs_wf_def bs_counted_def bs_capped_def cap_of_def)

lemma bs_inv_suppressed [simp]: "bs_inv (bs\<lparr>bs_suppressed := c\<rparr>) = bs_inv bs"
  by (simp add: bs_inv_def bs_wf_def bs_counted_def bs_capped_def cap_of_def)

lemma bs_inv_emit [simp]: "bs_inv (emit c bs) = bs_inv bs"
  by (simp add: emit_def)

lemma bs_inv_unlock [simp]: "bs_inv (fst (unlock bs)) = bs_inv bs"
  by (simp add: unlock_def)

lemma NewBreakers_inv: "bs_inv (NewBreakers p)"
  by (simp add: bs_inv_def bs_wf_def bs_counted_def bs_capped_def cap_of_def NewBreakers_def normalize_ok
    elig_count_def open_count_def mget_or_def)

lemma lookup_Some:
  assumes "lookup k bs = Some b"
  shows "mget (bs_byID bs) (k_ID k) = Some b" "b_key b = k"
  using assms by (auto simp: lookup_def split: option.splits if_splits)

lemma bs_wf_entry: "bs_wf bs \<Longrightarrow> mget (bs_byID bs) i = Some b \<Longrightarrow> k_ID (b_key b) = i \<and> breaker_ok (bs_p bs) b"
  by (auto simp: bs_wf_def dest!: mget_mem)

section \<open>Writing one breaker\<close>

lemma bs_put_inv:
  \<comment> \<open>a write that keeps the worker's identity and eligibility, and that opens it only if there is room\<close>
  assumes inv: "bs_inv bs" and b: "mget (bs_byID bs) i = Some b"
    and same: "b_key b' = b_key b" "b_model b' = b_model b" "b_eligible b' = b_eligible b"
    and ok: "breaker_ok (bs_p bs) b'"
    and cap: "b_state b' = Closed \<or> b_state b \<noteq> Closed \<or> \<not> b_eligible b \<or> int (open_count (b_model b) (bs_byID bs)) < cap_of bs (b_model b)"
  shows "bs_inv (bs_put b' bs) \<and> mget (bs_byID (bs_put b' bs)) i = Some b'"
proof -
  have wf: "bs_wf bs" "bs_counted bs" "bs_capped bs" using inv by (simp_all add: bs_inv_def)
  have i: "k_ID (b_key b) = i" using bs_wf_entry[OF wf(1) b] by simp
  have mok: "mok (bs_byID bs)" using wf(1) by (simp add: bs_wf_def)
  let ?by = "mput i b' (bs_byID bs)"
  have put: "bs_put b' bs = bs\<lparr>bs_byID := ?by\<rparr>" by (simp add: bs_put_def same i)
  have elig: "elig_count m ?by = elig_count m (bs_byID bs)" for m
    using count_if_mput[OF mok b, of "\<lambda>p. b_eligible (snd p) \<and> b_model (snd p) = m" b'] same by (simp add: elig_count_def split: if_splits)
  have tot: "count_if (\<lambda>q. b_eligible (snd q)) ?by = count_if (\<lambda>q. b_eligible (snd q)) (bs_byID bs)"
    using count_if_mput[OF mok b, of "\<lambda>p. b_eligible (snd p)" b'] same by (simp split: if_splits)
  have "int (open_count m ?by) \<le> cap_of bs m" for m
  proof -
    have o: "int (open_count m ?by) = int (open_count m (bs_byID bs)) - (if counts_open m b then 1 else 0) + (if counts_open m b' then 1 else 0)"
      unfolding open_count_def using count_if_mput[OF mok b, of "\<lambda>p. counts_open m (snd p)" b'] by simp
    have c: "int (open_count m (bs_byID bs)) \<le> cap_of bs m" using wf(3) by (simp add: bs_capped_def)
    show ?thesis
    proof (cases "counts_open m b' \<and> \<not> counts_open m b")
      case True
      then have "b_eligible b" "b_model b = m" "b_state b = Closed" "b_state b' \<noteq> Closed" using same by (auto simp: counts_open_def)
      then show ?thesis using cap o True by auto
    qed (use o c in \<open>auto split: if_splits\<close>)
  qed
  moreover have "\<forall>q \<in> set ?by. k_ID (b_key (snd q)) = fst q \<and> breaker_ok (bs_p bs) (snd q)"
    using wf(1) ok same i by (auto simp: bs_wf_def mput_mem)
  ultimately show ?thesis
    using wf mok unfolding put bs_inv_def bs_wf_def bs_counted_def bs_capped_def cap_of_def
    by (simp add: elig tot gomap_simps)
qed

lemma bs_put_p [simp]: "bs_p (bs_put b bs) = bs_p bs" "bs_eligibleBy (bs_put b bs) = bs_eligibleBy bs"
  by (simp_all add: bs_put_def)

lemma emit_simps [simp]: "bs_p (emit c bs) = bs_p bs" "bs_byID (emit c bs) = bs_byID bs" "bs_eligibleBy (emit c bs) = bs_eligibleBy bs"
  by (simp_all add: emit_def)

lemma advanceLocked_inv:
  assumes "bs_inv bs" "mget (bs_byID bs) i = Some b" "advanceLocked now b bs = (bs1, b1)"
  shows "bs_inv bs1" "mget (bs_byID bs1) i = Some b1" "bs_p bs1 = bs_p bs" "b1 = fst (advance now (bs_p bs) b)"
proof -
  have wf: "params_ok (bs_p bs)" "breaker_ok (bs_p bs) b"
    using assms(1) bs_wf_entry[of bs i b] assms(2) by (auto simp: bs_inv_def bs_wf_def)
  have b1: "b1 = fst (advance now (bs_p bs) b)"
    and bs1: "bs1 = (case snd (advance now (bs_p bs) b) of None \<Rightarrow> bs_put b1 bs | Some c \<Rightarrow> emit c (bs_put b1 bs))"
    using assms(3) by (auto simp: advanceLocked_def Let_def case_prod_beta)
  have "bs_inv (bs_put b1 bs) \<and> mget (bs_byID (bs_put b1 bs)) i = Some b1"
    unfolding b1 using advance_ok[OF wf, of now] by (intro bs_put_inv[OF assms(1,2)]) auto
  then show "bs_inv bs1" "mget (bs_byID bs1) i = Some b1" "bs_p bs1 = bs_p bs" "b1 = fst (advance now (bs_p bs) b)"
    using bs1 b1 by (auto split: option.splits)
qed

lemma breaker_ok_flags [simp]: "breaker_ok p (b\<lparr>b_suppressed := x\<rparr>) = breaker_ok p b"
  by (simp add: breaker_ok_def)

lemma roomToOpen_cap:
  assumes "bs_inv bs" "roomToOpen b bs" "b_eligible b"
  shows "int (open_count (b_model b) (bs_byID bs)) < cap_of bs (b_model b)"
  using assms by (simp add: roomToOpen_def cap_of_def bs_inv_def bs_counted_def)

lemma countClosed_inv:
  assumes "bs_inv bs" "mget (bs_byID bs) i = Some b"
  shows "bs_inv (countClosed now rnd v b bs)"
proof (cases "b_state b \<noteq> Closed \<or> v = Neutral")
  case False
  let ?b1 = "count_outcome now v b"
  obtain reason failures where r: "recordClosed now v (bs_p bs) b = (?b1, reason, failures)"
    using False by (cases "trip_reason now v (bs_p bs) ?b1") (simp add: recordClosed_def Let_def)
  have wf: "params_ok (bs_p bs)" "breaker_ok (bs_p bs) b"
    using assms(1) bs_wf_entry[of bs i b] assms(2) by (auto simp: bs_inv_def bs_wf_def)
  have ok1: "breaker_ok (bs_p bs) ?b1" using count_outcome_ok[OF wf(2)] False by simp
  have 1: "bs_inv (bs_put ?b1 bs)" "mget (bs_byID (bs_put ?b1 bs)) i = Some ?b1"
    using bs_put_inv[OF assms, of ?b1] ok1 False by auto
  have 2: "bs_inv (bs_put (?b1\<lparr>b_suppressed := x\<rparr>) (bs_put ?b1 bs))" for x
    using bs_put_inv[OF 1, of "?b1\<lparr>b_suppressed := x\<rparr>"] ok1 False by auto
  have 3: "bs_inv (bs_put (breaker_open now False (bs_p bs) rnd ?b1) (bs_put ?b1 bs))" if "roomToOpen ?b1 (bs_put ?b1 bs)"
    using bs_put_inv[OF 1, of "breaker_open now False (bs_p bs) rnd ?b1"] breaker_open_ok[OF wf(1) ok1] roomToOpen_cap[OF 1(1) that] by auto
  show ?thesis
    using False 1 2 3 by (auto simp: countClosed_def r Let_def split: option.splits)
qed (use assms in \<open>simp add: countClosed_def\<close>)

lemma probe_failed_inv:
  assumes "bs_inv bs" "mget (bs_byID bs) i = Some b" "b_state b = HalfOpen"
  shows "bs_inv (probe_failed now rnd b bs)"
proof -
  have wf: "params_ok (bs_p bs)" "breaker_ok (bs_p bs) b"
    using assms(1) bs_wf_entry[of bs i b] assms(2) by (auto simp: bs_inv_def bs_wf_def)
  show ?thesis
    using bs_put_inv[OF assms(1,2), of "breaker_open now True (bs_p bs) rnd b"] breaker_open_ok[OF wf] assms(3)
    by (simp add: probe_failed_def Let_def)
qed

lemma ok_del_ticket: "breaker_ok p b \<Longrightarrow> breaker_ok p (b\<lparr>b_tickets := mdel i (b_tickets b)\<rparr>)"
  using length_mdel_le[of i "b_tickets b"] by (auto simp: breaker_ok_def mdel_mem)

lemma recordLocked_inv:
  assumes "bs_inv bs"
  shows "bs_inv (recordLocked now rnd t v bs)"
proof (cases "lookup (tk_key t) bs")
  case (Some b)
  let ?i = "k_ID (tk_key t)"
  note lk = lookup_Some[OF Some]
  obtain bs1 b1 where a: "advanceLocked now b bs = (bs1, b1)" by force
  note adv = advanceLocked_inv[OF assms lk(1) a]
  have wf: "params_ok (bs_p bs)" "breaker_ok (bs_p bs) b1"
    using adv bs_wf_entry[of bs1 ?i b1] assms by (auto simp: bs_inv_def bs_wf_def)
  let ?b2 = "b1\<lparr>b_tickets := mdel (tk_id t) (b_tickets b1)\<rparr>"
  let ?b3 = "?b2\<lparr>b_successes := b_successes b1 + 1\<rparr>"
  have ok2: "breaker_ok (bs_p bs) ?b2" using ok_del_ticket[OF wf(2)] .
  have probe: ?thesis if "tk_probe t" "b_state b1 = HalfOpen" "b_epoch b1 = tk_epoch t" "mget (b_tickets b1) (tk_id t) \<noteq> None"
  proof -
    have 2: "bs_inv (bs_put ?b2 bs1)" "mget (bs_byID (bs_put ?b2 bs1)) ?i = Some ?b2"
      using bs_put_inv[OF adv(1,2), of ?b2] ok2 adv(3) that by auto
    have 3: "bs_inv (bs_put ?b3 (bs_put ?b2 bs1))" if "\<not> b_successes b1 + 1 \<ge> cp_ProbeSuccesses (bs_p bs)"
      using bs_put_inv[OF 2, of ?b3] ok2 adv(3) that \<open>b_state b1 = HalfOpen\<close> by (auto simp: breaker_ok_def)
    have 4: "bs_inv (bs_put (breaker_close now ?b3) (bs_put ?b2 bs1))"
      using bs_put_inv[OF 2, of "breaker_close now ?b3"] breaker_close_ok[OF wf(1) ok2, of now] adv(3)
      by (auto simp: breaker_close_def breaker_ok_def)
    have 5: "bs_inv (probe_failed now rnd ?b2 (bs_put ?b2 bs1))"
      using probe_failed_inv[OF 2] that by simp
    show ?thesis
      using Some a that 2 3 4 5 adv(3) by (cases v) (auto simp: recordLocked_def Let_def)
  qed
  show ?thesis
  proof (cases "tk_probe t")
    case True
    then show ?thesis using probe Some a adv(1)
      by (cases "b_state b1 = HalfOpen \<and> b_epoch b1 = tk_epoch t \<and> mget (b_tickets b1) (tk_id t) \<noteq> None")
        (auto simp: recordLocked_def Let_def)
  next
    case False
    then show ?thesis using Some a adv(1) countClosed_inv[OF adv(1,2)] by (auto simp: recordLocked_def)
  qed
qed (use assms in \<open>simp add: recordLocked_def\<close>)

lemma Record_inv: "bs_inv bs \<Longrightarrow> bs_inv (fst (Record now rnd t v bs))"
  by (simp add: Record_def recordLocked_inv)

lemma RecordLate_inv:
  assumes "bs_inv bs"
  shows "bs_inv (fst (RecordLate now rnd t v bs))"
proof (cases "lookup (tk_key t) bs")
  case (Some b)
  note lk = lookup_Some[OF Some]
  obtain bs1 b1 where a: "advanceLocked now b bs = (bs1, b1)" by force
  note adv = advanceLocked_inv[OF assms lk(1) a]
  show ?thesis
    using Some a assms adv(1) countClosed_inv[OF adv(1,2)] probe_failed_inv[OF adv(1,2)]
    by (auto simp: RecordLate_def)
qed (use assms in \<open>simp add: RecordLate_def\<close>)

lemma RecordAbort_inv:
  assumes "bs_inv bs"
  shows "bs_inv (fst (RecordAbort now rnd t okAt bs))"
proof (cases "lookup (tk_key t) bs")
  case (Some b)
  note lk = lookup_Some[OF Some]
  obtain bs1 b1 where a: "advanceLocked now b bs = (bs1, b1)" by force
  note adv = advanceLocked_inv[OF assms lk(1) a]
  let ?b2 = "b1\<lparr>b_win := window_add okAt now Counter0 (- 1) (b_win b1)\<rparr>"
  have "breaker_ok (bs_p bs1) ?b2"
    using bs_wf_entry[OF _ adv(2)] adv(1) by (auto simp: bs_inv_def breaker_ok_def window_add_ok)
  then have "bs_inv (bs_put ?b2 bs1) \<and> mget (bs_byID (bs_put ?b2 bs1)) (k_ID (tk_key t)) = Some ?b2" if "b_state b1 = Closed"
    using bs_put_inv[OF adv(1,2), of ?b2] that by auto
  then show ?thesis
    using Some a assms adv(1) countClosed_inv RecordLate_inv[OF assms]
    by (auto simp: RecordAbort_def Let_def)
qed (use assms RecordLate_inv[OF assms] in \<open>simp add: RecordAbort_def\<close>)

lemma Admissible_inv:
  assumes "bs_inv bs"
  shows "bs_inv (fst (Admissible now k bs))"
proof (cases "lookup k bs")
  case (Some b)
  obtain bs1 b1 where a: "advanceLocked now b bs = (bs1, b1)" by force
  show ?thesis using Some a advanceLocked_inv(1)[OF assms lookup_Some(1)[OF Some] a]
    by (simp add: Admissible_def Let_def case_prod_beta)
qed (use assms in \<open>simp add: Admissible_def case_prod_beta\<close>)

lemma Breakers_State_inv:
  assumes "bs_inv bs"
  shows "bs_inv (fst (Breakers_State now k bs))"
proof (cases "lookup k bs")
  case (Some b)
  obtain bs1 b1 where a: "advanceLocked now b bs = (bs1, b1)" by force
  show ?thesis using Some a advanceLocked_inv(1)[OF assms lookup_Some(1)[OF Some] a]
    by (simp add: Breakers_State_def Let_def case_prod_beta)
qed (use assms in \<open>simp add: Breakers_State_def case_prod_beta\<close>)

lemma ok_new_ticket:
  assumes "breaker_ok p b" "probeFree p b"
  shows "breaker_ok p (b\<lparr>b_nextID := b_nextID b + 1, b_tickets := mput (b_nextID b + 1) now (b_tickets b)\<rparr>)"
proof -
  have "mget (b_tickets b) (b_nextID b + 1) = None"
    using assms(1) by (force simp: breaker_ok_def map_of_eq_None_iff)
  then show ?thesis using assms by (auto simp: breaker_ok_def probeFree_def mput_mem)
qed

lemma Breakers_Acquire_inv:
  assumes "bs_inv bs"
  shows "bs_inv (fst (Breakers_Acquire now k bs))"
proof (cases "lookup k bs")
  case (Some b)
  note lk = lookup_Some[OF Some]
  obtain bs1 b1 where a: "advanceLocked now b bs = (bs1, b1)" by force
  note adv = advanceLocked_inv[OF assms lk(1) a]
  let ?b2 = "b1\<lparr>b_nextID := b_nextID b1 + 1, b_tickets := mput (b_nextID b1 + 1) now (b_tickets b1)\<rparr>"
  have "bs_inv (bs_put ?b2 bs1)" if "probeFree (bs_p bs) b1"
    using bs_put_inv[OF adv(1,2), of ?b2] ok_new_ticket[of "bs_p bs" b1 now] bs_wf_entry[OF _ adv(2)] adv(1,3) that
    by (auto simp: bs_inv_def probeFree_def)
  then show ?thesis using Some a adv(1)
    by (auto simp: Breakers_Acquire_def Let_def case_prod_beta split: breaker_state.splits)
qed (use assms in \<open>simp add: Breakers_Acquire_def case_prod_beta\<close>)

lemma Breakers_Release_inv:
  assumes "bs_inv bs"
  shows "bs_inv (fst (Breakers_Release t bs))"
proof (cases "lookup (tk_key t) bs")
  case (Some b)
  note lk = lookup_Some[OF Some]
  let ?b2 = "b\<lparr>b_tickets := mdel (tk_id t) (b_tickets b)\<rparr>"
  have "bs_inv (bs_put ?b2 bs)" if "b_state b = HalfOpen"
    using bs_put_inv[OF assms lk(1), of ?b2] ok_del_ticket bs_wf_entry[OF _ lk(1)] assms that by (auto simp: bs_inv_def)
  then show ?thesis using Some assms by (auto simp: Breakers_Release_def)
qed (use assms in \<open>simp add: Breakers_Release_def\<close>)

section \<open>Replacing the whole map\<close>

definition frame :: "string \<times> breaker \<Rightarrow> string \<times> breaker \<Rightarrow> bool" where
  \<comment> \<open>the same worker, possibly advanced or closed\<close>
  "frame q r \<longleftrightarrow> fst r = fst q \<and> b_key (snd r) = b_key (snd q) \<and> b_model (snd r) = b_model (snd q)
     \<and> b_eligible (snd r) = b_eligible (snd q) \<and> (b_state (snd q) = Closed \<longrightarrow> b_state (snd r) = Closed)
     \<and> b_ejectedAt (snd r) = b_ejectedAt (snd q)
     \<and> (\<forall>p. params_ok p \<longrightarrow> breaker_ok p (snd q) \<longrightarrow> breaker_ok p (snd r))"

lemma frame_refl [simp]: "frame q q"
  by (simp add: frame_def)

lemma frame_trans: "frame q r \<Longrightarrow> frame r s \<Longrightarrow> frame q s"
  by (auto simp: frame_def)

lemma frame_close: "frame q (fst q, breaker_close now (snd q))"
  by (simp add: frame_def breaker_close_ok)

lemma frame_advance: "frame (i, b) (i, fst (advance now p b))" if "params_ok p"
proof -
  have "breaker_ok p' (fst (advance now p b))" if "params_ok p'" "breaker_ok p' b" for p'
    using that by (auto simp: advance_def breaker_ok_def params_ok_def Let_def length_filter_int)
  then show ?thesis by (simp add: frame_def)
qed

lemma frames_refl [simp]: "list_all2 frame xs xs"
  by (simp add: list.rel_refl)

lemma frames_trans: "list_all2 frame xs ys \<Longrightarrow> list_all2 frame ys zs \<Longrightarrow> list_all2 frame xs zs"
  by (rule list_all2_trans[OF frame_trans])

lemma count_if_frames:
  "list_all2 R xs ys \<Longrightarrow> (\<And>x y. R x y \<Longrightarrow> P x = Q y) \<Longrightarrow> count_if Q ys = count_if P xs"
  by (induction rule: list_all2_induct) auto

lemma count_if_frames_le:
  "list_all2 R xs ys \<Longrightarrow> (\<And>x y. R x y \<Longrightarrow> Q y \<Longrightarrow> P x) \<Longrightarrow> count_if Q ys \<le> count_if P xs"
proof (induction rule: list_all2_induct)
  case (Cons x xs y ys)
  then show ?case by (auto intro: le_SucI)
qed simp

lemma frames_elig: "list_all2 frame xs ys \<Longrightarrow> elig_count m ys = elig_count m xs"
  unfolding elig_count_def by (erule count_if_frames) (auto simp: frame_def)

lemma frames_open: "list_all2 frame xs ys \<Longrightarrow> open_count m ys \<le> open_count m xs"
  unfolding open_count_def by (erule count_if_frames_le) (auto simp: frame_def counts_open_def)

lemma frames_fst: "list_all2 frame xs ys \<Longrightarrow> map fst ys = map fst xs"
  by (induction rule: list_all2_induct) (auto simp: frame_def)

lemma frames_wf:
  assumes "bs_wf bs" "list_all2 frame (bs_byID bs) ys"
  shows "bs_wf (bs\<lparr>bs_byID := ys\<rparr>)"
proof -
  have ok: "k_ID (b_key (snd r)) = fst r \<and> breaker_ok (bs_p bs) (snd r)" if "r \<in> set ys" for r
  proof -
    from that obtain i where i: "i < length ys" "r = ys ! i" by (auto simp: in_set_conv_nth)
    with assms(2) have f: "frame (bs_byID bs ! i) r" and m: "bs_byID bs ! i \<in> set (bs_byID bs)"
      by (auto simp: list_all2_conv_all_nth)
    from m assms(1) have "k_ID (b_key (snd (bs_byID bs ! i))) = fst (bs_byID bs ! i)" "breaker_ok (bs_p bs) (snd (bs_byID bs ! i))" "params_ok (bs_p bs)"
      by (auto simp: bs_wf_def)
    with f show ?thesis by (auto simp: frame_def)
  qed
  have "mok ys" using assms frames_fst[OF assms(2)] by (auto simp: bs_wf_def mok_def)
  with ok assms(1) show ?thesis by (auto simp: bs_wf_def)
qed

lemma frames_inv:
  assumes "bs_inv bs" "list_all2 frame (bs_byID bs) ys"
  shows "bs_inv (bs\<lparr>bs_byID := ys\<rparr>)"
proof -
  have c: "bs_counted bs" "bs_capped bs" "bs_wf bs" using assms(1) by (simp_all add: bs_inv_def)
  have "count_if (\<lambda>q. b_eligible (snd q)) ys = count_if (\<lambda>q. b_eligible (snd q)) (bs_byID bs)"
    by (rule count_if_frames[OF assms(2)]) (auto simp: frame_def)
  moreover have "int (open_count m ys) \<le> cap_of bs m" for m
    using frames_open[OF assms(2), of m] c(2) unfolding bs_capped_def by (metis of_nat_mono order_trans)
  ultimately show ?thesis
    using c(1) frames_wf[OF c(3) assms(2)] frames_elig[OF assms(2)]
    by (simp add: bs_inv_def bs_counted_def bs_capped_def cap_of_def)
qed

lemma advance_all_inv:
  assumes "bs_inv bs"
  shows "bs_inv (advance_all now bs)"
proof -
  have p: "params_ok (bs_p bs)" using assms by (simp add: bs_inv_def bs_wf_def)
  have "list_all2 frame (bs_byID bs) (map (\<lambda>(i, b). (i, fst (advance now (bs_p bs) b))) (bs_byID bs))"
    by (auto simp: list_all2_conv_all_nth case_prod_beta intro!: frame_advance[OF p, of "fst q" "snd q" for q, simplified])
  from frames_inv[OF assms this] show ?thesis
    unfolding advance_all_def by (metis (no_types, lifting) bs_inv_pending breakers.update_convs(2) breakers.update_convs(6) breakers.surjective)
qed

lemma retry_scan_frames:
  "params_ok p \<Longrightarrow> retry_scan now p byID e = (ys, chs, e') \<Longrightarrow> list_all2 frame byID ys"
proof (induction now p byID e arbitrary: ys chs e' rule: retry_scan.induct)
  case (2 now p i b rest earliest)
  obtain b1 ch where a: "advance now p b = (b1, ch)" by force
  have f: "frame (i, b) (i, b1)" using frame_advance[OF 2(2), of i b now] by (simp add: a)
  show ?case
  proof (cases "retry_scan now p rest (if \<not> b_eligible b1 then earliest
                else case b_state b1 of HalfOpen \<Rightarrow> 0
                  | Open \<Rightarrow> (let d = b_openUntil b1 - now in if earliest < 0 \<or> d < earliest then d else earliest)
                  | Closed \<Rightarrow> earliest)")
    case (fields rest' chs' e'')
    then show ?thesis
      using 2(3) f 2(1)[OF a[symmetric] refl refl refl _ 2(2), of rest' chs' e'']
      by (auto simp: a Let_def split: if_splits)
  qed
qed simp

section \<open>The cap is enforced\<close>

lemma enforce_model_spec:
  "enforce_model now limit model byID chs = (ys, chs') \<Longrightarrow>
     list_all2 frame byID ys \<and> int (open_count model ys) = min (int (open_count model byID)) (max 0 limit)
     \<and> (\<forall>i j. i < length byID \<longrightarrow> j < length byID \<longrightarrow> counts_open model (snd (byID ! i)) \<longrightarrow> \<not> counts_open model (snd (ys ! i))
          \<longrightarrow> counts_open model (snd (ys ! j)) \<longrightarrow> \<not> ejected_later (snd (ys ! j)) (snd (byID ! i)))"
proof (induction now limit model byID chs arbitrary: ys chs' rule: enforce_model.induct)
  case (1 now limit model byID chs)
  obtain n v where s: "cap_scan model byID = (n, v)" by force
  note sp = cap_scan_spec[OF s]
  show ?case
  proof (cases v)
    case None
    then have "ys = byID" "open_count model byID = 0" using "1.prems" sp by (simp_all add: s enforce_model.simps[of now])
    then show ?thesis by simp
  next
    case (Some i)
    note sp3 = sp(3)[OF Some]
    let ?b = "snd (byID ! i)" and ?by = "byID[i := (fst (byID ! i), breaker_close now (snd (byID ! i)))]"
    show ?thesis
    proof (cases "int n \<le> limit")
      case True
      then have "ys = byID" using "1.prems" by (simp add: s Some enforce_model.simps[of now])
      then show ?thesis using True sp(1) by auto
    next
      case False
      let ?c = "chs @ [\<lparr>ch_Key = b_key ?b, ch_From = b_state ?b, ch_To = Closed, ch_Reason = ReasonCapRelaxed,
                          ch_Failures = 0, ch_CoolDown = 0, ch_Suppressed = False\<rparr>]"
      have rec: "enforce_model now limit model ?by ?c = (ys, chs')"
        using "1.prems" False by (simp add: s Some enforce_model.simps[of now limit model byID] Let_def)
      have IH: "list_all2 frame ?by ys" "int (open_count model ys) = min (int (open_count model ?by)) (max 0 limit)"
        "\<And>i' j. i' < length ?by \<Longrightarrow> j < length ?by \<Longrightarrow> counts_open model (snd (?by ! i')) \<Longrightarrow> \<not> counts_open model (snd (ys ! i'))
           \<Longrightarrow> counts_open model (snd (ys ! j)) \<Longrightarrow> \<not> ejected_later (snd (ys ! j)) (snd (?by ! i'))"
        using "1.IH"[OF s[symmetric] refl Some False refl rec] by blast+
      have f0: "list_all2 frame byID ?by"
        using sp3 frame_close by (auto simp: list_all2_conv_all_nth nth_list_update)
      have cnt: "int (open_count model ?by) = int (open_count model byID) - 1"
        using count_if_update[of i byID "\<lambda>p. counts_open model (snd p)" "(fst (byID ! i), breaker_close now ?b)"] sp3
        by (simp add: open_count_def counts_open_def)
      have later: "\<not> ejected_later (snd (ys ! j)) (snd (byID ! i'))"
        if "i' < length byID" "j < length byID" "counts_open model (snd (byID ! i'))" "\<not> counts_open model (snd (ys ! i'))"
          "counts_open model (snd (ys ! j))" for i' j
      proof (cases "i' = i")
        case True
        have fj: "frame (byID ! j) (ys ! j)" using frames_trans[OF f0 IH(1)] that(2) by (auto simp: list_all2_conv_all_nth)
        then have "counts_open model (snd (byID ! j))" using that(5) by (auto simp: frame_def counts_open_def)
        then have "\<not> ejected_later (snd (byID ! j)) (snd (byID ! i))" using sp3 that(2) by blast
        then show ?thesis using fj True by (auto simp: frame_def ejected_later_def)
      next
        case False
        then show ?thesis using IH(3)[of i' j] that by simp
      qed
      have "int (open_count model ys) = min (int (open_count model byID)) (max 0 limit)"
        using IH(2) cnt False sp(1) by auto
      then show ?thesis using frames_trans[OF f0 IH(1)] later by blast
    qed
  qed
qed

lemma enforce_model_only:
  "enforce_model now limit model byID chs = (ys, chs') \<Longrightarrow> i < length byID \<Longrightarrow>
     ys ! i = byID ! i \<or> counts_open model (snd (byID ! i)) \<and> ys ! i = (fst (byID ! i), breaker_close now (snd (byID ! i)))"
proof (induction now limit model byID chs arbitrary: ys chs' rule: enforce_model.induct)
  case (1 now limit model byID chs)
  obtain n v where s: "cap_scan model byID = (n, v)" by force
  show ?case
  proof (cases "v = None \<or> int n \<le> limit")
    case True
    then have "ys = byID" using "1.prems"(1) by (auto simp: s enforce_model.simps[of now limit model byID] split: option.splits)
    then show ?thesis by simp
  next
    case False
    then obtain j where v: "v = Some j" and lim: "\<not> int n \<le> limit" by auto
    let ?b = "snd (byID ! j)" and ?by = "byID[j := (fst (byID ! j), breaker_close now (snd (byID ! j)))]"
    have rec: "enforce_model now limit model ?by (chs @ [\<lparr>ch_Key = b_key ?b, ch_From = b_state ?b, ch_To = Closed,
        ch_Reason = ReasonCapRelaxed, ch_Failures = 0, ch_CoolDown = 0, ch_Suppressed = False\<rparr>]) = (ys, chs')"
      using "1.prems"(1) lim by (simp add: s v enforce_model.simps[of now limit model byID] Let_def)
    have "ys ! i = ?by ! i \<or> counts_open model (snd (?by ! i)) \<and> ys ! i = (fst (?by ! i), breaker_close now (snd (?by ! i)))"
      using "1.IH"[OF s[symmetric] refl v lim refl rec] "1.prems"(2) by simp
    then show ?thesis using cap_scan_spec(3)[OF s v] by (cases "i = j") (auto simp: counts_open_def)
  qed
qed

lemma open_le_elig: "open_count m byID \<le> elig_count m byID"
  unfolding open_count_def elig_count_def by (rule count_if_mono) (auto simp: counts_open_def)

lemma enforce_one_spec:
  assumes "bs1 = enforce_one now bs (m, e)"
  shows "list_all2 frame (bs_byID bs) (bs_byID bs1)" "bs_p bs1 = bs_p bs" "bs_eligible bs1 = bs_eligible bs"
    "bs_eligibleBy bs1 = bs_eligibleBy bs"
    "int (open_count m (bs_byID bs1)) \<le> max 0 (MaxOpen (cp_MaxOpenFraction (bs_p bs)) (int e))"
proof -
  obtain ys chs where en: "enforce_model now (MaxOpen (cp_MaxOpenFraction (bs_p bs)) (int e)) m (bs_byID bs) (bs_pending bs) = (ys, chs)" by force
  have b1: "bs1 = bs\<lparr>bs_byID := ys, bs_pending := chs\<rparr>" by (simp add: assms enforce_one_def en)
  note sp = enforce_model_spec[OF en]
  show "list_all2 frame (bs_byID bs) (bs_byID bs1)" "bs_p bs1 = bs_p bs" "bs_eligible bs1 = bs_eligible bs" "bs_eligibleBy bs1 = bs_eligibleBy bs"
    using conjunct1[OF sp] by (simp_all add: b1)
  show "int (open_count m (bs_byID bs1)) \<le> max 0 (MaxOpen (cp_MaxOpenFraction (bs_p bs)) (int e))"
    using conjunct1[OF conjunct2[OF sp]] by (simp add: b1 min.coboundedI2)
qed

lemma enforce_fold:
  assumes "bs' = foldl (enforce_one now) bs ms"
  shows "list_all2 frame (bs_byID bs) (bs_byID bs') \<and> bs_p bs' = bs_p bs \<and> bs_eligible bs' = bs_eligible bs
    \<and> bs_eligibleBy bs' = bs_eligibleBy bs
    \<and> (\<forall>q \<in> set ms. int (open_count (fst q) (bs_byID bs')) \<le> max 0 (MaxOpen (cp_MaxOpenFraction (bs_p bs)) (int (snd q))))"
  using assms
proof (induction ms arbitrary: bs)
  case (Cons q ms)
  define bs1 where "bs1 = enforce_one now bs q"
  note one = enforce_one_spec[of bs1 now bs "fst q" "snd q", unfolded prod.collapse, OF bs1_def]
  have IH: "list_all2 frame (bs_byID bs1) (bs_byID bs') \<and> bs_p bs' = bs_p bs1 \<and> bs_eligible bs' = bs_eligible bs1
    \<and> bs_eligibleBy bs' = bs_eligibleBy bs1
    \<and> (\<forall>q \<in> set ms. int (open_count (fst q) (bs_byID bs')) \<le> max 0 (MaxOpen (cp_MaxOpenFraction (bs_p bs1)) (int (snd q))))"
    by (rule Cons.IH) (simp only: Cons.prems foldl_Cons bs1_def)
  have "int (open_count (fst q) (bs_byID bs')) \<le> max 0 (MaxOpen (cp_MaxOpenFraction (bs_p bs)) (int (snd q)))"
    using frames_open[OF conjunct1[OF IH], of "fst q"] one(5) by linarith
  then show ?case using frames_trans[OF one(1) conjunct1[OF IH]] IH by (simp add: one del: max.bounded_iff le_max_iff_disj)
qed simp

lemma enforceCap_inv:
  assumes "bs_wf bs" "bs_counted bs"
  shows "bs_inv (enforceCap now bs)"
proof -
  define b' where "b' = enforceCap now bs"
  note E = enforce_fold[OF b'_def[unfolded enforceCap_def]]
  have f: "list_all2 frame (bs_byID bs) (bs_byID b')" "bs_p b' = bs_p bs" "bs_eligible b' = bs_eligible bs" "bs_eligibleBy b' = bs_eligibleBy bs"
    using E by simp_all
  have el: "elig_count m (bs_byID b') = mget_or 0 (bs_eligibleBy bs) m" for m
    using frames_elig[OF f(1)] assms(2) by (simp add: bs_counted_def)
  have "int (open_count m (bs_byID b')) \<le> cap_of b' m" for m
  proof (cases "mget (bs_eligibleBy bs) m")
    case None
    then have "open_count m (bs_byID b') = 0" using open_le_elig[of m "bs_byID b'"] el[of m] by (simp add: mget_or_def)
    then show ?thesis by (simp add: cap_of_def)
  next
    case (Some e)
    then have "int (open_count (fst (m, e)) (bs_byID b')) \<le> max 0 (MaxOpen (cp_MaxOpenFraction (bs_p bs)) (int (snd (m, e))))"
      using E mget_mem[OF Some] by blast
    moreover have "elig_count m (bs_byID b') = e" using el[of m] Some by (simp add: mget_or_def)
    ultimately show ?thesis by (simp only: cap_of_def f(2) fst_conv snd_conv)
  qed
  moreover have "bs_wf b'" using frames_wf[OF assms(1) f(1)] f(2) by (simp add: bs_wf_def)
  moreover have "count_if (\<lambda>q. b_eligible (snd q)) (bs_byID b') = count_if (\<lambda>q. b_eligible (snd q)) (bs_byID bs)"
    by (rule count_if_frames[OF f(1)]) (auto simp: frame_def)
  ultimately show ?thesis
    using assms(2) f el by (simp add: bs_inv_def bs_counted_def bs_capped_def b'_def)
qed

lemma count_eligible_fields:
  "bs_eligible (count_eligible bs q) = bs_eligible bs + (if b_eligible (snd q) then 1 else 0)"
  "mget_or 0 (bs_eligibleBy (count_eligible bs q)) m
     = mget_or 0 (bs_eligibleBy bs) m + (if b_eligible (snd q) \<and> b_model (snd q) = m then 1 else 0)"
  "bs_byID (count_eligible bs q) = bs_byID bs" "bs_p (count_eligible bs q) = bs_p bs"
  by (auto simp: count_eligible_def mget_or_mput case_prod_beta)

lemma recount_fold:
  "bs_eligible (foldl count_eligible bs xs) = bs_eligible bs + count_if (\<lambda>q. b_eligible (snd q)) xs
   \<and> mget_or 0 (bs_eligibleBy (foldl count_eligible bs xs)) m = mget_or 0 (bs_eligibleBy bs) m + elig_count m xs
   \<and> bs_byID (foldl count_eligible bs xs) = bs_byID bs \<and> bs_p (foldl count_eligible bs xs) = bs_p bs"
  by (induction xs arbitrary: bs) (simp_all add: elig_count_def count_eligible_fields)

lemma recountEligible_counted:
  "bs_counted (recountEligible bs)" "bs_byID (recountEligible bs) = bs_byID bs" "bs_p (recountEligible bs) = bs_p bs"
  by (simp_all add: recountEligible_def bs_counted_def recount_fold) (simp_all add: mget_or_def)

lemma recount_enforce_inv: "bs_wf bs \<Longrightarrow> bs_inv (enforceCap now (recountEligible bs))"
  using recountEligible_counted[of bs] by (intro enforceCap_inv) (auto simp: bs_wf_def)

lemma sync_member_wf:
  assumes "bs_wf bs"
  shows "bs_wf (sync_member bs m)" "bs_p (sync_member bs m) = bs_p bs"
proof -
  define b where "b = (case lookup (m_Key m) bs of Some b \<Rightarrow> b | None \<Rightarrow> newBreaker (m_Key m) (bs_p bs))"
  have p: "params_ok (bs_p bs)" using assms by (simp add: bs_wf_def)
  have "b_key b = m_Key m \<and> breaker_ok (bs_p bs) b"
  proof (cases "lookup (m_Key m) bs")
    case None
    then show ?thesis using newBreaker_ok[OF p] by (simp add: b_def newBreaker_def)
  next
    case (Some b')
    then show ?thesis using lookup_Some[OF Some] bs_wf_entry[OF assms] by (auto simp: b_def)
  qed
  then have "breaker_ok (bs_p bs) (b\<lparr>b_eligible := m_Eligible m, b_model := m_Model m\<rparr>)" "b_key b = m_Key m"
    by (simp_all add: breaker_ok_def)
  then show "bs_wf (sync_member bs m)" "bs_p (sync_member bs m) = bs_p bs"
    using assms by (auto simp: sync_member_def bs_put_def bs_wf_def mput_mem b_def[symmetric])
qed

lemma foldl_sync_wf: "bs_wf bs \<Longrightarrow> bs_wf (foldl sync_member bs ms) \<and> bs_p (foldl sync_member bs ms) = bs_p bs"
  by (induction ms arbitrary: bs) (simp_all add: sync_member_wf)

lemma filter_wf: "bs_wf bs \<Longrightarrow> bs_wf (bs\<lparr>bs_byID := filter P (bs_byID bs)\<rparr>)"
  by (auto simp: bs_wf_def)

lemma Sync_inv: "bs_wf bs \<Longrightarrow> bs_inv (fst (Sync now ms bs))"
  using foldl_sync_wf[of bs ms] by (simp add: Sync_def Let_def recount_enforce_inv filter_wf)

lemma Breakers_Prune_inv: "bs_wf bs \<Longrightarrow> bs_inv (fst (Breakers_Prune now keep bs))"
  by (simp add: Breakers_Prune_def Let_def recount_enforce_inv filter_wf)

lemma advance_all_reads_inv:
  assumes "bs_inv bs"
  shows "bs_inv (fst (Breakers_Snapshot now bs))" "bs_inv (fst (Counts now bs))"
  using advance_all_inv[OF assms, of now] by (simp_all add: Breakers_Snapshot_def Counts_def Let_def case_prod_beta)

lemma Breakers_RetryAfter_inv:
  assumes "bs_inv bs"
  shows "bs_inv (fst (Breakers_RetryAfter now bs))"
proof -
  obtain ys chs e where r: "retry_scan now (bs_p bs) (bs_byID bs) (- 1) = (ys, chs, e)" by (metis prod_cases3)
  have "params_ok (bs_p bs)" using assms by (simp add: bs_inv_def bs_wf_def)
  then have "bs_inv (bs\<lparr>bs_byID := ys\<rparr>)" by (rule frames_inv[OF assms retry_scan_frames[OF _ r]])
  then have "bs_inv (bs\<lparr>bs_byID := ys, bs_pending := bs_pending bs @ chs\<rparr>)"
    by (subst (asm) bs_inv_pending[where c = "bs_pending bs @ chs", symmetric]) simp
  then show ?thesis by (simp add: Breakers_RetryAfter_def r Let_def case_prod_beta)
qed

section \<open>Histories\<close>

inductive bs_reach :: "breaker_params \<Rightarrow> breakers \<Rightarrow> bool" for p where
  new: "bs_reach p (NewBreakers p)"
| sync: "bs_reach p bs \<Longrightarrow> bs_reach p (fst (Sync now ms bs))"
| prune: "bs_reach p bs \<Longrightarrow> bs_reach p (fst (Breakers_Prune now keep bs))"
| admissible: "bs_reach p bs \<Longrightarrow> bs_reach p (fst (Admissible now k bs))"
| acquire: "bs_reach p bs \<Longrightarrow> bs_reach p (fst (Breakers_Acquire now k bs))"
| release: "bs_reach p bs \<Longrightarrow> bs_reach p (fst (Breakers_Release t bs))"
| recorded: "bs_reach p bs \<Longrightarrow> bs_reach p (fst (Record now rnd t v bs))"
| late: "bs_reach p bs \<Longrightarrow> bs_reach p (fst (RecordLate now rnd t v bs))"
| abort: "bs_reach p bs \<Longrightarrow> bs_reach p (fst (RecordAbort now rnd t okAt bs))"
| snapshot: "bs_reach p bs \<Longrightarrow> bs_reach p (fst (Breakers_Snapshot now bs))"
| state: "bs_reach p bs \<Longrightarrow> bs_reach p (fst (Breakers_State now k bs))"
| counts: "bs_reach p bs \<Longrightarrow> bs_reach p (fst (Counts now bs))"
| retry_after: "bs_reach p bs \<Longrightarrow> bs_reach p (fst (Breakers_RetryAfter now bs))"

lemmas bs_inv_steps = Sync_inv Breakers_Prune_inv Admissible_inv Breakers_Acquire_inv Breakers_Release_inv Record_inv
  RecordLate_inv RecordAbort_inv advance_all_reads_inv Breakers_State_inv Breakers_RetryAfter_inv

lemma bs_p_parts [simp]:
  "bs_p (fst (unlock bs)) = bs_p bs" "bs_p (fst (advanceLocked now b bs)) = bs_p bs" "bs_p (advance_all now bs) = bs_p bs"
  "bs_p (enforceCap now bs) = bs_p bs" "bs_p (countClosed now rnd v b bs) = bs_p bs" "bs_p (probe_failed now rnd b bs) = bs_p bs"
  "bs_p (recountEligible bs) = bs_p bs" "bs_p (foldl sync_member bs ms) = bs_p bs"
proof -
  show "bs_p (enforceCap now bs) = bs_p bs" unfolding enforceCap_def using enforce_fold[OF refl] by blast
  show "bs_p (foldl sync_member bs ms) = bs_p bs" by (induction ms arbitrary: bs) (simp_all add: sync_member_def Let_def)
qed (simp_all add: unlock_def advanceLocked_def advance_all_def countClosed_def probe_failed_def recountEligible_counted
  Let_def case_prod_beta split: option.split)

lemma bs_p_recordLocked [simp]: "bs_p (recordLocked now rnd t v bs) = bs_p bs"
  by (auto simp: recordLocked_def Let_def case_prod_beta split: option.split verdict.split)

lemma bs_p_late [simp]: "bs_p (fst (RecordLate now rnd t v bs)) = bs_p bs"
  by (auto simp: RecordLate_def Let_def case_prod_beta split: option.split)

lemma bs_reach_inv: "bs_reach p bs \<Longrightarrow> bs_inv bs \<and> bs_p bs = normalize p"
proof (induction rule: bs_reach.induct)
  case new
  then show ?case by (simp add: NewBreakers_inv) (simp add: NewBreakers_def)
next
  case (sync bs now ms)
  then show ?case by (simp add: Sync_inv bs_inv_def[of bs]) (simp add: Sync_def Let_def)
next
  case (prune bs now keep)
  then show ?case by (simp add: Breakers_Prune_inv bs_inv_def[of bs]) (simp add: Breakers_Prune_def Let_def)
qed (simp_all add: bs_inv_steps,
  auto simp: Admissible_def Breakers_Acquire_def Breakers_Release_def Record_def RecordAbort_def Breakers_Snapshot_def
    Breakers_State_def Counts_def Breakers_RetryAfter_def Let_def case_prod_beta split: option.split breaker_state.split)

section \<open>The cap with the default fraction\<close>

lemma MaxOpen_half:
  assumes "0 \<le> n" "n < 2 ^ 50"
  shows "MaxOpen (Fin (1 / 2)) n = n div 2"
proof (cases "n = 0")
  case False
  let ?e = "round_rat (1 / 10 ^ 9)"
  have e: "0 \<le> ?e" "?e \<le> 1 / 4"
  proof -
    have "round_rat (1 / 4) = 1 / 4" by (rule round_rat_exact[where m = 1 and e = "- 2"]) (simp_all add: pow2_def)
    then show "?e \<le> 1 / 4" using round_rat_mono[of "1 / 10 ^ 9" "1 / 4"] by simp
    show "0 \<le> ?e" by (rule round_rat_nonneg) simp
  qed
  have lit: "flit (1 / 10 ^ 9) = Fin ?e"
    using e fhuge_ge unfolding flit_def by (intro fround_Fin) simp
  have half: "round_rat (of_int n / 2) = of_int n / 2"
    by (rule round_rat_exact[where m = n and e = "- 1"]) (use assms in \<open>simp_all add: pow2_def\<close>)
  have "(of_int n :: rat) < of_int (2 ^ 50)" using assms(2) by (simp only: of_int_less_iff)
  then have n: "(of_int n :: rat) < 2 ^ 50" by simp
  have mul: "fmul (Fin (1 / 2)) (float_of n) = Fin (of_int n / 2)"
    using n assms half fhuge_ge by (simp add: float_of_exact) (subst fround_Fin; simp)
  let ?s = "of_int n / 2 + ?e"
  have quarter: "round_rat (of_int n / 2 + 1 / 4) = of_int n / 2 + 1 / 4"
    by (rule round_rat_exact[where m = "2 * n + 1" and e = "- 2"]) (use assms in \<open>simp_all add: pow2_def\<close>)
  have r: "of_int n / 2 \<le> round_rat ?s" "round_rat ?s \<le> of_int n / 2 + 1 / 4"
    using round_rat_mono[of "of_int n / 2" ?s] round_rat_mono[of ?s "of_int n / 2 + 1 / 4"] e half quarter by simp_all
  have "fround ?s = Fin (round_rat ?s)"
    using r n assms(1) fhuge_ge by (intro fround_Fin) simp
  moreover have "\<lfloor>round_rat ?s\<rfloor> = n div 2"
  proof (rule floor_unique)
    have "(of_int n :: rat) = of_int (2 * (n div 2) + n mod 2)" by (simp only: mult_div_mod_eq)
    also have "\<dots> = 2 * of_int (n div 2) + of_int (n mod 2)" by (simp only: of_int_add of_int_mult of_int_numeral)
    finally have "of_int n / 2 = (of_int (n div 2) :: rat) + of_int (n mod 2) / 2" by (simp add: add_divide_distrib)
    moreover have "0 \<le> (of_int (n mod 2) :: rat)" "(of_int (n mod 2) :: rat) \<le> 1"
      by (simp_all add: mod_2_eq_odd)
    ultimately show "of_int (n div 2) \<le> round_rat ?s" "round_rat ?s < of_int (n div 2) + 1" using r by linarith+
  qed
  ultimately show ?thesis using False assms by (simp add: MaxOpen_def lit[simplified] mul pos_imp_zdiv_nonneg_iff)
qed (simp add: MaxOpen_def)

section \<open>Properties\<close>

text \<open>C8: In every history of a breaker set, with any clock, any random draws and any tickets, the number of ejected (open or
  half-open) eligible workers of a model never exceeds \<^verbatim>\<open>MaxOpen\<close> of the model's eligible workers, and the counts the set
  keeps are exact.\<close>

theorem ejection_cap:
  assumes "bs_reach p bs"
  shows "int (open_count m (bs_byID bs)) \<le> max 0 (MaxOpen (cp_MaxOpenFraction p) (int (mget_or 0 (bs_eligibleBy bs) m)))
    \<and> mget_or 0 (bs_eligibleBy bs) m = elig_count m (bs_byID bs)
    \<and> bs_eligible bs = count_if (\<lambda>q. b_eligible (snd q)) (bs_byID bs)"
proof -
  have "cp_MaxOpenFraction (normalize p) = cp_MaxOpenFraction p" by (simp add: normalize_def Let_def)
  moreover have "bs_inv bs" "bs_p bs = normalize p" using bs_reach_inv[OF assms] by simp_all
  ultimately show ?thesis
    by (simp add: bs_inv_def bs_counted_def bs_capped_def cap_of_def del: max.bounded_iff le_max_iff_disj)
qed

definition ex_members :: "member list" where
  "ex_members = [\<lparr>m_Key = KeyOf ''a'' 1, m_Model = ''m'', m_Eligible = True\<rparr>,
                 \<lparr>m_Key = KeyOf ''b'' 1, m_Model = ''m'', m_Eligible = True\<rparr>]"

definition ex_set :: breakers where
  "ex_set = fst (Sync 0 ex_members (NewBreakers ex_params))"

lemma ex_fraction: "cp_MaxOpenFraction ex_params = Fin (1 / 2)"
  by (simp add: ex_params_def)

lemma ex_reach: "bs_reach ex_params ex_set"
  unfolding ex_set_def by (intro bs_reach.intros)

lemma Sync_elig:
  "elig_count m (bs_byID (fst (Sync now ms bs)))
     = elig_count m (filter (\<lambda>(i, _). i \<in> set (map (\<lambda>m. k_ID (m_Key m)) ms)) (bs_byID (foldl sync_member bs ms)))"
proof -
  define b where "b = recountEligible ((foldl sync_member bs ms)\<lparr>bs_byID := filter (\<lambda>(i, _). i \<in> set (map (\<lambda>m. k_ID (m_Key m)) ms)) (bs_byID (foldl sync_member bs ms))\<rparr>)"
  have "list_all2 frame (bs_byID b) (bs_byID (enforceCap now b))"
    using enforce_fold[OF enforceCap_def] by blast
  from frames_elig[OF this] show ?thesis
    by (simp add: Sync_def Let_def unlock_def b_def recountEligible_counted)
qed

lemma ex_elig: "elig_count ''m'' (bs_byID ex_set) = 2"
  unfolding ex_set_def unfolding Sync_elig unfolding elig_count_def
  by (simp add: ex_members_def NewBreakers_def sync_member_def lookup_def bs_put_def KeyOf_def newBreaker_def mget_mput)

theorem ejection_cap_witness:
  "mget_or 0 (bs_eligibleBy ex_set) ''m'' = 2 \<and> open_count ''m'' (bs_byID ex_set) \<le> 1"
proof -
  note E = ejection_cap[OF ex_reach, of "''m''"]
  from E have "mget_or 0 (bs_eligibleBy ex_set) ''m'' = 2" by (simp add: ex_elig)
  with E show ?thesis by (simp add: ex_fraction MaxOpen_half)
qed

text \<open>With the default \<^verbatim>\<open>max_open_fraction\<close> of 0.5 the breakers never take a model out of service: at most half of its eligible
  workers are ejected, so a model that has an eligible worker always keeps one whose breaker is closed, and a model with a
  single worker never ejects it.\<close>

theorem default_cap_keeps_a_worker:
  assumes "bs_reach p bs" "cp_MaxOpenFraction p = Fin (1 / 2)" "elig_count m (bs_byID bs) < 2 ^ 50"
  shows "2 * open_count m (bs_byID bs) \<le> elig_count m (bs_byID bs)
    \<and> (0 < elig_count m (bs_byID bs) \<longrightarrow>
         (\<exists>q \<in> set (bs_byID bs). b_eligible (snd q) \<and> b_model (snd q) = m \<and> b_state (snd q) = Closed))"
proof -
  have "cp_MaxOpenFraction (normalize p) = Fin (1 / 2)" using assms(2) by (simp add: normalize_def Let_def)
  moreover have "int (elig_count m (bs_byID bs)) < 2 ^ 50" using assms(3) by (metis of_nat_less_iff of_nat_numeral of_nat_power)
  ultimately have "cap_of bs m = int (elig_count m (bs_byID bs)) div 2"
    using bs_reach_inv[OF assms(1)] MaxOpen_half[of "int (elig_count m (bs_byID bs))"]
    by (simp add: cap_of_def pos_imp_zdiv_nonneg_iff)
  then have half: "2 * open_count m (bs_byID bs) \<le> elig_count m (bs_byID bs)"
  proof -
    have "int (open_count m (bs_byID bs)) \<le> int (elig_count m (bs_byID bs)) div 2"
      using bs_reach_inv[OF assms(1)] \<open>cap_of bs m = _\<close> unfolding bs_inv_def bs_capped_def by metis
    then show ?thesis by linarith
  qed
  have "\<exists>q \<in> set (bs_byID bs). b_eligible (snd q) \<and> b_model (snd q) = m \<and> b_state (snd q) = Closed"
    if "0 < elig_count m (bs_byID bs)"
  proof (rule ccontr)
    assume "\<not> ?thesis"
    then have "open_count m (bs_byID bs) = elig_count m (bs_byID bs)"
      unfolding open_count_def elig_count_def by (intro count_if_cong) (auto simp: counts_open_def)
    with half that show False by simp
  qed
  with half show ?thesis by blast
qed

theorem default_cap_keeps_a_worker_witness:
  "\<exists>q \<in> set (bs_byID ex_set). b_eligible (snd q) \<and> b_state (snd q) = Closed"
  using default_cap_keeps_a_worker[OF ex_reach ex_fraction, of "''m''"] by (auto simp: ex_elig)

text \<open>In every history a half-open worker has at most \<^verbatim>\<open>ProbeConcurrency\<close> probes outstanding, a worker that is not half-open has
  none, an open worker's cool-down lies between 1 ns and \<^verbatim>\<open>MaxCoolDown\<close>, and \<^verbatim>\<open>Acquire\<close> admits a request exactly when
  \<^verbatim>\<open>Admissible\<close> said so at the same instant.\<close>

theorem probes_bounded:
  assumes "bs_reach p bs" "lookup k bs = Some b"
  shows "int (length (b_tickets b)) \<le> max 1 (cp_ProbeConcurrency p)
    \<and> (b_state b \<noteq> HalfOpen \<longrightarrow> b_tickets b = [])
    \<and> (b_state b = Open \<longrightarrow> 1 \<le> b_coolDown b \<and> b_coolDown b \<le> cp_MaxCoolDown (normalize p))
    \<and> snd (snd (snd (Breakers_Acquire now k bs))) = snd (snd (Admissible now k bs))"
proof -
  have r: "bs_wf bs" "bs_p bs = normalize p" using bs_reach_inv[OF assms(1)] by (simp_all add: bs_inv_def)
  have ok: "breaker_ok (normalize p) b" using bs_wf_entry[OF r(1) lookup_Some(1)[OF assms(2)]] r(2) by simp
  have c: "cp_ProbeConcurrency (normalize p) = max 1 (cp_ProbeConcurrency p)" by (auto simp: normalize_def Let_def)
  have "snd (snd (snd (Breakers_Acquire now k bs))) = snd (snd (Admissible now k bs))"
    by (auto simp: Breakers_Acquire_def Admissible_def assms(2) Let_def case_prod_beta probeFree_def split: breaker_state.split)
  then show ?thesis using ok unfolding breaker_ok_def c by blast
qed

text \<open>A breaker that was opened once and is probed: the steps of a recovery.\<close>

definition probe_round :: "time \<Rightarrow> float64 \<Rightarrow> worker_key \<Rightarrow> breakers \<Rightarrow> breakers" where
  \<comment> \<open>one request: \<^verbatim>\<open>Acquire\<close>, then \<^verbatim>\<open>Record(OK)\<close> on its ticket\<close>
  "probe_round now rnd k bs = (let (bs1, _, t, _) = Breakers_Acquire now k bs in fst (Record now rnd t OK bs1))"

lemma lookup_put [simp]: "lookup k (bs_put b bs) = (if k_ID k = k_ID (b_key b) then if b_key b = k then Some b else None else lookup k bs)"
  by (auto simp: lookup_def bs_put_def mget_mput split: option.splits)

lemma lookup_emit [simp]: "lookup k (emit c bs) = lookup k bs" "lookup k (bs\<lparr>bs_pending := x\<rparr>) = lookup k bs"
  by (simp_all add: lookup_def emit_def)

lemma advance_due:
  assumes "b_state b = HalfOpen \<and> b_tickets b = [] \<or> b_state b = Open \<and> b_openUntil b \<le> now \<and> b_successes b = 0 \<and> b_tickets b = []"
  shows "fst (advance now p b) = b\<lparr>b_state := HalfOpen\<rparr>"
  using assms
proof
  assume h: "b_state b = HalfOpen \<and> b_tickets b = []"
  then have "b\<lparr>b_state := HalfOpen\<rparr> = b" by (cases b) simp
  with h show ?thesis by (simp add: advance_def)
next
  assume h: "b_state b = Open \<and> b_openUntil b \<le> now \<and> b_successes b = 0 \<and> b_tickets b = []"
  then have "b\<lparr>b_state := HalfOpen, b_successes := 0, b_tickets := []\<rparr> = b\<lparr>b_state := HalfOpen\<rparr>" by (cases b) simp
  with h show ?thesis by (simp add: advance_def)
qed

lemma probe_round_step:
  assumes "params_ok (bs_p bs)" "lookup k bs = Some b" "0 \<le> b_successes b"
    "b_state b = HalfOpen \<and> b_tickets b = [] \<or> b_state b = Open \<and> b_openUntil b \<le> now \<and> b_successes b = 0 \<and> b_tickets b = []"
    and b': "b' = b\<lparr>b_state := HalfOpen, b_nextID := b_nextID b + 1, b_successes := b_successes b + 1\<rparr>"
  shows "lookup k (probe_round now rnd k bs)
           = Some (if cp_ProbeSuccesses (bs_p bs) \<le> b_successes b + 1 then breaker_close now b' else b')
       \<and> bs_p (probe_round now rnd k bs) = bs_p bs"
proof -
  note lk = lookup_Some[OF assms(2)]
  obtain bs1 b1 where a: "advanceLocked now b bs = (bs1, b1)" by force
  then have b1: "b1 = b\<lparr>b_state := HalfOpen\<rparr>" and bs1: "bs1 = (case snd (advance now (bs_p bs) b) of None \<Rightarrow> bs_put b1 bs | Some c \<Rightarrow> emit c (bs_put b1 bs))"
    using advance_due[OF assms(4), of "bs_p bs"] by (auto simp: advanceLocked_def Let_def case_prod_beta)
  have p1: "bs_p bs1 = bs_p bs" by (simp add: bs1 split: option.split)
  have empty: "b_tickets b = []" using assms(4) by blast
  define n where "n = b_nextID b + 1"
  define b2 where "b2 = b\<lparr>b_state := HalfOpen, b_nextID := n, b_tickets := [(n, now)]\<rparr>"
  define bs2 where "bs2 = fst (unlock (bs_put b2 bs1))"
  define t where "t = \<lparr>tk_key = k, tk_id = n, tk_epoch = b_epoch b, tk_probe = True, tk_valid = True\<rparr>"
  have acq: "Breakers_Acquire now k bs = (bs2, snd (unlock (bs_put b2 bs1)), t, True)"
    using assms(1) empty
    by (simp add: Breakers_Acquire_def assms(2) a b1 probeFree_def params_ok_def Let_def case_prod_beta bs2_def b2_def n_def t_def)
  have l2: "lookup k bs2 = Some b2" "bs_p bs2 = bs_p bs" using lk by (simp_all add: bs2_def unlock_def b2_def p1)
  have adv: "advance now (bs_p bs) b2 = (b2, None)"
    using assms(1) by (simp add: advance_def b2_def ticketBackstop_def params_ok_def)
  have "fst (Record now rnd t OK bs2) = fst (unlock (let b3 = b2\<lparr>b_tickets := [], b_successes := b_successes b + 1\<rparr>;
       bs3 = bs_put (b2\<lparr>b_tickets := []\<rparr>) (bs_put b2 bs2)
     in if cp_ProbeSuccesses (bs_p bs) \<le> b_successes b + 1
        then emit \<lparr>ch_Key = b_key b3, ch_From = HalfOpen, ch_To = Closed, ch_Reason = ReasonProbesPassed,
                    ch_Failures = 0, ch_CoolDown = 0, ch_Suppressed = False\<rparr> (bs_put (breaker_close now b3) bs3)
        else bs_put b3 bs3))"
    by (simp add: Record_def recordLocked_def t_def l2 advanceLocked_def adv Let_def) (simp add: b2_def)
  moreover have "b2\<lparr>b_tickets := [], b_successes := b_successes b + 1\<rparr> = b'" by (simp add: b' b2_def n_def empty)
  ultimately show ?thesis
    using lk b' by (simp add: probe_round_def acq unlock_def l2 Let_def)
qed

lemma probe_rounds:
  assumes "params_ok (bs_p bs)" "lookup k bs = Some b" "0 \<le> b_successes b" "b_successes b + int n = cp_ProbeSuccesses (bs_p bs)"
    "b_state b = HalfOpen \<and> b_tickets b = [] \<or> b_state b = Open \<and> b_openUntil b \<le> now \<and> b_successes b = 0 \<and> b_tickets b = []"
    "j \<le> n" "0 < j"
  shows "\<exists>b'. lookup k ((probe_round now rnd k ^^ j) bs) = Some b' \<and> b_state b' = (if j = n then Closed else HalfOpen)"
  using assms
proof (induction j arbitrary: n bs b)
  case (Suc j)
  define b' where "b' = b\<lparr>b_state := HalfOpen, b_nextID := b_nextID b + 1, b_successes := b_successes b + 1\<rparr>"
  note step = probe_round_step[OF Suc.prems(1,2,3,5) b'_def, of rnd]
  have tail: "(probe_round now rnd k ^^ Suc j) bs = (probe_round now rnd k ^^ j) (probe_round now rnd k bs)"
    by (simp add: funpow_swap1)
  show ?case
  proof (cases j)
    case 0
    have "cp_ProbeSuccesses (bs_p bs) \<le> b_successes b + 1 \<longleftrightarrow> n = 1" using Suc.prems(4,6) 0 by auto
    then show ?thesis using step 0 by (auto simp: b'_def)
  next
    case (Suc i)
    then have "\<not> cp_ProbeSuccesses (bs_p bs) \<le> b_successes b + 1" using Suc.prems(4,6) by linarith
    then have l: "lookup k (probe_round now rnd k bs) = Some b'" "bs_p (probe_round now rnd k bs) = bs_p bs" using step by simp_all
    have e: "b_tickets b = []" using Suc.prems(5) by blast
    have "\<exists>b''. lookup k ((probe_round now rnd k ^^ j) (probe_round now rnd k bs)) = Some b'' \<and> b_state b'' = (if j = n - 1 then Closed else HalfOpen)"
      by (rule Suc.IH[where b = b']) (use Suc.prems l e Suc in \<open>auto simp: b'_def\<close>)
    moreover have "j = n - 1 \<longleftrightarrow> Suc j = n" using Suc.prems(6) by auto
    ultimately show ?thesis unfolding tail by simp
  qed
qed simp

text \<open>C28: A breaker recovers: from any reachable state in which a worker is open and its cool-down has passed, \<^verbatim>\<open>ProbeSuccesses\<close>
  successful requests, one after the other, close it; before the last of them it is half-open.\<close>

theorem breaker_recovers:
  assumes "bs_reach p bs" "lookup k bs = Some b" "b_state b = Open" "b_openUntil b \<le> now"
    and "0 < j" "j \<le> nat (max 1 (cp_ProbeSuccesses p))"
  shows "\<exists>b'. lookup k ((probe_round now rnd k ^^ j) bs) = Some b'
    \<and> b_state b' = (if j = nat (max 1 (cp_ProbeSuccesses p)) then Closed else HalfOpen)"
proof -
  have r: "bs_wf bs" "bs_p bs = normalize p" using bs_reach_inv[OF assms(1)] by (simp_all add: bs_inv_def)
  have "breaker_ok (bs_p bs) b" using bs_wf_entry[OF r(1) lookup_Some(1)[OF assms(2)]] by simp
  then have "b_tickets b = []" "b_successes b = 0" using assms(3) by (auto simp: breaker_ok_def)
  moreover have "cp_ProbeSuccesses (bs_p bs) = max 1 (cp_ProbeSuccesses p)" by (auto simp: r normalize_def Let_def)
  ultimately show ?thesis
    using assms r by (intro probe_rounds[where b = b]) (auto simp: bs_wf_def)
qed

text \<open>A verdict from an earlier period is ignored: a ticket whose epoch is not the breaker's (the worker was ejected since) leaves
  the set as a mere read at that instant would, whatever the verdict and whichever of the three recorders it comes through.\<close>

theorem stale_ticket_ignored:
  assumes "lookup (tk_key t) bs = Some b" "tk_valid t" "tk_epoch t \<noteq> b_epoch b" "v = Fault \<or> v = RatioFault"
  shows "Record now rnd t v' bs = (fst (Admissible now (tk_key t) bs), fst (snd (Admissible now (tk_key t) bs)))
    \<and> RecordLate now rnd t v bs = Record now rnd t v' bs \<and> RecordAbort now rnd t okAt bs = Record now rnd t v' bs"
proof -
  obtain bs1 b1 where a: "advanceLocked now b bs = (bs1, b1)" by force
  then have "b_epoch b1 = b_epoch b" by (auto simp: advanceLocked_def Let_def case_prod_beta)
  then show ?thesis
    using assms a by (auto simp: Record_def recordLocked_def RecordLate_def RecordAbort_def Admissible_def Let_def case_prod_beta)
qed

text \<open>When the cap is exceeded, the loop of \<^verbatim>\<open>enforceCap\<close> closes exactly as many breakers of the model as needed, it closes the
  most recently ejected first (no breaker left open was ejected after one it closed), and it changes nothing else.\<close>

theorem cap_relaxes_latest_first:
  assumes "enforce_model now limit model byID chs = (byID', chs')"
  shows "int (open_count model byID') = min (int (open_count model byID)) (max 0 limit)
    \<and> length byID' = length byID
    \<and> (\<forall>i < length byID. byID' ! i = byID ! i
         \<or> counts_open model (snd (byID ! i)) \<and> byID' ! i = (fst (byID ! i), breaker_close now (snd (byID ! i))))
    \<and> (\<forall>i j. i < length byID \<longrightarrow> j < length byID \<longrightarrow> counts_open model (snd (byID ! i)) \<longrightarrow> \<not> counts_open model (snd (byID' ! i))
         \<longrightarrow> counts_open model (snd (byID' ! j)) \<longrightarrow> \<not> ejected_later (snd (byID' ! j)) (snd (byID ! i)))"
  using enforce_model_spec[OF assms] enforce_model_only[OF assms] list_all2_lengthD by metis

section \<open>An ejected worker, for the witnesses\<close>

definition ex_params1 :: breaker_params where
  "ex_params1 = ex_params\<lparr>cp_ConsecutiveFailures := 1\<rparr>"

definition ex_key :: worker_key where
  "ex_key = KeyOf ''a'' 1"

definition ex_set1 :: breakers where
  "ex_set1 = fst (Sync 0 [\<lparr>m_Key = ex_key, m_Model = ''m'', m_Eligible = False\<rparr>] (NewBreakers ex_params1))"

definition ex_ticket :: ticket where
  "ex_ticket = fst (snd (snd (Breakers_Acquire 1 ex_key ex_set1)))"

definition ex_open :: breakers where
  \<comment> \<open>one request to the worker fails\<close>
  "ex_open = fst (Record second (Fin 0) ex_ticket Fault (fst (Breakers_Acquire 1 ex_key ex_set1)))"

lemma ex_open_reach: "bs_reach ex_params1 ex_open"
  unfolding ex_open_def ex_set1_def by (intro bs_reach.intros)

lemma ex_params1_ok: "params_ok ex_params1"
  by (simp add: params_ok_def ex_params1_def ex_params_def bucketWidth_def second_def)

abbreviation ex_closed :: breaker where
  "ex_closed \<equiv> (newBreaker ex_key ex_params1)\<lparr>b_model := ''m''\<rparr>"

lemma ex_set1_eval: "ex_set1 = (NewBreakers ex_params1)\<lparr>bs_byID := [(''a'', ex_closed)]\<rparr>"
  by (simp add: ex_set1_def Sync_def NewBreakers_def normalize_id[OF ex_params1_ok] sync_member_def lookup_def bs_put_def ex_key_def KeyOf_def
    recountEligible_def count_eligible_def enforceCap_def unlock_def newBreaker_def)

lemma ex_closed_facts:
  "lookup ex_key ex_set1 = Some ex_closed" "bs_p ex_set1 = ex_params1" "advance now ex_params1 ex_closed = (ex_closed, None)"
  "b_epoch ex_closed = 0" "b_state ex_closed = Closed" "b_eligible ex_closed = False" "b_key ex_closed = ex_key" "bs_put ex_closed ex_set1 = ex_set1"
  by (simp_all add: ex_set1_eval NewBreakers_def normalize_id[OF ex_params1_ok] lookup_def ex_key_def KeyOf_def newBreaker_def advance_def bs_put_def)

lemma ex_acquire: "fst (Breakers_Acquire 1 ex_key ex_set1) = ex_set1\<lparr>bs_pending := []\<rparr>"
    "ex_ticket = \<lparr>tk_key = ex_key, tk_id = 0, tk_epoch = 0, tk_probe = False, tk_valid = True\<rparr>"
  unfolding ex_ticket_def
  by (simp_all add: Breakers_Acquire_def ex_closed_facts advanceLocked_def unlock_def no_ticket_def)

lemma ex_open_breaker:
  obtains b where "lookup ex_key ex_open = Some b" "b_state b = Open" "b_epoch b = 1" "b_openUntil b \<le> 61 * second"
proof -
  define b0 where "b0 = count_outcome second Fault ex_closed"
  define b1 where "b1 = breaker_open second False ex_params1 (Fin 0) b0"
  have rc: "recordClosed second Fault ex_params1 ex_closed = (b0, Some ReasonConsecutive, 1)"
    by (simp add: b0_def recordClosed_def trip_reason_def count_outcome_def newBreaker_def ex_params1_def ex_params_def second_def Let_def)
  have b0: "b_eligible b0 = False" "b_key b0 = ex_key" "b_epoch b0 = 0" using ex_closed_facts by (simp_all add: b0_def)
  have "lookup ex_key ex_open = Some b1"
    by (simp add: ex_open_def ex_acquire Record_def recordLocked_def ex_closed_facts advanceLocked_def Let_def countClosed_def rc
      roomToOpen_def b0 b1_def[symmetric] unlock_def) (simp add: b1_def b0)
  moreover have "b_state b1 = Open" "b_epoch b1 = 1" "b_openUntil b1 \<le> 61 * second"
    using jittered_range[OF ex_params1_ok, of "Fin 0"] b0 by (simp_all add: b1_def breaker_open_def Let_def ex_params1_def ex_params_def)
  ultimately show ?thesis by (rule that)
qed

theorem probes_bounded_witness:
  "\<exists>b. lookup ex_key ex_open = Some b \<and> b_tickets b = [] \<and> 1 \<le> b_coolDown b \<and> b_coolDown b \<le> 60 * second"
proof -
  obtain b where b: "lookup ex_key ex_open = Some b" "b_state b = Open" by (rule ex_open_breaker)
  have "cp_MaxCoolDown (normalize ex_params1) = 60 * second"
    by (simp only: normalize_id[OF ex_params1_ok]) (simp add: ex_params1_def ex_params_def)
  with probes_bounded[OF ex_open_reach b(1)] b show ?thesis by auto
qed

theorem breaker_recovers_witness:
  "\<exists>b. lookup ex_key (probe_round (61 * second) (Fin 0) ex_key ex_open) = Some b \<and> b_state b = Closed"
proof -
  obtain b where b: "lookup ex_key ex_open = Some b" "b_state b = Open" "b_openUntil b \<le> 61 * second" by (rule ex_open_breaker)
  from breaker_recovers[OF ex_open_reach b, of 1 "Fin 0"] show ?thesis by (simp add: ex_params1_def ex_params_def)
qed

theorem stale_ticket_ignored_witness:
  "RecordAbort (9 * second) (Fin 0) ex_ticket 5 ex_open = Record (9 * second) (Fin 0) ex_ticket OK ex_open"
proof -
  obtain b where b: "lookup ex_key ex_open = Some b" "b_epoch b = 1" by (rule ex_open_breaker)
  show ?thesis using stale_ticket_ignored[of ex_ticket ex_open b Fault "9 * second" "Fin 0" OK 5] b by (simp add: ex_acquire)
qed

definition ex_two_open :: "(string, breaker) gomap" where
  "ex_two_open = [(''a'', (newBreaker (KeyOf ''a'' 1) ex_params)\<lparr>b_model := ''m'', b_eligible := True, b_state := Open, b_ejectedAt := 5\<rparr>),
                  (''b'', (newBreaker (KeyOf ''b'' 1) ex_params)\<lparr>b_model := ''m'', b_eligible := True, b_state := Open, b_ejectedAt := 7\<rparr>)]"

theorem cap_relaxes_latest_first_witness:
  "open_count ''m'' ex_two_open = 2 \<and> open_count ''m'' (fst (enforce_model 9 1 ''m'' ex_two_open [])) = 1"
  using cap_relaxes_latest_first[where now = 9 and limit = 1 and model = "''m''" and byID = ex_two_open and chs = "[]", OF prod.collapse[symmetric]]
  by (simp add: ex_two_open_def open_count_def counts_open_def)

end
