(* ===== verification/WaitQueue.thy ===== *)
theory WaitQueue
  imports Go_Base Float64 "HOL-Library.Multiset"
begin

text \<open>
  \<^verbatim>\<open>internal/resilience/queue.go\<close>: the per-model FIFO admission queues. A \<^verbatim>\<open>*Waiter\<close> is an index into the list of all
  waiters ever created, so the sharing between a queue's list and the goroutine that holds the waiter is explicit. A
  waiter's channel has capacity one: it is empty or holds one grant. Every operation runs under the queue's lock, so it
  is one step. The value of a hand-off is a type parameter.
\<close>

section \<open>Types\<close>

datatype shed_reason = ReasonGlobalLimit | ReasonQueueFull | ReasonQueueTimeout | ReasonDraining

datatype queue_error = ErrNoQueue | ErrQueueFull | ErrTenantShare | ErrDraining

definition ShedReason :: "queue_error \<Rightarrow> shed_reason" where
  "ShedReason e = (case e of ErrQueueFull \<Rightarrow> ReasonQueueFull | ErrTenantShare \<Rightarrow> ReasonQueueFull | ErrNoQueue \<Rightarrow> ReasonQueueFull
     | ErrDraining \<Rightarrow> ReasonDraining)"

record queue_params =
  qp_MaxModelDepth :: int
  qp_MaxWait :: duration
  qp_MaxTenantShare :: float64
  qp_MaxModels :: int

definition tenantCap :: "queue_params \<Rightarrow> int" where
  "tenantCap p =
     (if fle (qp_MaxTenantShare p) (Fin 0) \<or> fle (Fin 1) (qp_MaxTenantShare p) then 0
      else max 1 (trunc_of (ffloor (fadd (fmul (qp_MaxTenantShare p) (float_of (qp_MaxModelDepth p))) (flit (1 / 10 ^ 9))))))"

datatype 'v grant = Handoff 'v | Reroute | Flushed

record 'v waiter =
  w_model :: string
  w_tenant :: string
  w_enqueued :: time
  w_ch :: "'v grant option"
  w_elem :: bool \<comment> \<open>\<^verbatim>\<open>elem != nil\<close>\<close>
  w_woken :: bool
  w_left :: bool

record model_queue =
  mq_waiters :: "nat list"
  mq_tenants :: "(string, int) gomap"
  mq_credit :: nat

record 'v wait_queue =
  q_p :: queue_params
  q_models :: "(string, model_queue) gomap"
  q_closed :: bool
  q_ewma :: float64
  q_ewmaSet :: bool
  q_heap :: "'v waiter list"

definition NewQueue :: "queue_params \<Rightarrow> 'v wait_queue" where
  "NewQueue p = \<lparr>q_p = p, q_models = [], q_closed = False, q_ewma = Fin 0, q_ewmaSet = False, q_heap = []\<rparr>"

section \<open>Reads\<close>

definition Busy :: "string \<Rightarrow> 'v wait_queue \<Rightarrow> bool" where
  "Busy model q = (case mget (q_models q) model of None \<Rightarrow> False | Some mq \<Rightarrow> length (mq_waiters mq) > 0)"

definition Depth :: "string \<Rightarrow> 'v wait_queue \<Rightarrow> nat" where
  "Depth model q = (case mget (q_models q) model of Some mq \<Rightarrow> length (mq_waiters mq) | None \<Rightarrow> 0)"

definition Depths :: "'v wait_queue \<Rightarrow> (string, nat) gomap" where
  "Depths q = map (\<lambda>(m, mq). (m, length (mq_waiters mq))) (q_models q)"

definition queue_Models :: "'v wait_queue \<Rightarrow> string list" where
  "queue_Models q = map fst (q_models q)"

definition refuseLocked :: "string \<Rightarrow> string \<Rightarrow> 'v wait_queue \<Rightarrow> queue_error option" where
  "refuseLocked model tenant q =
     (if q_closed q then Some ErrDraining
      else if qp_MaxModelDepth (q_p q) \<le> 0 then Some ErrNoQueue
      else case mget (q_models q) model of
        None \<Rightarrow> if qp_MaxModels (q_p q) > 0 \<and> int (length (q_models q)) \<ge> qp_MaxModels (q_p q) then Some ErrNoQueue else None
      | Some mq \<Rightarrow>
          if int (length (mq_waiters mq)) \<ge> qp_MaxModelDepth (q_p q) then Some ErrQueueFull
          else if tenantCap (q_p q) > 0 \<and> tenant \<noteq> [] \<and> mget_or 0 (mq_tenants mq) tenant \<ge> tenantCap (q_p q) then Some ErrTenantShare
          else None)"

definition Full :: "string \<Rightarrow> string \<Rightarrow> 'v wait_queue \<Rightarrow> bool" where
  "Full model tenant q \<longleftrightarrow> refuseLocked model tenant q \<noteq> None"

definition Refusal :: "string \<Rightarrow> string \<Rightarrow> 'v wait_queue \<Rightarrow> queue_error option" where
  "Refusal model tenant q = refuseLocked model tenant q"

section \<open>Entering, waking and leaving\<close>

definition upd_w :: "nat \<Rightarrow> ('v waiter \<Rightarrow> 'v waiter) \<Rightarrow> 'v waiter list \<Rightarrow> 'v waiter list" where
  \<comment> \<open>a write through the pointer\<close>
  "upd_w i f h = h[i := f (h ! i)]"

definition Enqueue :: "time \<Rightarrow> string \<Rightarrow> string \<Rightarrow> 'v wait_queue \<Rightarrow> 'v wait_queue \<times> (queue_error + nat)" where
  "Enqueue now model tenant q =
     (case refuseLocked model tenant q of
        Some e \<Rightarrow> (q, Inl e)
      | None \<Rightarrow>
          let mq = (case mget (q_models q) model of Some mq \<Rightarrow> mq | None \<Rightarrow> \<lparr>mq_waiters = [], mq_tenants = [], mq_credit = 0\<rparr>);
              i = length (q_heap q);
              w = \<lparr>w_model = model, w_tenant = tenant, w_enqueued = now, w_ch = None, w_elem = True, w_woken = False, w_left = False\<rparr>;
              mq1 = mq\<lparr>mq_waiters := mq_waiters mq @ [i],
                       mq_tenants := (if tenant \<noteq> [] then mput tenant (mget_or 0 (mq_tenants mq) tenant + 1) (mq_tenants mq) else mq_tenants mq)\<rparr>
          in (q\<lparr>q_models := mput model mq1 (q_models q), q_heap := q_heap q @ [w]\<rparr>, Inr i))"

definition send :: "'v grant \<Rightarrow> 'v waiter \<Rightarrow> 'v waiter" where
  \<comment> \<open>drains the channel, then fills it\<close>
  "send g w = w\<lparr>w_ch := Some g\<rparr>"

fun settle_loop :: "nat \<Rightarrow> nat list \<Rightarrow> nat option \<Rightarrow> 'v waiter list \<Rightarrow> bool \<Rightarrow> nat \<times> 'v waiter list \<times> bool" where
  "settle_loop 0 ws self h selfRoutes = (0, h, selfRoutes)"
| "settle_loop (Suc credit) ws self h selfRoutes =
     (case find (\<lambda>i. \<not> w_woken (h ! i)) ws of
        None \<Rightarrow> (Suc credit, h, selfRoutes)
      | Some nxt \<Rightarrow>
          let h1 = upd_w nxt (\<lambda>w. w\<lparr>w_woken := True\<rparr>) h in
          if self = Some nxt then settle_loop credit ws self h1 True
          else settle_loop credit ws self (upd_w nxt (send Reroute) h1) selfRoutes)"

definition settle :: "model_queue \<Rightarrow> nat option \<Rightarrow> 'v waiter list \<Rightarrow> model_queue \<times> 'v waiter list \<times> bool" where
  "settle mq self h =
     (let (c, h', sr) = settle_loop (mq_credit mq) (mq_waiters mq) self h False in (mq\<lparr>mq_credit := c\<rparr>, h', sr))"

definition drop_tenant :: "string \<Rightarrow> (string, int) gomap \<Rightarrow> (string, int) gomap" where
  "drop_tenant t ts = (if t = [] then ts else let n = mget_or 0 ts t - 1 in if n \<le> 0 then mdel t ts else mput t n ts)"

definition leaveLocked :: "nat \<Rightarrow> bool \<Rightarrow> bool \<Rightarrow> 'v wait_queue \<Rightarrow> 'v wait_queue" where
  "leaveLocked i settleAfter giveBack q =
     (let w = q_heap q ! i; wasRouting = w_woken w;
          h1 = upd_w i (\<lambda>w. w\<lparr>w_left := True, w_woken := False\<rparr>) (q_heap q) in
      case mget (q_models q) (w_model w) of
        None \<Rightarrow> q\<lparr>q_heap := h1\<rparr>
      | Some mq \<Rightarrow>
          if \<not> w_elem w then q\<lparr>q_heap := h1\<rparr>
          else let h2 = upd_w i (\<lambda>w. w\<lparr>w_elem := False\<rparr>) h1;
                   mq1 = mq\<lparr>mq_waiters := remove1 i (mq_waiters mq), mq_tenants := drop_tenant (w_tenant w) (mq_tenants mq)\<rparr> in
               if mq_waiters mq1 = [] then q\<lparr>q_models := mdel (w_model w) (q_models q), q_heap := h2\<rparr>
               else if settleAfter
               then let mq2 = (if giveBack \<and> wasRouting then mq1\<lparr>mq_credit := mq_credit mq1 + 1\<rparr> else mq1);
                        (mq3, h3, _) = settle mq2 None h2
                    in q\<lparr>q_models := mput (w_model w) mq3 (q_models q), q_heap := h3\<rparr>
               else q\<lparr>q_models := mput (w_model w) mq1 (q_models q), q_heap := h2\<rparr>)"

definition queue_Handoff :: "string \<Rightarrow> 'v \<Rightarrow> 'v wait_queue \<Rightarrow> 'v wait_queue \<times> bool" where
  "queue_Handoff model v q =
     (case mget (q_models q) model of
        None \<Rightarrow> (q, False)
      | Some mq \<Rightarrow>
          case mq_waiters mq of
            [] \<Rightarrow> (q, False)
          | front # _ \<Rightarrow>
              if w_woken (q_heap q ! front)
              then let (mq', h', _) = settle (mq\<lparr>mq_credit := mq_credit mq + 1\<rparr>) None (q_heap q)
                   in (q\<lparr>q_models := mput model mq' (q_models q), q_heap := h'\<rparr>, False)
              else let q1 = leaveLocked front False False q
                   in (q1\<lparr>q_heap := upd_w front (send (Handoff v)) (q_heap q1)\<rparr>, True))"

fun wake_loop :: "nat list \<Rightarrow> int \<Rightarrow> 'v waiter list \<Rightarrow> nat \<Rightarrow> 'v waiter list \<times> nat" where
  "wake_loop [] n h woken = (h, woken)"
| "wake_loop (i # ws) n h woken =
     (if \<not> int woken < n then (h, woken)
      else if w_woken (h ! i) then wake_loop ws n h woken
      else wake_loop ws n (upd_w i (send Reroute) (upd_w i (\<lambda>w. w\<lparr>w_woken := True\<rparr>) h)) (woken + 1))"

definition Wake :: "string \<Rightarrow> int \<Rightarrow> 'v wait_queue \<Rightarrow> 'v wait_queue \<times> nat" where
  "Wake model n q =
     (case mget (q_models q) model of
        None \<Rightarrow> (q, 0)
      | Some mq \<Rightarrow> if n \<le> 0 then (q, 0) else let (h, k) = wake_loop (mq_waiters mq) n (q_heap q) 0 in (q\<lparr>q_heap := h\<rparr>, k))"

definition Park :: "nat \<Rightarrow> 'v wait_queue \<Rightarrow> 'v wait_queue \<times> bool" where
  "Park i q =
     (if w_left (q_heap q ! i) then (q, False)
      else let h1 = upd_w i (\<lambda>w. w\<lparr>w_woken := False\<rparr>) (q_heap q); m = w_model (q_heap q ! i) in
        case mget (q_models q) m of
          None \<Rightarrow> (q\<lparr>q_heap := h1\<rparr>, False)
        | Some mq \<Rightarrow> let (mq', h2, sr) = settle mq (Some i) h1 in (q\<lparr>q_models := mput m mq' (q_models q), q_heap := h2\<rparr>, sr))"

definition recv :: "nat \<Rightarrow> 'v wait_queue \<Rightarrow> 'v wait_queue \<times> 'v grant option" where
  \<comment> \<open>a non-blocking receive from the waiter's channel\<close>
  "recv i q = (q\<lparr>q_heap := upd_w i (\<lambda>w. w\<lparr>w_ch := None\<rparr>) (q_heap q)\<rparr>, w_ch (q_heap q ! i))"

definition leave :: "nat \<Rightarrow> bool \<Rightarrow> 'v wait_queue \<Rightarrow> 'v wait_queue \<times> 'v grant option" where
  \<comment> \<open>\<open>Some g\<close> is \<^verbatim>\<open>(g, true)\<close>\<close>
  "leave i giveBack q =
     (if \<not> w_left (q_heap q ! i)
      then let (q1, g) = recv i (leaveLocked i True giveBack q)
           in (q1, case g of Some Reroute \<Rightarrow> None | Some g' \<Rightarrow> Some g' | None \<Rightarrow> None)
      else let (q1, g) = recv i q
           in (q1, case g of Some (Handoff v) \<Rightarrow> Some (Handoff v) | _ \<Rightarrow> None))"

definition Done :: "nat \<Rightarrow> 'v wait_queue \<Rightarrow> 'v wait_queue \<times> 'v grant option" where
  "Done i q = leave i False q"

definition Leave :: "nat \<Rightarrow> 'v wait_queue \<Rightarrow> 'v wait_queue \<times> 'v grant option" where
  "Leave i q = leave i True q"

datatype outcome = Granted | TimedOut | ClientGone

datatype wait_event = Received | CtxDone | TimeoutFired \<comment> \<open>which ready case the \<^verbatim>\<open>select\<close> of \<^verbatim>\<open>Wait\<close> takes\<close>

definition Wait :: "nat \<Rightarrow> wait_event \<Rightarrow> 'v wait_queue \<Rightarrow> 'v wait_queue \<times> 'v grant option \<times> outcome" where
  \<comment> \<open>\<open>Received\<close> is possible only when the channel holds a grant\<close>
  "Wait i ev q =
     (case ev of
        Received \<Rightarrow> (let (q1, g) = recv i q in (q1, g, Granted))
      | CtxDone \<Rightarrow> (let (q1, g) = Leave i q in (q1, g, if g = None then ClientGone else Granted))
      | TimeoutFired \<Rightarrow> (let (q1, g) = Leave i q in (q1, g, if g = None then TimedOut else Granted)))"

definition flush_one :: "'v wait_queue \<Rightarrow> nat \<Rightarrow> 'v wait_queue" where
  "flush_one q i = (let q1 = leaveLocked i False False q in q1\<lparr>q_heap := upd_w i (send Flushed) (q_heap q1)\<rparr>)"

definition flush_model :: "'v wait_queue \<times> nat \<Rightarrow> string \<Rightarrow> 'v wait_queue \<times> nat" where
  \<comment> \<open>the inner loop takes the front until the list is empty, which visits the list in order\<close>
  "flush_model = (\<lambda>(q, n) m. case mget (q_models q) m of
       None \<Rightarrow> (q, n)
     | Some mq \<Rightarrow> (foldl flush_one q (mq_waiters mq), n + length (mq_waiters mq)))"

definition Flush :: "string \<Rightarrow> 'v wait_queue \<Rightarrow> 'v wait_queue \<times> nat" where
  "Flush model q = foldl flush_model (q, 0) (filter (\<lambda>m. \<not> (model \<noteq> [] \<and> m \<noteq> model)) (map fst (q_models q)))"

definition queue_Close :: "'v wait_queue \<Rightarrow> 'v wait_queue" where
  "queue_Close q = q\<lparr>q_closed := True\<rparr>"

section \<open>Retry-After\<close>

definition ObserveWait :: "duration \<Rightarrow> 'v wait_queue \<Rightarrow> 'v wait_queue" where
  "ObserveWait d q =
     (let s = duration_seconds d in
      if \<not> q_ewmaSet q then q\<lparr>q_ewma := s, q_ewmaSet := True\<rparr>
      else q\<lparr>q_ewma := fadd (fmul (flit (2 / 10)) s) (fmul (flit (8 / 10)) (q_ewma q))\<rparr>)"

definition queue_RetryAfter :: "'v wait_queue \<Rightarrow> int" where
  "queue_RetryAfter q =
     (if \<not> q_ewmaSet q then 1 else min (max (trunc_of (fceil (fsub (q_ewma q) (flit (1 / 10 ^ 9))))) 1) 10)"

definition RetryAfterSeconds :: "shed_reason \<Rightarrow> 'v wait_queue \<Rightarrow> int" where
  "RetryAfterSeconds reason q = (case reason of ReasonQueueFull \<Rightarrow> queue_RetryAfter q | ReasonQueueTimeout \<Rightarrow> queue_RetryAfter q | _ \<Rightarrow> 1)"

section \<open>The invariant\<close>

text \<open>The queue of a model is determined by the waiters: those of the model that have not left, in order of arrival.\<close>

definition queued :: "string \<Rightarrow> 'v waiter list \<Rightarrow> nat list" where
  "queued m h = filter (\<lambda>i. w_model (h ! i) = m \<and> \<not> w_left (h ! i)) [0..<length h]"

definition tenant_count :: "string \<Rightarrow> nat list \<Rightarrow> 'v waiter list \<Rightarrow> int" where
  "tenant_count t ws h = int (count_if (\<lambda>i. w_tenant (h ! i) = t) ws)"

definition tenants_exact :: "(string, int) gomap \<Rightarrow> nat list \<Rightarrow> 'v waiter list \<Rightarrow> bool" where
  "tenants_exact ts ws h \<longleftrightarrow> (\<forall>t. mget ts t = (if t = [] \<or> tenant_count t ws h = 0 then None else Some (tenant_count t ws h)))"

definition routing_prefix :: "nat list \<Rightarrow> 'v waiter list \<Rightarrow> bool" where
  "routing_prefix ws h \<longleftrightarrow> (\<exists>k > 0. \<forall>j < length ws. w_woken (h ! (ws ! j)) \<longleftrightarrow> j < k)"

definition mq_ok :: "bool \<Rightarrow> queue_params \<Rightarrow> 'v waiter list \<Rightarrow> string \<Rightarrow> model_queue \<Rightarrow> bool" where
  \<comment> \<open>\<open>cr\<close>: the credit is settled\<close>
  "mq_ok cr p h m mq \<longleftrightarrow> mq_waiters mq = queued m h \<and> queued m h \<noteq> [] \<and> tenants_exact (mq_tenants mq) (queued m h) h
     \<and> int (length (queued m h)) \<le> qp_MaxModelDepth p
     \<and> (\<forall>t. t \<noteq> [] \<longrightarrow> tenantCap p > 0 \<longrightarrow> tenant_count t (queued m h) h \<le> tenantCap p)
     \<and> (cr \<longrightarrow> mq_credit mq > 0 \<longrightarrow> routing_prefix (queued m h) h)"

definition waiter_ok :: "'v waiter \<Rightarrow> bool" where
  "waiter_ok w \<longleftrightarrow> w_elem w = (\<not> w_left w) \<and> (w_left w \<longrightarrow> \<not> w_woken w)
     \<and> (\<not> w_left w \<longrightarrow> w_ch w = None \<or> w_ch w = Some Reroute)"

definition model_ok :: "bool \<Rightarrow> queue_params \<Rightarrow> 'v waiter list \<Rightarrow> string \<Rightarrow> model_queue option \<Rightarrow> bool" where
  "model_ok cr p h m mo = (case mo of None \<Rightarrow> queued m h = [] | Some mq \<Rightarrow> mq_ok cr p h m mq)"

definition wq_but :: "string set \<Rightarrow> 'v wait_queue \<Rightarrow> bool" where
  \<comment> \<open>the invariant, but with the credit of the models in \<open>X\<close> still to be settled\<close>
  "wq_but X q \<longleftrightarrow> mok (q_models q) \<and> (\<forall>w \<in> set (q_heap q). waiter_ok w)
     \<and> (qp_MaxModels (q_p q) > 0 \<longrightarrow> int (length (q_models q)) \<le> qp_MaxModels (q_p q))
     \<and> (\<forall>m. model_ok (m \<notin> X) (q_p q) (q_heap q) m (mget (q_models q) m))"

abbreviation wq_inv :: "'v wait_queue \<Rightarrow> bool" where
  "wq_inv \<equiv> wq_but {}"

lemma NewQueue_inv: "wq_inv (NewQueue p)"
  by (simp add: wq_but_def NewQueue_def queued_def model_ok_def)

lemma wq_butD:
  assumes "wq_but X q"
  shows "mok (q_models q)" "mget (q_models q) m = None \<Longrightarrow> queued m (q_heap q) = []"
    "mget (q_models q) m = Some mq \<Longrightarrow> mq_ok (m \<notin> X) (q_p q) (q_heap q) m mq"
    "i < length (q_heap q) \<Longrightarrow> waiter_ok (q_heap q ! i)" "model_ok (m \<notin> X) (q_p q) (q_heap q) m (mget (q_models q) m)"
    "qp_MaxModels (q_p q) > 0 \<Longrightarrow> int (length (q_models q)) \<le> qp_MaxModels (q_p q)"
proof -
  have m: "model_ok (m \<notin> X) (q_p q) (q_heap q) m (mget (q_models q) m)" and w: "\<forall>w \<in> set (q_heap q). waiter_ok w"
    using assms by (simp_all add: wq_but_def)
  show "mok (q_models q)" "qp_MaxModels (q_p q) > 0 \<Longrightarrow> int (length (q_models q)) \<le> qp_MaxModels (q_p q)"
    using assms by (simp_all add: wq_but_def)
  show "mget (q_models q) m = None \<Longrightarrow> queued m (q_heap q) = []" "mget (q_models q) m = Some mq \<Longrightarrow> mq_ok (m \<notin> X) (q_p q) (q_heap q) m mq"
    using m by (simp_all add: model_ok_def)
  show "i < length (q_heap q) \<Longrightarrow> waiter_ok (q_heap q ! i)" "model_ok (m \<notin> X) (q_p q) (q_heap q) m (mget (q_models q) m)"
    using m w by simp_all
qed

lemma wq_butI:
  assumes "mok ms" "\<And>i. i < length h \<Longrightarrow> waiter_ok (h ! i)" "qp_MaxModels (q_p q) > 0 \<Longrightarrow> int (length ms) \<le> qp_MaxModels (q_p q)"
    "\<And>m. model_ok (m \<notin> X) (q_p q) h m (mget ms m)"
  shows "wq_but X (q\<lparr>q_models := ms, q_heap := h\<rparr>)"
  using assms by (auto simp: wq_but_def in_set_conv_nth)

lemma mq_ok_weaken: "mq_ok cr p h m mq \<Longrightarrow> (cr' \<Longrightarrow> cr) \<Longrightarrow> mq_ok cr' p h m mq"
  by (auto simp: mq_ok_def)

lemma model_ok_weaken: "model_ok cr p h m mo \<Longrightarrow> (cr' \<Longrightarrow> cr) \<Longrightarrow> model_ok cr' p h m mo"
  by (auto simp: model_ok_def split: option.splits intro: mq_ok_weaken)

lemma length_upd_w [simp]: "length (upd_w i f h) = length h"
  by (simp add: upd_w_def)

lemma nth_upd_w: "i < length h \<Longrightarrow> upd_w i f h ! j = (if j = i then f (h ! i) else h ! j)"
  by (simp add: upd_w_def)

lemma queued_props: "distinct (queued m h)" "sorted_wrt (<) (queued m h)" "i \<in> set (queued m h) \<longleftrightarrow> i < length h \<and> w_model (h ! i) = m \<and> \<not> w_left (h ! i)"
  by (auto simp: queued_def sorted_wrt_filter)

subsection \<open>Changes that keep the queues\<close>

definition same_queues :: "'v waiter list \<Rightarrow> 'v waiter list \<Rightarrow> bool" where
  \<comment> \<open>only channels and routing flags differ\<close>
  "same_queues h h' \<longleftrightarrow> length h' = length h \<and> (\<forall>i < length h. w_model (h' ! i) = w_model (h ! i)
     \<and> w_tenant (h' ! i) = w_tenant (h ! i) \<and> w_left (h' ! i) = w_left (h ! i))"

lemma same_queues_refl [simp]: "same_queues h h"
  by (simp add: same_queues_def)

lemma same_queues_trans: "same_queues h h1 \<Longrightarrow> same_queues h1 h2 \<Longrightarrow> same_queues h h2"
  by (simp add: same_queues_def)

lemma same_queued: "same_queues h h' \<Longrightarrow> queued m h' = queued m h"
  by (auto simp: same_queues_def queued_def intro!: filter_cong)

lemma same_tenant_count: "same_queues h h' \<Longrightarrow> tenant_count t (queued m h) h' = tenant_count t (queued m h) h"
  unfolding tenant_count_def by (auto simp: same_queues_def queued_props intro!: count_if_cong arg_cong[where f = int])

lemma same_mq_ok:
  assumes "same_queues h h'" "\<forall>i \<in> set (queued m h). w_woken (h' ! i) = w_woken (h ! i)"
  shows "mq_ok cr p h' m mq = mq_ok cr p h m mq"
proof -
  have "routing_prefix (queued m h) h' = routing_prefix (queued m h) h"
    using assms(2) by (simp add: routing_prefix_def)
  then show ?thesis
    by (simp add: mq_ok_def same_queued[OF assms(1)] tenants_exact_def same_tenant_count[OF assms(1)])
qed

lemma same_model_ok:
  assumes "same_queues h h'" "\<forall>i \<in> set (queued m h). w_woken (h' ! i) = w_woken (h ! i)"
  shows "model_ok cr p h' m mo = model_ok cr p h m mo"
  using same_mq_ok[OF assms] same_queued[OF assms(1)] by (simp add: model_ok_def split: option.split)

lemma replace_mq_inv:
  \<comment> \<open>the operations that change the routing flags of one model and settle its credit\<close>
  assumes inv: "wq_but (insert m X) q" and mq: "mget (q_models q) m = Some mq" and same: "same_queues (q_heap q) h'"
    and frame: "\<And>i. i < length h' \<Longrightarrow> i \<notin> set (queued m (q_heap q)) \<Longrightarrow> w_woken (h' ! i) = w_woken (q_heap q ! i)"
    and ok: "\<And>i. i < length h' \<Longrightarrow> waiter_ok (h' ! i)"
    and mq': "mq_waiters mq' = mq_waiters mq" "mq_tenants mq' = mq_tenants mq" "mq_credit mq' > 0 \<Longrightarrow> routing_prefix (mq_waiters mq) h'"
  shows "wq_but X (q\<lparr>q_models := mput m mq' (q_models q), q_heap := h'\<rparr>)"
proof (rule wq_butI)
  have old: "mq_ok False (q_p q) (q_heap q) m mq" using wq_butD(3)[OF inv mq] by simp
  have new: "mq_ok True (q_p q) h' m mq'"
    using old mq' by (simp add: mq_ok_def same_queued[OF same] tenants_exact_def same_tenant_count[OF same])
  fix m'
  show "model_ok (m' \<notin> X) (q_p q) h' m' (mget (mput m mq' (q_models q)) m')"
  proof (cases "m' = m")
    case True
    then show ?thesis using mq_ok_weaken[OF new] by (simp add: mget_mput model_ok_def)
  next
    case False
    have "w_woken (h' ! i) = w_woken (q_heap q ! i)" if "i \<in> set (queued m' (q_heap q))" for i
      by (rule frame) (use that False same in \<open>auto simp: queued_props same_queues_def\<close>)
    then show ?thesis using wq_butD(5)[OF inv, of m'] False by (simp add: mget_mput same_model_ok[OF same])
  qed
qed (use wq_butD[OF inv] ok mq in auto)

subsection \<open>Spending credit\<close>

lemma settle_loop_spec:
  assumes "settle_loop c ws self h sr = (c', h', sr')" "\<forall>i \<in> set ws. i < length h \<and> \<not> w_left (h ! i)" "\<forall>i < length h. waiter_ok (h ! i)"
  shows "same_queues h h' \<and> (\<forall>i < length h. i \<notin> set ws \<or> w_woken (h ! i) \<longrightarrow> h' ! i = h ! i)
    \<and> (\<forall>i < length h. waiter_ok (h' ! i)) \<and> c' \<le> c \<and> (c' = 0 \<or> (\<forall>i \<in> set ws. w_woken (h' ! i)))"
  using assms
proof (induction c ws self h sr arbitrary: c' h' sr' rule: settle_loop.induct)
  case (2 credit ws self h selfRoutes)
  show ?case
  proof (cases "find (\<lambda>i. \<not> w_woken (h ! i)) ws")
    case None
    then have "c' = Suc credit" "h' = h" using "2.prems"(1) by simp_all
    moreover have "\<forall>i \<in> set ws. w_woken (h ! i)" using None by (auto simp: find_None_iff)
    ultimately show ?thesis using "2.prems"(2,3) by simp
  next
    case (Some n)
    then have n: "n \<in> set ws" "\<not> w_woken (h ! n)" by (auto simp: find_Some_iff)
    then have nl: "n < length h" "\<not> w_left (h ! n)" "waiter_ok (h ! n)" using "2.prems"(2,3) by auto
    define h1 where "h1 = (if self = Some n then upd_w n (\<lambda>w. w\<lparr>w_woken := True\<rparr>) h
                           else upd_w n (send Reroute) (upd_w n (\<lambda>w. w\<lparr>w_woken := True\<rparr>) h))"
    obtain sr1 where rec: "settle_loop credit ws self h1 sr1 = (c', h', sr')"
      using "2.prems"(1) Some by (auto simp: h1_def Let_def split: if_splits)
    have h1: "length h1 = length h" "w_woken (h1 ! n)" "waiter_ok (h1 ! n)" "same_queues h h1" "\<And>i. i \<noteq> n \<Longrightarrow> h1 ! i = h ! i"
      using nl by (auto simp: h1_def nth_upd_w waiter_ok_def send_def same_queues_def)
    have ok1: "\<forall>i \<in> set ws. i < length h1 \<and> \<not> w_left (h1 ! i)" "\<forall>i < length h1. waiter_ok (h1 ! i)"
      using "2.prems"(2,3) h1 by (auto simp: same_queues_def) metis
    have "same_queues h1 h' \<and> (\<forall>i < length h1. i \<notin> set ws \<or> w_woken (h1 ! i) \<longrightarrow> h' ! i = h1 ! i)
      \<and> (\<forall>i < length h1. waiter_ok (h' ! i)) \<and> c' \<le> credit \<and> (c' = 0 \<or> (\<forall>i \<in> set ws. w_woken (h' ! i)))"
    proof (cases "self = Some n")
      case True
      show ?thesis using "2.IH"(1)[OF Some refl True] rec ok1 True "2.prems"(1) Some by (simp add: h1_def Let_def)
    next
      case False
      show ?thesis using "2.IH"(2)[OF Some refl False] rec ok1 False "2.prems"(1) Some by (simp add: h1_def Let_def)
    qed
    note IH = this
    have "h' ! i = h ! i" if "i < length h" "i \<notin> set ws \<or> w_woken (h ! i)" for i
    proof -
      have "i \<noteq> n" using that n by auto
      then show ?thesis using IH that h1(1) h1(5)[of i] by auto
    qed
    then show ?thesis using IH h1(1) same_queues_trans[OF h1(4)] by auto
  qed
qed auto

fun handoff_of :: "'v waiter \<Rightarrow> 'v option" where
  \<comment> \<open>the slot in the waiter's channel, if there is one\<close>
  "handoff_of w = (case w_ch w of Some (Handoff v) \<Rightarrow> Some v | _ \<Rightarrow> None)"

declare handoff_of.simps [simp del]

lemma handoff_of_queued: "waiter_ok w \<Longrightarrow> \<not> w_left w \<Longrightarrow> handoff_of w = None"
  by (auto simp: waiter_ok_def handoff_of.simps)

lemma settle_inv:
  assumes inv: "wq_but (insert m X) q" and mq: "mget (q_models q) m = Some mq"
    and h1: "same_queues (q_heap q) h1" "\<And>i. i < length h1 \<Longrightarrow> i \<notin> set (queued m (q_heap q)) \<Longrightarrow> w_woken (h1 ! i) = w_woken (q_heap q ! i)"
      "\<And>i. i < length h1 \<Longrightarrow> waiter_ok (h1 ! i)"
    and s: "settle mq1 self h1 = (mq', h', sr)" "mq_waiters mq1 = mq_waiters mq" "mq_tenants mq1 = mq_tenants mq"
  shows "wq_but X (q\<lparr>q_models := mput m mq' (q_models q), q_heap := h'\<rparr>)" "same_queues h1 h'"
    "mq_credit mq' = 0 \<or> (\<forall>i \<in> set (queued m h'). w_woken (h' ! i))"
    "i \<notin> set (queued m (q_heap q)) \<Longrightarrow> i < length h1 \<Longrightarrow> h' ! i = h1 ! i"
    "i < length h1 \<Longrightarrow> handoff_of (h' ! i) = handoff_of (h1 ! i)"
proof -
  have ws: "mq_waiters mq = queued m (q_heap q)" "queued m (q_heap q) \<noteq> []" using wq_butD(3)[OF inv mq] by (simp_all add: mq_ok_def)
  obtain c' where l: "settle_loop (mq_credit mq1) (mq_waiters mq) self h1 False = (c', h', sr)" and mq': "mq' = mq1\<lparr>mq_credit := c'\<rparr>"
    using s(1,2) by (auto simp: settle_def split: prod.splits)
  have pre: "\<forall>i \<in> set (mq_waiters mq). i < length h1 \<and> \<not> w_left (h1 ! i)" "\<forall>i < length h1. waiter_ok (h1 ! i)"
    using h1 by (auto simp: ws queued_props same_queues_def)
  note sp = settle_loop_spec[OF l pre]
  have len: "length h' = length h1" "length h1 = length (q_heap q)" using sp h1(1) by (simp_all add: same_queues_def)
  have "routing_prefix (mq_waiters mq) h'" if "c' > 0"
    using sp that unfolding routing_prefix_def by (intro exI[of _ "length (mq_waiters mq)"]) (auto simp: ws)
  moreover have "w_woken (h' ! i) = w_woken (q_heap q ! i)" if "i < length h'" "i \<notin> set (queued m (q_heap q))" for i
    using sp h1(2)[of i] that ws len by auto
  ultimately show "wq_but X (q\<lparr>q_models := mput m mq' (q_models q), q_heap := h'\<rparr>)"
    using sp same_queues_trans[OF h1(1)] len s(2,3) by (intro replace_mq_inv[OF inv mq]) (auto simp: mq')
  show "same_queues h1 h'" using sp by blast
  show "mq_credit mq' = 0 \<or> (\<forall>i \<in> set (queued m h'). w_woken (h' ! i))"
    using sp same_queued[OF same_queues_trans[OF h1(1)], of h' m] by (auto simp: mq' ws)
  show un: "i \<notin> set (queued m (q_heap q)) \<Longrightarrow> i < length h1 \<Longrightarrow> h' ! i = h1 ! i" using sp by (simp add: ws)
  show "handoff_of (h' ! i) = handoff_of (h1 ! i)" if "i < length h1"
  proof (cases "i \<in> set (queued m (q_heap q))")
    case True
    then have "\<not> w_left (h1 ! i)" "\<not> w_left (h' ! i)" "waiter_ok (h1 ! i)" "waiter_ok (h' ! i)"
      using pre sp that by (auto simp: ws same_queues_def)
    then show ?thesis by (simp add: handoff_of_queued)
  qed (use un that in simp)
qed

subsection \<open>Leaving\<close>

definition gone :: "nat \<Rightarrow> 'v waiter list \<Rightarrow> 'v waiter list" where
  "gone i h = upd_w i (\<lambda>w. w\<lparr>w_elem := False\<rparr>) (upd_w i (\<lambda>w. w\<lparr>w_left := True, w_woken := False\<rparr>) h)"

lemma nth_gone: "i < length h \<Longrightarrow> gone i h ! j = (if j = i then (h ! i)\<lparr>w_left := True, w_woken := False, w_elem := False\<rparr> else h ! j)"
  by (simp add: gone_def nth_upd_w)

lemma length_gone [simp]: "length (gone i h) = length h"
  by (simp add: gone_def)

lemma queued_gone: "i < length h \<Longrightarrow> queued m (gone i h) = remove1 i (queued m h)"
  by (simp add: queued_def distinct_remove1_removeAll removeAll_filter_not_eq nth_gone conj_commute del: filter_filter)
     (auto simp: nth_gone intro!: filter_cong)

lemma tenant_count_gone:
  assumes "i < length h" "i \<in> set ws" "distinct ws"
  shows "tenant_count t (remove1 i ws) (gone i h) = tenant_count t ws h - (if w_tenant (h ! i) = t then 1 else 0)"
proof -
  have "count_if (\<lambda>j. w_tenant (gone i h ! j) = t) (remove1 i ws) = count_if (\<lambda>j. w_tenant (h ! j) = t) (remove1 i ws)"
    by (rule count_if_cong) (use assms in \<open>auto simp: nth_gone\<close>)
  moreover have "int (count_if P (remove1 i ws)) = int (count_if P ws) - (if P i then 1 else 0)" for P
    using assms(2) by (induction ws) auto
  ultimately show ?thesis by (simp add: tenant_count_def)
qed

lemma tenant_count_nonneg [simp]: "0 \<le> tenant_count t ws h"
  by (simp add: tenant_count_def)

lemma tenants_exact_drop:
  assumes "tenants_exact ts ws h" "i < length h" "i \<in> set ws" "distinct ws"
  shows "tenants_exact (drop_tenant (w_tenant (h ! i)) ts) (remove1 i ws) (gone i h)"
proof -
  let ?t = "w_tenant (h ! i)"
  have pos: "0 < tenant_count ?t ws h" using assms(3) by (auto simp: tenant_count_def count_if_pos)
  have get: "mget ts t = (if t = [] \<or> tenant_count t ws h = 0 then None else Some (tenant_count t ws h))" for t
    using assms(1) by (simp add: tenants_exact_def)
  show ?thesis
    unfolding tenants_exact_def
  proof
    fix t
    show "mget (drop_tenant ?t ts) t = (if t = [] \<or> tenant_count t (remove1 i ws) (gone i h) = 0 then None
        else Some (tenant_count t (remove1 i ws) (gone i h)))"
      using get[of t] get[of ?t] pos tenant_count_gone[OF assms(2,3,4), of t] by (auto simp: drop_tenant_def mget_or_def Let_def mget_mput mget_mdel)
  qed
qed

lemma queued_gone_other: "i < length h \<Longrightarrow> m \<noteq> w_model (h ! i) \<Longrightarrow> queued m (gone i h) = queued m h"
  by (simp add: queued_gone remove1_idem queued_props)

lemma remove_but:
  assumes inv: "wq_but X q" and i: "i < length (q_heap q)" "\<not> w_left (q_heap q ! i)" and m: "m = w_model (q_heap q ! i)"
    and mq: "mget (q_models q) m = Some mq" and ok: "waiter_ok (f (gone i (q_heap q) ! i))"
    and f: "\<And>w. w_model (f w) = w_model w \<and> w_tenant (f w) = w_tenant w \<and> w_left (f w) = w_left w \<and> w_woken (f w) = w_woken w"
    and mq1: "mq1 = mq\<lparr>mq_waiters := remove1 i (mq_waiters mq), mq_tenants := drop_tenant (w_tenant (q_heap q ! i)) (mq_tenants mq)\<rparr>"
  shows "mq_waiters mq1 = [] \<Longrightarrow> wq_but X (q\<lparr>q_models := mdel m (q_models q), q_heap := upd_w i f (gone i (q_heap q))\<rparr>)"
    "mq_waiters mq1 \<noteq> [] \<Longrightarrow> wq_but (insert m X) (q\<lparr>q_models := mput m mq1 (q_models q), q_heap := upd_w i f (gone i (q_heap q))\<rparr>)"
    "mq_waiters mq1 \<noteq> [] \<Longrightarrow> m \<in> X \<or> mq_credit mq = 0 \<Longrightarrow> wq_but X (q\<lparr>q_models := mput m mq1 (q_models q), q_heap := upd_w i f (gone i (q_heap q))\<rparr>)"
proof -
  let ?h = "q_heap q" and ?h' = "upd_w i f (gone i (q_heap q))"
  have old: "mq_ok (m \<notin> X) (q_p q) ?h m mq" using wq_butD(3)[OF inv mq] .
  then have ws: "mq_waiters mq = queued m ?h" by (simp add: mq_ok_def)
  have iw: "i \<in> set (queued m ?h)" using i m by (simp add: queued_props)
  have sq: "same_queues (gone i ?h) ?h'" "\<And>j. w_woken (?h' ! j) = w_woken (gone i ?h ! j)"
    using f i by (auto simp: same_queues_def nth_upd_w)
  have new: "mq_ok cr (q_p q) ?h' m mq1" if "mq_waiters mq1 \<noteq> []" "cr \<longrightarrow> mq_credit mq = 0" for cr
  proof -
    have q': "queued m (gone i ?h) = mq_waiters mq1" using i by (simp add: mq1 ws queued_gone)
    have "tenants_exact (mq_tenants mq1) (mq_waiters mq1) (gone i ?h)"
      using tenants_exact_drop[OF _ i(1) iw queued_props(1)] old by (simp add: mq1 ws mq_ok_def)
    moreover have "tenant_count t (mq_waiters mq1) (gone i ?h) \<le> tenantCap (q_p q)" if "t \<noteq> []" "tenantCap (q_p q) > 0" for t
    proof -
      have "tenant_count t (queued m ?h) ?h \<le> tenantCap (q_p q)" using old that by (simp add: mq_ok_def)
      then show ?thesis using tenant_count_gone[OF i(1) iw queued_props(1), of t] by (simp add: mq1 ws split: if_splits)
    qed
    moreover have "int (length (mq_waiters mq1)) \<le> qp_MaxModelDepth (q_p q)"
      using old by (auto simp: mq1 ws mq_ok_def length_remove1)
    ultimately have "mq_ok cr (q_p q) (gone i ?h) m mq1"
      using that unfolding mq_ok_def q' by (simp add: mq1)
    then show ?thesis using same_mq_ok[OF sq(1)] sq(2) by blast
  qed
  have rest: "model_ok cr (q_p q) ?h' m' mo = model_ok cr (q_p q) ?h m' mo" if "m' \<noteq> m" for m' cr mo
  proof -
    have "queued m' (gone i ?h) = queued m' ?h" using that i m by (simp add: queued_gone_other)
    moreover have "j \<noteq> i" if "j \<in> set (queued m' ?h)" for j using that \<open>m' \<noteq> m\<close> m by (auto simp: queued_props)
    then have "model_ok cr (q_p q) (gone i ?h) m' mo = model_ok cr (q_p q) ?h m' mo"
      using calculation i by (auto simp: model_ok_def mq_ok_def tenants_exact_def tenant_count_def routing_prefix_def nth_gone
        cong: count_if_cong split: option.splits)
    ultimately show ?thesis using same_model_ok[OF sq(1)] sq(2) by blast
  qed
  have w: "waiter_ok (?h' ! j)" if "j < length ?h'" for j
    using that ok i wq_butD(4)[OF inv, of j] by (auto simp: nth_upd_w nth_gone)
  have len: "length (mdel m (q_models q)) \<le> length (q_models q)" by (rule length_mdel_le)
  show "wq_but X (q\<lparr>q_models := mdel m (q_models q), q_heap := ?h'\<rparr>)" if "mq_waiters mq1 = []"
  proof (rule wq_butI)
    fix m'
    have "queued m ?h' = []" using that i by (simp add: same_queued[OF sq(1)] queued_gone mq1 ws)
    then show "model_ok (m' \<notin> X) (q_p q) ?h' m' (mget (mdel m (q_models q)) m')"
      using rest[of m'] wq_butD(5)[OF inv, of m'] by (cases "m' = m") (simp_all add: mget_mdel model_ok_def)
  qed (use wq_butD[OF inv] w len in auto)
  show "wq_but (insert m X) (q\<lparr>q_models := mput m mq1 (q_models q), q_heap := ?h'\<rparr>)" if "mq_waiters mq1 \<noteq> []"
  proof (rule wq_butI)
    fix m'
    show "model_ok (m' \<notin> insert m X) (q_p q) ?h' m' (mget (mput m mq1 (q_models q)) m')"
      using rest[of m'] wq_butD(5)[OF inv, of m'] new[OF that, of False] by (cases "m' = m") (simp_all add: mget_mput model_ok_def)
  qed (use wq_butD[OF inv] w mq in auto)
  show "wq_but X (q\<lparr>q_models := mput m mq1 (q_models q), q_heap := ?h'\<rparr>)" if "mq_waiters mq1 \<noteq> []" "m \<in> X \<or> mq_credit mq = 0"
  proof (rule wq_butI)
    fix m'
    show "model_ok (m' \<notin> X) (q_p q) ?h' m' (mget (mput m mq1 (q_models q)) m')"
      using rest[of m'] wq_butD(5)[OF inv, of m'] new[OF that(1), of "m \<notin> X"] that(2) by (cases "m' = m") (auto simp: mget_mput model_ok_def)
  qed (use wq_butD[OF inv] w mq in auto)
qed

lemma upd_w_id [simp]: "upd_w i (\<lambda>w. w) h = h"
  by (simp add: upd_w_def)

lemma leaveLocked_but:
  assumes inv: "wq_but X q" and i: "i < length (q_heap q)" "\<not> w_left (q_heap q ! i)"
    and sa: "sa \<or> w_model (q_heap q ! i) \<in> X \<or> (\<forall>mq. mget (q_models q) (w_model (q_heap q ! i)) = Some mq \<longrightarrow> mq_credit mq = 0)"
  shows "wq_but X (leaveLocked i sa gb q) \<and> same_queues (gone i (q_heap q)) (q_heap (leaveLocked i sa gb q))
    \<and> q_heap (leaveLocked i sa gb q) ! i = gone i (q_heap q) ! i
    \<and> (\<forall>j < length (q_heap q). handoff_of (q_heap (leaveLocked i sa gb q) ! j) = handoff_of (q_heap q ! j))
    \<and> q_p (leaveLocked i sa gb q) = q_p q"
proof -
  let ?m = "w_model (q_heap q ! i)"
  have ok: "waiter_ok (q_heap q ! i)" using wq_butD(4)[OF inv i(1)] .
  obtain mq where mq: "mget (q_models q) ?m = Some mq"
    using wq_butD(2)[OF inv, of ?m] i queued_props(3)[of i ?m "q_heap q"] by fastforce
  define mq1 where "mq1 = mq\<lparr>mq_waiters := remove1 i (mq_waiters mq), mq_tenants := drop_tenant (w_tenant (q_heap q ! i)) (mq_tenants mq)\<rparr>"
  have el: "w_elem (q_heap q ! i)" using ok i by (simp add: waiter_ok_def)
  have ok': "waiter_ok (gone i (q_heap q) ! i)" using i ok by (auto simp: nth_gone waiter_ok_def)
  note rm = remove_but[where f = "\<lambda>w. w", OF inv i refl mq ok' _ mq1_def, simplified]
  have g: "handoff_of (gone i (q_heap q) ! j) = handoff_of (q_heap q ! j)" for j
    using i by (auto simp: nth_gone handoff_of.simps)
  show ?thesis
  proof (cases "mq_waiters mq1 = []")
    case True
    then have "leaveLocked i sa gb q = q\<lparr>q_models := mdel ?m (q_models q), q_heap := gone i (q_heap q)\<rparr>"
      using el mq by (simp add: leaveLocked_def mq1_def gone_def Let_def)
    then show ?thesis using rm(1)[OF True] g by simp
  next
    case ne: False
    show ?thesis
    proof (cases sa)
      case False
      then have "leaveLocked i sa gb q = q\<lparr>q_models := mput ?m mq1 (q_models q), q_heap := gone i (q_heap q)\<rparr>"
        using el mq ne by (simp add: leaveLocked_def mq1_def gone_def Let_def)
      then show ?thesis using rm(3)[OF ne] sa False mq g by auto
    next
      case True
      define mq2 where "mq2 = (if gb \<and> w_woken (q_heap q ! i) then mq1\<lparr>mq_credit := mq_credit mq1 + 1\<rparr> else mq1)"
      define q2 where "q2 = q\<lparr>q_models := mput ?m mq1 (q_models q), q_heap := gone i (q_heap q)\<rparr>"
      obtain mq3 h3 sr where s: "settle mq2 None (gone i (q_heap q)) = (mq3, h3, sr)" by (metis prod_cases3)
      have L: "leaveLocked i sa gb q = q\<lparr>q_models := mput ?m mq3 (q_models q), q_heap := h3\<rparr>"
        by (simp only: leaveLocked_def Let_def mq option.case el not_True_eq_False if_False gone_def[symmetric]
          mq1_def[symmetric] ne True if_True mq2_def[symmetric] s prod.case)
      have q2: "wq_but (insert ?m X) q2" "mget (q_models q2) ?m = Some mq1" "q_heap q2 = gone i (q_heap q)"
        using rm(2)[OF ne] by (simp_all add: q2_def mget_mput)
      have ok2: "\<And>j. j < length (gone i (q_heap q)) \<Longrightarrow> waiter_ok (gone i (q_heap q) ! j)"
        using wq_butD(4)[OF q2(1)] q2(3) by simp
      have m2: "mq_waiters mq2 = mq_waiters mq1" "mq_tenants mq2 = mq_tenants mq1" by (simp_all add: mq2_def)
      note st = settle_inv[OF q2(1,2) _ _ ok2 s m2, unfolded q2(3), simplified]
      have "i \<notin> set (queued ?m (gone i (q_heap q)))" using i by (simp add: queued_props nth_gone)
      then show ?thesis
        unfolding L using st(1) st(2) st(4)[of i] st(5) g i by (simp add: q2_def update_last)
    qed
  qed
qed

subsection \<open>Every operation keeps the invariant\<close>

lemma wq_but_mono: "wq_but X q \<Longrightarrow> X \<subseteq> Y \<Longrightarrow> wq_but Y q"
  unfolding wq_but_def by (auto intro: model_ok_weaken)

lemma set_ch_but:
  assumes inv: "wq_but X q" and i: "i < length (q_heap q)" "w_left (q_heap q ! i) \<or> c = None \<or> c = Some Reroute"
  shows "wq_but X (q\<lparr>q_heap := upd_w i (\<lambda>w. w\<lparr>w_ch := c\<rparr>) (q_heap q)\<rparr>)"
proof -
  let ?h = "upd_w i (\<lambda>w. w\<lparr>w_ch := c\<rparr>) (q_heap q)"
  have "same_queues (q_heap q) ?h" "\<And>j. w_woken (?h ! j) = w_woken (q_heap q ! j)"
    using i by (auto simp: same_queues_def nth_upd_w)
  then have "model_ok (m \<notin> X) (q_p q) ?h m (mget (q_models q) m)" for m
    using wq_butD(5)[OF inv, of m] by (simp add: same_model_ok)
  moreover have "waiter_ok (?h ! j)" if "j < length ?h" for j
    using that i wq_butD(4)[OF inv, of j] by (auto simp: nth_upd_w waiter_ok_def)
  ultimately show ?thesis
    using wq_butI[of "q_models q" ?h q X] wq_butD[OF inv] by simp
qed

lemma queued_snoc: "queued m (h @ [w]) = queued m h @ (if w_model w = m \<and> \<not> w_left w then [length h] else [])"
  by (auto simp: queued_def nth_append intro!: filter_cong)

lemma tenant_count_snoc:
  "tenant_count t (queued m h) (h @ [w]) = tenant_count t (queued m h) h"
  unfolding tenant_count_def by (auto simp: queued_props nth_append intro!: count_if_cong)

lemma routing_prefix_snoc:
  assumes "routing_prefix (queued m h) h" "\<not> w_woken w"
  shows "routing_prefix (queued m h) (h @ [w])" "queued m h \<noteq> [] \<Longrightarrow> routing_prefix (queued m h @ [length h]) (h @ [w])"
proof -
  obtain k where k: "k > 0" "\<forall>j < length (queued m h). w_woken (h ! (queued m h ! j)) \<longleftrightarrow> j < k"
    using assms(1) by (auto simp: routing_prefix_def)
  have in_h: "queued m h ! j < length h" if "j < length (queued m h)" for j
    using nth_mem[OF that] by (simp add: queued_props)
  show "routing_prefix (queued m h) (h @ [w])"
    using k in_h unfolding routing_prefix_def by (intro exI[of _ k]) (auto simp: nth_append)
  show "routing_prefix (queued m h @ [length h]) (h @ [w])" if "queued m h \<noteq> []"
    using k in_h assms(2) that unfolding routing_prefix_def
    by (intro exI[of _ "min k (length (queued m h))"]) (auto simp: nth_append less_Suc_eq)
qed

lemma mq_ok_snoc_other:
  assumes "mq_ok cr p h m mq" "w_model w \<noteq> m" "\<not> w_woken w"
  shows "mq_ok cr p (h @ [w]) m mq"
  using assms routing_prefix_snoc(1)[of m h w]
  by (simp add: mq_ok_def queued_snoc tenants_exact_def tenant_count_snoc)

lemma Enqueue_inv:
  assumes inv: "wq_inv q"
  shows "wq_inv (fst (Enqueue now model tenant q))"
proof (cases "refuseLocked model tenant q")
  case None
  define w where "w = \<lparr>w_model = model, w_tenant = tenant, w_enqueued = now, w_ch = (None :: 'a grant option), w_elem = True, w_woken = False, w_left = False\<rparr>"
  define mq where "mq = (case mget (q_models q) model of Some mq \<Rightarrow> mq | None \<Rightarrow> \<lparr>mq_waiters = [], mq_tenants = [], mq_credit = 0\<rparr>)"
  define mq1 where "mq1 = mq\<lparr>mq_waiters := mq_waiters mq @ [length (q_heap q)],
    mq_tenants := (if tenant \<noteq> [] then mput tenant (mget_or 0 (mq_tenants mq) tenant + 1) (mq_tenants mq) else mq_tenants mq)\<rparr>"
  let ?h = "q_heap q" and ?h' = "q_heap q @ [w]"
  have E: "fst (Enqueue now model tenant q) = q\<lparr>q_models := mput model mq1 (q_models q), q_heap := ?h'\<rparr>"
    by (simp add: Enqueue_def None w_def mq1_def mq_def Let_def)
  have depth: "qp_MaxModelDepth (q_p q) > 0" using None by (auto simp: refuseLocked_def split: if_splits)
  have ws: "mq_waiters mq = queued model ?h" "tenants_exact (mq_tenants mq) (queued model ?h) ?h"
    "mq_credit mq > 0 \<longrightarrow> routing_prefix (queued model ?h) ?h \<and> queued model ?h \<noteq> []"
    using wq_butD(2,3)[OF inv, of model] by (auto simp: mq_def mq_ok_def tenants_exact_def tenant_count_def split: option.splits)
  have room: "int (length (queued model ?h)) < qp_MaxModelDepth (q_p q)"
    using None depth ws(1) wq_butD(2)[OF inv, of model]
    by (auto simp: refuseLocked_def mq_def split: if_splits option.splits)
  have tc: "tenant_count t (queued model ?h') ?h' = tenant_count t (queued model ?h) ?h + (if t = tenant then 1 else 0)" for t
    unfolding queued_snoc using tenant_count_snoc[of t model ?h w]
    by (auto simp: tenant_count_def w_def nth_append)
  have share: "tenant_count tenant (queued model ?h) ?h < tenantCap (q_p q)" if "tenant \<noteq> []" "tenantCap (q_p q) > 0"
  proof (cases "mget (q_models q) model")
    case None
    then show ?thesis using wq_butD(2)[OF inv None] that by (simp add: tenant_count_def)
  next
    case (Some mq')
    have "mget_or 0 (mq_tenants mq) tenant = tenant_count tenant (queued model ?h) ?h"
      using ws(2) that by (simp add: tenants_exact_def mget_or_def)
    then show ?thesis using \<open>refuseLocked model tenant q = None\<close> Some that depth
      by (simp add: refuseLocked_def mq_def split: if_splits)
  qed
  have others: "tenant_count t (queued model ?h) ?h \<le> tenantCap (q_p q)" if "t \<noteq> []" "tenantCap (q_p q) > 0" for t
    using wq_butD(2,3)[OF inv, of model] that by (cases "mget (q_models q) model") (auto simp: mq_ok_def tenant_count_def)
  have te: "tenants_exact (mq_tenants mq1) (queued model ?h') ?h'"
    using ws(2) unfolding tenants_exact_def tc by (auto simp: mq1_def mget_mput mget_or_def tenant_count_def)
  have "mq_ok True (q_p q) ?h' model mq1"
    unfolding mq_ok_def
  proof (intro conjI impI allI)
    show "mq_waiters mq1 = queued model ?h'" "queued model ?h' \<noteq> []" by (simp_all add: mq1_def ws queued_snoc w_def)
    show "tenants_exact (mq_tenants mq1) (queued model ?h') ?h'" by (rule te)
    show "int (length (queued model ?h')) \<le> qp_MaxModelDepth (q_p q)" using room by (simp add: queued_snoc)
    show "tenant_count t (queued model ?h') ?h' \<le> tenantCap (q_p q)" if "t \<noteq> []" "tenantCap (q_p q) > 0" for t
      using share others[of t] that by (auto simp: tc)
    show "routing_prefix (queued model ?h') ?h'" if "mq_credit mq1 > 0"
      using routing_prefix_snoc(2)[of model ?h w] ws(3) that by (simp add: queued_snoc mq1_def w_def)
  qed
  then have new: "model_ok True (q_p q) ?h' m (mget (mput model mq1 (q_models q)) m)" for m
  proof (cases "m = model")
    case False
    then show ?thesis using wq_butD(5)[OF inv, of m] mq_ok_snoc_other[of True "q_p q" ?h m _ w]
      by (auto simp: mget_mput model_ok_def queued_snoc w_def split: option.splits)
  qed (simp add: mget_mput model_ok_def)
  have "int (length (mput model mq1 (q_models q))) \<le> qp_MaxModels (q_p q)" if "qp_MaxModels (q_p q) > 0"
    using None depth that wq_butD(6)[OF inv that]
    by (cases "mget (q_models q) model") (auto simp: refuseLocked_def split: if_splits)
  then show ?thesis
    unfolding E using new wq_butD(1,4)[OF inv] by (intro wq_butI) (auto simp: nth_append waiter_ok_def w_def)
qed (use inv in \<open>simp add: Enqueue_def\<close>)

lemma head_idle_no_credit:
  assumes "wq_inv q" "mget (q_models q) m = Some mq" "mq_waiters mq = i # ws" "\<not> w_woken (q_heap q ! i)"
  shows "mq_credit mq = 0"
proof (rule ccontr)
  assume "mq_credit mq \<noteq> 0"
  then have "routing_prefix (i # ws) (q_heap q)" using wq_butD(3)[OF assms(1,2)] assms(3) by (simp add: mq_ok_def)
  then show False using assms(4) by (auto simp: routing_prefix_def)
qed

lemma head_props:
  assumes "wq_but X q" "mget (q_models q) m = Some mq" "i \<in> set (mq_waiters mq)"
  shows "i < length (q_heap q)" "\<not> w_left (q_heap q ! i)" "w_model (q_heap q ! i) = m"
  using wq_butD(3)[OF assms(1,2)] assms(3) by (simp_all add: mq_ok_def queued_props)

lemma send_ch: "send g = (\<lambda>w. w\<lparr>w_ch := Some g\<rparr>)"
  by (rule ext) (simp add: send_def)

lemma Handoff_inv:
  assumes inv: "wq_inv q"
  shows "wq_inv (fst (queue_Handoff model v q))"
proof (cases "mget (q_models q) model")
  case (Some mq)
  show ?thesis
  proof (cases "mq_waiters mq")
    case (Cons i ws)
    note i = head_props[OF inv Some, of i, unfolded Cons, simplified]
    show ?thesis
    proof (cases "w_woken (q_heap q ! i)")
      case True
      obtain mq' h' sr where s: "settle (mq\<lparr>mq_credit := mq_credit mq + 1\<rparr>) None (q_heap q) = (mq', h', sr)" by (metis prod_cases3)
      have "wq_but {} (q\<lparr>q_models := mput model mq' (q_models q), q_heap := h'\<rparr>)"
        by (rule settle_inv(1)[OF wq_but_mono[OF inv] Some _ _ _ s]) (use wq_butD(4)[OF inv] in auto)
      then show ?thesis using Some Cons True s by (simp add: queue_Handoff_def)
    next
      case False
      let ?q1 = "leaveLocked i False False q"
      have c: "\<forall>mq. mget (q_models q) (w_model (q_heap q ! i)) = Some mq \<longrightarrow> mq_credit mq = 0"
        using head_idle_no_credit[OF inv Some Cons False] Some i(3) by simp
      have L: "wq_inv ?q1" "length (q_heap ?q1) = length (q_heap q)" "q_heap ?q1 ! i = gone i (q_heap q) ! i"
        using leaveLocked_but[OF inv i(1,2), of False False] c by (auto simp: same_queues_def)
      then show ?thesis using set_ch_but[OF L(1), of i "Some (Handoff v)"] Some Cons False i(1)
        by (simp add: queue_Handoff_def nth_gone send_ch Let_def)
    qed
  qed (use inv Some in \<open>simp add: queue_Handoff_def\<close>)
qed (use inv in \<open>simp add: queue_Handoff_def\<close>)

lemma wake_loop_spec:
  assumes "wake_loop ws n h w = (h', w')" "\<forall>i \<in> set ws. i < length h \<and> \<not> w_left (h ! i)" "\<forall>i < length h. waiter_ok (h ! i)" "distinct ws"
  shows "same_queues h h' \<and> (\<forall>i. i \<notin> set ws \<longrightarrow> h' ! i = h ! i) \<and> (\<forall>i < length h. waiter_ok (h' ! i))
    \<and> (\<exists>k. \<forall>j < length ws. w_woken (h' ! (ws ! j)) \<longleftrightarrow> w_woken (h ! (ws ! j)) \<or> j < k)"
  using assms
proof (induction ws n h w arbitrary: h' w' rule: wake_loop.induct)
  case (2 i ws n h woken)
  consider "\<not> int woken < n" | "int woken < n" "w_woken (h ! i)" | "int woken < n" "\<not> w_woken (h ! i)" by blast
  then show ?case
  proof cases
    case 1
    then show ?thesis using "2.prems" by (auto intro: exI[of _ 0])
  next
    case b: 2
    have r: "wake_loop ws n h woken = (h', w')" using "2.prems"(1) b by simp
    have IH: "same_queues h h'" "\<forall>j. j \<notin> set ws \<longrightarrow> h' ! j = h ! j" "\<forall>j < length h. waiter_ok (h' ! j)"
      "\<exists>k. \<forall>j < length ws. w_woken (h' ! (ws ! j)) \<longleftrightarrow> w_woken (h ! (ws ! j)) \<or> j < k"
      using "2.IH"(1)[OF _ b(2) r] b(1) "2.prems"(2,3,4) by auto
    obtain k where k: "\<forall>j < length ws. w_woken (h' ! (ws ! j)) \<longleftrightarrow> w_woken (h ! (ws ! j)) \<or> j < k" using IH(4) by blast
    have "\<forall>j < length (i # ws). w_woken (h' ! ((i # ws) ! j)) \<longleftrightarrow> w_woken (h ! ((i # ws) ! j)) \<or> j < Suc k"
      using k IH(2) b(2) "2.prems"(4) by (auto simp: nth_Cons split: nat.splits)
    then show ?thesis using IH by auto
  next
    case c: 3
    define h1 where "h1 = upd_w i (send Reroute) (upd_w i (\<lambda>w. w\<lparr>w_woken := True\<rparr>) h)"
    have i: "i < length h" "\<not> w_left (h ! i)" "waiter_ok (h ! i)" "i \<notin> set ws" using "2.prems"(2,3,4) by auto
    have h1: "length h1 = length h" "w_woken (h1 ! i)" "waiter_ok (h1 ! i)" "same_queues h h1" "\<And>j. j \<noteq> i \<Longrightarrow> h1 ! j = h ! j"
      using i by (auto simp: h1_def nth_upd_w waiter_ok_def send_def same_queues_def)
    have r: "wake_loop ws n h1 (woken + 1) = (h', w')" using "2.prems"(1) c by (simp add: h1_def)
    have p1: "\<forall>j \<in> set ws. j < length h1 \<and> \<not> w_left (h1 ! j)" "\<forall>j < length h1. waiter_ok (h1 ! j)"
      using "2.prems"(2,3) h1 i(4) by (auto, metis+)
    have IH: "same_queues h1 h'" "\<forall>j. j \<notin> set ws \<longrightarrow> h' ! j = h1 ! j" "\<forall>j < length h1. waiter_ok (h' ! j)"
      "\<exists>k. \<forall>j < length ws. w_woken (h' ! (ws ! j)) \<longleftrightarrow> w_woken (h1 ! (ws ! j)) \<or> j < k"
      using "2.IH"(2)[OF _ c(2) r[unfolded h1_def]] c(1) p1[unfolded h1_def] "2.prems"(4) by (auto simp: h1_def)
    obtain k where k: "\<forall>j < length ws. w_woken (h' ! (ws ! j)) \<longleftrightarrow> w_woken (h1 ! (ws ! j)) \<or> j < k" using IH(4) by blast
    have "h1 ! (ws ! j) = h ! (ws ! j)" if "j < length ws" for j using that i(4) nth_mem[OF that] by (intro h1(5)) metis
    then have "\<forall>j < length (i # ws). w_woken (h' ! ((i # ws) ! j)) \<longleftrightarrow> w_woken (h ! ((i # ws) ! j)) \<or> j < Suc k"
      using k IH(2) h1(2) i(4) by (auto simp: nth_Cons split: nat.splits)
    then show ?thesis using IH h1 same_queues_trans[OF h1(4) IH(1)] by (auto intro!: exI[of _ "Suc k"])
  qed
qed auto

lemma Wake_inv:
  assumes inv: "wq_inv q"
  shows "wq_inv (fst (Wake model n q)) \<and> same_queues (q_heap q) (q_heap (fst (Wake model n q)))
    \<and> (\<forall>j < length (q_heap q). handoff_of (q_heap (fst (Wake model n q)) ! j) = handoff_of (q_heap q ! j))"
proof (cases "mget (q_models q) model")
  case (Some mq)
  show ?thesis
  proof (cases "n \<le> 0")
    case False
    obtain h' k where w: "wake_loop (mq_waiters mq) n (q_heap q) 0 = (h', k)" by force
    have ok: "mq_ok True (q_p q) (q_heap q) model mq" using wq_butD(3)[OF inv Some] by simp
    then have ws: "mq_waiters mq = queued model (q_heap q)" by (simp add: mq_ok_def)
    have pre: "\<forall>i \<in> set (mq_waiters mq). i < length (q_heap q) \<and> \<not> w_left (q_heap q ! i)" "\<forall>i < length (q_heap q). waiter_ok (q_heap q ! i)" "distinct (mq_waiters mq)"
      using wq_butD(4)[OF inv] by (auto simp: ws queued_props)
    note sp = wake_loop_spec[OF w pre]
    have "routing_prefix (mq_waiters mq) h'" if cr: "mq_credit mq > 0"
    proof -
      obtain k1 where k1: "k1 > 0" "\<forall>j < length (mq_waiters mq). w_woken (q_heap q ! (mq_waiters mq ! j)) \<longleftrightarrow> j < k1"
      proof -
        have "routing_prefix (mq_waiters mq) (q_heap q)" using ok cr ws by (simp add: mq_ok_def)
        then show ?thesis using that by (auto simp: routing_prefix_def)
      qed
      obtain k2 where k2: "\<forall>j < length (mq_waiters mq). w_woken (h' ! (mq_waiters mq ! j)) \<longleftrightarrow> w_woken (q_heap q ! (mq_waiters mq ! j)) \<or> j < k2"
        using sp by blast
      show ?thesis unfolding routing_prefix_def by (rule exI[of _ "max k1 k2"]) (use k1 k2 in auto)
    qed
    then have "wq_but {} (q\<lparr>q_models := mput model mq (q_models q), q_heap := h'\<rparr>)"
      using sp ws by (intro replace_mq_inv[OF wq_but_mono[OF inv] Some]) (auto simp: same_queues_def)
    moreover have "mput model mq (q_models q) = q_models q" by (rule update_triv[OF Some])
    moreover have "handoff_of (h' ! j) = handoff_of (q_heap q ! j)" if "j < length (q_heap q)" for j
    proof (cases "j \<in> set (mq_waiters mq)")
      case True
      then have "\<not> w_left (q_heap q ! j)" "\<not> w_left (h' ! j)" using pre(1) sp that by (auto simp: same_queues_def)
      then show ?thesis using sp pre(2) that by (simp add: handoff_of_queued)
    qed (use sp in simp)
    ultimately show ?thesis using Some False w sp by (simp add: Wake_def)
  qed (use inv Some in \<open>simp add: Wake_def\<close>)
qed (use inv in \<open>simp add: Wake_def\<close>)

lemma Park_inv:
  assumes inv: "wq_inv q" and i: "i < length (q_heap q)"
  shows "wq_inv (fst (Park i q))"
proof (cases "w_left (q_heap q ! i)")
  case False
  let ?m = "w_model (q_heap q ! i)" and ?h = "upd_w i (\<lambda>w. w\<lparr>w_woken := False\<rparr>) (q_heap q)"
  obtain mq where mq: "mget (q_models q) ?m = Some mq"
    using wq_butD(2)[OF inv, of ?m] i False queued_props(3)[of i ?m "q_heap q"] by fastforce
  obtain mq' h' sr where s: "settle mq (Some i) ?h = (mq', h', sr)" by (metis prod_cases3)
  have "wq_but {} (q\<lparr>q_models := mput ?m mq' (q_models q), q_heap := h'\<rparr>)"
    by (rule settle_inv(1)[OF wq_but_mono[OF inv] mq _ _ _ s])
      (use wq_butD(4)[OF inv] i False in \<open>auto simp: same_queues_def nth_upd_w queued_props waiter_ok_def\<close>)
  then show ?thesis using False mq s by (simp add: Park_def Let_def)
qed (use inv in \<open>simp add: Park_def\<close>)

lemma leave_inv:
  assumes inv: "wq_inv q" and i: "i < length (q_heap q)"
  shows "wq_inv (fst (leave i gb q))"
proof (cases "w_left (q_heap q ! i)")
  case False
  let ?q = "leaveLocked i True gb q"
  have "wq_inv ?q" "length (q_heap ?q) = length (q_heap q)" using leaveLocked_but[OF inv i False, of True gb] by (auto simp: same_queues_def)
  then show ?thesis using set_ch_but[of "{}" ?q i None] i False by (simp add: leave_def recv_def Let_def)
next
  case True
  then show ?thesis using set_ch_but[OF inv i, of None] by (simp add: leave_def recv_def Let_def)
qed

lemma Wait_inv:
  assumes inv: "wq_inv q" and i: "i < length (q_heap q)"
  shows "wq_inv (fst (Wait i ev q))"
  using set_ch_but[OF inv i, of None] leave_inv[OF assms, of True]
  by (cases ev) (simp_all add: Wait_def Leave_def recv_def case_prod_beta Let_def)

lemma flush_one_but:
  assumes inv: "wq_but X q" and i: "i < length (q_heap q)" "\<not> w_left (q_heap q ! i)" "w_model (q_heap q ! i) \<in> X"
  shows "wq_but X (flush_one q i) \<and> length (q_heap (flush_one q i)) = length (q_heap q)
    \<and> queued m (q_heap (flush_one q i)) = remove1 i (queued m (q_heap q))
    \<and> q_p (flush_one q i) = q_p q
    \<and> (\<forall>j < length (q_heap q). handoff_of (q_heap (flush_one q i) ! j) = handoff_of (q_heap q ! j))"
proof -
  let ?q1 = "leaveLocked i False False q"
  have L: "wq_but X ?q1" "same_queues (gone i (q_heap q)) (q_heap ?q1)" "q_heap ?q1 ! i = gone i (q_heap q) ! i"
    "\<forall>j < length (q_heap q). handoff_of (q_heap ?q1 ! j) = handoff_of (q_heap q ! j)" "q_p ?q1 = q_p q"
    using leaveLocked_but[OF inv i(1,2), of False False] i(3) by auto
  have len: "length (q_heap ?q1) = length (q_heap q)" using L(2) by (simp add: same_queues_def)
  let ?h = "upd_w i (\<lambda>w. w\<lparr>w_ch := Some Flushed\<rparr>) (q_heap ?q1)"
  have sq: "same_queues (q_heap ?q1) ?h" using len i by (auto simp: same_queues_def nth_upd_w)
  have "handoff_of (?h ! j) = handoff_of (q_heap q ! j)" if "j < length (q_heap q)" for j
    using L(4) that i len handoff_of_queued[OF wq_butD(4)[OF inv i(1)] i(2)] by (auto simp: nth_upd_w handoff_of.simps)
  moreover have "wq_but X (flush_one q i)"
    using set_ch_but[OF L(1), of i "Some Flushed"] L(3) i len by (simp add: flush_one_def Let_def send_ch nth_gone)
  ultimately show ?thesis
    using same_queued[OF sq, of m] same_queued[OF L(2), of m] i len L(5) by (simp add: flush_one_def Let_def send_ch queued_gone)
qed

lemma flush_list_but:
  assumes "wq_but X q" "m \<in> X" "ws = queued m (q_heap q)"
  shows "wq_but X (foldl flush_one q ws) \<and> queued m (q_heap (foldl flush_one q ws)) = [] \<and> length (q_heap (foldl flush_one q ws)) = length (q_heap q)
    \<and> q_p (foldl flush_one q ws) = q_p q
    \<and> (\<forall>j < length (q_heap q). handoff_of (q_heap (foldl flush_one q ws) ! j) = handoff_of (q_heap q ! j))"
  using assms
proof (induction ws arbitrary: q)
  case (Cons i ws)
  have "i \<in> set (queued m (q_heap q))" using Cons.prems(3) by (metis list.set_intros(1))
  then have i: "i < length (q_heap q)" "\<not> w_left (q_heap q ! i)" "w_model (q_heap q ! i) \<in> X"
    using Cons.prems(2) by (auto simp: queued_props)
  note one = flush_one_but[OF Cons.prems(1) i, of m]
  have "ws = queued m (q_heap (flush_one q i))" using one by (simp add: Cons.prems(3)[symmetric])
  from Cons.IH[OF _ Cons.prems(2) this] one show ?case by auto
qed simp

lemma wq_but_drop:
  assumes "wq_but (insert m X) q" "mget (q_models q) m = None"
  shows "wq_but X q"
proof -
  have "model_ok (m' \<notin> X) (q_p q) (q_heap q) m' (mget (q_models q) m')" for m'
    using wq_butD(5)[OF assms(1), of m'] assms(2) by (cases "m' = m") (simp_all add: model_ok_def)
  then show ?thesis using assms(1) by (simp add: wq_but_def)
qed

lemma flush_model_inv:
  assumes inv: "wq_inv q"
  shows "wq_inv (fst (flush_model (q, n) m)) \<and> length (q_heap (fst (flush_model (q, n) m))) = length (q_heap q)
    \<and> q_p (fst (flush_model (q, n) m)) = q_p q
    \<and> (\<forall>j < length (q_heap q). handoff_of (q_heap (fst (flush_model (q, n) m)) ! j) = handoff_of (q_heap q ! j))"
proof (cases "mget (q_models q) m")
  case (Some mq)
  have ws: "mq_waiters mq = queued m (q_heap q)" using wq_butD(3)[OF inv Some] by (simp add: mq_ok_def)
  let ?q = "foldl flush_one q (mq_waiters mq)"
  note F = flush_list_but[OF wq_but_mono[OF inv, of "{m}"] _ ws, simplified]
  have "mget (q_models ?q) m = None"
    using wq_butD(3)[of "{m}" ?q m] F by (cases "mget (q_models ?q) m") (auto simp: mq_ok_def)
  then have "wq_inv ?q" using wq_but_drop[of m "{}" ?q] F by simp
  then show ?thesis using F Some by (simp add: flush_model_def)
qed (use inv in \<open>simp add: flush_model_def\<close>)

lemma flush_fold_inv:
  "wq_inv (fst s) \<Longrightarrow> wq_inv (fst (foldl flush_model s ms)) \<and> length (q_heap (fst (foldl flush_model s ms))) = length (q_heap (fst s))
    \<and> q_p (fst (foldl flush_model s ms)) = q_p (fst s)
    \<and> (\<forall>j < length (q_heap (fst s)). handoff_of (q_heap (fst (foldl flush_model s ms)) ! j) = handoff_of (q_heap (fst s) ! j))"
proof (induction ms arbitrary: s)
  case (Cons m ms)
  have "wq_inv (fst (flush_model s m)) \<and> length (q_heap (fst (flush_model s m))) = length (q_heap (fst s)) \<and> q_p (fst (flush_model s m)) = q_p (fst s)
    \<and> (\<forall>j < length (q_heap (fst s)). handoff_of (q_heap (fst (flush_model s m)) ! j) = handoff_of (q_heap (fst s) ! j))"
    using flush_model_inv[OF Cons.prems, of "snd s" m] by simp
  with Cons.IH[of "flush_model s m"] show ?case by simp
qed simp

lemmas Flush_inv = flush_fold_inv[of "(q, 0)" for q, simplified, folded Flush_def]

section \<open>Slots are conserved\<close>

definition hv :: "'v waiter \<Rightarrow> 'v multiset" where
  "hv w = (case handoff_of w of None \<Rightarrow> {#} | Some v \<Rightarrow> {#v#})"

definition in_flight :: "'v waiter list \<Rightarrow> 'v multiset" where
  \<comment> \<open>the slots that were handed over and not yet received\<close>
  "in_flight h = (\<Sum>i < length h. hv (h ! i))"

definition slots_of :: "'v grant option \<Rightarrow> 'v multiset" where
  "slots_of g = (case g of Some (Handoff v) \<Rightarrow> {#v#} | _ \<Rightarrow> {#})"

definition moves :: "'v wait_queue \<Rightarrow> 'v multiset \<Rightarrow> 'v multiset \<Rightarrow> 'v wait_queue \<Rightarrow> bool" where
  \<comment> \<open>a step that takes \<open>given\<close> in and hands \<open>got\<close> out\<close>
  "moves q given got q' \<longleftrightarrow> wq_inv q' \<and> q_p q' = q_p q \<and> length (q_heap q) \<le> length (q_heap q')
     \<and> in_flight (q_heap q) + given = in_flight (q_heap q') + got"

lemma in_flight_same:
  assumes "length h' = length h" "\<And>j. j < length h \<Longrightarrow> handoff_of (h' ! j) = handoff_of (h ! j)"
  shows "in_flight h' = in_flight h"
  using assms by (simp add: in_flight_def hv_def)

lemma in_flight_at:
  assumes "i < length h" "length h' = length h" "\<And>j. j < length h \<Longrightarrow> j \<noteq> i \<Longrightarrow> handoff_of (h' ! j) = handoff_of (h ! j)"
  shows "in_flight h' + hv (h ! i) = in_flight h + hv (h' ! i)"
proof -
  have split: "in_flight x = hv (x ! i) + (\<Sum>j \<in> {..<length x} - {i}. hv (x ! j))" if "length x = length h" for x
    using assms(1) that by (simp add: in_flight_def sum.remove)
  have "(\<Sum>j \<in> {..<length h'} - {i}. hv (h' ! j)) = (\<Sum>j \<in> {..<length h} - {i}. hv (h ! j))"
    using assms(2,3) by (intro sum.cong) (auto simp: hv_def)
  then show ?thesis using split[OF refl] split[OF assms(2)] by (simp add: ac_simps)
qed

lemma moves_same:
  assumes "wq_inv q'" "q_p q' = q_p q" "length (q_heap q') = length (q_heap q)" "\<And>j. j < length (q_heap q) \<Longrightarrow> handoff_of (q_heap q' ! j) = handoff_of (q_heap q ! j)"
  shows "moves q {#} {#} q'"
  using assms in_flight_same[of "q_heap q'" "q_heap q"] by (simp add: moves_def)

lemma Enqueue_moves: "wq_inv q \<Longrightarrow> moves q {#} {#} (fst (Enqueue now model tenant q))"
proof -
  assume inv: "wq_inv q"
  have "in_flight (h @ [w]) = in_flight h" if "w_ch w = None" for h :: "'a waiter list" and w
    using that by (simp add: in_flight_def hv_def handoff_of.simps nth_append)
  then show ?thesis using Enqueue_inv[OF inv, of now model tenant]
    by (auto simp: moves_def Enqueue_def Let_def split: option.splits)
qed

lemma Handoff_moves:
  assumes inv: "wq_inv q"
  shows "moves q (if snd (queue_Handoff model v q) then {#v#} else {#}) {#} (fst (queue_Handoff model v q))"
proof (cases "mget (q_models q) model")
  case (Some mq)
  show ?thesis
  proof (cases "mq_waiters mq")
    case (Cons i ws)
    note i = head_props[OF inv Some, of i, unfolded Cons, simplified]
    show ?thesis
    proof (cases "w_woken (q_heap q ! i)")
      case True
      obtain mq' h' sr where s: "settle (mq\<lparr>mq_credit := mq_credit mq + 1\<rparr>) None (q_heap q) = (mq', h', sr)" by (metis prod_cases3)
      note st = settle_inv[OF wq_but_mono[OF inv, of "{model}"] Some _ _ wq_butD(4)[OF inv] s, simplified]
      have "moves q {#} {#} (q\<lparr>q_models := mput model mq' (q_models q), q_heap := h'\<rparr>)"
        using st(1,2,5) by (intro moves_same) (auto simp: same_queues_def)
      then show ?thesis using Some Cons True s by (simp add: queue_Handoff_def)
    next
      case False
      let ?q1 = "leaveLocked i False False q" and ?q' = "fst (queue_Handoff model v q)"
      have c: "\<forall>mq. mget (q_models q) (w_model (q_heap q ! i)) = Some mq \<longrightarrow> mq_credit mq = 0"
        using head_idle_no_credit[OF inv Some Cons False] Some i(3) by simp
      note L = leaveLocked_but[OF inv i(1,2), of False False] c
      have len: "length (q_heap ?q1) = length (q_heap q)" using L by (auto simp: same_queues_def)
      have q': "q_heap ?q' = upd_w i (send (Handoff v)) (q_heap ?q1)" "q_p ?q' = q_p q" "snd (queue_Handoff model v q)"
        using Some Cons False L by (auto simp: queue_Handoff_def Let_def)
      have "in_flight (q_heap ?q') + hv (q_heap q ! i) = in_flight (q_heap q) + hv (q_heap ?q' ! i)"
        by (rule in_flight_at) (use i(1) L len in \<open>auto simp: q'(1) nth_upd_w\<close>)
      moreover have "hv (q_heap q ! i) = {#}" "hv (q_heap ?q' ! i) = {#v#}"
        using handoff_of_queued[OF wq_butD(4)[OF inv i(1)] i(2)] i(1) len by (simp_all add: hv_def q'(1) nth_upd_w send_def handoff_of.simps)
      ultimately show ?thesis using Handoff_inv[OF inv, of model v] q' len by (simp add: moves_def)
    qed
  qed (use inv Some in \<open>simp add: queue_Handoff_def moves_def\<close>)
qed (use inv in \<open>simp add: queue_Handoff_def moves_def\<close>)

lemma Wake_moves: "wq_inv q \<Longrightarrow> moves q {#} {#} (fst (Wake model n q))"
  using Wake_inv[of q model n] by (intro moves_same) (auto simp: same_queues_def Wake_def case_prod_beta split: option.splits)

lemma Park_moves:
  assumes inv: "wq_inv q" and i: "i < length (q_heap q)"
  shows "moves q {#} {#} (fst (Park i q))"
proof (cases "w_left (q_heap q ! i)")
  case False
  let ?m = "w_model (q_heap q ! i)" and ?h = "upd_w i (\<lambda>w. w\<lparr>w_woken := False\<rparr>) (q_heap q)"
  obtain mq where mq: "mget (q_models q) ?m = Some mq"
    using wq_butD(2)[OF inv, of ?m] i False queued_props(3)[of i ?m "q_heap q"] by fastforce
  obtain mq' h' sr where s: "settle mq (Some i) ?h = (mq', h', sr)" by (metis prod_cases3)
  have h: "same_queues (q_heap q) ?h" "\<And>j. handoff_of (?h ! j) = handoff_of (q_heap q ! j)"
    "\<And>j. j < length ?h \<Longrightarrow> j \<notin> set (queued ?m (q_heap q)) \<Longrightarrow> w_woken (?h ! j) = w_woken (q_heap q ! j)"
    "\<And>j. j < length ?h \<Longrightarrow> waiter_ok (?h ! j)"
    using wq_butD(4)[OF inv] i False by (auto simp: same_queues_def nth_upd_w handoff_of.simps queued_props waiter_ok_def)
  note st = settle_inv[OF wq_but_mono[OF inv, of "{?m}"] mq h(1,3,4) s, simplified]
  have "moves q {#} {#} (q\<lparr>q_models := mput ?m mq' (q_models q), q_heap := h'\<rparr>)"
    using st(1,2,5) h(2) by (intro moves_same) (auto simp: same_queues_def)
  then show ?thesis using False mq s by (simp add: Park_def Let_def)
qed (use inv in \<open>simp add: Park_def moves_def\<close>)

lemma recv_moves:
  assumes inv: "wq_inv q" and i: "i < length (q_heap q)"
  shows "moves q {#} (slots_of (snd (recv i q))) (fst (recv i q))"
proof -
  let ?q' = "fst (recv i q)"
  have h: "q_heap ?q' = upd_w i (\<lambda>w. w\<lparr>w_ch := None\<rparr>) (q_heap q)" "q_p ?q' = q_p q" by (simp_all add: recv_def)
  have "in_flight (q_heap ?q') + hv (q_heap q ! i) = in_flight (q_heap q) + hv (q_heap ?q' ! i)"
    by (rule in_flight_at[OF i]) (use i in \<open>auto simp: h nth_upd_w\<close>)
  moreover have "hv (q_heap ?q' ! i) = {#}" using i by (simp add: h nth_upd_w hv_def handoff_of.simps)
  moreover have "hv (q_heap q ! i) = slots_of (snd (recv i q))"
    by (simp add: recv_def hv_def slots_of_def handoff_of.simps split: option.splits grant.splits)
  ultimately show ?thesis using set_ch_but[OF inv i, of None] h by (simp add: moves_def) (simp add: recv_def)
qed

lemma leave_moves:
  assumes inv: "wq_inv q" and i: "i < length (q_heap q)"
  shows "moves q {#} (slots_of (snd (leave i gb q))) (fst (leave i gb q))"
proof (cases "w_left (q_heap q ! i)")
  case True
  then show ?thesis using recv_moves[OF inv i]
    by (auto simp: leave_def case_prod_beta slots_of_def split: option.splits grant.splits)
next
  case False
  let ?q1 = "leaveLocked i True gb q"
  note L = leaveLocked_but[OF inv i False, of True gb]
  have len: "length (q_heap ?q1) = length (q_heap q)" using L by (simp add: same_queues_def)
  have m1: "moves q {#} {#} ?q1" using L len by (intro moves_same) auto
  have "slots_of (snd (recv i ?q1)) = {#}"
    using L handoff_of_queued[OF wq_butD(4)[OF inv i] False] i
    by (auto simp: recv_def slots_of_def handoff_of.simps nth_gone split: option.splits grant.splits)
  moreover have "slots_of (snd (leave i gb q)) = slots_of (snd (recv i ?q1))" "fst (leave i gb q) = fst (recv i ?q1)"
    using False by (auto simp: leave_def case_prod_beta slots_of_def split: option.splits grant.splits)
  moreover have "moves ?q1 {#} (slots_of (snd (recv i ?q1))) (fst (recv i ?q1))"
    using recv_moves[of ?q1 i] L len i by simp
  ultimately show ?thesis using m1 by (simp add: moves_def)
qed

lemma Wait_moves:
  assumes "wq_inv q" "i < length (q_heap q)"
  shows "moves q {#} (slots_of (fst (snd (Wait i ev q)))) (fst (Wait i ev q))"
  using recv_moves[OF assms] leave_moves[OF assms, of True] by (cases ev) (simp_all add: Wait_def Leave_def case_prod_beta Let_def)

lemma Flush_moves: "wq_inv q \<Longrightarrow> moves q {#} {#} (fst (Flush model q))"
  using flush_fold_inv[of "(q, 0)"] by (intro moves_same) (auto simp: Flush_def)

section \<open>Histories\<close>

inductive wq_run :: "queue_params \<Rightarrow> 'v wait_queue \<Rightarrow> 'v multiset \<Rightarrow> 'v multiset \<Rightarrow> bool" for p where
  \<comment> \<open>the state, the slots accepted by \<^verbatim>\<open>Handoff\<close> so far and the slots received by waiters so far; a waiter calls \<^verbatim>\<open>Done\<close> only
     while it is routing, as its comment asks\<close>
  new: "wq_run p (NewQueue p) {#} {#}"
| enqueue: "wq_run p q gv rc \<Longrightarrow> wq_run p (fst (Enqueue now model tenant q)) gv rc"
| handoff: "wq_run p q gv rc \<Longrightarrow> queue_Handoff model v q = (q', took) \<Longrightarrow> wq_run p q' (if took then gv + {#v#} else gv) rc"
| wake: "wq_run p q gv rc \<Longrightarrow> wq_run p (fst (Wake model n q)) gv rc"
| park: "wq_run p q gv rc \<Longrightarrow> i < length (q_heap q) \<Longrightarrow> wq_run p (fst (Park i q)) gv rc"
| served: "wq_run p q gv rc \<Longrightarrow> i < length (q_heap q) \<Longrightarrow> w_woken (q_heap q ! i) \<Longrightarrow> wq_run p (fst (Done i q)) gv rc"
| leave: "wq_run p q gv rc \<Longrightarrow> i < length (q_heap q) \<Longrightarrow> Leave i q = (q', g) \<Longrightarrow> wq_run p q' gv (rc + slots_of g)"
| wait: "wq_run p q gv rc \<Longrightarrow> i < length (q_heap q) \<Longrightarrow> Wait i ev q = (q', g, out) \<Longrightarrow> wq_run p q' gv (rc + slots_of g)"
| flush: "wq_run p q gv rc \<Longrightarrow> wq_run p (fst (Flush model q)) gv rc"
| close: "wq_run p q gv rc \<Longrightarrow> wq_run p (queue_Close q) gv rc"
| observe: "wq_run p q gv rc \<Longrightarrow> wq_run p (ObserveWait d q) gv rc"

lemma Done_moves:
  assumes "wq_inv q" "i < length (q_heap q)" "w_woken (q_heap q ! i)"
  shows "moves q {#} {#} (fst (Done i q))"
proof -
  have w: "waiter_ok (q_heap q ! i)" "\<not> w_left (q_heap q ! i)" using wq_butD(4)[OF assms(1,2)] assms(3) by (auto simp: waiter_ok_def)
  note L = leaveLocked_but[OF assms(1,2) w(2), of True False]
  have "slots_of (snd (leave i False q)) = {#}"
    using w L assms(2) by (auto simp: leave_def recv_def slots_of_def waiter_ok_def nth_gone Let_def)
  with leave_moves[OF assms(1,2), of False] show ?thesis by (simp add: Done_def)
qed

lemma wq_fields_inv: "wq_but X (q\<lparr>q_closed := c\<rparr>) = wq_but X q" "wq_but X (q\<lparr>q_ewma := e\<rparr>) = wq_but X q" "wq_but X (q\<lparr>q_ewmaSet := s\<rparr>) = wq_but X q"
  by (simp_all add: wq_but_def)

lemma wq_run_facts: "wq_run p q gv rc \<Longrightarrow> wq_inv q \<and> q_p q = p \<and> gv = rc + in_flight (q_heap q)"
proof (induction rule: wq_run.induct)
  case new
  then show ?case by (simp add: NewQueue_inv) (simp add: NewQueue_def in_flight_def)
next
  case (enqueue q gv rc now model tenant)
  then show ?case using Enqueue_moves[of q now model tenant] by (simp add: moves_def)
next
  case (handoff q gv rc model v q' took)
  then show ?case using Handoff_moves[of q model v] by (auto simp: moves_def ac_simps)
next
  case (wake q gv rc model n)
  then show ?case using Wake_moves[of q model n] by (simp add: moves_def)
next
  case (park q gv rc i)
  then show ?case using Park_moves[of q i] by (simp add: moves_def)
next
  case (served q gv rc i)
  then show ?case using Done_moves[of q i] by (simp add: moves_def)
next
  case (leave q gv rc i q' g)
  then show ?case using leave_moves[of q i True] by (simp add: moves_def Leave_def ac_simps)
next
  case (wait q gv rc i ev q' g out)
  then show ?case using Wait_moves[of q i ev] by (simp add: moves_def ac_simps)
next
  case (flush q gv rc model)
  then show ?case using Flush_moves[of q model] by (simp add: moves_def)
qed (simp_all add: queue_Close_def ObserveWait_def wq_fields_inv Let_def)

section \<open>Properties\<close>

text \<open>C4: No slot is lost and none is duplicated: in every history of a queue, with any interleaving of releases, wake-ups, timeouts,
  cancellations and flushes, the slots that \<^verbatim>\<open>Handoff\<close> accepted are exactly the slots that waiters have received plus the
  slots still in a waiter's channel; a waiter that left by timeout or cancellation gets a slot that raced in.\<close>

theorem slots_conserved:
  assumes "wq_run p q given received"
  shows "given = received + in_flight (q_heap q)
    \<and> (i < length (q_heap q) \<longrightarrow> w_ch (q_heap q ! i) = Some (Handoff v) \<longrightarrow>
        snd (Leave i q) = Some (Handoff v) \<and> snd (snd (Wait i TimeoutFired q)) = Granted \<and> v \<in># given)"
proof -
  have inv: "wq_inv q" and g: "given = received + in_flight (q_heap q)" using wq_run_facts[OF assms] by simp_all
  have "snd (Leave i q) = Some (Handoff v) \<and> snd (snd (Wait i TimeoutFired q)) = Granted \<and> v \<in># given"
    if i: "i < length (q_heap q)" "w_ch (q_heap q ! i) = Some (Handoff v)"
  proof -
    have left: "w_left (q_heap q ! i)" using wq_butD(4)[OF inv i(1)] i(2) by (auto simp: waiter_ok_def)
    have "in_flight (q_heap q) = hv (q_heap q ! i) + (\<Sum>j \<in> {..<length (q_heap q)} - {i}. hv (q_heap q ! j))"
      using i(1) by (simp add: in_flight_def sum.remove)
    moreover have "hv (q_heap q ! i) = {#v#}" using i(2) by (simp add: hv_def handoff_of.simps)
    ultimately have "v \<in># given" using g by simp
    then show ?thesis using i left by (simp add: Leave_def leave_def recv_def Wait_def Let_def)
  qed
  with g show ?thesis by blast
qed

text \<open>C29: The queue is bounded and exact in every history: a model has at most \<^verbatim>\<open>MaxModelDepth\<close> waiters, a tenant at most its share,
  at most \<^verbatim>\<open>MaxModels\<close> models have a queue; the list of a model is exactly its waiters that have not left, in order of arrival;
  and credit for missed slots is outstanding only while the head of the queue is routing.\<close>

theorem queue_bounds:
  assumes "wq_run p q given received" "mget (q_models q) m = Some mq"
  shows "mq_waiters mq = queued m (q_heap q) \<and> 0 < length (mq_waiters mq) \<and> int (length (mq_waiters mq)) \<le> qp_MaxModelDepth p
    \<and> (t \<noteq> [] \<longrightarrow> mget_or 0 (mq_tenants mq) t = tenant_count t (mq_waiters mq) (q_heap q)
         \<and> (0 < tenantCap p \<longrightarrow> tenant_count t (mq_waiters mq) (q_heap q) \<le> tenantCap p))
    \<and> (0 < qp_MaxModels p \<longrightarrow> int (length (q_models q)) \<le> qp_MaxModels p)
    \<and> (0 < mq_credit mq \<longrightarrow> w_woken (q_heap q ! hd (mq_waiters mq)))"
proof -
  have inv: "wq_inv q" "q_p q = p" using wq_run_facts[OF assms(1)] by simp_all
  have ok: "mq_ok True p (q_heap q) m mq" using wq_butD(3)[OF inv(1) assms(2)] inv(2) by simp
  obtain i ws where c: "mq_waiters mq = i # ws" using ok by (cases "mq_waiters mq") (auto simp: mq_ok_def)
  have "w_woken (q_heap q ! hd (mq_waiters mq))" if "0 < mq_credit mq"
    using head_idle_no_credit[OF inv(1) assms(2) c] that by (auto simp: c)
  then show ?thesis using ok wq_butD(6)[OF inv(1)] inv(2) by (auto simp: mq_ok_def tenants_exact_def mget_or_def)
qed

text \<open>C30: Hand-off is first come, first served and never skips a waiter: \<^verbatim>\<open>Handoff\<close> gives the slot to the earliest arrival that is still
  queued for the model; it declines only when nobody waits or that first waiter is already routing, and then a wake-up is
  left for it, or every idle waiter has been told to route.\<close>

theorem handoff_fifo:
  assumes "wq_run p q given received" "queue_Handoff m v q = (q', took)"
  shows "(took \<longrightarrow> (\<exists>i ws. queued m (q_heap q) = i # ws \<and> \<not> w_woken (q_heap q ! i) \<and> w_ch (q_heap q' ! i) = Some (Handoff v)
           \<and> queued m (q_heap q') = ws \<and> (\<forall>j \<in> set ws. i < j)))
    \<and> (\<not> took \<longrightarrow> queued m (q_heap q') = queued m (q_heap q)
         \<and> (queued m (q_heap q) = [] \<or> w_woken (q_heap q ! hd (queued m (q_heap q))))
         \<and> (\<forall>mq. mget (q_models q') m = Some mq \<longrightarrow> mq_credit mq = 0 \<or> (\<forall>i \<in> set (mq_waiters mq). w_woken (q_heap q' ! i))))"
proof -
  have inv: "wq_inv q" using wq_run_facts[OF assms(1)] by simp
  show ?thesis
  proof (cases "mget (q_models q) m")
    case None
    then show ?thesis using assms(2) wq_butD(2)[OF inv None] by (simp add: queue_Handoff_def)
  next
    case (Some mq)
    have ws: "mq_waiters mq = queued m (q_heap q)" "queued m (q_heap q) \<noteq> []" using wq_butD(3)[OF inv Some] by (auto simp: mq_ok_def)
    obtain i ws where c: "mq_waiters mq = i # ws" using ws by (metis list.exhaust)
    note i = head_props[OF inv Some, of i, unfolded c, simplified]
    show ?thesis
    proof (cases "w_woken (q_heap q ! i)")
      case True
      obtain mq' h' sr where s: "settle (mq\<lparr>mq_credit := mq_credit mq + 1\<rparr>) None (q_heap q) = (mq', h', sr)" by (metis prod_cases3)
      note st = settle_inv[OF wq_but_mono[OF inv, of "{m}"] Some _ _ wq_butD(4)[OF inv] s, simplified]
      have q': "q' = q\<lparr>q_models := mput m mq' (q_models q), q_heap := h'\<rparr>" "\<not> took"
        using assms(2) Some c True s by (simp_all add: queue_Handoff_def)
      have "mq_waiters mq' = queued m h'" using wq_butD(3)[OF st(1), of m mq'] by (simp add: mget_mput mq_ok_def)
      then show ?thesis using st(3) same_queued[OF st(2), of m] ws c True by (simp add: q' mget_mput) (metis list.sel(1))
    next
      case False
      have cr: "\<forall>mq. mget (q_models q) (w_model (q_heap q ! i)) = Some mq \<longrightarrow> mq_credit mq = 0"
        using head_idle_no_credit[OF inv Some c False] Some i(3) by simp
      let ?q1 = "leaveLocked i False False q"
      have L: "same_queues (gone i (q_heap q)) (q_heap ?q1)" using leaveLocked_but[OF inv i(1,2), of False False] cr by auto
      then have len: "length (q_heap ?q1) = length (q_heap q)" by (simp add: same_queues_def)
      have q': "q_heap q' = upd_w i (send (Handoff v)) (q_heap ?q1)" "took"
        using assms(2) Some c False by (auto simp: queue_Handoff_def Let_def)
      have "same_queues (q_heap ?q1) (q_heap q')" using i(1) len by (auto simp: q' same_queues_def nth_upd_w send_def)
      from same_queued[OF this, of m] same_queued[OF L, of m] have "queued m (q_heap q') = ws"
        using queued_gone[OF i(1), of m] c ws by simp
      moreover have "\<forall>j \<in> set ws. i < j" using queued_props(2)[of m "q_heap q"] c ws by simp
      moreover have "w_ch (q_heap q' ! i) = Some (Handoff v)" using i(1) len by (simp add: q' nth_upd_w send_def)
      ultimately show ?thesis using q'(2) c ws False by auto
    qed
  qed
qed

section \<open>A short history, for the witnesses\<close>

definition ex_qp :: queue_params where
  "ex_qp = \<lparr>qp_MaxModelDepth = 2, qp_MaxWait = second, qp_MaxTenantShare = Fin 1, qp_MaxModels = 1\<rparr>"

definition ex_q :: "nat wait_queue" where
  \<comment> \<open>two requests wait for one model\<close>
  "ex_q = fst (Enqueue 2 ''m'' ''u'' (fst (Enqueue 1 ''m'' ''t'' (NewQueue ex_qp))))"

lemma ex_q_run: "wq_run ex_qp ex_q {#} {#}"
  unfolding ex_q_def by (intro wq_run.intros)

definition ex_waiter :: "string \<Rightarrow> time \<Rightarrow> nat waiter" where
  "ex_waiter t now = \<lparr>w_model = ''m'', w_tenant = t, w_enqueued = now, w_ch = None, w_elem = True, w_woken = False, w_left = False\<rparr>"

lemma ex_q_eval:
  "ex_q = \<lparr>q_p = ex_qp, q_models = [(''m'', \<lparr>mq_waiters = [0, 1], mq_tenants = [(''t'', 1), (''u'', 1)], mq_credit = 0\<rparr>)],
     q_closed = False, q_ewma = Fin 0, q_ewmaSet = False, q_heap = [ex_waiter ''t'' 1, ex_waiter ''u'' 2]\<rparr>"
  by (simp add: ex_q_def NewQueue_def Enqueue_def refuseLocked_def ex_qp_def mget_or_def ex_waiter_def tenantCap_def Let_def)

lemma ex_handoff:
  "queue_Handoff ''m'' 7 ex_q =
     (\<lparr>q_p = ex_qp, q_models = [(''m'', \<lparr>mq_waiters = [1], mq_tenants = [(''u'', 1)], mq_credit = 0\<rparr>)], q_closed = False, q_ewma = Fin 0,
        q_ewmaSet = False, q_heap = [(ex_waiter ''t'' 1)\<lparr>w_ch := Some (Handoff 7), w_elem := False, w_left := True\<rparr>, ex_waiter ''u'' 2]\<rparr>, True)"
  by (simp add: ex_q_eval queue_Handoff_def leaveLocked_def upd_w_def drop_tenant_def mget_or_def ex_waiter_def send_def Let_def)

theorem slots_conserved_witness:
  "snd (Leave 0 (fst (queue_Handoff ''m'' 7 ex_q))) = Some (Handoff 7) \<and> in_flight (q_heap (fst (queue_Handoff ''m'' 7 ex_q))) = {#7#}"
  using slots_conserved[OF wq_run.handoff[OF ex_q_run ex_handoff], of 0 7] by (simp add: ex_handoff)

theorem queue_bounds_witness: "\<exists>mq. mget (q_models ex_q) ''m'' = Some mq \<and> mq_waiters mq = queued ''m'' (q_heap ex_q) \<and> length (mq_waiters mq) = 2"
proof -
  let ?mq = "\<lparr>mq_waiters = [0, 1], mq_tenants = [(''t'', 1), (''u'', 1)], mq_credit = 0\<rparr>"
  have m: "mget (q_models ex_q) ''m'' = Some ?mq" by (simp add: ex_q_eval)
  have "mq_waiters ?mq = queued ''m'' (q_heap ex_q)" using queue_bounds[OF ex_q_run m] by blast
  moreover have l: "length (mq_waiters ?mq) = 2" by simp
  ultimately show ?thesis by (intro exI[of _ ?mq] conjI m l)
qed

theorem handoff_fifo_witness:
  "\<exists>i ws. queued ''m'' (q_heap ex_q) = i # ws \<and> w_ch (q_heap (fst (queue_Handoff ''m'' 7 ex_q)) ! i) = Some (Handoff 7)
     \<and> queued ''m'' (q_heap (fst (queue_Handoff ''m'' 7 ex_q))) = ws"
  using handoff_fifo[OF ex_q_run ex_handoff] by (auto simp: ex_handoff)

end
