(* ===== verification/Admission.thy ===== *)
theory Admission
  imports Go_Base
begin

text \<open>
  \<^verbatim>\<open>internal/resilience/admission.go\<close>: the global request cap. The counter is lock-free, so besides the operations
  (\<open>Admission_Acquire\<close>, \<open>Slot_Release\<close>) the theory has the interleaving of their atomic steps: every goroutine is a program
  counter, every load, compare-and-swap and add is one step of the relation \<open>adm_step\<close>.
\<close>

section \<open>The operations\<close>

record admission =
  adm_max :: int
  adm_active :: int
  adm_released :: "bool list" \<comment> \<open>the \<^verbatim>\<open>released\<close> flags of the slots handed out; a \<^verbatim>\<open>*Slot\<close> is an index\<close>

definition NewAdmission :: "int \<Rightarrow> admission" where
  "NewAdmission mx = \<lparr>adm_max = mx, adm_active = 0, adm_released = []\<rparr>"

definition Admission_Acquire :: "admission \<Rightarrow> admission \<times> nat option" where
  \<comment> \<open>without interference the compare-and-swap of the loop succeeds at once\<close>
  "Admission_Acquire a =
     (if adm_max a > 0 \<and> adm_active a \<ge> adm_max a then (a, None)
      else (a\<lparr>adm_active := adm_active a + 1, adm_released := adm_released a @ [False]\<rparr>, Some (length (adm_released a))))"

definition Slot_Release :: "nat option \<Rightarrow> admission \<Rightarrow> admission" where
  "Slot_Release s a = (case s of
       None \<Rightarrow> a
     | Some i \<Rightarrow> if adm_released a ! i then a
                 else a\<lparr>adm_released := (adm_released a)[i := True], adm_active := adm_active a - 1\<rparr>)"

definition Admission_Active :: "admission \<Rightarrow> int" where "Admission_Active a = adm_active a"
definition Admission_Limit :: "admission \<Rightarrow> int" where "Admission_Limit a = adm_max a"

definition adm_inv :: "admission \<Rightarrow> bool" where
  "adm_inv a \<longleftrightarrow> adm_active a = int (count_if Not (adm_released a)) \<and> (adm_max a > 0 \<longrightarrow> adm_active a \<le> adm_max a)"

lemma NewAdmission_inv: "adm_inv (NewAdmission mx)"
  by (simp add: adm_inv_def NewAdmission_def)

lemma Acquire_inv: "adm_inv a \<Longrightarrow> adm_inv (fst (Admission_Acquire a))"
  by (auto simp: adm_inv_def Admission_Acquire_def)

lemma Release_inv:
  assumes "adm_inv a" "case s of None \<Rightarrow> True | Some i \<Rightarrow> i < length (adm_released a)"
  shows "adm_inv (Slot_Release s a)"
  using assms by (cases s) (auto simp: adm_inv_def Slot_Release_def count_if_update)

lemma Release_idem: "case s of None \<Rightarrow> True | Some i \<Rightarrow> i < length (adm_released a) \<Longrightarrow>
    Slot_Release s (Slot_Release s a) = Slot_Release s a"
  by (cases s) (auto simp: Slot_Release_def)

section \<open>Interleavings of the atomic steps\<close>

datatype adm_pc =
    Start \<comment> \<open>before the load of \<^verbatim>\<open>Acquire\<close>\<close>
  | Loaded int \<comment> \<open>after \<^verbatim>\<open>cur := a.active.Load()\<close>\<close>
  | Refused \<comment> \<open>\<^verbatim>\<open>Acquire\<close> returned false\<close>
  | Holding \<comment> \<open>a slot, not released\<close>
  | Releasing \<comment> \<open>the flag is set, the decrement is still to come\<close>
  | Released

record adm_state =
  as_max :: int
  as_active :: int
  as_pcs :: "adm_pc list"

inductive adm_step :: "adm_state \<Rightarrow> adm_state \<Rightarrow> bool" where
  load: "as_max s > 0 \<Longrightarrow> g < length (as_pcs s) \<Longrightarrow> as_pcs s ! g = Start
    \<Longrightarrow> adm_step s (s\<lparr>as_pcs := (as_pcs s)[g := Loaded (as_active s)]\<rparr>)"
| refuse: "g < length (as_pcs s) \<Longrightarrow> as_pcs s ! g = Loaded cur \<Longrightarrow> cur \<ge> as_max s
    \<Longrightarrow> adm_step s (s\<lparr>as_pcs := (as_pcs s)[g := Refused]\<rparr>)"
| cas_ok: "g < length (as_pcs s) \<Longrightarrow> as_pcs s ! g = Loaded cur \<Longrightarrow> cur < as_max s \<Longrightarrow> as_active s = cur
    \<Longrightarrow> adm_step s (s\<lparr>as_active := cur + 1, as_pcs := (as_pcs s)[g := Holding]\<rparr>)"
| cas_fail: "g < length (as_pcs s) \<Longrightarrow> as_pcs s ! g = Loaded cur \<Longrightarrow> cur < as_max s \<Longrightarrow> as_active s \<noteq> cur
    \<Longrightarrow> adm_step s (s\<lparr>as_pcs := (as_pcs s)[g := Start]\<rparr>)"
| unlimited: "as_max s \<le> 0 \<Longrightarrow> g < length (as_pcs s) \<Longrightarrow> as_pcs s ! g = Start
    \<Longrightarrow> adm_step s (s\<lparr>as_active := as_active s + 1, as_pcs := (as_pcs s)[g := Holding]\<rparr>)"
| flag: "g < length (as_pcs s) \<Longrightarrow> as_pcs s ! g = Holding
    \<Longrightarrow> adm_step s (s\<lparr>as_pcs := (as_pcs s)[g := Releasing]\<rparr>)"
| decrement: "g < length (as_pcs s) \<Longrightarrow> as_pcs s ! g = Releasing
    \<Longrightarrow> adm_step s (s\<lparr>as_active := as_active s - 1, as_pcs := (as_pcs s)[g := Released]\<rparr>)"

definition adm_start :: "int \<Rightarrow> nat \<Rightarrow> adm_state" where
  "adm_start mx n = \<lparr>as_max = mx, as_active = 0, as_pcs = replicate n Start\<rparr>"

definition counts :: "adm_pc \<Rightarrow> bool" where
  "counts pc \<longleftrightarrow> pc = Holding \<or> pc = Releasing"

definition adm_safe :: "adm_state \<Rightarrow> bool" where
  "adm_safe s \<longleftrightarrow> as_active s = int (count_if counts (as_pcs s)) \<and> (as_max s > 0 \<longrightarrow> as_active s \<le> as_max s)"

lemma adm_step_safe: "adm_step s s' \<Longrightarrow> adm_safe s \<Longrightarrow> adm_safe s' \<and> as_max s' = as_max s"
  by (induction rule: adm_step.induct) (auto simp: adm_safe_def count_if_update counts_def)

lemma adm_steps_safe: "adm_step\<^sup>*\<^sup>* s s' \<Longrightarrow> adm_safe s \<Longrightarrow> adm_safe s' \<and> as_max s' = as_max s"
  by (induction rule: rtranclp_induct) (auto dest: adm_step_safe)

lemma adm_start_safe: "adm_safe (adm_start mx n)"
  by (simp add: adm_safe_def adm_start_def count_if_def counts_def)

section \<open>Properties\<close>

text \<open>C31: Under every interleaving of the atomic steps of any number of goroutines the cap holds: the counter equals the number of
  slots not yet given back, and with a positive cap that number never exceeds it, even when goroutines race between
  the load and the compare-and-swap.\<close>

theorem admission_cap_interleaved:
  assumes "adm_step\<^sup>*\<^sup>* (adm_start mx n) s"
  shows "as_active s = int (count_if counts (as_pcs s)) \<and> (0 < mx \<longrightarrow> int (count_if (\<lambda>pc. pc = Holding) (as_pcs s)) \<le> mx)"
proof -
  have s: "adm_safe s" "as_max s = mx" using adm_steps_safe[OF assms adm_start_safe] by (simp_all add: adm_start_def)
  have "count_if (\<lambda>pc. pc = Holding) (as_pcs s) \<le> count_if counts (as_pcs s)"
    by (rule count_if_mono) (simp add: counts_def)
  with s show ?thesis by (auto simp: adm_safe_def)
qed

theorem admission_cap_interleaved_witness:
  "\<exists>s. adm_step\<^sup>*\<^sup>* (adm_start 1 2) s \<and> as_pcs s = [Holding, Loaded 0] \<and> int (count_if (\<lambda>pc. pc = Holding) (as_pcs s)) \<le> 1"
proof -
  let ?s1 = "(adm_start 1 2)\<lparr>as_pcs := [Loaded 0, Start]\<rparr>" and ?s2 = "(adm_start 1 2)\<lparr>as_pcs := [Loaded 0, Loaded 0]\<rparr>"
    and ?s3 = "(adm_start 1 2)\<lparr>as_active := 1, as_pcs := [Holding, Loaded 0]\<rparr>"
  have "adm_step (adm_start 1 2) ?s1"
    using adm_step.load[of "adm_start 1 2" 0] by (simp add: adm_start_def numeral_2_eq_2)
  moreover have "adm_step ?s1 ?s2" using adm_step.load[of ?s1 1] by (simp add: adm_start_def)
  moreover have "adm_step ?s2 ?s3" using adm_step.cas_ok[of 0 ?s2 0] by (simp add: adm_start_def)
  ultimately have r: "adm_step\<^sup>*\<^sup>* (adm_start 1 2) ?s3" by (meson r_into_rtranclp rtranclp_trans)
  from admission_cap_interleaved[OF r] r show ?thesis by (intro exI[of _ ?s3]) simp
qed

text \<open>The operations keep the count exact: an admission is refused only at the cap, and after any number of releases of the
  same slot the place has been given back exactly once.\<close>

theorem admission_exact:
  assumes "adm_inv a" "Admission_Acquire a = (a', Some i)"
  shows "adm_inv a' \<and> Slot_Release (Some i) (Slot_Release (Some i) a') = Slot_Release (Some i) a'
    \<and> Admission_Active (Slot_Release (Some i) a') = Admission_Active a \<and> adm_inv (Slot_Release (Some i) a')
    \<and> (snd (Admission_Acquire a') = None \<longleftrightarrow> 0 < Admission_Limit a \<and> Admission_Active a' = Admission_Limit a)"
proof -
  have a': "a' = a\<lparr>adm_active := adm_active a + 1, adm_released := adm_released a @ [False]\<rparr>" "i = length (adm_released a)"
    using assms(2) by (auto simp: Admission_Acquire_def split: if_splits)
  have inv: "adm_inv a'" using Acquire_inv[OF assms(1)] assms(2) by simp
  have "adm_max a' > 0 \<Longrightarrow> adm_active a' \<le> adm_max a'" using inv by (simp add: adm_inv_def)
  then have full: "snd (Admission_Acquire a') = None \<longleftrightarrow> 0 < Admission_Limit a \<and> Admission_Active a' = Admission_Limit a"
    using a' by (auto simp: Admission_Acquire_def Admission_Limit_def Admission_Active_def)
  show ?thesis
    using inv full Release_idem[where s = "Some i" and a = a'] Release_inv[OF inv, where s = "Some i"] a'
    by (auto simp: Slot_Release_def Admission_Active_def nth_append)
qed

theorem admission_exact_witness:
  "adm_inv (fst (Admission_Acquire (NewAdmission 1))) \<and> snd (Admission_Acquire (fst (Admission_Acquire (NewAdmission 1)))) = None"
  using admission_exact[OF NewAdmission_inv[of 1], of "fst (Admission_Acquire (NewAdmission 1))" 0]
  by (simp add: NewAdmission_def Admission_Acquire_def Admission_Limit_def Admission_Active_def)

end
