(* ===== verification/RateKeys.thy ===== *)
theory RateKeys
  imports Go_Base
begin

text \<open>
  \<^verbatim>\<open>internal/ratelimit/keys.go\<close>: the Redis keys of the limiter. A Go string is a list of bytes; \<^verbatim>\<open>%02X\<close> prints a byte as two
  upper-case hexadecimal digits.
\<close>

section \<open>Keys\<close>

definition hex_digit :: "nat \<Rightarrow> char" where
  "hex_digit n = ''0123456789ABCDEF'' ! n"

definition escape_byte :: "char \<Rightarrow> string" where
  "escape_byte c =
     (let n = of_char c :: nat in
      if n < 0x21 \<or> n > 0x7e \<or> c = CHR ''{'' \<or> c = CHR ''}'' \<or> c = CHR ''%''
      then [CHR ''%'', hex_digit (n div 16), hex_digit (n mod 16)] else [c])"

definition escapeKeyPart :: "string \<Rightarrow> string" where
  "escapeKeyPart s = concat (map escape_byte s)"

definition keyModelUnused :: string where
  "keyModelUnused = ''rl:model:{}''"

definition maxKeyPart :: nat where
  "maxKeyPart = 256"

definition keyRequests :: "string \<Rightarrow> string" where
  "keyRequests tenant = ''rl:{'' @ escapeKeyPart tenant @ ''}:req''"

definition keyTokens :: "string \<Rightarrow> string" where
  "keyTokens tenant = ''rl:{'' @ escapeKeyPart tenant @ ''}:tok''"

definition keyConcurrency :: "string \<Rightarrow> string" where
  "keyConcurrency tenant = ''rl:{'' @ escapeKeyPart tenant @ ''}:conc''"

definition keyModel :: "string \<Rightarrow> string" where
  "keyModel model = ''rl:model:{'' @ escapeKeyPart model @ ''}''"

definition validKeyPart :: "string \<Rightarrow> bool" where
  "validKeyPart s \<longleftrightarrow> length s \<le> maxKeyPart"

section \<open>Escaping can be undone\<close>

definition unhex :: "char \<Rightarrow> nat" where
  "unhex c = (let n = of_char c :: nat in if n < 0x41 then n - 0x30 else n - 0x37)"

fun unescape :: "string \<Rightarrow> string" where
  \<comment> \<open>the reader of escaped names\<close>
  "unescape [] = []"
| "unescape (c # a # b # s) =
     (if c = CHR ''%'' then char_of (unhex a * 16 + unhex b) # unescape s else c # unescape (a # b # s))"
| "unescape (c # s) = c # unescape s"

lemma unhex_digit: "n < 16 \<Longrightarrow> unhex (hex_digit n) = n"
proof -
  have "\<forall>n \<in> set [0..<16]. unhex (hex_digit n) = n" by code_simp
  then show "n < 16 \<Longrightarrow> unhex (hex_digit n) = n" by simp
qed

lemma hex_digit_no_brace: "n < 16 \<Longrightarrow> hex_digit n \<noteq> CHR ''}''"
proof -
  have "\<forall>n \<in> set [0..<16]. hex_digit n \<noteq> CHR ''}''" by code_simp
  then show "n < 16 \<Longrightarrow> hex_digit n \<noteq> CHR ''}''" by simp
qed

lemma of_char_div: "(of_char c :: nat) div 16 < 16"
  using of_char_less[of c] by (intro less_mult_imp_div_less) simp

lemma unescape_plain: "c \<noteq> CHR ''%'' \<Longrightarrow> unescape (c # s) = c # unescape s"
  by (cases "c # s" rule: unescape.cases) auto

lemma unescape_byte: "unescape (escape_byte c @ s) = c # unescape s"
proof (cases "(of_char c :: nat) < 0x21 \<or> (of_char c :: nat) > 0x7e \<or> c = CHR ''{'' \<or> c = CHR ''}'' \<or> c = CHR ''%''")
  case True
  have "unhex (hex_digit ((of_char c :: nat) div 16)) * 16 + unhex (hex_digit ((of_char c :: nat) mod 16)) = of_char c"
    using of_char_div[of c] by (simp add: unhex_digit)
  then show ?thesis using True by (simp add: escape_byte_def Let_def)
next
  case False
  then show ?thesis by (simp add: escape_byte_def Let_def unescape_plain)
qed

lemma unescape_escape: "unescape (escapeKeyPart s @ t) = s @ unescape t"
  by (induction s) (simp_all add: escapeKeyPart_def unescape_byte)

lemma escape_no_brace: "CHR ''}'' \<notin> set (escapeKeyPart s)"
proof -
  have "CHR ''}'' \<notin> set (escape_byte c)" for c
    using hex_digit_no_brace[OF of_char_div[of c]] hex_digit_no_brace[of "of_char c mod 16"]
    by (simp add: escape_byte_def Let_def eq_commute[of "CHR ''}''"])
  then show ?thesis by (auto simp: escapeKeyPart_def)
qed

lemma escape_inj: "escapeKeyPart a = escapeKeyPart b \<longleftrightarrow> a = b"
  using unescape_escape[of a "[]"] unescape_escape[of b "[]"] by (metis append_Nil2 unescape.simps(1))

lemma tag_inj:
  assumes "escapeKeyPart a @ CHR ''}'' # x = escapeKeyPart b @ CHR ''}'' # y"
  shows "a = b \<and> x = y"
proof -
  have "takeWhile (\<lambda>c. c \<noteq> CHR ''}'') (escapeKeyPart s @ CHR ''}'' # z) = escapeKeyPart s" for s z
    using escape_no_brace[of s] by (subst takeWhile_append2) auto
  from this[of a x] this[of b y] assms have "escapeKeyPart a = escapeKeyPart b" by simp
  with assms show ?thesis by (simp add: escape_inj)
qed

lemmas key_defs = keyRequests_def keyTokens_def keyConcurrency_def keyModel_def keyModelUnused_def

lemma key_inj [simp]: "keyRequests a = keyRequests b \<longleftrightarrow> a = b" "keyTokens a = keyTokens b \<longleftrightarrow> a = b"
    "keyConcurrency a = keyConcurrency b \<longleftrightarrow> a = b" "keyModel a = keyModel b \<longleftrightarrow> a = b"
  by (simp_all add: key_defs escape_inj)

lemma key_kinds [simp]: "keyRequests a \<noteq> keyTokens b" "keyTokens a \<noteq> keyRequests b" "keyRequests a \<noteq> keyConcurrency b"
    "keyTokens a \<noteq> keyConcurrency b" "keyModel a \<noteq> keyRequests b" "keyModel a \<noteq> keyTokens b" "keyModel a \<noteq> keyConcurrency b"
    "keyRequests a \<noteq> keyModel b" "keyTokens a \<noteq> keyModel b"
  using tag_inj[of a "'':req''" b "'':tok''"] tag_inj[of b "'':req''" a "'':tok''"] tag_inj[of a "'':req''" b "'':conc''"]
    tag_inj[of a "'':tok''" b "'':conc''"]
  by (auto simp: key_defs)

section \<open>Properties\<close>

text \<open>C19: Names and keys: escaping is undone by reading the escapes back, so it is injective; an escaped name never contains the
  closing brace of the hash tag; and no two keys of the limiter collide: the three keys of a tenant differ from each other and
  from those of every other tenant, and no tenant key is a model key or the placeholder.\<close>

theorem keys_never_collide:
  "unescape (escapeKeyPart s) = s \<and> CHR ''}'' \<notin> set (escapeKeyPart s)
   \<and> (keyRequests a = keyRequests b \<longleftrightarrow> a = b) \<and> (keyTokens a = keyTokens b \<longleftrightarrow> a = b)
   \<and> (keyConcurrency a = keyConcurrency b \<longleftrightarrow> a = b) \<and> (keyModel a = keyModel b \<longleftrightarrow> a = b)
   \<and> keyRequests a \<noteq> keyTokens b \<and> keyRequests a \<noteq> keyConcurrency b \<and> keyTokens a \<noteq> keyConcurrency b
   \<and> keyModel a \<notin> {keyRequests b, keyTokens b, keyConcurrency b} \<and> (keyModel a = keyModelUnused \<longleftrightarrow> a = [])"
proof -
  have r: "unescape (escapeKeyPart s) = s" using unescape_escape[of s "[]"] by simp
  have model: "keyModel a \<notin> {keyRequests b, keyTokens b, keyConcurrency b}" by simp
  have "escapeKeyPart a = [] \<longleftrightarrow> a = []" using escape_inj[of a "[]"] by (simp add: escapeKeyPart_def)
  then have unused: "keyModel a = keyModelUnused \<longleftrightarrow> a = []" by (simp add: key_defs)
  show ?thesis by (intro conjI r escape_no_brace key_inj key_kinds model unused)
qed

end
