(* ===== verification/RateModel.thy ===== *)
theory RateModel
  imports RateKeys
begin

text \<open>
  \<^verbatim>\<open>internal/ratelimit/model.go\<close>: the reference rate limiter on plain integers (token buckets in units of 1/60000 token, and
  concurrency leases), with what it uses of \<^verbatim>\<open>limiter.go\<close>. Times are milliseconds and are arguments.
\<close>

section \<open>Types\<close>

datatype rl_limit = LimitRequests | LimitTokens | LimitConcurrency | LimitModel | LimitUnavailable

record rl_limits =
  li_RequestsPerMinute :: int
  li_TokensPerMinute :: int
  li_MaxConcurrent :: int

definition limits_None :: "rl_limits \<Rightarrow> bool" where
  "limits_None l \<longleftrightarrow> li_RequestsPerMinute l \<le> 0 \<and> li_TokensPerMinute l \<le> 0 \<and> li_MaxConcurrent l \<le> 0"

definition scale :: int where "scale = 60000"

definition concurrencyRetryMs :: int where "concurrencyRetryMs = 1000"

record rl_params =
  rp_BurstSeconds :: int
  rp_LeaseTTLMs :: int

record rl_outcome =
  oc_Allowed :: bool
  oc_Limit :: "rl_limit option" \<comment> \<open>\<open>None\<close> is the empty string\<close>
  oc_RetryMs :: int

record model_request =
  mr_TenantID :: string
  mr_Model :: string
  mr_Cost :: int
  mr_Limits :: rl_limits
  mr_ModelRequestsPerMinute :: int
  mr_LeaseID :: string

record rl_bucket =
  bk_level :: int
  bk_at :: int
  bk_set :: bool

record rl_model =
  md_p :: rl_params
  md_buckets :: "(string, rl_bucket) gomap"
  md_leases :: "(string, (string, int) gomap) gomap"

definition NewModel :: "rl_params \<Rightarrow> rl_model" where
  "NewModel p = \<lparr>md_p = p, md_buckets = [], md_leases = []\<rparr>"

section \<open>Operations\<close>

definition capacity :: "rl_params \<Rightarrow> int \<Rightarrow> int" where
  "capacity p quota = quota * rp_BurstSeconds p * 1000"

definition peek :: "rl_model \<Rightarrow> string \<Rightarrow> int \<Rightarrow> int \<Rightarrow> int \<times> int" where
  "peek m key now quota =
     (let cap = capacity (md_p m) quota in
      case mget (md_buckets m) key of
        None \<Rightarrow> (cap, cap)
      | Some b \<Rightarrow>
          if \<not> bk_set b then (cap, cap)
          else let e0 = now - bk_at b;
                   e1 = (if e0 < 0 then 0 else e0);
                   window = rp_BurstSeconds (md_p m) * 1000;
                   e2 = (if e1 > window then window else e1);
                   level = bk_level b + e2 * quota
               in (if level > cap then cap else level, cap))"

definition need :: "int \<Rightarrow> int \<Rightarrow> int" where
  "need cost cap = min (cost * scale) cap"

definition ceilDiv :: "int \<Rightarrow> int \<Rightarrow> int" where
  "ceilDiv a b = go_div (a + b - 1) b"

record rl_check =
  ck_limit :: rl_limit
  ck_key :: string
  ck_quota :: int
  ck_level :: int
  ck_need :: int

definition add_check :: "rl_model \<Rightarrow> int \<Rightarrow> rl_limit \<Rightarrow> string \<Rightarrow> int \<Rightarrow> int \<Rightarrow> rl_check list" where
  \<comment> \<open>the closure \<^verbatim>\<open>add\<close> of \<^verbatim>\<open>Allow\<close>\<close>
  "add_check m nowMs l key quota cost =
     (if quota \<le> 0 then []
      else let (level, cap) = peek m key nowMs quota
           in [\<lparr>ck_limit = l, ck_key = key, ck_quota = quota, ck_level = level, ck_need = need cost cap\<rparr>])"

definition checks_of :: "rl_model \<Rightarrow> int \<Rightarrow> model_request \<Rightarrow> rl_check list" where
  "checks_of m nowMs r =
     add_check m nowMs LimitRequests (keyRequests (mr_TenantID r)) (li_RequestsPerMinute (mr_Limits r)) 1
     @ add_check m nowMs LimitTokens (keyTokens (mr_TenantID r)) (li_TokensPerMinute (mr_Limits r)) (mr_Cost r)
     @ add_check m nowMs LimitModel (keyModel (mr_Model r)) (mr_ModelRequestsPerMinute r) 1"

type_synonym worst = "rl_limit option \<times> int"

definition rl_consider :: "rl_limit \<Rightarrow> int \<Rightarrow> worst \<Rightarrow> worst" where
  "rl_consider l wait w = (if wait > snd w then (Some l, wait) else w)"

definition consider_check :: "bool \<Rightarrow> worst \<Rightarrow> rl_check \<Rightarrow> worst" where
  \<comment> \<open>the bodies of the two loops over \<^verbatim>\<open>checks\<close>: the second one looks at the model bucket only\<close>
  "consider_check model w c =
     (if ck_level c < ck_need c \<and> (ck_limit c = LimitModel) = model
      then rl_consider (ck_limit c) (ceilDiv (ck_need c - ck_level c) (ck_quota c)) w else w)"

definition prune_leases :: "int \<Rightarrow> string \<Rightarrow> rl_model \<Rightarrow> rl_model" where
  "prune_leases nowMs key m =
     (case mget (md_leases m) key of
        None \<Rightarrow> m
      | Some held \<Rightarrow> m\<lparr>md_leases := mput key (filter (\<lambda>(_, ex). \<not> ex \<le> nowMs) held) (md_leases m)\<rparr>)"

definition held_leases :: "rl_model \<Rightarrow> string \<Rightarrow> (string, int) gomap" where
  \<comment> \<open>\<^verbatim>\<open>m.leases[key]\<close>, a nil map when absent\<close>
  "held_leases m key = mget_or [] (md_leases m) key"

definition charge :: "int \<Rightarrow> rl_model \<Rightarrow> rl_check \<Rightarrow> rl_model" where
  "charge nowMs m c =
     (let at' = (case mget (md_buckets m) (ck_key c) of
                   Some b \<Rightarrow> if bk_set b \<and> bk_at b > nowMs then bk_at b else nowMs | None \<Rightarrow> nowMs)
      in m\<lparr>md_buckets := mput (ck_key c) \<lparr>bk_level = ck_level c - ck_need c, bk_at = at', bk_set = True\<rparr> (md_buckets m)\<rparr>)"

definition Allow :: "int \<Rightarrow> model_request \<Rightarrow> rl_model \<Rightarrow> rl_model \<times> rl_outcome" where
  "Allow nowMs r m =
     (let checks = checks_of m nowMs r;
          w1 = foldl (consider_check False) (None, 0) checks;
          concKey = keyConcurrency (mr_TenantID r);
          mc = li_MaxConcurrent (mr_Limits r);
          m1 = (if mc > 0 then prune_leases nowMs concKey m else m);
          w2 = (if mc > 0 \<and> int (length (held_leases m1 concKey)) \<ge> mc then rl_consider LimitConcurrency concurrencyRetryMs w1 else w1);
          w3 = foldl (consider_check True) w2 checks
      in if fst w3 \<noteq> None then (m1, \<lparr>oc_Allowed = False, oc_Limit = fst w3, oc_RetryMs = snd w3\<rparr>)
         else let m2 = foldl (charge nowMs) m1 checks;
                  m3 = (if mc > 0
                        then m2\<lparr>md_leases := mput concKey (mput (mr_LeaseID r) (nowMs + rp_LeaseTTLMs (md_p m)) (held_leases m2 concKey)) (md_leases m2)\<rparr>
                        else m2)
              in (m3, \<lparr>oc_Allowed = True, oc_Limit = None, oc_RetryMs = 0\<rparr>))"

definition Release :: "string \<Rightarrow> string \<Rightarrow> rl_model \<Rightarrow> rl_model \<times> bool" where
  "Release tenantID leaseID m =
     (let k = keyConcurrency tenantID; ok = mget (held_leases m k) leaseID \<noteq> None
      in (case mget (md_leases m) k of None \<Rightarrow> m | Some h \<Rightarrow> m\<lparr>md_leases := mput k (mdel leaseID h) (md_leases m)\<rparr>, ok))"

definition Renew :: "int \<Rightarrow> string \<Rightarrow> string \<Rightarrow> rl_model \<Rightarrow> rl_model \<times> bool" where
  "Renew nowMs tenantID leaseID m =
     (let k = keyConcurrency tenantID in
      case mget (held_leases m k) leaseID of
        None \<Rightarrow> (m, False)
      | Some ex \<Rightarrow> if ex \<le> nowMs then (m, False)
                  else (m\<lparr>md_leases := mput k (mput leaseID (nowMs + rp_LeaseTTLMs (md_p m)) (held_leases m k)) (md_leases m)\<rparr>, True))"

definition Held :: "int \<Rightarrow> string \<Rightarrow> rl_model \<Rightarrow> nat" where
  "Held nowMs tenantID m = count_if (\<lambda>(_, ex). ex > nowMs) (held_leases m (keyConcurrency tenantID))"

section \<open>Buckets\<close>

definition bucket_ok :: "rl_bucket \<Rightarrow> bool" where
  "bucket_ok b \<longleftrightarrow> 0 \<le> bk_level b"

definition rl_ok :: "rl_model \<Rightarrow> bool" where
  "rl_ok m \<longleftrightarrow> 0 \<le> rp_BurstSeconds (md_p m) \<and> (\<forall>q \<in> set (md_buckets m). bucket_ok (snd q)) \<and> mok (md_buckets m)"

definition request_ok :: "model_request \<Rightarrow> bool" where
  "request_ok r \<longleftrightarrow> 0 \<le> mr_Cost r"

definition stamp_of :: "rl_model \<Rightarrow> string \<Rightarrow> int \<Rightarrow> int" where
  "stamp_of m key now = (case mget (md_buckets m) key of Some b \<Rightarrow> if bk_set b \<and> bk_at b > now then bk_at b else now | None \<Rightarrow> now)"

lemma consider_snd: "snd w \<le> snd (rl_consider l wait w)" "snd w \<le> snd (consider_check b w c)"
  by (auto simp: rl_consider_def consider_check_def)

lemma foldl_consider_snd: "snd w \<le> snd (foldl (consider_check b) w cs)"
proof (induction cs arbitrary: w)
  case (Cons c cs)
  show ?case using order_trans[OF consider_snd(2) Cons.IH] by simp
qed simp

lemma ceilDiv_spec: "0 < a \<Longrightarrow> 0 < b \<Longrightarrow> 0 < ceilDiv a b \<and> a \<le> ceilDiv a b * b \<and> (ceilDiv a b - 1) * b < a"
proof -
  assume a: "0 < a" "0 < b"
  have "ceilDiv a b = (a + b - 1) div b" using a by (simp add: ceilDiv_def go_div_nonneg)
  moreover have "(a + b - 1) = (a + b - 1) div b * b + (a + b - 1) mod b" by simp
  moreover have "0 \<le> (a + b - 1) mod b" "(a + b - 1) mod b < b" using a by simp_all
  ultimately have c: "a + b - 1 = ceilDiv a b * b + (a + b - 1) mod b" "0 \<le> (a + b - 1) mod b" "(a + b - 1) mod b < b" by simp_all
  then have 1: "a \<le> ceilDiv a b * b" and 2: "(ceilDiv a b - 1) * b < a" by (auto simp: algebra_simps)
  have "0 < ceilDiv a b * b" using 1 a by linarith
  then have "0 < ceilDiv a b" using a by (simp add: zero_less_mult_iff)
  with 1 2 show ?thesis by blast
qed

lemma peek_bounds:
  assumes "rl_ok m" "0 < quota" "peek m key now quota = (level, cap)"
  shows "0 \<le> level" "level \<le> cap" "cap = capacity (md_p m) quota"
proof -
  let ?cap = "capacity (md_p m) quota"
  have c: "0 \<le> ?cap" using assms(1,2) by (simp add: capacity_def rl_ok_def)
  have "0 \<le> level \<and> level \<le> cap \<and> cap = ?cap"
  proof (cases "mget (md_buckets m) key")
    case None
    then show ?thesis using assms(3) c by (auto simp: peek_def Let_def)
  next
    case (Some b)
    then have l: "0 \<le> bk_level b" using assms(1) mget_mem[OF Some] by (auto simp: rl_ok_def bucket_ok_def)
    have "0 \<le> rp_BurstSeconds (md_p m) * 1000" using assms(1) by (simp add: rl_ok_def)
    then have "0 \<le> (if (if now - bk_at b < 0 then 0 else now - bk_at b) > rp_BurstSeconds (md_p m) * 1000 then rp_BurstSeconds (md_p m) * 1000
                     else if now - bk_at b < 0 then 0 else now - bk_at b) * quota" using assms(2) by simp
    then show ?thesis using assms(3) c l Some by (auto simp: peek_def Let_def split: if_splits)
  qed
  then show "0 \<le> level" "level \<le> cap" "cap = ?cap" by simp_all
qed

definition check_ok :: "rl_model \<Rightarrow> rl_check \<Rightarrow> bool" where
  "check_ok m c \<longleftrightarrow> 0 < ck_quota c \<and> 0 \<le> ck_level c \<and> ck_level c \<le> capacity (md_p m) (ck_quota c)
     \<and> 0 \<le> ck_need c \<and> ck_need c \<le> capacity (md_p m) (ck_quota c)"

lemma add_check_ok:
  assumes "rl_ok m" "0 \<le> cost" "c \<in> set (add_check m now l key quota cost)"
  shows "check_ok m c" "ck_limit c = l" "ck_key c = key" "ck_quota c = quota" "ck_level c = fst (peek m key now quota)"
    "ck_need c = need cost (capacity (md_p m) quota)"
proof -
  obtain level cap where p: "peek m key now quota = (level, cap)" by force
  have q: "0 < quota" and c: "c = \<lparr>ck_limit = l, ck_key = key, ck_quota = quota, ck_level = level, ck_need = need cost cap\<rparr>"
    using assms(3) p by (auto simp: add_check_def split: if_splits)
  have "0 \<le> capacity (md_p m) quota" using assms(1) q by (simp add: capacity_def rl_ok_def)
  then show "check_ok m c" "ck_limit c = l" "ck_key c = key" "ck_quota c = quota" "ck_level c = fst (peek m key now quota)"
    "ck_need c = need cost (capacity (md_p m) quota)"
    using peek_bounds[OF assms(1) q p] q assms(2) p by (simp_all add: c check_ok_def need_def scale_def)
qed

lemma checks_ok: "rl_ok m \<Longrightarrow> request_ok r \<Longrightarrow> c \<in> set (checks_of m now r) \<Longrightarrow> check_ok m c"
  using add_check_ok(1)[of m 1 c] add_check_ok(1)[of m "mr_Cost r" c] by (auto simp: checks_of_def request_ok_def)

lemma checks_keys: "distinct (map ck_key (checks_of m now r))"
  by (auto simp: checks_of_def add_check_def case_prod_beta Let_def)

section \<open>What Allow decides\<close>

definition wait_of :: "rl_check \<Rightarrow> int" where
  "wait_of c = ceilDiv (ck_need c - ck_level c) (ck_quota c)"

lemma consider_fold:
  assumes "w' = foldl (consider_check b) w cs" "0 \<le> snd w" "fst w = None \<longleftrightarrow> snd w = 0" "\<forall>c \<in> set cs. 0 < ck_quota c"
  shows "(fst w' = None \<longleftrightarrow> snd w' = 0) \<and> snd w \<le> snd w'
    \<and> (\<forall>c \<in> set cs. ck_level c < ck_need c \<longrightarrow> (ck_limit c = LimitModel) = b \<longrightarrow> 0 < wait_of c \<and> wait_of c \<le> snd w')
    \<and> (w' = w \<or> (\<exists>c \<in> set cs. ck_level c < ck_need c \<and> (ck_limit c = LimitModel) = b \<and> w' = (Some (ck_limit c), wait_of c)))"
  using assms
proof (induction cs arbitrary: w)
  case (Cons c cs)
  have pos: "0 < wait_of c" if "ck_level c < ck_need c"
    using ceilDiv_spec[of "ck_need c - ck_level c" "ck_quota c"] that Cons.prems(4) by (simp add: wait_of_def)
  define w1 where "w1 = consider_check b w c"
  have w1: "w1 = (if ck_level c < ck_need c \<and> (ck_limit c = LimitModel) = b \<and> wait_of c > snd w then (Some (ck_limit c), wait_of c) else w)"
    by (simp add: w1_def consider_check_def rl_consider_def wait_of_def)
  have ok1: "0 \<le> snd w1" "fst w1 = None \<longleftrightarrow> snd w1 = 0" "snd w \<le> snd w1" using Cons.prems(2,3) pos by (auto simp: w1)
  have here: "ck_level c < ck_need c \<Longrightarrow> (ck_limit c = LimitModel) = b \<Longrightarrow> wait_of c \<le> snd w1" by (auto simp: w1)
  have IH: "(fst w' = None \<longleftrightarrow> snd w' = 0) \<and> snd w1 \<le> snd w'
    \<and> (\<forall>c \<in> set cs. ck_level c < ck_need c \<longrightarrow> (ck_limit c = LimitModel) = b \<longrightarrow> 0 < wait_of c \<and> wait_of c \<le> snd w')
    \<and> (w' = w1 \<or> (\<exists>c \<in> set cs. ck_level c < ck_need c \<and> (ck_limit c = LimitModel) = b \<and> w' = (Some (ck_limit c), wait_of c)))"
    by (rule Cons.IH) (use Cons.prems ok1 in \<open>auto simp: w1_def\<close>)
  have A: "w' = w \<or> (\<exists>c \<in> set (c # cs). ck_level c < ck_need c \<and> (ck_limit c = LimitModel) = b \<and> w' = (Some (ck_limit c), wait_of c))"
    using IH unfolding w1 by (auto split: if_splits)
  have B: "snd w \<le> snd w'" using IH ok1(3) by linarith
  have C: "\<forall>d \<in> set (c # cs). ck_level d < ck_need d \<longrightarrow> (ck_limit d = LimitModel) = b \<longrightarrow> 0 < wait_of d \<and> wait_of d \<le> snd w'"
    using IH here pos by auto
  show ?case by (intro conjI conjunct1[OF IH] A B C)
qed simp

definition conc_full :: "int \<Rightarrow> model_request \<Rightarrow> rl_model \<Rightarrow> bool" where
  \<comment> \<open>the tenant holds its maximum number of live leases\<close>
  "conc_full nowMs r m \<longleftrightarrow> 0 < li_MaxConcurrent (mr_Limits r) \<and> li_MaxConcurrent (mr_Limits r) \<le> int (Held nowMs (mr_TenantID r) m)"

lemma held_prune: "int (length (held_leases (prune_leases nowMs (keyConcurrency t) m) (keyConcurrency t))) = int (Held nowMs t m)"
proof -
  have "length (filter (\<lambda>(_, ex). \<not> ex \<le> nowMs) xs) = count_if (\<lambda>(_, ex). ex > nowMs) xs" for xs :: "(string \<times> int) list"
    by (induction xs) auto
  then show ?thesis
    by (simp add: held_leases_def prune_leases_def Held_def mget_or_def mget_mput split: option.split)
qed

definition refusals :: "int \<Rightarrow> model_request \<Rightarrow> rl_model \<Rightarrow> (rl_limit \<times> int) set" where
  \<comment> \<open>the quotas that refuse the request, with their waits\<close>
  "refusals nowMs r m = {(ck_limit c, wait_of c) |c. c \<in> set (checks_of m nowMs r) \<and> ck_level c < ck_need c}
     \<union> (if conc_full nowMs r m then {(LimitConcurrency, concurrencyRetryMs)} else {})"

definition pruned :: "int \<Rightarrow> model_request \<Rightarrow> rl_model \<Rightarrow> rl_model" where
  "pruned nowMs r m = (if li_MaxConcurrent (mr_Limits r) > 0 then prune_leases nowMs (keyConcurrency (mr_TenantID r)) m else m)"

definition admit :: "int \<Rightarrow> model_request \<Rightarrow> rl_model \<Rightarrow> rl_model" where
  \<comment> \<open>the state after an admission\<close>
  "admit nowMs r m =
     (let m2 = foldl (charge nowMs) (pruned nowMs r m) (checks_of m nowMs r); k = keyConcurrency (mr_TenantID r)
      in if li_MaxConcurrent (mr_Limits r) > 0
         then m2\<lparr>md_leases := mput k (mput (mr_LeaseID r) (nowMs + rp_LeaseTTLMs (md_p m)) (held_leases m2 k)) (md_leases m2)\<rparr> else m2)"

lemma Allow_spec:
  assumes "rl_ok m" "request_ok r"
  shows "refusals nowMs r m = {} \<Longrightarrow> Allow nowMs r m = (admit nowMs r m, \<lparr>oc_Allowed = True, oc_Limit = None, oc_RetryMs = 0\<rparr>)"
    "refusals nowMs r m \<noteq> {} \<Longrightarrow> \<exists>l w. Allow nowMs r m = (pruned nowMs r m, \<lparr>oc_Allowed = False, oc_Limit = Some l, oc_RetryMs = w\<rparr>)
       \<and> (l, w) \<in> refusals nowMs r m \<and> 0 < w \<and> (\<forall>(l', w') \<in> refusals nowMs r m. w' \<le> w)"
proof -
  let ?cs = "checks_of m nowMs r"
  have q: "\<forall>c \<in> set ?cs. 0 < ck_quota c" using checks_ok[OF assms] by (auto simp: check_ok_def)
  define w1 where "w1 = foldl (consider_check False) (None, 0) ?cs"
  define w2 where "w2 = (if conc_full nowMs r m then rl_consider LimitConcurrency concurrencyRetryMs w1 else w1)"
  define w3 where "w3 = foldl (consider_check True) w2 ?cs"
  have F1: "(fst w1 = None) = (snd w1 = 0)" "0 \<le> snd w1"
    "\<And>c. c \<in> set ?cs \<Longrightarrow> ck_level c < ck_need c \<Longrightarrow> ck_limit c \<noteq> LimitModel \<Longrightarrow> 0 < wait_of c \<and> wait_of c \<le> snd w1"
    "w1 = (None, 0) \<or> (\<exists>c \<in> set ?cs. ck_level c < ck_need c \<and> w1 = (Some (ck_limit c), wait_of c))"
    using consider_fold[OF w1_def _ _ q] by auto
  have ok2: "0 \<le> snd w2" "fst w2 = None \<longleftrightarrow> snd w2 = 0" "snd w1 \<le> snd w2" "conc_full nowMs r m \<longrightarrow> concurrencyRetryMs \<le> snd w2"
    "w2 = w1 \<or> conc_full nowMs r m \<and> w2 = (Some LimitConcurrency, concurrencyRetryMs)"
    using F1(1,2) by (simp_all add: w2_def rl_consider_def concurrencyRetryMs_def)
  have F2: "(fst w3 = None) = (snd w3 = 0)" "snd w2 \<le> snd w3"
    "\<And>c. c \<in> set ?cs \<Longrightarrow> ck_level c < ck_need c \<Longrightarrow> ck_limit c = LimitModel \<Longrightarrow> 0 < wait_of c \<and> wait_of c \<le> snd w3"
    "w3 = w2 \<or> (\<exists>c \<in> set ?cs. ck_level c < ck_need c \<and> w3 = (Some (ck_limit c), wait_of c))"
    using consider_fold[OF w3_def ok2(1,2) q] by auto
  have full: "(0 < li_MaxConcurrent (mr_Limits r) \<and> li_MaxConcurrent (mr_Limits r)
       \<le> int (length (held_leases (pruned nowMs r m) (keyConcurrency (mr_TenantID r))))) = conc_full nowMs r m"
    by (simp add: conc_full_def pruned_def held_prune)
  have A: "Allow nowMs r m = (if fst w3 \<noteq> None then (pruned nowMs r m, \<lparr>oc_Allowed = False, oc_Limit = fst w3, oc_RetryMs = snd w3\<rparr>)
      else (admit nowMs r m, \<lparr>oc_Allowed = True, oc_Limit = None, oc_RetryMs = 0\<rparr>))"
    by (simp only: Allow_def Let_def w3_def w2_def w1_def pruned_def[symmetric] admit_def full)
  have bound: "w' \<le> snd w3 \<and> 0 < w'" if h: "(l', w') \<in> refusals nowMs r m" for l' w'
  proof -
    consider c where "c \<in> set ?cs" "ck_level c < ck_need c" "w' = wait_of c" | "conc_full nowMs r m" "w' = concurrencyRetryMs"
      using h by (auto simp: refusals_def split: if_splits)
    then show ?thesis
    proof cases
      case (1 c)
      show ?thesis
      proof (cases "ck_limit c = LimitModel")
        case True
        then show ?thesis using F2(3)[OF 1(1,2)] 1(3) by simp
      next
        case False
        then show ?thesis using F1(3)[OF 1(1,2)] 1(3) ok2(3) F2(2) by simp
      qed
    next
      case 2
      then show ?thesis using F2(2) ok2(4) by (simp add: concurrencyRetryMs_def)
    qed
  qed
  have src: "(the (fst w3), snd w3) \<in> refusals nowMs r m" if s: "fst w3 \<noteq> None"
  proof -
    have "(\<exists>c \<in> set ?cs. ck_level c < ck_need c \<and> w3 = (Some (ck_limit c), wait_of c)) \<or> conc_full nowMs r m \<and> w3 = (Some LimitConcurrency, concurrencyRetryMs)"
      using F1(4) ok2(5) F2(4) s by auto
    then show ?thesis by (auto simp: refusals_def)
  qed
  show "Allow nowMs r m = (admit nowMs r m, \<lparr>oc_Allowed = True, oc_Limit = None, oc_RetryMs = 0\<rparr>)" if "refusals nowMs r m = {}"
  proof -
    have "fst w3 = None" using src that by blast
    then show ?thesis by (simp add: A)
  qed
  show "\<exists>l w. Allow nowMs r m = (pruned nowMs r m, \<lparr>oc_Allowed = False, oc_Limit = Some l, oc_RetryMs = w\<rparr>)
       \<and> (l, w) \<in> refusals nowMs r m \<and> 0 < w \<and> (\<forall>(l', w') \<in> refusals nowMs r m. w' \<le> w)" if ne: "refusals nowMs r m \<noteq> {}"
  proof -
    obtain l' w' where "(l', w') \<in> refusals nowMs r m" using ne by auto
    then have "0 < snd w3" using bound by fastforce
    then have s: "fst w3 \<noteq> None" using F2 by auto
    then show ?thesis using src[OF s] bound \<open>0 < snd w3\<close> by (intro exI[of _ "the (fst w3)"] exI[of _ "snd w3"]) (auto simp: A)
  qed
qed

section \<open>Charging\<close>

lemma charge_frame [simp]: "md_p (charge now m c) = md_p m" "md_leases (charge now m c) = md_leases m"
  by (simp_all add: charge_def)

lemma charges_frame [simp]: "md_p (foldl (charge now) m cs) = md_p m" "md_leases (foldl (charge now) m cs) = md_leases m"
  by (induction cs arbitrary: m) simp_all

lemma pruned_frame [simp]: "md_p (pruned now r m) = md_p m" "md_buckets (pruned now r m) = md_buckets m"
  by (simp_all add: pruned_def prune_leases_def split: option.split)

lemma charge_get:
  "mget (md_buckets (charge now m c)) k
     = (if k = ck_key c then Some \<lparr>bk_level = ck_level c - ck_need c, bk_at = stamp_of m k now, bk_set = True\<rparr> else mget (md_buckets m) k)"
  by (auto simp: charge_def mget_mput stamp_of_def Let_def split: option.splits)

lemma charges_get:
  assumes "distinct (map ck_key cs)"
  shows "mget (md_buckets (foldl (charge now) m cs)) k
     = (case find (\<lambda>c. ck_key c = k) cs of
          Some c \<Rightarrow> Some \<lparr>bk_level = ck_level c - ck_need c, bk_at = stamp_of m k now, bk_set = True\<rparr> | None \<Rightarrow> mget (md_buckets m) k)"
  using assms
proof (induction cs arbitrary: m)
  case (Cons c cs)
  have st: "k \<noteq> ck_key c \<Longrightarrow> stamp_of (charge now m c) k now = stamp_of m k now" by (simp add: stamp_of_def charge_get)
  have none: "find (\<lambda>d. ck_key d = ck_key c) cs = None" using Cons.prems by (auto simp: find_None_iff) (metis image_eqI)
  show ?case
    using Cons.IH[of "charge now m c"] Cons.prems st none by (cases "k = ck_key c") (auto simp: charge_get split: option.splits)
qed simp

lemma admit_frame [simp]: "md_p (admit now r m) = md_p m"
    "md_buckets (admit now r m) = md_buckets (foldl (charge now) (pruned now r m) (checks_of m now r))"
  by (simp_all add: admit_def Let_def)

lemma admit_get:
  "mget (md_buckets (admit now r m)) k
     = (case find (\<lambda>c. ck_key c = k) (checks_of m now r) of
          Some c \<Rightarrow> Some \<lparr>bk_level = ck_level c - ck_need c, bk_at = stamp_of m k now, bk_set = True\<rparr> | None \<Rightarrow> mget (md_buckets m) k)"
  by (simp add: charges_get[OF checks_keys] stamp_of_def split: option.split)

lemma mok_charges: "mok (md_buckets m) \<Longrightarrow> mok (md_buckets (foldl (charge now) m cs))"
  by (induction cs arbitrary: m) (simp_all add: charge_def Let_def)

lemma refusals_none: "refusals now r m = {} \<Longrightarrow> c \<in> set (checks_of m now r) \<Longrightarrow> ck_need c \<le> ck_level c"
  unfolding refusals_def by (auto simp: not_less[symmetric])

lemma Allow_fst:
  assumes "rl_ok m" "request_ok r"
  shows "fst (Allow now r m) = (if refusals now r m = {} then admit now r m else pruned now r m)"
    "oc_Allowed (snd (Allow now r m)) = (refusals now r m = {})"
  using Allow_spec[OF assms, of now] by (cases "refusals now r m = {}"; force)+

lemma Allow_ok:
  assumes "rl_ok m" "request_ok r"
  shows "rl_ok (fst (Allow now r m))" "md_p (fst (Allow now r m)) = md_p m"
proof -
  have "bucket_ok b" if e: "refusals now r m = {}" "mget (md_buckets (admit now r m)) k = Some b" for k b
  proof (cases "find (\<lambda>c. ck_key c = k) (checks_of m now r)")
    case None
    then have "mget (md_buckets m) k = Some b" using e(2) by (simp only: admit_get option.case)
    then show ?thesis using assms(1) mget_mem by (force simp: rl_ok_def)
  next
    case (Some c)
    then have "c \<in> set (checks_of m now r)" by (auto simp: find_Some_iff)
    moreover have "Some b = Some \<lparr>bk_level = ck_level c - ck_need c, bk_at = stamp_of m k now, bk_set = True\<rparr>"
      using e(2) Some by (simp only: admit_get option.case)
    ultimately show ?thesis using refusals_none[OF e(1)] by (simp add: bucket_ok_def)
  qed
  moreover have "mok (md_buckets (admit now r m))" using assms(1) mok_charges[of "pruned now r m"] by (simp add: rl_ok_def)
  ultimately have "rl_ok (admit now r m)" if "refusals now r m = {}"
    using that assms(1) unfolding rl_ok_def by (auto simp: mget_iff_mem[symmetric] simp del: admit_frame(2))
  then show "rl_ok (fst (Allow now r m))" using assms by (auto simp: Allow_fst[OF assms]) (simp add: rl_ok_def)
  show "md_p (fst (Allow now r m)) = md_p m" by (simp add: Allow_fst[OF assms])
qed

section \<open>The token bucket over a history\<close>

datatype rl_call = DoAllow int model_request | DoRelease string string | DoRenew int string string

fun rate_run :: "rl_call list \<Rightarrow> rl_model \<Rightarrow> rl_model \<times> model_request list" where
  \<comment> \<open>the model after a sequence of calls, and the requests that were admitted\<close>
  "rate_run [] m = (m, [])"
| "rate_run (DoAllow now r # cs) m = (let (m1, out) = Allow now r m; (m2, adm) = rate_run cs m1 in (m2, if oc_Allowed out then r # adm else adm))"
| "rate_run (DoRelease t l # cs) m = rate_run cs (fst (Release t l m))"
| "rate_run (DoRenew now t l # cs) m = rate_run cs (fst (Renew now t l m))"

definition checks_all :: "(int \<Rightarrow> model_request \<Rightarrow> bool) \<Rightarrow> rl_call list \<Rightarrow> bool" where
  "checks_all P cs \<longleftrightarrow> (\<forall>now r. DoAllow now r \<in> set cs \<longrightarrow> P now r)"

definition no_later_stamp :: "int \<Rightarrow> rl_model \<Rightarrow> bool" where
  "no_later_stamp now m \<longleftrightarrow> (\<forall>q \<in> set (md_buckets m). bk_set (snd q) \<and> bk_at (snd q) \<le> now)"

definition spend :: "rl_params \<Rightarrow> string \<Rightarrow> model_request \<Rightarrow> int" where
  \<comment> \<open>what an admitted request takes from the bucket \<open>k\<close>\<close>
  "spend p k r = sum_list (map ck_need (filter (\<lambda>c. ck_key c = k) (checks_of (NewModel p) 0 r)))"

definition quota_of :: "string \<Rightarrow> int \<Rightarrow> model_request \<Rightarrow> bool" where
  \<comment> \<open>the request uses the bucket \<open>k\<close> with the given quota, or not at all\<close>
  "quota_of k quota r \<longleftrightarrow> (keyRequests (mr_TenantID r) = k \<longrightarrow> li_RequestsPerMinute (mr_Limits r) = quota)
     \<and> (keyTokens (mr_TenantID r) = k \<longrightarrow> li_TokensPerMinute (mr_Limits r) = quota)
     \<and> (keyModel (mr_Model r) = k \<longrightarrow> mr_ModelRequestsPerMinute r = quota)"

definition potential :: "int \<Rightarrow> int \<Rightarrow> int \<Rightarrow> string \<Rightarrow> int \<Rightarrow> rl_model \<Rightarrow> bool" where
  \<comment> \<open>what was spent since \<open>t0\<close> and what the bucket holds come from one full bucket and the refill since then\<close>
  "potential t0 tN quota k spent m \<longleftrightarrow> (case mget (md_buckets m) k of
       None \<Rightarrow> spent = 0
     | Some b \<Rightarrow> bk_set b \<and> bk_at b \<le> tN
         \<and> spent + min (capacity (md_p m) quota) (bk_level b + quota * max 0 (t0 - bk_at b)) \<le> capacity (md_p m) quota + quota * max 0 (bk_at b - t0))"

lemma check_key_need:
  assumes "rl_ok m" "request_ok r" "c \<in> set (checks_of m now r)" "ck_key c = k" "quota_of k quota r"
  shows "ck_quota c = quota" "ck_level c = fst (peek m k now quota)" "spend (md_p m) k r = ck_need c" "0 < quota"
proof -
  let ?m = "NewModel (md_p m)"
  have p: "snd (peek x key now' q) = capacity (md_p x) q" for x key now' q
    by (simp add: peek_def Let_def split: option.split)
  have n: "map (\<lambda>c. (ck_key c, ck_need c)) (checks_of x now' r) = map (\<lambda>c. (ck_key c, ck_need c)) (checks_of y now'' r)"
    if "md_p x = md_p y" for x y now' now''
    using that p[of x] p[of y] by (simp add: checks_of_def add_check_def case_prod_beta Let_def)
  have sp: "spend (md_p m) k r = sum_list (map ck_need (filter (\<lambda>c. ck_key c = k) (checks_of m now r)))"
  proof -
    have f: "map ck_need (filter (\<lambda>c. ck_key c = k) cs) = map snd (filter (\<lambda>q. fst q = k) (map (\<lambda>c. (ck_key c, ck_need c)) cs))" for cs
      by (induction cs) auto
    have "md_p ?m = md_p m" by (simp add: NewModel_def)
    from n[OF this, of 0 now] show ?thesis unfolding spend_def f by (simp only:)
  qed
  have u: "filter (\<lambda>c. ck_key c = k) (checks_of m now r) = [c]"
    using assms(3,4) by (auto simp: checks_of_def add_check_def case_prod_beta Let_def split: if_splits)
  show "spend (md_p m) k r = ck_need c" by (simp add: sp u)
  have "c \<in> set (add_check m now LimitRequests (keyRequests (mr_TenantID r)) (li_RequestsPerMinute (mr_Limits r)) 1)
      \<or> c \<in> set (add_check m now LimitTokens (keyTokens (mr_TenantID r)) (li_TokensPerMinute (mr_Limits r)) (mr_Cost r))
      \<or> c \<in> set (add_check m now LimitModel (keyModel (mr_Model r)) (mr_ModelRequestsPerMinute r) 1)"
    using assms(3) by (simp add: checks_of_def)
  moreover have "ck_quota c = quota \<and> ck_level c = fst (peek m k now quota)"
    if "c \<in> set (add_check m now l key q cost)" "0 \<le> cost" "key = k \<longrightarrow> q = quota" for l key q cost
    using add_check_ok(3,4,5)[OF assms(1) that(2,1)] that(3) assms(4) by simp
  ultimately have "ck_quota c = quota \<and> ck_level c = fst (peek m k now quota)"
    using assms(2,5) unfolding quota_of_def request_ok_def by fastforce
  then show q: "ck_quota c = quota" "ck_level c = fst (peek m k now quota)" by simp_all
  show "0 < quota" using checks_ok[OF assms(1,2,3)] q(1) by (simp add: check_ok_def)
qed

lemma peek_set:
  assumes "mget (md_buckets m) k = Some b" "bk_set b"
  shows "fst (peek m k now quota) = min (capacity (md_p m) quota) (bk_level b + min (rp_BurstSeconds (md_p m) * 1000) (max 0 (now - bk_at b)) * quota)"
proof -
  have "(if e < 0 then 0 else e) = max 0 e" "(if e > w then w else e) = min w e" for e w :: int by auto
  then show ?thesis using assms by (simp only: peek_def Let_def option.case not_True_eq_False if_False if_True fst_conv)
qed

lemma peek_unset: "mget (md_buckets m) k = None \<Longrightarrow> fst (peek m k now quota) = capacity (md_p m) quota"
  by (simp add: peek_def Let_def)

lemma peek_le:
  assumes "mget (md_buckets m) k = Some b" "bk_set b" "0 \<le> quota"
  shows "fst (peek m k now quota) \<le> bk_level b + (stamp_of m k now - bk_at b) * quota"
proof -
  have "stamp_of m k now - bk_at b = max 0 (now - bk_at b)" using assms(1,2) by (auto simp: stamp_of_def)
  moreover have "min w x * quota \<le> x * quota" for w x :: int using assms(3) by (intro mult_right_mono) auto
  ultimately show ?thesis unfolding peek_set[OF assms(1,2)] by (metis add_left_mono min.coboundedI2)
qed

lemma refill_le:
  fixes q :: int
  assumes "0 \<le> q" "t0 \<le> now" "lv \<le> cap" "lv \<le> level + (max at' now - at') * q"
    and "spent + min cap (level + q * max 0 (t0 - at')) \<le> cap + q * max 0 (at' - t0)"
  shows "spent + lv \<le> cap + q * (max at' now - t0)"
proof -
  have d: "(x - y) * q = q * x - q * y" "q * (x - y) = q * x - q * y" for x y by (simp_all add: algebra_simps)
  have m: "q * t0 \<le> q * now" "at' \<le> now \<Longrightarrow> q * at' \<le> q * now" "t0 \<le> at' \<Longrightarrow> q * t0 \<le> q * at'" using assms(1,2) by (auto intro: mult_left_mono)
  show ?thesis
  proof (cases "t0 \<le> at'")
    case True
    then have "spent + min cap level \<le> cap + (q * at' - q * t0)" using assms(5) by (simp add: d)
    then show ?thesis using assms(3,4) m(2) m(3)[OF True] by (cases "at' \<le> now"; cases "level \<le> cap") (auto simp: d max_def min_def split: if_splits)
  next
    case False
    then have "spent + min cap (level + (q * t0 - q * at')) \<le> cap" using assms(5) by (simp add: d max_def)
    then show ?thesis using assms(2,3,4) m(1) False by (cases "level + (q * t0 - q * at') \<le> cap") (auto simp: d max_def min_def split: if_splits)
  qed
qed

lemma potential_step:
  assumes m: "rl_ok m" "request_ok r" and q: "quota_of k quota r" "0 \<le> quota" and t: "t0 \<le> now" "now \<le> tN" and pot: "potential t0 tN quota k spent m"
  shows "potential t0 tN quota k (spent + (if oc_Allowed (snd (Allow now r m)) then spend (md_p m) k r else 0)) (fst (Allow now r m))"
proof (cases "refusals now r m = {}")
  case False
  then show ?thesis using pot by (simp add: Allow_fst[OF m] potential_def split: option.splits)
next
  case True
  let ?cs = "checks_of m now r"
  show ?thesis
  proof (cases "find (\<lambda>c. ck_key c = k) ?cs")
    case None
    then have "filter (\<lambda>c. ck_key c = k) ?cs = []" by (auto simp: find_None_iff filter_empty_conv)
    moreover have "map (\<lambda>c. ck_key c) ?cs = map ck_key (checks_of (NewModel (md_p m)) 0 r)"
      by (simp add: checks_of_def add_check_def case_prod_beta Let_def)
    then have "ck_key ` set ?cs = ck_key ` set (checks_of (NewModel (md_p m)) 0 r)" by (metis list.set_map)
    ultimately have "filter (\<lambda>c. ck_key c = k) (checks_of (NewModel (md_p m)) 0 r) = []"
      by (auto simp: filter_empty_conv) (metis imageE imageI)
    then have "spend (md_p m) k r = 0" unfolding spend_def by simp
    then show ?thesis using pot True None by (simp add: Allow_fst[OF m] potential_def admit_get split: option.splits del: admit_frame(2))
  next
    case (Some c)
    then have c: "c \<in> set ?cs" "ck_key c = k" by (auto simp: find_Some_iff)
    note ck = check_key_need[OF m c q(1)]
    have lv: "ck_level c \<le> capacity (md_p m) quota" using checks_ok[OF m c(1)] ck(1) by (simp add: check_ok_def)
    have st: "t0 \<le> stamp_of m k now" using t(1) by (auto simp: stamp_of_def split: option.splits)
    have "spent + ck_level c \<le> capacity (md_p m) quota + quota * (stamp_of m k now - t0) \<and> stamp_of m k now \<le> tN"
    proof (cases "mget (md_buckets m) k")
      case None
      moreover have "0 \<le> quota * (now - t0)" using q(2) t by simp
      ultimately show ?thesis using pot t lv by (simp add: potential_def stamp_of_def)
    next
      case (Some b)
      then have b: "bk_set b" "bk_at b \<le> tN"
          "spent + min (capacity (md_p m) quota) (bk_level b + quota * max 0 (t0 - bk_at b)) \<le> capacity (md_p m) quota + quota * max 0 (bk_at b - t0)"
        using pot by (simp_all add: potential_def)
      have sm: "stamp_of m k now = max (bk_at b) now" using Some b(1) by (simp add: stamp_of_def max_def)
      have "ck_level c \<le> bk_level b + (max (bk_at b) now - bk_at b) * quota" using peek_le[OF Some b(1) q(2), of now] ck(2) sm by simp
      from refill_le[OF q(2) t(1) lv this b(3)] show ?thesis using b(2) t(2) by (simp add: sm)
    qed
    moreover have "mget (md_buckets (admit now r m)) k = Some \<lparr>bk_level = ck_level c - ck_need c, bk_at = stamp_of m k now, bk_set = True\<rparr>"
      using Some by (simp add: admit_get del: admit_frame(2))
    moreover have "min (capacity (md_p m) quota) (ck_level c - ck_need c) \<le> ck_level c - ck_need c" "max 0 (stamp_of m k now - t0) = stamp_of m k now - t0" "max 0 (t0 - stamp_of m k now) = 0"
      using st by simp_all
    ultimately show ?thesis using True ck(3) by (simp add: Allow_fst[OF m] potential_def del: admit_frame(2) min.cobounded2)
  qed
qed

lemma lease_calls [simp]:
  "md_p (fst (Release t l m)) = md_p m" "md_buckets (fst (Release t l m)) = md_buckets m" "md_p (fst (Renew now t l m)) = md_p m" "md_buckets (fst (Renew now t l m)) = md_buckets m"
  by (simp_all add: Release_def Renew_def Let_def split: option.splits)

lemma buckets_only:
  assumes "md_p m' = md_p m" "md_buckets m' = md_buckets m"
  shows "rl_ok m' = rl_ok m" "potential t0 tN q k s m' = potential t0 tN q k s m" "no_later_stamp t m' = no_later_stamp t m"
  using assms by (simp_all add: rl_ok_def potential_def no_later_stamp_def cong: option.case_cong)

lemmas lease_calls_keep [simp] = buckets_only[OF lease_calls(1,2)] buckets_only[OF lease_calls(3,4)]

lemma rate_run_admitted: "r \<in> set (snd (rate_run cs m)) \<Longrightarrow> \<exists>now. DoAllow now r \<in> set cs"
proof (induction cs arbitrary: m)
  case (Cons c cs)
  then show ?case by (cases c) (fastforce simp: case_prod_beta Let_def split: if_splits)+
qed simp

lemma stamps_step:
  assumes "rl_ok m" "request_ok r" "no_later_stamp tN m" "now \<le> tN"
  shows "no_later_stamp tN (fst (Allow now r m))"
proof (cases "refusals now r m = {}")
  case True
  have ok: "mok (md_buckets m)" "mok (md_buckets (admit now r m))" using assms(1) Allow_ok(1)[OF assms(1,2), of now] True by (simp_all add: Allow_fst[OF assms(1,2)] rl_ok_def)
  have old: "bk_set b \<and> bk_at b \<le> tN" if "mget (md_buckets m) k = Some b" for k b using assms(3) mget_mem[OF that] by (auto simp: no_later_stamp_def)
  have st: "stamp_of m k now \<le> tN" for k using old[of k] assms(4) by (auto simp: stamp_of_def split: option.splits)
  have "bk_set b \<and> bk_at b \<le> tN" if "mget (md_buckets (admit now r m)) k = Some b" for k b
    using that old st[of k] by (auto simp: admit_get simp del: admit_frame(2) split: option.splits)
  then have "no_later_stamp tN (admit now r m)" using ok(2) by (auto simp: no_later_stamp_def mget_iff_mem simp del: admit_frame(2))
  then show ?thesis using True by (simp add: Allow_fst[OF assms(1,2)])
qed (use assms(3) in \<open>simp add: Allow_fst[OF assms(1,2)] no_later_stamp_def\<close>)

lemma stamps_run:
  assumes "rl_ok m" "no_later_stamp tN m" "checks_all (\<lambda>now r. request_ok r \<and> now \<le> tN) cs"
  shows "rl_ok (fst (rate_run cs m)) \<and> no_later_stamp tN (fst (rate_run cs m)) \<and> md_p (fst (rate_run cs m)) = md_p m"
  using assms
proof (induction cs m rule: rate_run.induct)
  case (2 now r cs m)
  obtain m1 out where m1: "Allow now r m = (m1, out)" by force
  have r: "request_ok r" "now \<le> tN" using "2.prems"(3) by (auto simp: checks_all_def)
  have "rl_ok m1 \<and> md_p m1 = md_p m \<and> no_later_stamp tN m1" using Allow_ok[OF "2.prems"(1) r(1), of now] stamps_step[OF "2.prems"(1) r(1) "2.prems"(2) r(2)] by (simp add: m1)
  then show ?case using "2.IH"[OF m1[symmetric] refl] "2.prems"(3) by (simp add: m1 case_prod_beta Let_def checks_all_def)
qed (simp_all add: checks_all_def)

lemma potential_run:
  assumes "rl_ok m" "checks_all (\<lambda>now r. request_ok r \<and> quota_of k quota r \<and> t0 \<le> now \<and> now \<le> tN) cs" "0 \<le> quota" "potential t0 tN quota k spent m"
  shows "rl_ok (fst (rate_run cs m)) \<and> md_p (fst (rate_run cs m)) = md_p m
    \<and> potential t0 tN quota k (spent + sum_list (map (spend (md_p m) k) (snd (rate_run cs m)))) (fst (rate_run cs m))"
  using assms
proof (induction cs m arbitrary: spent rule: rate_run.induct)
  case (2 now r cs m)
  have r: "request_ok r" "quota_of k quota r" "t0 \<le> now" "now \<le> tN" using "2.prems"(2) by (auto simp: checks_all_def)
  obtain m1 out where m1: "Allow now r m = (m1, out)" by force
  have ok1: "rl_ok m1" "md_p m1 = md_p m" using Allow_ok[OF "2.prems"(1) r(1), of now] by (simp_all add: m1)
  have p: "potential t0 tN quota k (spent + (if oc_Allowed out then spend (md_p m) k r else 0)) m1"
    using potential_step[OF "2.prems"(1) r(1,2) "2.prems"(3) r(3,4) "2.prems"(4)] by (simp add: m1)
  have "checks_all (\<lambda>now r. request_ok r \<and> quota_of k quota r \<and> t0 \<le> now \<and> now \<le> tN) cs" using "2.prems"(2) by (simp add: checks_all_def)
  from "2.IH"[OF m1[symmetric] refl ok1(1) this "2.prems"(3) p] show ?case
    by (cases "oc_Allowed out") (simp_all add: m1 ok1(2) case_prod_beta Let_def add.assoc)
qed (simp_all add: checks_all_def)

lemma potential_bound:
  assumes "rl_ok m" "potential t0 tN quota k spent m" "0 \<le> quota" "t0 \<le> tN"
  shows "spent \<le> capacity (md_p m) quota + quota * (tN - t0)"
proof (cases "mget (md_buckets m) k")
  case None
  then show ?thesis using assms by (simp add: potential_def capacity_def rl_ok_def)
next
  case (Some b)
  then have b: "spent + min (capacity (md_p m) quota) (bk_level b + quota * max 0 (t0 - bk_at b)) \<le> capacity (md_p m) quota + quota * max 0 (bk_at b - t0)"
      "bk_at b \<le> tN" "0 \<le> bk_level b"
    using assms mget_mem[OF Some] by (auto simp: potential_def rl_ok_def bucket_ok_def)
  have "0 \<le> capacity (md_p m) quota" "0 \<le> quota * max 0 (t0 - bk_at b)" using assms(1,3) by (simp_all add: capacity_def rl_ok_def)
  moreover have "quota * max 0 (bk_at b - t0) \<le> quota * (tN - t0)" using b(2) assms(3,4) by (intro mult_left_mono) auto
  ultimately show ?thesis using b by linarith
qed

section \<open>Properties\<close>

lemma potential_start: "no_later_stamp tN m \<Longrightarrow> 0 \<le> quota \<Longrightarrow> potential t0 tN quota k 0 m"
  by (cases "mget (md_buckets m) k") (auto simp: potential_def no_later_stamp_def dest!: mget_mem intro: add_increasing2 min.coboundedI1)

lemma spend_tenant:
  assumes "mr_TenantID r = t \<longrightarrow> li_RequestsPerMinute (mr_Limits r) = Q \<and> li_TokensPerMinute (mr_Limits r) = K" "0 < Q" "0 < K"
  shows "spend p (keyRequests t) r = (if mr_TenantID r = t then need 1 (capacity p Q) else 0)"
    "spend p (keyTokens t) r = (if mr_TenantID r = t then need (mr_Cost r) (capacity p K) else 0)"
proof -
  have "snd (peek (NewModel p) key 0 q) = capacity p q" for key q by (simp add: peek_def NewModel_def Let_def)
  then show "spend p (keyRequests t) r = (if mr_TenantID r = t then need 1 (capacity p Q) else 0)"
      "spend p (keyTokens t) r = (if mr_TenantID r = t then need (mr_Cost r) (capacity p K) else 0)"
    using assms by (auto simp: spend_def checks_of_def add_check_def case_prod_beta Let_def)
qed


text \<open>The level of a bucket at a later time.\<close>

lemma ceilDiv_less: "0 < a \<Longrightarrow> 0 < b \<Longrightarrow> d < ceilDiv a b \<longleftrightarrow> d * b < a"
proof -
  assume ab: "0 < a" "0 < b"
  note c = ceilDiv_spec[OF ab]
  show ?thesis
  proof
    assume "d < ceilDiv a b"
    then have "d * b \<le> (ceilDiv a b - 1) * b" using ab by (intro mult_right_mono) auto
    then show "d * b < a" using c by linarith
  next
    assume *: "d * b < a"
    show "d < ceilDiv a b"
    proof (rule ccontr)
      assume "\<not> d < ceilDiv a b"
      then have "ceilDiv a b * b \<le> d * b" using ab by (intro mult_right_mono) auto
      then show False using c * by linarith
    qed
  qed
qed

lemma level_later:
  assumes m: "rl_ok m" "no_later_stamp now m" and q: "0 < quota" and n: "n \<le> capacity (md_p m) quota" and d: "0 \<le> d"
  shows "fst (peek m k (now + d) quota) < n
    \<longleftrightarrow> fst (peek m k now quota) < n \<and> d * quota < n - fst (peek m k now quota)"
proof (cases "mget (md_buckets m) k")
  case None
  then show ?thesis using n by (simp add: peek_unset)
next
  case (Some b)
  have b: "bk_set b" "bk_at b \<le> now" "0 \<le> bk_level b"
    using m mget_mem[OF Some] by (auto simp: no_later_stamp_def rl_ok_def bucket_ok_def)
  let ?W = "rp_BurstSeconds (md_p m) * 1000" and ?cap = "capacity (md_p m) quota" and ?e = "now - bk_at b"
  have cap: "?cap = ?W * quota" by (simp add: capacity_def algebra_simps)
  have lv: "fst (peek m k (now + x) quota) < n \<longleftrightarrow> ?e + x < ?W \<and> bk_level b + (?e + x) * quota < n" if "0 \<le> x" for x
  proof (cases "?e + x < ?W")
    case True
    then show ?thesis using that b(2) n by (simp add: peek_set[OF Some b(1)] min_def algebra_simps)
  next
    case False
    then have "min ?W (max 0 (now + x - bk_at b)) = ?W" using that b(2) by auto
    then show ?thesis using False b(3) n cap by (simp add: peek_set[OF Some b(1)])
  qed
  have now: "fst (peek m k now quota) = bk_level b + ?e * quota" if "fst (peek m k now quota) < n"
    using lv[of 0] that n b(2) by (auto simp: peek_set[OF Some b(1)] min_def split: if_splits)
  show ?thesis
  proof (cases "fst (peek m k now quota) < n")
    case True
    have "?e + d < ?W" if "bk_level b + (?e + d) * quota < n"
    proof (rule ccontr)
      assume "\<not> ?e + d < ?W"
      then have "?W * quota \<le> (?e + d) * quota" using q by (intro mult_right_mono) auto
      then show False using that n cap b(3) by linarith
    qed
    then have "fst (peek m k (now + d) quota) < n \<longleftrightarrow> bk_level b + (?e + d) * quota < n" using lv[OF d] by blast
    then show ?thesis using True now by (auto simp: algebra_simps)
  next
    case False
    then have "\<not> (?e < ?W \<and> bk_level b + ?e * quota < n)" using lv[of 0] by simp
    moreover have "?e * quota \<le> (?e + d) * quota" using d q by (intro mult_right_mono) auto
    ultimately show ?thesis using False lv[OF d] d by (auto simp: not_less)
  qed
qed

lemma checks_later:
  "checks_of m (now + d) r = map (\<lambda>c. c\<lparr>ck_level := fst (peek m (ck_key c) (now + d) (ck_quota c))\<rparr>) (checks_of m now r)"
proof -
  have "snd (peek m key t q) = capacity (md_p m) q" for key t q by (simp add: peek_def Let_def split: option.split)
  then show ?thesis by (simp add: checks_of_def add_check_def case_prod_beta Let_def)
qed

lemma check_level: "c \<in> set (checks_of m now r) \<Longrightarrow> ck_level c = fst (peek m (ck_key c) now (ck_quota c))"
  by (auto simp: checks_of_def add_check_def case_prod_beta Let_def split: if_splits)

lemma refused_later:
  assumes m: "rl_ok m" "request_ok r" "no_later_stamp now m" and d: "0 \<le> d"
  shows "refusals (now + d) r m \<noteq> {} \<longleftrightarrow> (\<exists>(l, w) \<in> refusals now r m. l \<noteq> LimitConcurrency \<and> d < w) \<or> conc_full (now + d) r m"
proof -
  have "fst (peek m (ck_key c) (now + d) (ck_quota c)) < ck_need c \<longleftrightarrow> ck_level c < ck_need c \<and> d < wait_of c"
    if "c \<in> set (checks_of m now r)" for c
  proof -
    have ck: "check_ok m c" using checks_ok[OF m(1,2) that] .
    then show ?thesis
      using level_later[OF m(1,3) _ _ d, of "ck_quota c" "ck_need c" "ck_key c"] check_level[OF that]
        ceilDiv_less[of "ck_need c - ck_level c" "ck_quota c" d] by (auto simp: check_ok_def wait_of_def)
  qed
  moreover have "ck_limit c \<noteq> LimitConcurrency" if "c \<in> set (checks_of m now r)" for c
    using that by (auto simp: checks_of_def add_check_def case_prod_beta Let_def split: if_splits)
  ultimately show ?thesis unfolding refusals_def checks_later by (auto split: if_splits)
qed

lemma Held_pruned: "Held now t (pruned now r m) = Held now t m"
proof -
  have "count_if (\<lambda>(_, ex). now < ex) (filter (\<lambda>(_, ex). \<not> ex \<le> now) xs) = count_if (\<lambda>(_, ex). now < ex) xs" for xs :: "(string \<times> int) list"
    by (induction xs) auto
  then show ?thesis
    by (auto simp: Held_def held_leases_def pruned_def prune_leases_def mget_or_def mget_mput split: option.split)
qed

lemma count_if_update_le: "count_if P (mput k v xs) \<le> Suc (length xs)"
proof -
  have "length (mput k v xs) \<le> Suc (length xs)" by (induction xs) auto
  then show ?thesis using count_if_le[of P "mput k v xs"] by linarith
qed

lemma later_same:
  assumes "md_p m' = md_p m" "md_buckets m' = md_buckets m" "\<And>t. Held now t m' = Held now t m"
  shows "refusals now r m' = refusals now r m"
proof -
  have "peek m' = peek m" using assms(1,2) by (auto simp: peek_def fun_eq_iff Let_def split: option.split)
  then show ?thesis using assms by (simp add: refusals_def conc_full_def checks_of_def add_check_def)
qed

lemma Held_pruned_later: "0 \<le> d \<Longrightarrow> Held (now + d) t (pruned now r m) = Held (now + d) t m"
proof -
  assume d: "0 \<le> d"
  have "count_if (\<lambda>(_, ex). now + d < ex) (filter (\<lambda>(_, ex). \<not> ex \<le> now) xs) = count_if (\<lambda>(_, ex). now + d < ex) xs" for xs :: "(string \<times> int) list"
    using d by (induction xs) auto
  then show ?thesis
    by (auto simp: Held_def held_leases_def pruned_def prune_leases_def mget_or_def mget_mput split: option.split)
qed


text \<open>A check is all or nothing: a refusal charges no bucket and changes no live lease, and names a quota that refuses with the
  longest wait; an admission takes what the request needs from every bucket with a quota, none goes negative, and the tenant
  then holds at most \<^verbatim>\<open>MaxConcurrent\<close> live leases.\<close>

theorem allow_all_or_nothing:
  assumes "rl_ok m" "request_ok r" "Allow now r m = (m', out)"
  shows "(\<not> oc_Allowed out \<longrightarrow> md_buckets m' = md_buckets m \<and> (\<forall>t. Held now t m' = Held now t m)
       \<and> (\<exists>l. oc_Limit out = Some l \<and> (l, oc_RetryMs out) \<in> refusals now r m) \<and> (\<forall>(l, w) \<in> refusals now r m. w \<le> oc_RetryMs out))
    \<and> (oc_Allowed out \<longrightarrow> (\<forall>c \<in> set (checks_of m now r). 0 \<le> ck_level c - ck_need c
         \<and> mget (md_buckets m') (ck_key c) = Some \<lparr>bk_level = ck_level c - ck_need c, bk_at = stamp_of m (ck_key c) now, bk_set = True\<rparr>)
       \<and> (0 < li_MaxConcurrent (mr_Limits r) \<longrightarrow> int (Held now (mr_TenantID r) m') \<le> li_MaxConcurrent (mr_Limits r)))"
proof (cases "refusals now r m = {}")
  case True
  then have o: "m' = admit now r m" "oc_Allowed out" using Allow_spec(1)[OF assms(1,2) True] assms(3) by simp_all
  have get: "mget (md_buckets m') (ck_key c) = Some \<lparr>bk_level = ck_level c - ck_need c, bk_at = stamp_of m (ck_key c) now, bk_set = True\<rparr>"
    if "c \<in> set (checks_of m now r)" for c
  proof (cases "find (\<lambda>d. ck_key d = ck_key c) (checks_of m now r)")
    case None
    then show ?thesis using that by (auto simp: find_None_iff)
  next
    case (Some d)
    then have "d \<in> set (checks_of m now r)" "ck_key d = ck_key c" by (auto simp: find_Some_iff)
    then have "d = c" using that checks_keys[of m now r] by (auto simp: distinct_map inj_on_def)
    then show ?thesis using Some by (simp add: o admit_get del: admit_frame(2))
  qed
  have "int (Held now (mr_TenantID r) m') \<le> li_MaxConcurrent (mr_Limits r)" if mc: "0 < li_MaxConcurrent (mr_Limits r)"
  proof -
    let ?k = "keyConcurrency (mr_TenantID r)"
    have "int (length (held_leases (pruned now r m) ?k)) < li_MaxConcurrent (mr_Limits r)"
      using True mc held_prune[of now "mr_TenantID r" m] by (auto simp: refusals_def conc_full_def pruned_def split: if_splits)
    moreover have "held_leases (foldl (charge now) (pruned now r m) cs) ?k = held_leases (pruned now r m) ?k" for cs by (simp add: held_leases_def)
    then have "Held now (mr_TenantID r) m' \<le> Suc (length (held_leases (pruned now r m) ?k))"
      using mc count_if_update_le by (simp add: o admit_def Held_def Let_def) (simp add: held_leases_def mget_or_mput)
    ultimately show ?thesis by linarith
  qed
  then show ?thesis using o get refusals_none[OF True] by auto
next
  case False
  from Allow_spec(2)[OF assms(1,2) False] show ?thesis using assms(3) Held_pruned by fastforce
qed

section \<open>A tenant with one request per second, for the witnesses\<close>

definition ex_rp :: rl_params where
  "ex_rp = \<lparr>rp_BurstSeconds = 1, rp_LeaseTTLMs = 60000\<rparr>"

definition ex_mr :: model_request where
  "ex_mr = \<lparr>mr_TenantID = ''t'', mr_Model = ''m'', mr_Cost = 3,
     mr_Limits = \<lparr>li_RequestsPerMinute = 60, li_TokensPerMinute = 600, li_MaxConcurrent = 0\<rparr>, mr_ModelRequestsPerMinute = 0, mr_LeaseID = ''''\<rparr>"

definition ex_rm :: rl_model where
  "ex_rm = fst (Allow 5000 ex_mr (NewModel ex_rp))"

lemma ex_rm_eval:
  "ex_rm = \<lparr>md_p = ex_rp, md_buckets = [(keyRequests ''t'', \<lparr>bk_level = 0, bk_at = 5000, bk_set = True\<rparr>),
     (keyTokens ''t'', \<lparr>bk_level = 420000, bk_at = 5000, bk_set = True\<rparr>)], md_leases = []\<rparr>"
  by (simp add: ex_rm_def Allow_def checks_of_def add_check_def peek_def NewModel_def ex_mr_def ex_rp_def capacity_def need_def scale_def
    consider_check_def charge_def Let_def)

lemma ex_rm_ok: "rl_ok ex_rm" "request_ok ex_mr" "no_later_stamp 5400 ex_rm"
  by (simp_all add: ex_rm_eval rl_ok_def bucket_ok_def request_ok_def ex_mr_def no_later_stamp_def mok_def ex_rp_def)

lemma ex_refused: "Allow 5400 ex_mr ex_rm = (ex_rm, \<lparr>oc_Allowed = False, oc_Limit = Some LimitRequests, oc_RetryMs = 600\<rparr>)"
  by (simp add: ex_rm_eval Allow_def checks_of_def add_check_def peek_def ex_mr_def ex_rp_def capacity_def need_def scale_def
    consider_check_def rl_consider_def ceilDiv_def go_div_nonneg Let_def)



theorem allow_all_or_nothing_witness: "(LimitRequests, 600) \<in> refusals 5400 ex_mr ex_rm"
  using allow_all_or_nothing[OF ex_rm_ok(1,2) ex_refused] by simp

end
