(* ===== verification/RateScript.thy ===== *)
theory RateScript
  imports RateModel Float64
begin

text \<open>
  \<^verbatim>\<open>internal/ratelimit/script.go\<close>: the Lua scripts that run inside Redis. A Lua number is a binary64, so the scripts compute on
  \<open>float64\<close>. Redis is a map from keys to hashes and sorted sets, each with the expiry set by \<^verbatim>\<open>PEXPIRE\<close> (a key has expired when
  the server's clock is past it); a field written with \<^verbatim>\<open>string.format('%.0f', x)\<close> is the decimal text of an integer and is
  kept as that integer. The server's clock is the pair of seconds and microseconds that \<^verbatim>\<open>TIME\<close> returns.
\<close>

section \<open>Redis\<close>

record hash_entry =
  he_l :: int
  he_t :: int
  he_expire :: int

record zset_entry =
  ze_members :: "(string, float64) gomap"
  ze_expire :: int

record redis_db =
  db_hash :: "(string, hash_entry) gomap"
  db_zset :: "(string, zset_entry) gomap"

type_synonym redis_time = "int \<times> int" \<comment> \<open>seconds, microseconds\<close>

definition server_ms :: "redis_time \<Rightarrow> int" where
  "server_ms t = fst t * 1000 + snd t div 1000"

definition hget :: "redis_db \<Rightarrow> redis_time \<Rightarrow> string \<Rightarrow> hash_entry option" where
  "hget db t key = (case mget (db_hash db) key of None \<Rightarrow> None | Some e \<Rightarrow> if server_ms t > he_expire e then None else Some e)"

definition zmembers :: "redis_db \<Rightarrow> redis_time \<Rightarrow> string \<Rightarrow> (string, float64) gomap" where
  "zmembers db t key = (case mget (db_zset db) key of None \<Rightarrow> [] | Some e \<Rightarrow> if server_ms t > ze_expire e then [] else ze_members e)"

definition zexpire :: "redis_db \<Rightarrow> redis_time \<Rightarrow> string \<Rightarrow> int" where
  \<comment> \<open>the expiry that a write keeps until the next \<^verbatim>\<open>PEXPIRE\<close>\<close>
  "zexpire db t key = (case mget (db_zset db) key of None \<Rightarrow> server_ms t | Some e \<Rightarrow> if server_ms t > ze_expire e then server_ms t else ze_expire e)"

section \<open>Lua numbers\<close>

definition fint :: "int \<Rightarrow> float64" where
  "fint n = Fin (of_int n)"

definition lua_mod :: "float64 \<Rightarrow> float64 \<Rightarrow> float64" where
  \<comment> \<open>\<^verbatim>\<open>a % b\<close> of Lua 5.1\<close>
  "lua_mod a b = fsub a (fmul (ffloor (fdiv a b)) b)"

fun fmt0 :: "float64 \<Rightarrow> int" where
  \<comment> \<open>\<^verbatim>\<open>string.format('%.0f', x)\<close>; only finite numbers are formatted\<close>
  "fmt0 (Fin x) = rne x"
| "fmt0 _ = 0"

definition lua_now :: "int \<Rightarrow> redis_time \<Rightarrow> float64" where
  "lua_now override t =
     (if flt (Fin 0) (float_of override) then float_of override
      else fadd (fmul (float_of (fst t)) (Fin 1000)) (ffloor (fdiv (float_of (snd t)) (Fin 1000))))"

section \<open>acquireScript\<close>

definition ceil_div :: "float64 \<Rightarrow> float64 \<Rightarrow> float64" where
  "ceil_div a b = (let x = fsub (fadd a b) (Fin 1) in fdiv (fsub x (lua_mod x b)) b)"

definition lua_check :: "float64 \<Rightarrow> float64 \<Rightarrow> redis_db \<Rightarrow> redis_time \<Rightarrow> string \<Rightarrow> float64 \<Rightarrow> float64 \<Rightarrow> float64 \<times> float64 \<times> float64 \<times> float64" where
  \<comment> \<open>the local function \<^verbatim>\<open>check\<close>: level, need, wait, stamp\<close>
  "lua_check now window db t key quota tokens =
     (let cap = fmul quota window;
          (level, stamp) =
            (case hget db t key of
               None \<Rightarrow> (cap, now)
             | Some h \<Rightarrow>
                 let l = float_of (he_l h); ts = float_of (he_t h);
                     st = (if flt now ts then ts else now);
                     e0 = fsub now ts;
                     e1 = (if flt e0 (Fin 0) then Fin 0 else e0);
                     e2 = (if flt window e1 then window else e1);
                     lv = fadd l (fmul e2 quota)
                 in (if flt cap lv then cap else lv, st));
          n0 = fmul tokens (Fin 60000);
          n = (if flt cap n0 then cap else n0);
          wait = (if flt level n then ceil_div (fsub n level) quota else Fin 0)
      in (level, n, wait, stamp))"

definition lua_consider :: "int \<Rightarrow> float64 \<Rightarrow> int \<times> float64 \<Rightarrow> int \<times> float64" where
  "lua_consider code wait best = (if flt (snd best) wait then (code, wait) else best)"

definition lua_store :: "redis_time \<Rightarrow> float64 \<Rightarrow> string \<Rightarrow> float64 \<times> float64 \<times> float64 \<times> float64 \<Rightarrow> redis_db \<Rightarrow> redis_db" where
  "lua_store t window key = (\<lambda>(level, n, _, at') db.
     db\<lparr>db_hash := mput key \<lparr>he_l = fmt0 (fsub level n), he_t = fmt0 at', he_expire = server_ms t + trunc_of (fmul window (Fin 2))\<rparr> (db_hash db)\<rparr>)"

record acquire_args =
  aa_override :: int
  aa_rq :: int
  aa_tq :: int
  aa_mc :: int
  aa_mq :: int
  aa_cost :: int
  aa_burst :: int
  aa_lease_id :: string
  aa_lease_ttl :: int

definition acquireScript :: "redis_time \<Rightarrow> string list \<Rightarrow> acquire_args \<Rightarrow> redis_db \<Rightarrow> redis_db \<times> int list" where
  "acquireScript t keys a db =
     (let now = lua_now (aa_override a) t;
          rq = float_of (aa_rq a); tq = float_of (aa_tq a); mc = float_of (aa_mc a); mq = float_of (aa_mq a);
          cost = float_of (aa_cost a);
          window = fmul (float_of (aa_burst a)) (Fin 1000);
          lease_ttl = float_of (aa_lease_ttl a);
          pos = (\<lambda>x. flt (Fin 0) x);
          req = lua_check now window db t (keys ! 0) rq (Fin 1);
          b1 = (if pos rq \<and> pos (fst (snd (snd req))) then lua_consider 1 (fst (snd (snd req))) (0, Fin 0) else (0, Fin 0));
          tok = lua_check now window db t (keys ! 1) tq cost;
          b2 = (if pos tq \<and> pos (fst (snd (snd tok))) then lua_consider 2 (fst (snd (snd tok))) b1 else b1);
          live = filter (\<lambda>(_, s). \<not> fle s now) (zmembers db t (keys ! 2));
          db1 = (if pos mc then db\<lparr>db_zset := mput (keys ! 2) \<lparr>ze_members = live, ze_expire = zexpire db t (keys ! 2)\<rparr> (db_zset db)\<rparr> else db);
          b3 = (if pos mc \<and> fle mc (float_of (int (length live))) then lua_consider 3 (Fin 1000) b2 else b2);
          md = lua_check now window db t (keys ! 3) mq (Fin 1);
          b4 = (if pos mq \<and> pos (fst (snd (snd md))) then lua_consider 4 (fst (snd (snd md))) b3 else b3)
      in if fst b4 > 0 then (db1, [0, fst b4, trunc_of (snd b4)])
         else let db2 = (if pos rq then lua_store t window (keys ! 0) req db1 else db1);
                  db3 = (if pos tq then lua_store t window (keys ! 1) tok db2 else db2);
                  db4 = (if pos mq then lua_store t window (keys ! 3) md db3 else db3);
                  db5 = (if pos mc
                         then db4\<lparr>db_zset := mput (keys ! 2)
                                \<lparr>ze_members = mput (aa_lease_id a) (float_of (fmt0 (fadd now lease_ttl))) live,
                                 ze_expire = server_ms t + trunc_of (fmul lease_ttl (Fin 2))\<rparr> (db_zset db4)\<rparr>
                         else db4)
              in (db5, [1, 0, 0]))"

section \<open>renewScript and releaseScript\<close>

definition renew_one :: "float64 \<Rightarrow> float64 \<Rightarrow> (string, float64) gomap \<times> int \<Rightarrow> string \<Rightarrow> (string, float64) gomap \<times> int" where
  \<comment> \<open>the loop body; \<^verbatim>\<open>ZADD XX\<close> updates a member that exists\<close>
  "renew_one now ttl = (\<lambda>(ms, renewed) i.
     case mget ms i of
       None \<Rightarrow> (ms, renewed)
     | Some sc \<Rightarrow> if flt now sc then (mput i (float_of (fmt0 (fadd now ttl))) ms, renewed + 1) else (ms, renewed))"

definition renewScript :: "redis_time \<Rightarrow> string \<Rightarrow> int \<Rightarrow> int \<Rightarrow> string list \<Rightarrow> redis_db \<Rightarrow> redis_db \<times> int list" where
  "renewScript t key override ttl ids db =
     (let now = lua_now override t; tl = float_of ttl;
          (ms, renewed) = foldl (renew_one now tl) (zmembers db t key, 0) ids
      in (if renewed > 0 then db\<lparr>db_zset := mput key \<lparr>ze_members = ms, ze_expire = server_ms t + trunc_of (fmul tl (Fin 2))\<rparr> (db_zset db)\<rparr> else db,
          [renewed]))"

definition releaseScript :: "redis_time \<Rightarrow> string \<Rightarrow> string \<Rightarrow> redis_db \<Rightarrow> redis_db \<times> int list" where
  "releaseScript t key lease db =
     (case mget (zmembers db t key) lease of
        None \<Rightarrow> (db, [0])
      | Some _ \<Rightarrow> (db\<lparr>db_zset := mput key \<lparr>ze_members = mdel lease (zmembers db t key), ze_expire = zexpire db t key\<rparr> (db_zset db)\<rparr>, [1]))"

section \<open>Integer arithmetic in doubles is exact below 2^53\<close>

lemma fround_int: "\<bar>n\<bar> < 2 ^ 53 \<Longrightarrow> fround (of_int n) = fint n"
  using float_of_exact[of n] by (simp add: float_of_def fint_def)

lemma float_of_fint: "\<bar>n\<bar> < 2 ^ 53 \<Longrightarrow> float_of n = fint n"
  by (simp add: float_of_exact fint_def)

lemma fint_add: "\<bar>a + b\<bar> < 2 ^ 53 \<Longrightarrow> fadd (fint a) (fint b) = fint (a + b)"
  using fround_int[of "a + b"] by (simp add: fint_def)

lemma fint_sub: "\<bar>a - b\<bar> < 2 ^ 53 \<Longrightarrow> fsub (fint a) (fint b) = fint (a - b)"
  using fround_int[of "a - b"] by (simp add: fint_def fsub_def)

lemma fint_mul: "\<bar>a * b\<bar> < 2 ^ 53 \<Longrightarrow> fmul (fint a) (fint b) = fint (a * b)"
  using fround_int[of "a * b"] by (simp add: fint_def)

lemma fint_less [simp]: "flt (fint a) (fint b) \<longleftrightarrow> a < b" "fle (fint a) (fint b) \<longleftrightarrow> a \<le> b"
  by (simp_all add: fint_def)

lemma fint_num: "Fin 0 = fint 0" "Fin 1 = fint 1" "Fin (numeral k) = fint (numeral k)"
  by (simp_all add: fint_def)

lemma fmt0_fint [simp]: "fmt0 (fint n) = n"
  by (simp add: fint_def)

lemma trunc_fint [simp]: "trunc_of (fint n) = n"
  by (simp add: fint_def)

lemma fint_inj [simp]: "fint a = fint b \<longleftrightarrow> a = b"
  by (simp add: fint_def)

lemma floor_div_exact:
  assumes "0 \<le> x" "0 < b" "x + b < 2 ^ 52"
  shows "ffloor (fdiv (fint x) (fint b)) = fint (x div b)"
proof -
  define q where "q = x div b"
  define s where "s = Suc (log2_nat (nat b))"
  define y :: rat where "y = of_int x / of_int b"
  have q: "0 \<le> q" "q * b \<le> x" "x \<le> q * b + b - 1"
    using assms by (auto simp: q_def pos_imp_zdiv_nonneg_iff) (smt (verit) div_mult_mod_eq pos_mod_bound pos_mod_sign)+
  have qx: "q \<le> x" using q mult_left_mono[of 1 b q] assms(2) by linarith
  have "2 ^ log2_nat (nat b) \<le> nat b" "nat b < 2 ^ s" using log2_nat_bounds[of "nat b"] assms(2) by (simp_all add: s_def)
  then have "int (2 ^ log2_nat (nat b)) \<le> b" "b < int (2 ^ s)" using assms(2) by linarith+
  then have s: "(2::int) ^ s \<le> 2 * b" "b < 2 ^ s" by (simp_all add: s_def)
  let ?z = "of_int ((q + 1) * 2 ^ s - 1) * pow2 (- int s) :: rat"
  have p2: "pow2 (- int s) = 1 / 2 ^ s" by (simp add: pow2_def power_one_over)
  have "(q + 1) * 2 ^ s \<le> (q + 1) * (2 * b)" using s q by (intro mult_left_mono) auto
  also have "\<dots> \<le> 2 * (x + b)" using q by (simp add: algebra_simps)
  finally have m: "\<bar>(q + 1) * 2 ^ s - 1\<bar> < 2 ^ 53" using assms(3) q by (auto simp: abs_less_iff)
  have "s < 1074"
  proof (rule ccontr)
    assume "\<not> s < 1074"
    then have "(2::int) ^ 1074 \<le> 2 ^ s" by (intro power_increasing) auto
    then have "(2::int) ^ 1074 \<le> 2 * b" using s by linarith
    moreover have "(2::int) ^ 54 \<le> 2 ^ 1074" by (intro power_increasing) auto
    ultimately show False using assms by simp
  qed
  then have z: "round_rat ?z = ?z" by (intro round_rat_exact[OF refl m]) simp
  have b0: "(0::rat) < of_int b" using assms(2) by simp
  have "y \<le> of_int (q * b + b - 1) / of_int b" unfolding y_def
    using q(3) b0 by (intro divide_right_mono) (auto simp only: of_int_le_iff intro: less_imp_le)
  also have "\<dots> = of_int q + 1 - 1 / of_int b" using b0 by (simp add: field_simps)
  also have "\<dots> \<le> of_int q + 1 - 1 / 2 ^ s"
  proof -
    have "(of_int b :: rat) \<le> 2 ^ s" using s(2) by (metis less_imp_le of_int_le_iff of_int_numeral of_int_power)
    then have "(1::rat) / 2 ^ s \<le> 1 / of_int b" using b0 by (intro divide_left_mono) auto
    then show ?thesis by simp
  qed
  also have "\<dots> = ?z" by (simp add: p2 field_simps)
  finally have yz: "y \<le> ?z" .
  have "of_int q \<le> y" unfolding y_def using q(2) b0 by (simp add: field_simps) (metis of_int_le_iff of_int_mult mult.commute)
  then have lo: "of_int q \<le> round_rat y" using q qx assms by (intro round_rat_ge_int) auto
  have hi: "round_rat y < of_int q + 1"
  proof -
    have "?z < of_int q + 1" by (simp add: p2 field_simps)
    then show ?thesis using round_rat_mono[OF yz] unfolding z by linarith
  qed
  have "fround y = Fin (round_rat y)"
  proof (rule fround_Fin)
    have "of_int q + 1 \<le> (of_int (2 ^ 53) :: rat)"
    proof -
      have "q + 1 \<le> 2 ^ 53" using qx assms by simp
      then show ?thesis by (metis of_int_1 of_int_add of_int_le_iff)
    qed
    then show "\<bar>round_rat y\<bar> < fhuge" using lo hi q fhuge_ge by (simp add: abs_less_iff) 
  qed
  moreover have "\<lfloor>round_rat y\<rfloor> = q" using lo hi by (intro floor_unique) auto
  ultimately show ?thesis using b0 by (simp add: fint_def y_def q_def)
qed

lemma lua_mod_exact:
  assumes "0 \<le> x" "0 < b" "x + b < 2 ^ 52"
  shows "lua_mod (fint x) (fint b) = fint (x mod b)"
proof -
  have m: "x div b * b = x - x mod b" by (simp add: minus_mod_eq_div_mult)
  have r: "0 \<le> x mod b" "x mod b < b" using assms(2) by simp_all
  have d: "0 \<le> x div b" using assms by (simp add: pos_imp_zdiv_nonneg_iff)
  then have p: "0 \<le> x div b * b" "x < 2 ^ 53" using assms by simp_all
  have "fmul (fint (x div b)) (fint b) = fint (x div b * b)" using p m r assms by (intro fint_mul) linarith
  moreover have "fsub (fint x) (fint (x div b * b)) = fint (x - x div b * b)" using p m r assms by (intro fint_sub) linarith
  ultimately show ?thesis unfolding lua_mod_def floor_div_exact[OF assms] using m by simp
qed

lemma ceil_div_exact:
  assumes "0 \<le> a" "0 < b" "a + 2 * b < 2 ^ 52"
  shows "ceil_div (fint a) (fint b) = fint (ceilDiv a b)"
proof -
  define x where "x = a + b - 1"
  have x: "0 \<le> x" "x + b < 2 ^ 52" "x < 2 ^ 53" using assms by (simp_all add: x_def)
  have "fsub (fadd (fint a) (fint b)) (Fin 1) = fint x"
    using assms by (simp add: fint_add fint_num fint_sub x_def)
  moreover have "0 \<le> x mod b" "x mod b < b" using assms(2) by simp_all
  then have "fsub (fint x) (fint (x mod b)) = fint (x - x mod b)" using x(1,3) assms(2) zmod_le_nonneg_dividend[OF x(1), of b] by (intro fint_sub) linarith
  then have "fsub (fint x) (lua_mod (fint x) (fint b)) = fint (x div b * b)"
    using x assms by (simp add: lua_mod_exact minus_mod_eq_div_mult)
  moreover have "x div b \<le> x"
  proof -
    have "0 \<le> x div b" using x assms by (simp add: pos_imp_zdiv_nonneg_iff)
    then have "x div b * 1 \<le> x div b * b" using assms(2) by (intro mult_left_mono) auto
    also have "\<dots> \<le> x" using minus_mod_eq_div_mult[of x b] pos_mod_sign[OF assms(2), of x] by linarith
    finally show ?thesis by simp
  qed
  then have "fdiv (fint (x div b * b)) (fint b) = fint (x div b)"
    using assms x fround_int[of "x div b"] by (simp add: fint_def pos_imp_zdiv_nonneg_iff)
  ultimately show ?thesis using x assms by (simp add: ceil_div_def ceilDiv_def go_div_nonneg x_def Let_def)
qed

section \<open>The script's bucket check is the model's\<close>

definition MaxQuota :: int where "MaxQuota = 1000000000"

definition MaxBurstSeconds :: int where "MaxBurstSeconds = 3600"

definition max_time :: int where
  \<comment> \<open>milliseconds; beyond the year 37000\<close>
  "max_time = 2 ^ 50"

definition max_level :: int where "max_level = MaxQuota * MaxBurstSeconds * 1000"

lemmas rate_consts = MaxQuota_def MaxBurstSeconds_def max_time_def max_level_def scale_def

lemma lua_now_exact:
  assumes "0 \<le> fst t" "0 \<le> snd t" "snd t < 1000000" "server_ms t \<le> max_time" "override = 0 \<or> override = server_ms t"
  shows "lua_now override t = fint (server_ms t)"
proof -
  have s: "fst t * 1000 \<le> max_time" "0 \<le> snd t div 1000" using assms by (simp_all add: server_ms_def)
  have "ffloor (fdiv (float_of (snd t)) (Fin 1000)) = fint (snd t div 1000)"
    using floor_div_exact[of "snd t" 1000] assms by (simp add: float_of_fint fint_num)
  moreover have "fmul (float_of (fst t)) (Fin 1000) = fint (fst t * 1000)"
    using s assms by (simp add: float_of_fint fint_num fint_mul rate_consts)
  moreover have "fadd (fint (fst t * 1000)) (fint (snd t div 1000)) = fint (server_ms t)"
    using assms by (simp add: fint_add server_ms_def rate_consts)
  ultimately show ?thesis using assms by (auto simp: lua_now_def float_of_fint fint_num rate_consts server_ms_def)
qed

lemma lua_check_exact:
  assumes q: "0 < quota" "quota \<le> MaxQuota" and w: "window = B * 1000" "1 \<le> B" "B \<le> MaxBurstSeconds"
    and tok: "0 \<le> tokens" "tokens \<le> 2 ^ 32" and now: "0 \<le> now" "now \<le> max_time"
    and p: "rp_BurstSeconds (md_p m) = B"
    and h: "case hget db t key of
              Some e \<Rightarrow> mget (md_buckets m) key = Some \<lparr>bk_level = he_l e, bk_at = he_t e, bk_set = True\<rparr>
                 \<and> 0 \<le> he_l e \<and> he_l e \<le> max_level \<and> 0 \<le> he_t e \<and> he_t e \<le> max_time
            | None \<Rightarrow> (case mget (md_buckets m) key of None \<Rightarrow> True
                 | Some b \<Rightarrow> bk_set b \<and> 0 \<le> bk_level b \<and> bk_at b + window \<le> now)"
    and lev: "level = fst (peek m key now quota)" "n = need tokens (capacity (md_p m) quota)"
  shows "lua_check (fint now) (fint window) db t key (fint quota) (fint tokens)
      = (fint level, fint n, fint (if level < n then ceilDiv (n - level) quota else 0), fint (stamp_of m key now))
    \<and> 0 \<le> level \<and> level \<le> max_level \<and> 0 \<le> n \<and> n \<le> max_level"
proof -
  define cap where "cap = quota * window"
  have cap: "capacity (md_p m) quota = cap" by (simp add: capacity_def cap_def p w)
  have "cap \<le> MaxQuota * (MaxBurstSeconds * 1000)" unfolding cap_def using q w by (intro mult_mono) auto
  then have capb: "0 < cap" "cap \<le> max_level" using q w by (simp_all add: cap_def max_level_def)
  have fcap: "fmul (fint quota) (fint window) = fint cap" unfolding cap_def[symmetric] using capb by (subst fint_mul) (simp_all add: cap_def[symmetric] rate_consts)
  have n: "n = min (tokens * scale) cap" "0 \<le> n" "n \<le> cap" using lev(2) tok capb by (simp_all add: cap need_def scale_def)
  have fn: "(if flt (fint cap) (fmul (fint tokens) (Fin 60000)) then fint cap else fmul (fint tokens) (Fin 60000)) = fint n"
    using tok by (simp add: fint_num fint_mul n(1) scale_def min_def)
  have unset: "level = cap" "stamp_of m key now = now" if "hget db t key = None"
  proof -
    show "level = cap"
    proof (cases "mget (md_buckets m) key")
      case None
      then show ?thesis by (simp add: lev(1) peek_unset cap)
    next
      case (Some b)
      then have b: "bk_set b" "0 \<le> bk_level b" "bk_at b + window \<le> now" using h that by simp_all
      then have "min (B * 1000) (max 0 (now - bk_at b)) = window" using w by auto
      then show ?thesis using b by (simp add: lev(1) peek_set[OF Some b(1)] cap p cap_def mult.commute)
    qed
    show "stamp_of m key now = now" using h that w by (auto simp: stamp_of_def split: option.splits)
  qed
  have main: "(case hget db t key of None \<Rightarrow> (fint cap, fint now)
      | Some h \<Rightarrow> let l = float_of (he_l h); ts = float_of (he_t h); st = (if flt (fint now) ts then ts else fint now);
            e0 = fsub (fint now) ts; e1 = (if flt e0 (Fin 0) then Fin 0 else e0); e2 = (if flt (fint window) e1 then fint window else e1);
            lv = fadd l (fmul e2 (fint quota)) in (if flt (fint cap) lv then fint cap else lv, st))
     = (fint level, fint (stamp_of m key now)) \<and> 0 \<le> level \<and> level \<le> cap"
  proof (cases "hget db t key")
    case None
    then show ?thesis using unset capb by simp
  next
    case (Some e)
    then have e: "mget (md_buckets m) key = Some \<lparr>bk_level = he_l e, bk_at = he_t e, bk_set = True\<rparr>"
      "0 \<le> he_l e" "he_l e \<le> max_level" "0 \<le> he_t e" "he_t e \<le> max_time" using h by simp_all
    define el where "el = min window (max 0 (now - he_t e))"
    have el: "0 \<le> el" "el \<le> window" using w by (auto simp: el_def)
    have "el * quota \<le> window * quota" using el q by (intro mult_right_mono) auto
    then have elq: "0 \<le> el * quota" "el * quota \<le> max_level"
      using el(1) q(1) order_trans[OF _ capb(2), of "el * quota"] by (simp_all only: cap_def mult.commute[of quota window]) simp_all
    have lv: "level = min cap (he_l e + el * quota)" using lev(1) peek_set[OF e(1)] by (simp add: cap p w el_def)
    have fl: "float_of (he_l e) = fint (he_l e)" "float_of (he_t e) = fint (he_t e)" "fsub (fint now) (fint (he_t e)) = fint (now - he_t e)"
      using e now by (simp_all add: float_of_fint fint_sub rate_consts)
    have fe: "(if flt (fint window) (if flt (fint (now - he_t e)) (Fin 0) then Fin 0 else fint (now - he_t e)) then fint window
        else if flt (fint (now - he_t e)) (Fin 0) then Fin 0 else fint (now - he_t e)) = fint el"
      by (auto simp: fint_num el_def)
    have fm: "fmul (fint el) (fint quota) = fint (el * quota)" "fadd (fint (he_l e)) (fint (el * quota)) = fint (he_l e + el * quota)"
      using elq e by (simp_all add: fint_mul fint_add rate_consts)
    have "0 \<le> level" "level \<le> cap" using lv e(2) elq capb by auto
    moreover have "(if flt (fint cap) (fint (he_l e + el * quota)) then fint cap else fint (he_l e + el * quota)) = fint level"
      by (simp add: lv)
    moreover have "(if flt (fint now) (fint (he_t e)) then fint (he_t e) else fint now) = fint (stamp_of m key now)"
      using e(1) by (simp add: stamp_of_def)
    ultimately show ?thesis unfolding Some option.case Let_def fl fe fm by simp
  qed
  have fw: "(if flt (fint level) (fint n) then ceil_div (fsub (fint n) (fint level)) (fint quota) else Fin 0)
      = fint (if level < n then ceilDiv (n - level) quota else 0)"
  proof (cases "level < n")
    case True
    then have "fsub (fint n) (fint level) = fint (n - level)" using main n capb by (subst fint_sub) (auto simp: rate_consts)
    moreover have "ceil_div (fint (n - level)) (fint quota) = fint (ceilDiv (n - level) quota)"
      using True main n capb q by (intro ceil_div_exact) (auto simp: rate_consts)
    ultimately show ?thesis using True by simp
  qed (simp add: fint_num)
  show ?thesis
    unfolding lua_check_def fcap Let_def fn main[unfolded Let_def, THEN conjunct1] prod.case fw
    using main n capb by simp
qed

end
