(* ===== verification/RateEquiv.thy ===== *)
theory RateEquiv
  imports RateScript Cost
begin

text \<open>
  The Lua scripts implement the reference limiter: a simulation between the Redis database and the Go model that every script
  keeps, for clocks that do not go backwards and for the bounds \<^verbatim>\<open>limiter.go\<close> puts on quotas, costs and times. The doubles of the
  scripts never round within these bounds.
\<close>

section \<open>The simulation relation\<close>

definition bucket_sim :: "int \<Rightarrow> int \<Rightarrow> hash_entry option \<Rightarrow> rl_bucket option \<Rightarrow> bool" where
  "bucket_sim W now h b = (case h of
       None \<Rightarrow> b = None
     | Some e \<Rightarrow> b = Some \<lparr>bk_level = he_l e, bk_at = he_t e, bk_set = True\<rparr> \<and> 0 \<le> he_l e \<and> he_l e \<le> max_level
         \<and> 0 \<le> he_t e \<and> he_t e \<le> now \<and> he_expire e = he_t e + 2 * W)"

definition lease_sim :: "int \<Rightarrow> int \<Rightarrow> zset_entry option \<Rightarrow> (string, int) gomap \<Rightarrow> bool" where
  \<comment> \<open>the leases that are live at \<open>now\<close> are the same\<close>
  "lease_sim ttl now z ls \<longleftrightarrow> mok ls \<and> (case z of
       None \<Rightarrow> \<forall>q \<in> set ls. snd q \<le> now
     | Some e \<Rightarrow> mok (ze_members e)
         \<and> (\<forall>q \<in> set (ze_members e). \<exists>n. snd q = fint n \<and> n \<le> ze_expire e \<and> n \<le> now + ttl)
         \<and> (\<forall>i n. now < n \<longrightarrow> (mget (ze_members e) i = Some (fint n) \<longleftrightarrow> mget ls i = Some n)))"

definition params_fit :: "rl_params \<Rightarrow> bool" where
  "params_fit p \<longleftrightarrow> 1 \<le> rp_BurstSeconds p \<and> rp_BurstSeconds p \<le> MaxBurstSeconds \<and> 0 < rp_LeaseTTLMs p \<and> rp_LeaseTTLMs p \<le> max_time"

definition sim :: "int \<Rightarrow> redis_db \<Rightarrow> rl_model \<Rightarrow> bool" where
  "sim now db m \<longleftrightarrow> rl_ok m \<and> params_fit (md_p m)
     \<and> (\<forall>k. bucket_sim (rp_BurstSeconds (md_p m) * 1000) now (mget (db_hash db) k) (mget (md_buckets m) k))
     \<and> (\<forall>k. lease_sim (rp_LeaseTTLMs (md_p m)) now (mget (db_zset db) k) (held_leases m k))"

lemma bucket_sim_later: "bucket_sim W now h b \<Longrightarrow> now \<le> now' \<Longrightarrow> bucket_sim W now' h b"
  by (auto simp: bucket_sim_def split: option.splits)

lemma lease_sim_later: "lease_sim ttl now z ls \<Longrightarrow> now \<le> now' \<Longrightarrow> lease_sim ttl now' z ls"
  by (fastforce simp: lease_sim_def split: option.splits)

lemma sim_later: "sim now db m \<Longrightarrow> now \<le> now' \<Longrightarrow> sim now' db m"
  by (auto simp: sim_def intro: bucket_sim_later lease_sim_later)

definition time_ok :: "redis_time \<Rightarrow> bool" where
  "time_ok t \<longleftrightarrow> 0 \<le> fst t \<and> 0 \<le> snd t \<and> snd t < 1000000 \<and> server_ms t \<le> max_time"

lemma time_ok_ms: "time_ok t \<Longrightarrow> 0 \<le> server_ms t"
  by (auto simp: time_ok_def server_ms_def pos_imp_zdiv_nonneg_iff intro!: add_nonneg_nonneg)

section \<open>Buckets\<close>

lemma sim_stamp: "sim now db m \<Longrightarrow> stamp_of m k now = now"
proof -
  assume "sim now db m"
  then have "bucket_sim (rp_BurstSeconds (md_p m) * 1000) now (mget (db_hash db) k) (mget (md_buckets m) k)" by (simp add: sim_def)
  then show ?thesis by (auto simp: stamp_of_def bucket_sim_def split: option.splits)
qed

lemma sim_check:
  assumes S: "sim (server_ms t) db m" and t: "time_ok t" and q: "0 < quota" "quota \<le> MaxQuota" and tok: "0 \<le> tokens" "tokens \<le> 2 ^ 32"
  shows "lua_check (fint (server_ms t)) (fint (rp_BurstSeconds (md_p m) * 1000)) db t key (fint quota) (fint tokens)
      = (fint (fst (peek m key (server_ms t) quota)), fint (need tokens (capacity (md_p m) quota)),
         fint (if fst (peek m key (server_ms t) quota) < need tokens (capacity (md_p m) quota)
               then ceilDiv (need tokens (capacity (md_p m) quota) - fst (peek m key (server_ms t) quota)) quota else 0), fint (server_ms t))
    \<and> 0 \<le> fst (peek m key (server_ms t) quota) \<and> fst (peek m key (server_ms t) quota) \<le> max_level
    \<and> 0 \<le> need tokens (capacity (md_p m) quota) \<and> need tokens (capacity (md_p m) quota) \<le> max_level"
proof -
  let ?W = "rp_BurstSeconds (md_p m) * 1000"
  have p: "1 \<le> rp_BurstSeconds (md_p m)" "rp_BurstSeconds (md_p m) \<le> MaxBurstSeconds" using S by (simp_all add: sim_def params_fit_def)
  have b: "bucket_sim ?W (server_ms t) (mget (db_hash db) key) (mget (md_buckets m) key)" using S by (simp add: sim_def)
  have h: "case hget db t key of
              Some e \<Rightarrow> mget (md_buckets m) key = Some \<lparr>bk_level = he_l e, bk_at = he_t e, bk_set = True\<rparr>
                 \<and> 0 \<le> he_l e \<and> he_l e \<le> max_level \<and> 0 \<le> he_t e \<and> he_t e \<le> max_time
            | None \<Rightarrow> (case mget (md_buckets m) key of None \<Rightarrow> True
                 | Some b \<Rightarrow> bk_set b \<and> 0 \<le> bk_level b \<and> bk_at b + ?W \<le> server_ms t)"
    using b t p by (auto simp: hget_def bucket_sim_def time_ok_def split: option.splits)
  have now: "0 \<le> server_ms t" "server_ms t \<le> max_time" using t time_ok_ms by (auto simp: time_ok_def)
  show ?thesis
    using lua_check_exact[OF q refl p tok now refl h refl refl] by (simp add: sim_stamp[OF S])
qed

lemma store_sim:
  assumes S: "sim (server_ms t) db m" and t: "time_ok t"
    and c: "0 \<le> ck_need c" "ck_need c \<le> ck_level c" "ck_level c \<le> max_level"
    and m': "m' = charge (server_ms t) m c"
  shows "sim (server_ms t) (lua_store t (fint (rp_BurstSeconds (md_p m) * 1000)) (ck_key c) (fint (ck_level c), fint (ck_need c), x, fint (server_ms t)) db) m'"
proof -
  let ?W = "rp_BurstSeconds (md_p m) * 1000"
  have p: "1 \<le> rp_BurstSeconds (md_p m)" "rp_BurstSeconds (md_p m) \<le> MaxBurstSeconds" using S by (simp_all add: sim_def params_fit_def)
  have w: "trunc_of (fmul (fint ?W) (Fin 2)) = 2 * ?W"
    using p by (simp add: fint_num) (subst fint_mul; simp add: rate_consts)
  have lv: "fmt0 (fsub (fint (ck_level c)) (fint (ck_need c))) = ck_level c - ck_need c"
    using c by (subst fint_sub) (auto simp: rate_consts)
  have st: "stamp_of m (ck_key c) (server_ms t) = server_ms t" by (rule sim_stamp[OF S])
  have ok: "rl_ok m'"
    using S c by (auto simp: m' sim_def rl_ok_def charge_def bucket_ok_def mput_mem Let_def)
  have b: "bucket_sim ?W (server_ms t) (mget (mput (ck_key c) \<lparr>he_l = ck_level c - ck_need c, he_t = server_ms t, he_expire = server_ms t + 2 * ?W\<rparr> (db_hash db)) k)
      (mget (md_buckets m') k)" for k
    using S c time_ok_ms[OF t] by (auto simp: sim_def m' charge_get st mget_mput bucket_sim_def)
  show ?thesis
    using S ok b by (simp add: sim_def lua_store_def w lv m' held_leases_def)
qed

section \<open>Leases\<close>

abbreviation live_members :: "int \<Rightarrow> (string, float64) gomap \<Rightarrow> (string, float64) gomap" where
  "live_members now zs \<equiv> filter (\<lambda>(_, s). \<not> fle s (fint now)) zs"

abbreviation live_leases :: "int \<Rightarrow> (string, int) gomap \<Rightarrow> (string, int) gomap" where
  "live_leases now ls \<equiv> filter (\<lambda>(_, ex). \<not> ex \<le> now) ls"

definition zset_ok :: "int \<Rightarrow> int \<Rightarrow> (string, float64) gomap \<Rightarrow> (string, int) gomap \<Rightarrow> bool" where
  \<comment> \<open>what the scripts see of a tenant's leases\<close>
  "zset_ok ttl now zs ls \<longleftrightarrow> mok ls \<and> mok zs \<and> (\<forall>q \<in> set zs. \<exists>n. snd q = fint n \<and> n \<le> now + ttl)
     \<and> (\<forall>i n. now < n \<longrightarrow> (mget zs i = Some (fint n) \<longleftrightarrow> mget ls i = Some n))"

lemma zmembers_ok:
  assumes "lease_sim ttl (server_ms t) (mget (db_zset db) k) ls"
  shows "zset_ok ttl (server_ms t) (zmembers db t k) ls"
proof (cases "mget (db_zset db) k")
  case None
  then show ?thesis using assms by (fastforce simp: lease_sim_def zset_ok_def zmembers_def dest: mget_mem)
next
  case (Some e)
  show ?thesis
  proof (cases "server_ms t > ze_expire e")
    case True
    have "mget ls i \<noteq> Some n" if n: "server_ms t < n" for i n
    proof
      assume "mget ls i = Some n"
      then have "mget (ze_members e) i = Some (fint n)" using assms Some n by (auto simp: lease_sim_def)
      from mget_mem[OF this] show False using assms Some n True by (force simp: lease_sim_def)
    qed
    then show ?thesis using assms Some True by (auto simp: lease_sim_def zset_ok_def zmembers_def)
  next
    case False
    then show ?thesis using assms Some by (fastforce simp: lease_sim_def zset_ok_def zmembers_def)
  qed
qed

lemma mget_filter_mok: "mok xs \<Longrightarrow> mget (filter P xs) i = Some v \<longleftrightarrow> mget xs i = Some v \<and> P (i, v)"
  by (auto simp: mget_iff_mem)

lemma mok_length: "mok xs \<Longrightarrow> length xs = card {i. mget xs i \<noteq> None}"
proof -
  assume "mok xs"
  then have "length xs = card (set (map fst xs))" by (metis distinct_card length_map mok_def)
  moreover have "set (map fst xs) = {i. mget xs i \<noteq> None}" by (auto simp: map_of_eq_None_iff)
  ultimately show ?thesis by simp
qed

lemma zset_live:
  assumes "zset_ok ttl now zs ls"
  shows "mget (live_members now zs) i = Some (fint n) \<longleftrightarrow> mget (live_leases now ls) i = Some n"
    "length (live_members now zs) = length (live_leases now ls)"
proof -
  have ok: "mok zs" "mok ls" using assms by (simp_all add: zset_ok_def)
  show G: "mget (live_members now zs) i = Some (fint n) \<longleftrightarrow> mget (live_leases now ls) i = Some n" for i n
    using assms by (auto simp: mget_filter_mok[OF ok(1)] mget_filter_mok[OF ok(2)] zset_ok_def)
  have F: "\<exists>n. v = fint n" if h: "mget (live_members now zs) i = Some v" for i v
  proof -
    have "mget zs i = Some v" using h by (simp add: mget_filter_mok[OF ok(1)])
    from mget_mem[OF this] show ?thesis using assms by (force simp: zset_ok_def)
  qed
  have "{i. mget (live_members now zs) i \<noteq> None} = {i. mget (live_leases now ls) i \<noteq> None}"
    using G F by (auto simp del: not_le) (metis option.distinct(1))+
  then show "length (live_members now zs) = length (live_leases now ls)"
    using mok_length[OF mok_filter[OF ok(1)]] mok_length[OF mok_filter[OF ok(2)]] by simp
qed

section \<open>acquireScript is Allow\<close>

fun limit_code :: "rl_limit option \<Rightarrow> int" where
  "limit_code None = 0"
| "limit_code (Some LimitRequests) = 1"
| "limit_code (Some LimitTokens) = 2"
| "limit_code (Some LimitConcurrency) = 3"
| "limit_code (Some LimitModel) = 4"
| "limit_code (Some LimitUnavailable) = 5"

definition outcome_reply :: "rl_outcome \<Rightarrow> int list" where
  \<comment> \<open>the three integers by which the script answers\<close>
  "outcome_reply r = (if oc_Allowed r then [1, 0, 0] else [0, limit_code (oc_Limit r), oc_RetryMs r])"

definition enc :: "worst \<Rightarrow> int \<times> float64" where
  "enc w = (limit_code (fst w), fint (snd w))"

definition go_step :: "rl_limit \<Rightarrow> int \<Rightarrow> int \<Rightarrow> int \<Rightarrow> worst \<Rightarrow> worst" where
  "go_step l q level n w = (if 0 < q \<and> level < n then rl_consider l (ceilDiv (n - level) q) w else w)"

lemma consider_enc: "lua_consider (limit_code (Some l)) (fint x) (enc w) = enc (rl_consider l x w)"
  by (simp add: lua_consider_def rl_consider_def enc_def)

lemma step_enc:
  assumes "0 < q \<Longrightarrow> chk = (fint level, fint n, fint (if level < n then ceilDiv (n - level) q else 0), s)"
  shows "(if flt (Fin 0) (fint q) \<and> flt (Fin 0) (fst (snd (snd chk))) then lua_consider (limit_code (Some l)) (fst (snd (snd chk))) (enc w) else enc w)
    = enc (go_step l q level n w)"
  using assms ceilDiv_spec[of "n - level" q] by (auto simp: go_step_def fint_num consider_enc)

lemma peek_cap: "peek m k now q = (fst (peek m k now q), capacity (md_p m) q)"
  by (auto simp: peek_def Let_def split: option.splits)

lemma add_check_alt: "add_check m now l k q c = (if q \<le> 0 then [] else
    [\<lparr>ck_limit = l, ck_key = k, ck_quota = q, ck_level = fst (peek m k now q), ck_need = need c (capacity (md_p m) q)\<rparr>])"
  by (subst add_check_def, subst peek_cap) simp

lemma consider_add: "foldl (consider_check b) w (add_check m now l k q c)
    = (if (l = LimitModel) = b then go_step l q (fst (peek m k now q)) (need c (capacity (md_p m) q)) w else w)"
  by (auto simp: add_check_alt go_step_def consider_check_def)

definition request_fit :: "model_request \<Rightarrow> bool" where
  \<comment> \<open>the bounds that the limiter clamps a request to\<close>
  "request_fit r \<longleftrightarrow> 0 \<le> mr_Cost r \<and> mr_Cost r \<le> int MaxCost
     \<and> li_RequestsPerMinute (mr_Limits r) \<in> {0..MaxQuota} \<and> li_TokensPerMinute (mr_Limits r) \<in> {0..MaxQuota}
     \<and> li_MaxConcurrent (mr_Limits r) \<in> {0..MaxQuota} \<and> mr_ModelRequestsPerMinute r \<in> {0..MaxQuota}"

definition script_keys :: "model_request \<Rightarrow> string list" where
  "script_keys r = [keyRequests (mr_TenantID r), keyTokens (mr_TenantID r), keyConcurrency (mr_TenantID r),
     if mr_ModelRequestsPerMinute r > 0 then keyModel (mr_Model r) else keyModelUnused]"

definition script_args :: "rl_params \<Rightarrow> int \<Rightarrow> model_request \<Rightarrow> acquire_args" where
  "script_args p override r = \<lparr>aa_override = override, aa_rq = li_RequestsPerMinute (mr_Limits r), aa_tq = li_TokensPerMinute (mr_Limits r),
     aa_mc = li_MaxConcurrent (mr_Limits r), aa_mq = mr_ModelRequestsPerMinute r, aa_cost = mr_Cost r, aa_burst = rp_BurstSeconds p,
     aa_lease_id = mr_LeaseID r, aa_lease_ttl = rp_LeaseTTLMs p\<rparr>"

lemma cond_store:
  assumes S: "sim (server_ms t) db m" and t: "time_ok t" and q: "q \<le> MaxQuota" and c: "0 \<le> c" "c \<le> 2 ^ 32"
    and S': "sim (server_ms t) db' m'" and p: "md_p m' = md_p m"
    and ok: "\<And>x. x \<in> set (add_check m (server_ms t) l k q c) \<Longrightarrow> ck_need x \<le> ck_level x"
    and key: "0 < q \<Longrightarrow> key = k"
  shows "sim (server_ms t) (if flt (Fin 0) (fint q) then lua_store t (fint (rp_BurstSeconds (md_p m) * 1000)) key
      (lua_check (fint (server_ms t)) (fint (rp_BurstSeconds (md_p m) * 1000)) db t key (fint q) (fint c)) db' else db')
    (foldl (charge (server_ms t)) m' (add_check m (server_ms t) l k q c))"
proof (cases "0 < q")
  case True
  note chk = sim_check[OF S t True q c, of k]
  let ?c = "\<lparr>ck_limit = l, ck_key = k, ck_quota = q, ck_level = fst (peek m k (server_ms t) q), ck_need = need c (capacity (md_p m) q)\<rparr>"
  have "ck_need ?c \<le> ck_level ?c" using ok[of ?c] True by (simp add: add_check_alt)
  then show ?thesis
    using store_sim[OF S' t, of ?c _ _] chk True key by (simp add: add_check_alt fint_num p)
next
  case False
  then show ?thesis using S' by (simp add: add_check_alt fint_num)
qed

lemma held_put [simp]: "held_leases (m\<lparr>md_leases := mput k v (md_leases m)\<rparr>) k' = (if k' = k then v else held_leases m k')"
  by (simp add: held_leases_def mget_or_mput)

lemma held_frame [simp]: "held_leases (foldl (charge now) m cs) k = held_leases m k" "held_leases (m\<lparr>md_buckets := b\<rparr>) k = held_leases m k"
  by (simp_all add: held_leases_def)

lemma held_pruned:
  "held_leases (prune_leases now k m) k' = (if k' = k then live_leases now (held_leases m k) else held_leases m k')"
  by (auto simp: held_leases_def prune_leases_def mget_or_def mget_mput split: option.splits)

lemma rl_ok_leases [simp]: "rl_ok (m\<lparr>md_leases := x\<rparr>) = rl_ok m"
  by (simp add: rl_ok_def)

lemma rl_ok_prune [simp]: "rl_ok (prune_leases now k m) = rl_ok m" "md_p (prune_leases now k m) = md_p m" "md_buckets (prune_leases now k m) = md_buckets m"
  by (auto simp: prune_leases_def rl_ok_def split: option.split)

lemma sim_zset:
  \<comment> \<open>a script writes the lease set of one tenant\<close>
  assumes S: "sim now db m" and z: "lease_sim (rp_LeaseTTLMs (md_p m)) now (Some e) ls"
    and m': "md_p m' = md_p m" "md_buckets m' = md_buckets m" "\<And>k'. held_leases m' k' = (if k' = k then ls else held_leases m k')"
  shows "sim now (db\<lparr>db_zset := mput k e (db_zset db)\<rparr>) m'"
  using S z m' by (auto simp: sim_def rl_ok_def mget_mput)

lemma zexpire_ge: "server_ms t \<le> zexpire db t k"
  by (auto simp: zexpire_def split: option.split)

lemma zmembers_expire:
  assumes "lease_sim ttl (server_ms t) (mget (db_zset db) k) ls" "(i, s) \<in> set (zmembers db t k)"
  shows "\<exists>n. s = fint n \<and> n \<le> zexpire db t k \<and> n \<le> server_ms t + ttl"
  using assms by (force simp: lease_sim_def zmembers_def zexpire_def split: option.splits if_splits)

lemma lease_sim_of:
  assumes "mok ls" "mok zs" "\<And>i s. (i, s) \<in> set zs \<Longrightarrow> \<exists>n. s = fint n \<and> n \<le> ex \<and> n \<le> now + ttl"
    "\<And>i n. now < n \<Longrightarrow> mget zs i = Some (fint n) \<longleftrightarrow> mget ls i = Some n"
  shows "lease_sim ttl now (Some \<lparr>ze_members = zs, ze_expire = ex\<rparr>) ls"
  using assms by (fastforce simp: lease_sim_def)

lemma sim_lease: "sim now db m \<Longrightarrow> lease_sim (rp_LeaseTTLMs (md_p m)) now (mget (db_zset db) k) (held_leases m k)"
  by (simp add: sim_def)

lemma prune_sim:
  assumes S: "sim (server_ms t) db m"
  shows "sim (server_ms t) (db\<lparr>db_zset := mput k \<lparr>ze_members = live_members (server_ms t) (zmembers db t k), ze_expire = zexpire db t k\<rparr> (db_zset db)\<rparr>)
    (prune_leases (server_ms t) k m)"
proof (rule sim_zset[OF S])
  note L = sim_lease[OF S, of k]
  note Z = zmembers_ok[OF L]
  have ok: "mok (zmembers db t k)" "mok (held_leases m k)" using Z by (simp_all add: zset_ok_def)
  show "lease_sim (rp_LeaseTTLMs (md_p m)) (server_ms t)
      (Some \<lparr>ze_members = live_members (server_ms t) (zmembers db t k), ze_expire = zexpire db t k\<rparr>) (live_leases (server_ms t) (held_leases m k))"
  proof (rule lease_sim_of)
    show "\<exists>n. s = fint n \<and> n \<le> zexpire db t k \<and> n \<le> server_ms t + rp_LeaseTTLMs (md_p m)"
      if "(i, s) \<in> set (live_members (server_ms t) (zmembers db t k))" for i s
      using that zmembers_expire[OF L] by auto
  qed (use ok zset_live(1)[OF Z] in auto)
qed (simp_all add: held_pruned)

lemma put_sim:
  \<comment> \<open>the set is written with new leases\<close>
  assumes S: "sim (server_ms t) db m" and z: "zset_ok (rp_LeaseTTLMs (md_p m)) (server_ms t) zs ls"
    and m': "md_p m' = md_p m" "md_buckets m' = md_buckets m" "\<And>k'. held_leases m' k' = (if k' = k then ls else held_leases m k')"
  shows "sim (server_ms t) (db\<lparr>db_zset := mput k \<lparr>ze_members = zs, ze_expire = server_ms t + 2 * rp_LeaseTTLMs (md_p m)\<rparr> (db_zset db)\<rparr>) m'"
proof (rule sim_zset[OF S _ m'])
  have p: "0 < rp_LeaseTTLMs (md_p m)" using S by (simp add: sim_def params_fit_def)
  show "lease_sim (rp_LeaseTTLMs (md_p m)) (server_ms t) (Some \<lparr>ze_members = zs, ze_expire = server_ms t + 2 * rp_LeaseTTLMs (md_p m)\<rparr>) ls"
  proof (rule lease_sim_of)
    show "\<exists>n. s = fint n \<and> n \<le> server_ms t + 2 * rp_LeaseTTLMs (md_p m) \<and> n \<le> server_ms t + rp_LeaseTTLMs (md_p m)" if h: "(i, s) \<in> set zs" for i s
    proof -
      obtain n where "s = fint n" "n \<le> server_ms t + rp_LeaseTTLMs (md_p m)" using z h by (force simp: zset_ok_def)
      then show ?thesis using p by auto
    qed
  qed (use z in \<open>simp_all add: zset_ok_def\<close>)
qed

lemma put_one:
  assumes z: "zset_ok ttl now zs ls" and "0 < ttl"
  shows "zset_ok ttl now (mput i (fint (now + ttl)) zs) (mput i (now + ttl) ls)"
proof -
  have ok: "mok zs" using z by (simp add: zset_ok_def)
  have "\<forall>q \<in> set (mput i (fint (now + ttl)) zs). \<exists>n. snd q = fint n \<and> n \<le> now + ttl"
    unfolding mput_mem[OF ok] using z by (auto simp: zset_ok_def)
  moreover have "mget (mput i (fint (now + ttl)) zs) j = Some (fint n) \<longleftrightarrow> mget (mput i (now + ttl) ls) j = Some n" if "now < n" for j n
    using z that by (auto simp: zset_ok_def mget_mput)
  ultimately show ?thesis using z by (simp add: zset_ok_def)
qed

lemma live_ok:
  assumes "zset_ok ttl now zs ls"
  shows "zset_ok ttl now (live_members now zs) (live_leases now ls)"
  unfolding zset_ok_def zset_live(1)[OF assms] using assms by (simp add: zset_ok_def)

lemma limit_code_pos: "0 < limit_code l \<longleftrightarrow> l \<noteq> None"
  by (cases l rule: limit_code.cases) simp_all

definition worst_of :: "int \<Rightarrow> model_request \<Rightarrow> rl_model \<Rightarrow> worst" where
  \<comment> \<open>the refusal that \<open>Allow\<close> reports, its loops unrolled\<close>
  "worst_of now r m =
     (let step = (\<lambda>l k q c. go_step l q (fst (peek m k now q)) (need c (capacity (md_p m) q)));
          w1 = step LimitRequests (keyRequests (mr_TenantID r)) (li_RequestsPerMinute (mr_Limits r)) 1 (None, 0);
          w2 = step LimitTokens (keyTokens (mr_TenantID r)) (li_TokensPerMinute (mr_Limits r)) (mr_Cost r) w1;
          w3 = (if conc_full now r m then rl_consider LimitConcurrency concurrencyRetryMs w2 else w2)
      in step LimitModel (keyModel (mr_Model r)) (mr_ModelRequestsPerMinute r) 1 w3)"

lemma Allow_unrolled:
  "Allow now r m = (if fst (worst_of now r m) \<noteq> None
      then (pruned now r m, \<lparr>oc_Allowed = False, oc_Limit = fst (worst_of now r m), oc_RetryMs = snd (worst_of now r m)\<rparr>)
      else (admit now r m, \<lparr>oc_Allowed = True, oc_Limit = None, oc_RetryMs = 0\<rparr>))"
proof -
  have full: "(0 < li_MaxConcurrent (mr_Limits r) \<and> li_MaxConcurrent (mr_Limits r)
       \<le> int (length (held_leases (pruned now r m) (keyConcurrency (mr_TenantID r))))) = conc_full now r m"
    by (simp add: conc_full_def pruned_def held_prune)
  have "foldl (consider_check True) (if conc_full now r m then rl_consider LimitConcurrency concurrencyRetryMs
       (foldl (consider_check False) (None, 0) (checks_of m now r)) else foldl (consider_check False) (None, 0) (checks_of m now r)) (checks_of m now r)
     = worst_of now r m"
    by (simp add: checks_of_def consider_add worst_of_def Let_def)
  then show ?thesis
    by (simp only: Allow_def Let_def pruned_def[symmetric] admit_def full)
qed

definition store_if :: "redis_time \<Rightarrow> redis_db \<Rightarrow> rl_model \<Rightarrow> string \<Rightarrow> int \<Rightarrow> int \<Rightarrow> redis_db \<Rightarrow> redis_db" where
  "store_if t db m k q c d = (if 0 < q then lua_store t (fint (rp_BurstSeconds (md_p m) * 1000)) k
     (lua_check (fint (server_ms t)) (fint (rp_BurstSeconds (md_p m) * 1000)) db t k (fint q) (fint c)) d else d)"

definition acquire_int :: "redis_time \<Rightarrow> model_request \<Rightarrow> rl_model \<Rightarrow> redis_db \<Rightarrow> redis_db \<times> int list" where
  \<comment> \<open>the script with its numbers read as integers\<close>
  "acquire_int t r m db =
     (let now = server_ms t; k = keyConcurrency (mr_TenantID r); mc = li_MaxConcurrent (mr_Limits r);
          live = live_members now (zmembers db t k); w = worst_of now r m;
          db1 = (if 0 < mc then db\<lparr>db_zset := mput k \<lparr>ze_members = live, ze_expire = zexpire db t k\<rparr> (db_zset db)\<rparr> else db);
          db2 = store_if t db m (keyRequests (mr_TenantID r)) (li_RequestsPerMinute (mr_Limits r)) 1 db1;
          db3 = store_if t db m (keyTokens (mr_TenantID r)) (li_TokensPerMinute (mr_Limits r)) (mr_Cost r) db2;
          db4 = store_if t db m (keyModel (mr_Model r)) (mr_ModelRequestsPerMinute r) 1 db3
      in if fst w \<noteq> None then (db1, [0, limit_code (fst w), snd w])
         else (if 0 < mc then db4\<lparr>db_zset := mput k \<lparr>ze_members = mput (mr_LeaseID r) (fint (now + rp_LeaseTTLMs (md_p m))) live,
                   ze_expire = now + 2 * rp_LeaseTTLMs (md_p m)\<rparr> (db_zset db4)\<rparr> else db4, [1, 0, 0]))"

lemma live_count:
  assumes "sim (server_ms t) db m"
  shows "length (live_members (server_ms t) (zmembers db t (keyConcurrency tn))) = Held (server_ms t) tn m"
proof -
  have "length (live_leases (server_ms t) ls) = count_if (\<lambda>(_, ex). ex > server_ms t) ls" for ls :: "(string \<times> int) list"
    by (induction ls) auto
  then show ?thesis using zset_live(2)[OF zmembers_ok[OF sim_lease[OF assms]]] by (simp add: Held_def)
qed

lemma fle_count: "0 \<le> mc \<Longrightarrow> mc \<le> MaxQuota \<Longrightarrow> fle (fint mc) (float_of (int n)) \<longleftrightarrow> mc \<le> int n"
proof (cases "int n < 2 ^ 53")
  case True
  then show ?thesis by (simp add: float_of_fint)
next
  case False
  assume "0 \<le> mc" "mc \<le> MaxQuota"
  then have m: "\<bar>mc\<bar> < 2 ^ 53" "mc \<le> int n" using False by (simp_all add: rate_consts)
  have "of_int mc \<le> (of_int (int n) :: rat)" using m(2) of_int_le_iff by blast
  from round_rat_ge_int[OF this m(1)] have "fle (fint mc) (float_of (int n))"
    using m(1) \<open>0 \<le> mc\<close> fhuge_pos by (auto simp: float_of_def fround_def Let_def fint_def)
  then show ?thesis using m(2) by simp
qed

lemma acquire_exact:
  assumes S: "sim (server_ms t) db m" and t: "time_ok t" and r: "request_fit r" and ov: "override = 0 \<or> override = server_ms t"
  shows "acquireScript t (script_keys r) (script_args (md_p m) override r) db = acquire_int t r m db"
proof -
  let ?now = "server_ms t" and ?B = "rp_BurstSeconds (md_p m)" and ?ttl = "rp_LeaseTTLMs (md_p m)"
  define rq tq mc mq where q_defs: "rq = li_RequestsPerMinute (mr_Limits r)" "tq = li_TokensPerMinute (mr_Limits r)"
    "mc = li_MaxConcurrent (mr_Limits r)" "mq = mr_ModelRequestsPerMinute r"
  define live where "live = live_members ?now (zmembers db t (keyConcurrency (mr_TenantID r)))"
  define km where "km = (if mq > 0 then keyModel (mr_Model r) else keyModelUnused)"
  have p: "1 \<le> ?B" "?B \<le> 3600" "0 < ?ttl" "?ttl \<le> max_time" using S by (simp_all add: sim_def params_fit_def rate_consts)
  have q: "0 \<le> rq" "rq \<le> MaxQuota" "0 \<le> tq" "tq \<le> MaxQuota" "0 \<le> mc" "mc \<le> MaxQuota" "0 \<le> mq" "mq \<le> MaxQuota"
    "0 \<le> mr_Cost r" "mr_Cost r \<le> 2 ^ 32" using r by (simp_all add: request_fit_def q_defs MaxCost_def)
  have n: "0 \<le> ?now" "?now \<le> max_time" using time_ok_ms[OF t] t by (simp_all add: time_ok_def)
  have F: "lua_now override t = fint ?now" "float_of rq = fint rq" "float_of tq = fint tq" "float_of mc = fint mc" "float_of mq = fint mq"
    "float_of (mr_Cost r) = fint (mr_Cost r)" "float_of ?ttl = fint ?ttl" "float_of ?B = fint ?B"
    using lua_now_exact[OF _ _ _ _ ov] t q p by (simp_all add: time_ok_def float_of_fint rate_consts)
  have W: "fmul (fint ?B) (Fin 1000) = fint (?B * 1000)" unfolding fint_num using p by (intro fint_mul) simp
  have T: "float_of (fmt0 (fadd (fint ?now) (fint ?ttl))) = fint (?now + ?ttl)" "trunc_of (fmul (fint ?ttl) (Fin 2)) = 2 * ?ttl"
    using n p by (simp_all add: fint_add fint_mul fint_num float_of_fint rate_consts)
  have full: "(flt (Fin 0) (fint mc) \<and> fle (fint mc) (float_of (int (length live)))) = conc_full ?now r m"
    using fle_count[of mc "length live"] q by (simp add: conc_full_def live_count[OF S] live_def q_defs fint_num)
  have chk: "lua_check (fint ?now) (fint (?B * 1000)) db t k (fint x) (fint c)
     = (fint (fst (peek m k ?now x)), fint (need c (capacity (md_p m) x)), fint (if fst (peek m k ?now x) < need c (capacity (md_p m) x)
          then ceilDiv (need c (capacity (md_p m) x) - fst (peek m k ?now x)) x else 0), fint ?now)"
    if "0 < x" "x \<le> MaxQuota" "0 \<le> c" "c \<le> 2 ^ 32" for k x c
    using sim_check[OF S t that] by blast
  have e0: "(0, Fin 0) = enc (None, 0)" by (simp add: enc_def fint_num)
  have step: "(if flt (Fin 0) (fint x) \<and> flt (Fin 0) (fst (snd (snd (lua_check (fint ?now) (fint (?B * 1000)) db t k (fint x) (fint c)))))
      then lua_consider code (fst (snd (snd (lua_check (fint ?now) (fint (?B * 1000)) db t k (fint x) (fint c))))) (enc w) else enc w)
    = enc (go_step l x (fst (peek m k' ?now x)) (need c (capacity (md_p m) x)) w)"
    if "x \<le> MaxQuota" "0 \<le> c" "c \<le> 2 ^ 32" "code = limit_code (Some l)" "0 < x \<longrightarrow> k = k'" for k k' x c code l w
    unfolding that(4) by (rule step_enc[where s = "fint ?now"]) (use chk[of x c k] that in simp)
  note steps = step[OF q(2) _ _ limit_code.simps(2)[symmetric] impI[OF refl], of 1] step[OF q(4,9,10) limit_code.simps(3)[symmetric] impI[OF refl]]
    step[OF q(8) _ _ limit_code.simps(5)[symmetric], of 1 km "keyModel (mr_Model r)"]
  have c3: "(if conc_full ?now r m then lua_consider 3 (Fin 1000) (enc w) else enc w)
     = enc (if conc_full ?now r m then rl_consider LimitConcurrency concurrencyRetryMs w else w)" for w
    using consider_enc[of LimitConcurrency concurrencyRetryMs w] by (simp add: concurrencyRetryMs_def fint_num)
  have km: "store_if t db m (keyModel (mr_Model r)) mq 1 d = store_if t db m km mq 1 d" for d
    by (simp add: store_if_def km_def)
  have pos: "flt (Fin 0) (fint x) = (0 < x)" for x by (simp add: fint_num)
  have keys: "script_keys r ! 0 = keyRequests (mr_TenantID r)" "script_keys r ! 1 = keyTokens (mr_TenantID r)"
    "script_keys r ! 2 = keyConcurrency (mr_TenantID r)" "script_keys r ! 3 = km" by (simp_all add: script_keys_def km_def q_defs)
  have encs: "fst (enc w) = limit_code (fst w)" "trunc_of (snd (enc w)) = snd w" for w
    by (simp_all add: enc_def)
  have one: "Fin 1 = fint 1" by (simp add: fint_num)
  have m1: "0 < mq \<longrightarrow> km = keyModel (mr_Model r)" by (simp add: km_def)
  have b: "(0::int) \<le> 1" "(1::int) \<le> 2 ^ 32" by simp_all
  show ?thesis
    unfolding acquire_int_def Let_def q_defs[symmetric] km
    unfolding acquireScript_def script_args_def acquire_args.simps keys Let_def q_defs[symmetric] F W e0 T live_def[symmetric] full[unfolded pos]
      one steps(1)[OF b, unfolded pos] steps(2)[unfolded pos] c3 steps(3)[OF b m1, unfolded pos] encs limit_code_pos worst_of_def store_if_def pos by (rule refl)
qed

lemma acquire_sim:
  assumes S: "sim (server_ms t) db m" and t: "time_ok t" and r: "request_fit r" and ov: "override = 0 \<or> override = server_ms t"
    and acq: "acquireScript t (script_keys r) (script_args (md_p m) override r) db = (db', reply)"
    and all: "Allow (server_ms t) r m = (m', out)"
  shows "reply = outcome_reply out" "sim (server_ms t) db' m'"
proof -
  let ?now = "server_ms t" and ?k = "keyConcurrency (mr_TenantID r)" and ?mc = "li_MaxConcurrent (mr_Limits r)" and ?w = "worst_of (server_ms t) r m"
  let ?live = "live_members ?now (zmembers db t ?k)"
  note A = acq[unfolded acquire_exact[OF S t r ov] acquire_int_def Let_def] and G = all[unfolded Allow_unrolled]
  define db1 where "db1 = (if 0 < ?mc then db\<lparr>db_zset := mput ?k \<lparr>ze_members = ?live, ze_expire = zexpire db t ?k\<rparr> (db_zset db)\<rparr> else db)"
  define db4 where "db4 = store_if t db m (keyModel (mr_Model r)) (mr_ModelRequestsPerMinute r) 1
      (store_if t db m (keyTokens (mr_TenantID r)) (li_TokensPerMinute (mr_Limits r)) (mr_Cost r)
        (store_if t db m (keyRequests (mr_TenantID r)) (li_RequestsPerMinute (mr_Limits r)) 1 db1))"
  note A = A[folded db1_def, folded db4_def]
  show "reply = outcome_reply out" using A G by (auto simp: outcome_reply_def split: if_splits)
  have S1: "sim ?now db1 (pruned ?now r m)" using prune_sim[OF S, of ?k] S by (simp add: db1_def pruned_def)
  show "sim ?now db' m'"
  proof (cases "fst ?w = None")
    case False
    then show ?thesis using A G S1 by auto
  next
    case True
    have fit: "request_ok r" "mr_Cost r \<le> 2 ^ 32" "li_RequestsPerMinute (mr_Limits r) \<le> MaxQuota" "li_TokensPerMinute (mr_Limits r) \<le> MaxQuota"
      "mr_ModelRequestsPerMinute r \<le> MaxQuota" using r by (simp_all add: request_fit_def request_ok_def MaxCost_def)
    have rl: "rl_ok m" using S by (simp add: sim_def)
    have "refusals ?now r m = {}" using Allow_spec(2)[OF rl fit(1)] Allow_unrolled[of ?now r m] True by force
    note need = refusals_none[OF this, unfolded checks_of_def set_append Un_iff]
    note store = cond_store[OF S t, unfolded fint_num fint_less, folded store_if_def[of t db m]]
    let ?m2 = "foldl (charge ?now) (pruned ?now r m) (checks_of m ?now r)"
    have S4: "sim ?now db4 (foldl (charge ?now) (pruned ?now r m) (checks_of m ?now r))"
      unfolding checks_of_def foldl_append db4_def using fit S1 need
      by (intro store) (auto simp: request_ok_def)
    have ttl: "0 < rp_LeaseTTLMs (md_p m)" using S by (simp add: sim_def params_fit_def)
    note Z = put_one[OF live_ok[OF zmembers_ok[OF sim_lease[OF S, of ?k]]] ttl, of "mr_LeaseID r"]
    have "0 < ?mc \<Longrightarrow> held_leases ?m2 ?k = live_leases ?now (held_leases m ?k)" by (simp add: pruned_def held_pruned)
    then show ?thesis
      using A G True S4 put_sim[OF S4, of _ _ m' ?k, simplified, OF Z]
      by (auto simp: admit_def Let_def held_leases_def mget_or_mput)
  qed
qed

section \<open>renewScript and releaseScript\<close>

definition renew_step :: "int \<Rightarrow> string \<Rightarrow> rl_model \<times> int \<Rightarrow> string \<Rightarrow> rl_model \<times> int" where
  "renew_step now tn = (\<lambda>(m, c) i. let (m', b) = Renew now tn i m in (m', if b then c + 1 else c))"

lemma renew_one_sim:
  assumes P: "params_fit (md_p m)" and t: "time_ok t" and k: "k = keyConcurrency tn"
    and z: "zset_ok (rp_LeaseTTLMs (md_p m)) (server_ms t) ms (held_leases m k)"
    and one: "renew_one (fint (server_ms t)) (fint (rp_LeaseTTLMs (md_p m))) (ms, c) i = (ms', c')"
    and go: "renew_step (server_ms t) tn (m, c) i = (m', c'')"
  shows "zset_ok (rp_LeaseTTLMs (md_p m)) (server_ms t) ms' (held_leases m' k)" "c' = c''" "c \<le> c'" "c' = c \<Longrightarrow> ms' = ms \<and> m' = m"
    "md_p m' = md_p m" "md_buckets m' = md_buckets m" "\<And>k'. k' \<noteq> k \<Longrightarrow> held_leases m' k' = held_leases m k'"
proof -
  let ?now = "server_ms t" and ?ttl = "rp_LeaseTTLMs (md_p m)"
  have p: "0 < ?ttl" "?ttl \<le> max_time" using P by (simp_all add: params_fit_def)
  have T: "float_of (fmt0 (fadd (fint ?now) (fint ?ttl))) = fint (?now + ?ttl)"
    using p t time_ok_ms[OF t] by (simp add: fint_add float_of_fint time_ok_def rate_consts)
  have "(zset_ok ?ttl ?now ms' (held_leases m' k) \<and> c' = c'' \<and> c \<le> c' \<and> (c' = c \<longrightarrow> ms' = ms \<and> m' = m)
    \<and> md_p m' = md_p m \<and> md_buckets m' = md_buckets m \<and> (\<forall>k'. k' \<noteq> k \<longrightarrow> held_leases m' k' = held_leases m k'))"
  proof (cases "\<exists>n > ?now. mget ms i = Some (fint n)")
    case True
    then obtain n where n: "?now < n" "mget ms i = Some (fint n)" by blast
    then have "mget (held_leases m k) i = Some n" using z by (simp add: zset_ok_def)
    then show ?thesis using one go n put_one[OF z p(1), of i] by (auto simp: renew_one_def renew_step_def Renew_def Let_def k T)
  next
    case False
    have "c' = c \<and> ms' = ms"
    proof (cases "mget ms i")
      case (Some v)
      with mget_mem[OF Some] z obtain n where "v = fint n" by (force simp: zset_ok_def)
      then show ?thesis using one Some False by (auto simp: renew_one_def)
    qed (use one in \<open>simp add: renew_one_def\<close>)
    moreover have "mget (held_leases m k) i = Some n \<Longrightarrow> n \<le> ?now" for n using z False by (force simp: zset_ok_def)
    then have "m' = m \<and> c'' = c" using go by (auto simp: renew_step_def Renew_def Let_def k split: option.splits if_splits)
    ultimately show ?thesis using z by simp
  qed
  then show "zset_ok ?ttl ?now ms' (held_leases m' k)" "c' = c''" "c \<le> c'" "c' = c \<Longrightarrow> ms' = ms \<and> m' = m"
    "md_p m' = md_p m" "md_buckets m' = md_buckets m" "\<And>k'. k' \<noteq> k \<Longrightarrow> held_leases m' k' = held_leases m k'" by simp_all
qed

lemma release_sim:
  assumes S: "sim (server_ms t) db m" and k: "k = keyConcurrency tn"
  shows "sim (server_ms t) (fst (releaseScript t k i db)) (fst (Release tn i m))"
proof -
  let ?now = "server_ms t" and ?ttl = "rp_LeaseTTLMs (md_p m)" and ?m = "fst (Release tn i m)"
  have F: "md_p ?m = md_p m" "md_buckets ?m = md_buckets m" "\<And>k'. held_leases ?m k' = (if k' = k then mdel i (held_leases m k) else held_leases m k')"
    by (auto simp: Release_def Let_def held_leases_def mget_or_def mget_mput k split: option.split)
  note L = sim_lease[OF S, of k]
  note Z = zmembers_ok[OF L]
  show ?thesis
  proof (cases "mget (zmembers db t k) i")
    case None
    have "n \<le> ?now" if "mget (held_leases m k) i = Some n" for n using Z None that by (force simp: zset_ok_def)
    then have "lease_sim ?ttl ?now (mget (db_zset db) k) (mdel i (held_leases m k))"
      using L by (auto simp: lease_sim_def mget_mdel mdel_mem split: option.splits)
    then show ?thesis using S F None by (auto simp: sim_def releaseScript_def rl_ok_def)
  next
    case (Some v)
    have "lease_sim ?ttl ?now (Some \<lparr>ze_members = mdel i (zmembers db t k), ze_expire = zexpire db t k\<rparr>) (mdel i (held_leases m k))"
    proof (rule lease_sim_of)
      show "\<exists>n. s = fint n \<and> n \<le> zexpire db t k \<and> n \<le> ?now + ?ttl" if "(j, s) \<in> set (mdel i (zmembers db t k))" for j s
        using that zmembers_expire[OF L] by (auto simp: mdel_mem)
    qed (use Z in \<open>auto simp: zset_ok_def mget_mdel\<close>)
    from sim_zset[OF S this F] show ?thesis using Some by (simp add: releaseScript_def)
  qed
qed

lemma renew_fold_sim:
  assumes "params_fit (md_p m)" "time_ok t" "k = keyConcurrency tn" "zset_ok (rp_LeaseTTLMs (md_p m)) (server_ms t) ms (held_leases m k)"
    "foldl (renew_one (fint (server_ms t)) (fint (rp_LeaseTTLMs (md_p m)))) (ms, c) ids = (ms', c')"
    "foldl (renew_step (server_ms t) tn) (m, c) ids = (m', c'')"
  shows "zset_ok (rp_LeaseTTLMs (md_p m)) (server_ms t) ms' (held_leases m' k) \<and> c' = c'' \<and> c \<le> c' \<and> (c' = c \<longrightarrow> ms' = ms \<and> m' = m)
    \<and> md_p m' = md_p m \<and> md_buckets m' = md_buckets m \<and> (\<forall>k'. k' \<noteq> k \<longrightarrow> held_leases m' k' = held_leases m k')"
  using assms
proof (induction ids arbitrary: m ms c)
  case (Cons i ids)
  obtain ms1 c1 m1 c2 where s: "renew_one (fint (server_ms t)) (fint (rp_LeaseTTLMs (md_p m))) (ms, c) i = (ms1, c1)"
    "renew_step (server_ms t) tn (m, c) i = (m1, c2)" by (meson surj_pair)
  note one = renew_one_sim[OF Cons.prems(1-4) s]
  have "zset_ok (rp_LeaseTTLMs (md_p m1)) (server_ms t) ms' (held_leases m' k) \<and> c' = c'' \<and> c1 \<le> c' \<and> (c' = c1 \<longrightarrow> ms' = ms1 \<and> m' = m1)
    \<and> md_p m' = md_p m1 \<and> md_buckets m' = md_buckets m1 \<and> (\<forall>k'. k' \<noteq> k \<longrightarrow> held_leases m' k' = held_leases m1 k')"
    by (rule Cons.IH) (use Cons.prems s one in simp_all)
  then show ?case using one by (auto simp: order_antisym)
qed simp

lemma renew_sim:
  assumes S: "sim (server_ms t) db m" and t: "time_ok t" and ov: "override = 0 \<or> override = server_ms t"
    and scr: "renewScript t (keyConcurrency tn) override (rp_LeaseTTLMs (md_p m)) ids db = (db', reply)"
    and go: "foldl (renew_step (server_ms t) tn) (m, 0) ids = (m', c)"
  shows "reply = [c]" "sim (server_ms t) db' m'"
proof -
  let ?now = "server_ms t" and ?ttl = "rp_LeaseTTLMs (md_p m)" and ?k = "keyConcurrency tn"
  have P: "params_fit (md_p m)" using S by (simp add: sim_def)
  obtain ms' c' where f: "foldl (renew_one (fint ?now) (fint ?ttl)) (zmembers db t ?k, 0) ids = (ms', c')" by force
  note R = renew_fold_sim[OF P t refl zmembers_ok[OF sim_lease[OF S]] f go]
  have F: "lua_now override t = fint ?now" "float_of ?ttl = fint ?ttl" "trunc_of (fmul (fint ?ttl) (Fin 2)) = 2 * ?ttl"
    using lua_now_exact[OF _ _ _ _ ov] t P by (simp_all add: time_ok_def params_fit_def float_of_fint fint_num fint_mul rate_consts)
  note scr = scr[unfolded renewScript_def Let_def F f prod.case]
  show "reply = [c]" using scr R by simp
  show "sim ?now db' m'"
  proof (cases "c' = 0")
    case True
    then show ?thesis using scr R S by simp
  next
    case False
    then have "0 < c'" using R by simp
    then have "db' = db\<lparr>db_zset := mput ?k \<lparr>ze_members = ms', ze_expire = ?now + 2 * ?ttl\<rparr> (db_zset db)\<rparr>" using scr by simp
    moreover have "held_leases m' k' = (if k' = ?k then held_leases m' ?k else held_leases m k')" for k' using R by simp
    ultimately show ?thesis using put_sim[OF S, of ms' "held_leases m' ?k" m' ?k] R by metis
  qed
qed

section \<open>Every sequence of calls\<close>

datatype rl_op = OpAllow model_request | OpRenew string "string list" | OpRelease string string

type_synonym timed_op = "redis_time \<times> int \<times> rl_op" \<comment> \<open>the server's clock, the override, the call\<close>

fun script_op :: "rl_params \<Rightarrow> redis_db \<Rightarrow> timed_op \<Rightarrow> redis_db \<times> int list" where
  "script_op p db (t, ov, OpAllow r) = acquireScript t (script_keys r) (script_args p ov r) db"
| "script_op p db (t, ov, OpRenew tn ids) = renewScript t (keyConcurrency tn) ov (rp_LeaseTTLMs p) ids db"
| "script_op p db (t, ov, OpRelease tn i) = (fst (releaseScript t (keyConcurrency tn) i db), [])" \<comment> \<open>the caller drops the reply\<close>

fun model_op :: "rl_model \<Rightarrow> timed_op \<Rightarrow> rl_model \<times> int list" where
  "model_op m (t, ov, OpAllow r) = (let (m', out) = Allow (server_ms t) r m in (m', outcome_reply out))"
| "model_op m (t, ov, OpRenew tn ids) = (let (m', c) = foldl (renew_step (server_ms t) tn) (m, 0) ids in (m', [c]))"
| "model_op m (t, ov, OpRelease tn i) = (fst (Release tn i m), [])"

primrec script_run :: "rl_params \<Rightarrow> redis_db \<Rightarrow> timed_op list \<Rightarrow> int list list" where
  "script_run p db [] = []"
| "script_run p db (x # xs) = (let (db', reply) = script_op p db x in reply # script_run p db' xs)"

primrec model_run :: "rl_model \<Rightarrow> timed_op list \<Rightarrow> int list list" where
  "model_run m [] = []"
| "model_run m (x # xs) = (let (m', reply) = model_op m x in reply # model_run m' xs)"

fun op_fit :: "timed_op \<Rightarrow> bool" where
  "op_fit (t, ov, OpAllow r) \<longleftrightarrow> time_ok t \<and> (ov = 0 \<or> ov = server_ms t) \<and> request_fit r"
| "op_fit (t, ov, _) \<longleftrightarrow> time_ok t \<and> (ov = 0 \<or> ov = server_ms t)"

definition ops_fit :: "timed_op list \<Rightarrow> bool" where
  \<comment> \<open>the server's clock does not go back\<close>
  "ops_fit xs \<longleftrightarrow> sorted (map (\<lambda>x. server_ms (fst x)) xs) \<and> list_all op_fit xs"

lemma op_sim:
  assumes S: "sim (server_ms (fst x)) db m" and x: "op_fit x" and s: "script_op (md_p m) db x = (db', reply)" and g: "model_op m x = (m', reply')"
  shows "reply = reply'" "sim (server_ms (fst x)) db' m'" "md_p m' = md_p m"
proof -
  obtain t ov q where [simp]: "x = (t, ov, q)" by (metis surj_pair)
  have "reply = reply' \<and> sim (server_ms t) db' m' \<and> md_p m' = md_p m"
  proof (cases q)
    case (OpAllow r)
    obtain out where a: "Allow (server_ms t) r m = (m', out)" "reply' = outcome_reply out" using g OpAllow by (auto split: prod.splits)
    have "md_p m' = md_p m" using Allow_unrolled[of "server_ms t" r m] a(1) by (auto split: if_splits)
    then show ?thesis using acquire_sim[of t db m r ov db' reply m' out] S x s a OpAllow by simp
  next
    case (OpRenew tn ids)
    obtain c where c: "foldl (renew_step (server_ms t) tn) (m, 0) ids = (m', c)" "reply' = [c]" using g OpRenew by (auto split: prod.splits)
    have P: "params_fit (md_p m)" "time_ok t" using S x OpRenew by (simp_all add: sim_def)
    obtain ms' c' where f: "foldl (renew_one (fint (server_ms t)) (fint (rp_LeaseTTLMs (md_p m)))) (zmembers db t (keyConcurrency tn), 0) ids = (ms', c')" by force
    have "md_p m' = md_p m" using renew_fold_sim[OF P refl zmembers_ok[OF sim_lease] f c(1)] S by simp
    then show ?thesis using renew_sim[of t db m ov tn ids db' reply m' c] S x s c OpRenew by simp
  next
    case (OpRelease tn i)
    have "md_p (fst (Release tn i m)) = md_p m" by (simp add: Release_def Let_def split: option.split)
    then show ?thesis using release_sim[of t db m _ tn i] S s g OpRelease by auto
  qed
  then show "reply = reply'" "sim (server_ms (fst x)) db' m'" "md_p m' = md_p m" by simp_all
qed

lemma run_sim: "sim now db m \<Longrightarrow> sorted (now # map (\<lambda>x. server_ms (fst x)) xs) \<Longrightarrow> list_all op_fit xs \<Longrightarrow> script_run (md_p m) db xs = model_run m xs"
proof (induction xs arbitrary: now db m)
  case (Cons x xs)
  obtain db' reply m' reply' where s: "script_op (md_p m) db x = (db', reply)" "model_op m x = (m', reply')" by (meson surj_pair)
  have "sim (server_ms (fst x)) db m" using sim_later[OF Cons.prems(1)] Cons.prems(2) by simp
  note one = op_sim[OF this _ s]
  have x: "op_fit x" using Cons.prems(3) by simp
  have "script_run (md_p m') db' xs = model_run m' xs" by (rule Cons.IH[OF one(2)[OF x]]) (use Cons.prems in simp_all)
  then show ?case using one(1,3)[OF x] s by simp
qed simp

lemma sim_empty: "params_fit p \<Longrightarrow> sim now \<lparr>db_hash = [], db_zset = []\<rparr> (NewModel p)"
  by (auto simp: sim_def NewModel_def rl_ok_def params_fit_def bucket_sim_def lease_sim_def held_leases_def mget_or_def)

section \<open>The scripts refine the model\<close>

definition empty_db :: redis_db where
  "empty_db = \<lparr>db_hash = [], db_zset = []\<rparr>"

definition ex_call :: "string \<Rightarrow> rl_op" where
  "ex_call i = OpAllow (ex_mr\<lparr>mr_Limits := \<lparr>li_RequestsPerMinute = 240, li_TokensPerMinute = 600, li_MaxConcurrent = 1\<rparr>, mr_LeaseID := i\<rparr>)"

definition ex_ops :: "timed_op list" where
  "ex_ops = [((1000, 0), 0, ex_call ''a''), ((1000, 5000), 0, OpRenew ''t'' [''a'', ''x'']), ((1000, 9000), 1000009, ex_call ''b''),
     ((1001, 0), 0, OpRelease ''t'' ''a''), ((1001, 0), 0, ex_call ''c'')]"

text \<open>C9: the Lua scripts that run inside Redis implement the Go reference model. For every sequence of acquire, renew and release
  calls on an empty database, at server times that do not go back, with the quotas, costs and times in the bounds that the limiter
  enforces, the replies of the scripts, computed in binary64 and with keys that expire, are the decisions, the limits and the
  retry times of the model on integers.
\<close>

theorem script_refines_model:
  assumes "params_fit p" "ops_fit ops"
  shows "script_run p empty_db ops = model_run (NewModel p) ops"
proof (cases ops)
  case (Cons x xs)
  have "sorted (server_ms (fst x) # map (\<lambda>x. server_ms (fst x)) ops)" using assms(2) Cons by (auto simp: ops_fit_def)
  from run_sim[OF sim_empty[OF assms(1)] this] show ?thesis
    using assms(2) by (simp add: ops_fit_def empty_db_def NewModel_def)
qed simp

lemmas ex_run_defs = Allow_def checks_of_def add_check_def peek_def NewModel_def ex_mr_def ex_rp_def capacity_def need_def scale_def
  consider_check_def rl_consider_def charge_def prune_leases_def held_leases_def concurrencyRetryMs_def Release_def Renew_def renew_step_def
  server_ms_def ex_call_def outcome_reply_def mget_or_def

theorem script_refines_model_witness: "script_run ex_rp empty_db ex_ops = [[1, 0, 0], [1], [0, 3, 1000], [], [1, 0, 0]]"
proof -
  have "params_fit ex_rp" by (simp add: params_fit_def ex_rp_def rate_consts)
  moreover have "ops_fit ex_ops"
    by (simp add: ops_fit_def ex_ops_def ex_call_def server_ms_def time_ok_def request_fit_def ex_mr_def MaxCost_def rate_consts)
  ultimately have "script_run ex_rp empty_db ex_ops = model_run (NewModel ex_rp) ex_ops" by (rule script_refines_model)
  then show ?thesis by (simp add: ex_ops_def ex_run_defs Let_def)
qed

end
