(* ===== verification/RedisClient.thy ===== *)
theory RedisClient
  imports Go_Base
begin

text \<open>
  \<^verbatim>\<open>internal/redis/client.go\<close> and the error classes of \<^verbatim>\<open>metrics.go\<close>: the health tracking that leaves Redis alone after a failure and
  lets one probe through when the backoff has elapsed. The driver (go-redis) is outside the code: what one of its calls returns is an
  argument, and an error of it is a record of what \<^verbatim>\<open>errors.Is\<close> and \<^verbatim>\<open>errors.As\<close> find in it. A call is two steps, \<open>client_admit\<close> and
  \<open>Run_end\<close>, so that calls interleave; the clock readings are arguments.
\<close>

section \<open>Errors\<close>

record driver_error =
  de_text :: string
  de_deadline :: bool \<comment> \<open>context.DeadlineExceeded, or a net.Error that is a timeout\<close>
  de_closed :: bool   \<comment> \<open>io.EOF, net.ErrClosed, ECONNREFUSED and the like\<close>
  de_net :: bool      \<comment> \<open>some other net.Error\<close>
  de_redis :: bool    \<comment> \<open>goredis.Error: an error reply\<close>
  de_nil :: bool      \<comment> \<open>goredis.Nil\<close>
  de_pool :: bool     \<comment> \<open>goredis.ErrPoolTimeout\<close>

definition plain_error :: "string \<Rightarrow> driver_error" where
  \<comment> \<open>\<^verbatim>\<open>errors.New\<close>\<close>
  "plain_error s = \<lparr>de_text = s, de_deadline = False, de_closed = False, de_net = False, de_redis = False, de_nil = False, de_pool = False\<rparr>"

datatype redis_error = ErrBackoff | ErrBusy | CallError driver_error

datatype error_kind = errTimeout | errConnection | errScript | errOther

definition classify :: "driver_error \<Rightarrow> error_kind" where
  "classify e =
     (if de_deadline e then errTimeout
      else if de_closed e \<or> de_net e then errConnection
      else if de_redis e then errScript
      else errOther)"

fun strip_prefix :: "string \<Rightarrow> string \<Rightarrow> string option" where
  "strip_prefix [] s = Some s"
| "strip_prefix (c # p) [] = None"
| "strip_prefix (c # p) (d # s) = (if c = d then strip_prefix p s else None)"

fun str_contains :: "string \<Rightarrow> string \<Rightarrow> bool" where
  \<comment> \<open>\<^verbatim>\<open>strings.Contains(s, sub)\<close>\<close>
  "str_contains [] sub \<longleftrightarrow> sub = []"
| "str_contains (c # s) sub \<longleftrightarrow> strip_prefix sub (c # s) \<noteq> None \<or> str_contains s sub"

lemma strip_prefix_length: "strip_prefix p s = Some r \<Longrightarrow> length s = length p + length r"
  by (induction p s rule: strip_prefix.induct) (auto split: if_splits)

function replace_all :: "string \<Rightarrow> string \<Rightarrow> string \<Rightarrow> string" where
  \<comment> \<open>\<^verbatim>\<open>strings.ReplaceAll(s, old, new)\<close> for a non-empty \<open>old\<close>\<close>
  "replace_all old new s =
     (if old = [] then s
      else case s of [] \<Rightarrow> []
        | c # cs \<Rightarrow> (case strip_prefix old s of Some rest \<Rightarrow> new @ replace_all old new rest | None \<Rightarrow> c # replace_all old new cs))"
  by pat_completeness auto
termination
  by (relation "measure (\<lambda>(old, new, s). length s)") (auto dest: strip_prefix_length)

declare replace_all.simps [simp del]

definition scrub :: "string \<Rightarrow> driver_error \<Rightarrow> driver_error" where
  "scrub secret e =
     (if secret = [] \<or> \<not> str_contains (de_text e) secret then e
      else plain_error (replace_all secret ''<redacted>'' (de_text e)))"

section \<open>The client\<close>

record redis_client =
  rc_secret :: string
  rc_backoff :: duration
  rc_errs :: "(error_kind, nat) gomap"
  rc_down :: bool
  rc_downUntil :: time
  rc_probing :: bool
  rc_since :: time

definition newClient :: "string \<Rightarrow> duration \<Rightarrow> redis_client" where
  \<comment> \<open>\<^verbatim>\<open>New\<close> after the options were parsed\<close>
  "newClient secret backoff = \<lparr>rc_secret = secret, rc_backoff = (if backoff \<le> 0 then second else backoff), rc_errs = [],
     rc_down = False, rc_downUntil = zero_time, rc_probing = False, rc_since = zero_time\<rparr>"

definition noteError :: "driver_error \<Rightarrow> redis_client \<Rightarrow> redis_client" where
  "noteError e c = (if de_nil e then c
     else c\<lparr>rc_errs := mput (classify e) (mget_or 0 (rc_errs c) (classify e) + 1) (rc_errs c)\<rparr>)"

definition client_Down :: "time \<Rightarrow> redis_client \<Rightarrow> bool \<times> duration" where
  "client_Down now c =
     (if \<not> rc_down c then (False, 0)
      else let d = rc_downUntil c - now in if d > 0 then (True, d) else (True, 0))"

definition client_RetryAfter :: "time \<Rightarrow> redis_client \<Rightarrow> duration" where
  "client_RetryAfter now c = (let d = snd (client_Down now c) in if d > 0 then d else rc_backoff c)"

definition client_admit :: "time \<Rightarrow> redis_client \<Rightarrow> redis_client \<times> (redis_error + bool)" where
  "client_admit now c =
     (if \<not> rc_down c then (c, Inr False)
      else if now < rc_downUntil c \<or> rc_probing c then (c, Inl ErrBackoff)
      else (c\<lparr>rc_probing := True\<rparr>, Inr True))"

definition client_done :: "bool \<Rightarrow> driver_error option \<Rightarrow> time \<Rightarrow> redis_client \<Rightarrow> redis_client" where
  "client_done probe err now c0 =
     (let c1 = (if probe then c0\<lparr>rc_probing := False\<rparr> else c0) in
      case err of
        Some e \<Rightarrow>
          let c2 = noteError e c1;
              c3 = (if \<not> rc_down c2 then c2\<lparr>rc_down := True, rc_since := now\<rparr> else c2)
          in c3\<lparr>rc_downUntil := now + rc_backoff c3\<rparr>
      | None \<Rightarrow> if rc_down c1 then c1\<lparr>rc_down := False\<rparr> else c1)"

definition client_settle :: "bool \<Rightarrow> redis_client \<Rightarrow> redis_client" where
  "client_settle probe c = (if probe then c\<lparr>rc_probing := False\<rparr> else c)"

datatype redis_value = RInt int | RArr "redis_value list" | RStr string | RNil

fun go_type :: "redis_value \<Rightarrow> string" where
  \<comment> \<open>the verb \<^verbatim>\<open>%T\<close>\<close>
  "go_type (RInt _) = ''int64''"
| "go_type (RArr _) = ''[]interface {}''"
| "go_type (RStr _) = ''string''"
| "go_type RNil = ''<nil>''"

fun itoa :: "nat \<Rightarrow> string" where
  \<comment> \<open>the verb \<^verbatim>\<open>%d\<close> of a non-negative number\<close>
  "itoa n = (if n < 10 then [char_of (48 + n)] else itoa (n div 10) @ [char_of (48 + n mod 10)])"

declare itoa.simps [simp del]

primrec ints_loop :: "nat \<Rightarrow> redis_value list \<Rightarrow> (string + int list)" where
  "ints_loop i [] = Inr []"
| "ints_loop i (v # vs) =
     (case v of
        RInt n \<Rightarrow> (case ints_loop (i + 1) vs of Inl e \<Rightarrow> Inl e | Inr ns \<Rightarrow> Inr (n # ns))
      | _ \<Rightarrow> Inl (''redis: script returned '' @ go_type v @ '' at '' @ itoa i @ '', want an integer''))"

definition ints :: "redis_value \<Rightarrow> nat \<Rightarrow> (string + int list)" where
  "ints res want =
     (case res of
        RArr arr \<Rightarrow> if length arr \<noteq> want
           then Inl (''redis: script returned '' @ itoa (length arr) @ '' values, want '' @ itoa want)
           else ints_loop 0 arr
      | _ \<Rightarrow> Inl (''redis: script returned '' @ go_type res @ '', want an array''))"

definition Run_end :: "nat \<Rightarrow> bool \<Rightarrow> (driver_error + redis_value) \<Rightarrow> time \<Rightarrow> redis_client \<Rightarrow> redis_client \<times> (redis_error + int list)" where
  \<comment> \<open>\<^verbatim>\<open>Run\<close> from the driver's answer on\<close>
  "Run_end want probe res now c =
     (let r = (case res of Inl e \<Rightarrow> Inl e | Inr v \<Rightarrow> (case ints v want of Inl msg \<Rightarrow> Inl (plain_error msg) | Inr ns \<Rightarrow> Inr ns))
      in case r of
           Inr ns \<Rightarrow> (client_done probe None now c, Inr ns)
         | Inl e \<Rightarrow> if de_pool e then (client_settle probe c, Inl ErrBusy)
                   else let e' = scrub (rc_secret c) e in (client_done probe (Some e') now c, Inl (CallError e')))"

definition client_Run :: "time \<Rightarrow> time \<Rightarrow> nat \<Rightarrow> (driver_error + redis_value) \<Rightarrow> redis_client \<Rightarrow> redis_client \<times> (redis_error + int list)" where
  \<comment> \<open>\<^verbatim>\<open>Run\<close> with no other call in between: the clock at its start and at its end, and the driver's answer\<close>
  "client_Run t0 t1 want res c =
     (case client_admit t0 c of (c1, Inl e) \<Rightarrow> (c1, Inl e) | (c1, Inr probe) \<Rightarrow> Run_end want probe res t1 c1)"

definition client_Set :: "time \<Rightarrow> driver_error option \<Rightarrow> redis_client \<Rightarrow> redis_client \<times> redis_error option" where
  "client_Set now res c =
     (if fst (client_Down now c) then (c, Some ErrBackoff)
      else case res of None \<Rightarrow> (c, None)
        | Some e \<Rightarrow> let e' = scrub (rc_secret c) e in (noteError e' c, Some (CallError e')))"

section \<open>Interleaved calls\<close>

datatype client_event =
    Begin time                                                        \<comment> \<open>a \<^verbatim>\<open>Run\<close> starts\<close>
  | Finish nat nat "driver_error + redis_value" time                  \<comment> \<open>the driver answers the call of this index\<close>
  | SetCall time "driver_error option"

type_synonym client_run = "redis_client \<times> bool list" \<comment> \<open>the client and the calls in flight, with their probe flags\<close>

fun client_step :: "client_event \<Rightarrow> client_run \<Rightarrow> client_run" where
  "client_step (Begin now) (c, fl) = (case client_admit now c of (c', Inl _) \<Rightarrow> (c', fl) | (c', Inr probe) \<Rightarrow> (c', fl @ [probe]))"
| "client_step (Finish i want res now) (c, fl) =
     (if i < length fl then (fst (Run_end want (fl ! i) res now c), take i fl @ drop (Suc i) fl) else (c, fl))"
| "client_step (SetCall now res) (c, fl) = (fst (client_Set now res c), fl)"

definition probe_ok :: "client_run \<Rightarrow> bool" where
  "probe_ok = (\<lambda>(c, fl). count_if (\<lambda>x. x) fl = (if rc_probing c then 1 else 0))"

lemma noteError_frame [simp]: "rc_probing (noteError e c) = rc_probing c" "rc_down (noteError e c) = rc_down c"
  "rc_downUntil (noteError e c) = rc_downUntil c" "rc_backoff (noteError e c) = rc_backoff c"
  by (simp_all add: noteError_def)

lemma done_probing [simp]: "rc_probing (client_done probe err now c) = (\<not> probe \<and> rc_probing c)"
  by (simp add: client_done_def Let_def split: option.split)

lemma Run_end_probing [simp]: "rc_probing (fst (Run_end want probe res now c)) = (\<not> probe \<and> rc_probing c)"
  by (auto simp: Run_end_def client_settle_def Let_def split: sum.split)

lemma Set_frame [simp]: "rc_probing (fst (client_Set now res c)) = rc_probing c" "rc_down (fst (client_Set now res c)) = rc_down c"
  "rc_downUntil (fst (client_Set now res c)) = rc_downUntil c"
  by (auto simp: client_Set_def Let_def split: option.split)

lemma count_if_remove: "i < length xs \<Longrightarrow> count_if P xs = count_if P (take i xs @ drop (Suc i) xs) + (if P (xs ! i) then 1 else 0)"
proof -
  assume "i < length xs"
  from arg_cong[OF id_take_nth_drop[OF this], of "count_if P"] show ?thesis by simp
qed

lemma client_step_ok: "probe_ok s \<Longrightarrow> probe_ok (client_step x s)"
proof -
  assume ok: "probe_ok s"
  obtain c fl where s [simp]: "s = (c, fl)" by force
  show ?thesis
  proof (cases x)
    case (Begin now)
    then show ?thesis using ok by (auto simp: probe_ok_def client_admit_def split: if_splits)
  next
    case (Finish i want res now)
    show ?thesis
    proof (cases "i < length fl")
      case True
      have "count_if (\<lambda>x. x) (take i fl @ drop (Suc i) fl) + (if fl ! i then 1 else 0) = (if rc_probing c then 1 else 0)"
        using ok count_if_remove[OF True, of "\<lambda>x. x"] by (simp only: probe_ok_def s prod.case)
      then have "count_if (\<lambda>x. x) (take i fl @ drop (Suc i) fl) = (if \<not> fl ! i \<and> rc_probing c then 1 else 0)"
        by (cases "fl ! i"; cases "rc_probing c") simp_all
      then show ?thesis using True by (simp only: Finish s client_step.simps probe_ok_def prod.case Run_end_probing if_True)
    qed (use ok Finish in simp)
  next
    case (SetCall now res)
    then show ?thesis using ok by (simp add: probe_ok_def)
  qed
qed

definition client_history :: "client_event list \<Rightarrow> string \<Rightarrow> duration \<Rightarrow> client_run" where
  "client_history xs secret backoff = foldl (\<lambda>s x. client_step x s) (newClient secret backoff, []) xs"

lemma client_history_ok: "probe_ok (client_history xs secret backoff)"
proof -
  have "probe_ok s \<Longrightarrow> probe_ok (foldl (\<lambda>s x. client_step x s) s xs)" for s
    by (induction xs arbitrary: s) (simp_all add: client_step_ok)
  then show ?thesis by (simp add: client_history_def probe_ok_def newClient_def)
qed

primrec finish_time :: "client_event \<Rightarrow> time" where
  "finish_time (Begin now) = now"
| "finish_time (Finish i want res now) = now"
| "finish_time (SetCall now res) = now"

lemma Run_end_until:
  "rc_downUntil (fst (Run_end want probe res now c)) \<in> {rc_downUntil c, now + rc_backoff c}"
  "rc_backoff (fst (Run_end want probe res now c)) = rc_backoff c"
  by (auto simp: Run_end_def client_done_def client_settle_def Let_def split: sum.split)

lemma Set_backoff [simp]: "rc_backoff (fst (client_Set now res c)) = rc_backoff c"
  by (auto simp: client_Set_def Let_def split: option.split)

lemma step_until:
  assumes "client_step x (c, fl) = (c', fl')" "finish_time x \<le> T" "rc_downUntil c \<le> T + rc_backoff c"
  shows "rc_downUntil c' \<le> T + rc_backoff c'" "rc_backoff c' = rc_backoff c"
proof -
  have "rc_downUntil c' \<le> T + rc_backoff c' \<and> rc_backoff c' = rc_backoff c"
  proof (cases x)
    case (Finish i want res now)
    then show ?thesis using assms Run_end_until[of want "fl ! i" res now c] by (auto split: if_splits)
  qed (use assms in \<open>auto simp: client_admit_def split: if_splits\<close>)
  then show "rc_downUntil c' \<le> T + rc_backoff c'" "rc_backoff c' = rc_backoff c" by simp_all
qed

lemma history_until:
  assumes "client_history xs secret backoff = (c, fl)" "\<forall>x \<in> set xs. finish_time x \<le> T" "zero_time \<le> T"
  shows "rc_downUntil c \<le> T + rc_backoff c \<and> rc_backoff c = (if backoff \<le> 0 then second else backoff)"
  using assms(1,2)
proof (induction xs arbitrary: c fl rule: rev_induct)
  case Nil
  then show ?case using assms(3) by (auto simp: client_history_def newClient_def second_def)
next
  case (snoc x xs)
  obtain c1 fl1 where h: "client_history xs secret backoff = (c1, fl1)" by force
  have "client_step x (c1, fl1) = (c, fl)" using snoc.prems(1) h by (simp add: client_history_def)
  then show ?case using step_until[of x c1 fl1 c fl T] snoc.IH[OF h] snoc.prems(2) by simp
qed

lemma admit_cases: "client_admit now c = (c, Inl ErrBackoff) \<longleftrightarrow> rc_down c \<and> (now < rc_downUntil c \<or> rc_probing c)"
  by (auto simp: client_admit_def)

lemma ints_ok: "ints (RArr (map RInt ns)) (length ns) = Inr ns"
proof -
  have "ints_loop i (map RInt ns) = Inr ns" for i by (induction ns arbitrary: i) simp_all
  then show ?thesis by (simp add: ints_def)
qed

lemma good_end: "Run_end (length ns) probe (Inr (RArr (map RInt ns))) now c = (client_done probe None now c, Inr ns)"
  "\<not> rc_down (client_done probe None now c)"
  by (simp_all add: Run_end_def ints_ok client_done_def Let_def)

lemma good_run:
  assumes "\<not> rc_probing c" "rc_downUntil c \<le> now" "res = Inr (RArr (map RInt ns))"
  shows "\<exists>c1 probe. client_Run now t1 (length ns) res c = (client_done probe None t1 c1, Inr ns)"
  using assms(1,2) unfolding assms(3) client_Run_def client_admit_def
  by (cases "rc_down c") (auto simp: good_end(1))

text \<open>C12: one probe at a time, and never a stuck client. After every interleaving of calls, whatever the driver answered and however
  the clock ran, at most one probe is in flight; a call is refused exactly while Redis is down and either the backoff runs or that probe
  is out. Once no call is in flight and the backoff has passed since the last event, a call is admitted, and a well-formed answer
  to it ends the outage and is returned.\<close>

theorem redis_probe_single:
  assumes h: "client_history xs secret backoff = (c, fl)"
  shows "count_if (\<lambda>p. p) fl \<le> 1
    \<and> (client_admit now c = (c, Inl ErrBackoff) \<longleftrightarrow> rc_down c \<and> (now < rc_downUntil c \<or> True \<in> set fl))
    \<and> (fl = [] \<longrightarrow> (\<forall>x \<in> set xs. finish_time x \<le> T) \<longrightarrow> zero_time \<le> T \<longrightarrow> T + rc_backoff c \<le> now \<longrightarrow>
        (case client_Run now te (length ns) (Inr (RArr (map RInt ns))) c of (c', r) \<Rightarrow> r = Inr ns \<and> \<not> rc_down c'))"
proof (intro conjI impI)
  have ok: "count_if (\<lambda>x. x) fl = (if rc_probing c then 1 else 0)" using client_history_ok[of xs secret backoff] h by (simp add: probe_ok_def)
  then show "count_if (\<lambda>p. p) fl \<le> 1" by simp
  have "rc_probing c \<longleftrightarrow> (\<exists>p \<in> set fl. p)" unfolding count_if_pos[symmetric] ok by simp
  moreover have "(\<exists>p \<in> set fl. p) \<longleftrightarrow> True \<in> set fl" by (metis (full_types))
  ultimately have "rc_probing c \<longleftrightarrow> True \<in> set fl" by simp
  then show "client_admit now c = (c, Inl ErrBackoff) \<longleftrightarrow> rc_down c \<and> (now < rc_downUntil c \<or> True \<in> set fl)" by (simp add: admit_cases)
  assume a: "fl = []" "\<forall>x \<in> set xs. finish_time x \<le> T" "zero_time \<le> T" "T + rc_backoff c \<le> now"
  have "\<not> rc_probing c" using ok unfolding a(1) by (simp split: if_splits)
  moreover have "rc_downUntil c \<le> now" using history_until[OF h a(2,3)] a(4) by simp
  ultimately obtain c1 probe where "client_Run now te (length ns) (Inr (RArr (map RInt ns))) c = (client_done probe None te c1, Inr ns)"
    using good_run by blast
  then show "case client_Run now te (length ns) (Inr (RArr (map RInt ns))) c of (c', r) \<Rightarrow> r = Inr ns \<and> \<not> rc_down c'"
    by (simp add: good_end(2))
qed

definition ex_fail :: driver_error where
  "ex_fail = (plain_error ''connection refused'')\<lparr>de_closed := True\<rparr>"

lemma ex_fail_end:
  assumes "rc_secret c = ''pw''"
  shows "fst (Run_end want probe (Inl ex_fail) now c) = client_done probe (Some ex_fail) now c"
proof -
  have "scrub ''pw'' ex_fail = ex_fail" by (simp add: scrub_def ex_fail_def plain_error_def)
  moreover have "\<not> de_pool ex_fail" by (simp add: ex_fail_def plain_error_def)
  ultimately show ?thesis by (simp add: Run_end_def assms Let_def)
qed

lemma done_fields: "rc_secret (client_done probe (Some e) now c) = rc_secret c" "rc_backoff (client_done probe (Some e) now c) = rc_backoff c"
  "rc_down (client_done probe (Some e) now c)" "rc_downUntil (client_done probe (Some e) now c) = now + rc_backoff c"
  by (simp_all add: client_done_def noteError_def Let_def)

theorem redis_probe_single_witness:
  "let (c, fl) = client_history [Begin 1, Begin 2, Finish 0 3 (Inl ex_fail) 5, Finish 0 3 (Inl ex_fail) 7] ''pw'' 100
   in fl = [] \<and> rc_down c \<and> client_admit 106 c = (c, Inl ErrBackoff) \<and> snd (client_Run 107 120 1 (Inr (RArr [RInt 4])) c) = Inr [4]"
proof -
  let ?xs = "[Begin 1, Begin 2, Finish 0 3 (Inl ex_fail) 5, Finish 0 3 (Inl ex_fail) 7]"
  obtain c fl where h: "client_history ?xs ''pw'' 100 = (c, fl)" by force
  have f: "fl = [] \<and> rc_down c \<and> rc_downUntil c = 107 \<and> rc_backoff c = 100"
    using h by (simp add: client_history_def newClient_def client_admit_def ex_fail_end done_fields) (auto simp: done_fields)
  have "(client_admit 106 c = (c, Inl ErrBackoff)) \<and> snd (client_Run 107 120 1 (Inr (RArr [RInt 4])) c) = Inr [4]"
    using redis_probe_single[OF h, where now = 106 and ns = "[4]"] redis_probe_single[OF h, where now = 107 and T = 7 and te = 120 and ns = "[4]"] f
    by (simp add: zero_time_def split: prod.splits)
  then show ?thesis using h f by simp
qed

end
