(* ===== verification/RateRedis.thy ===== *)
theory RateRedis
  imports RateEquiv RedisClient "HOL-Library.Multiset"
begin

text \<open>
  \<^verbatim>\<open>internal/ratelimit/redis.go\<close>: the limiter that runs the scripts through the Redis client and tracks this process's leases. \<open>Allow\<close>
  is two steps, up to and from the script call, so that requests interleave. The lease ID, the clocks and what the driver does with
  a call (an error, and whether the script took effect all the same) are arguments. A releaser is an index into the limiter's
  releasers, so that its \<^verbatim>\<open>sync.Once\<close> is a shared flag.
\<close>

section \<open>Configuration\<close>

definition FailClosed :: string where "FailClosed = ''closed''"
definition FailOpen :: string where "FailOpen = ''open''"

record rl_config =
  cf_OnFailure :: string
  cf_BurstSeconds :: int
  cf_LeaseTTL :: duration
  cf_MaxLocalLeases :: int
  cf_ModelRequestsPerMinute :: "(string, int) gomap"

definition DefaultBurstSeconds :: int where "DefaultBurstSeconds = 60"
definition DefaultLeaseTTL :: duration where "DefaultLeaseTTL = 60 * second"
definition DefaultMaxLocalLeases :: int where "DefaultMaxLocalLeases = 100000"
definition releaseQueueSize :: nat where "releaseQueueSize = 4096"
definition renewChunk :: nat where "renewChunk = 500"

record rl_limiter =
  rl_cfg :: rl_config
  rl_leases :: "(string, string) gomap" \<comment> \<open>lease id to tenant\<close>
  rl_releaseQ :: "(string \<times> string) list" \<comment> \<open>releaseJob: tenant, id\<close>
  rl_dropped :: nat
  rl_closed :: bool
  rl_releasers :: "(string \<times> string \<times> bool) list" \<comment> \<open>tenant, id, the releaser's once\<close>

datatype new_redis_error = ErrNoClient | ErrFailureMode string | ErrBurst | ErrShortTTL | ErrMaxLeases | ErrModelName

definition NewRedis :: "bool \<Rightarrow> rl_config \<Rightarrow> new_redis_error + rl_limiter" where
  \<comment> \<open>the flag tells whether a client was given\<close>
  "NewRedis client cfg0 =
     (if \<not> client then Inl ErrNoClient
      else let cfg1 = (if cf_OnFailure cfg0 = [] then cfg0\<lparr>cf_OnFailure := FailClosed\<rparr> else cfg0) in
      if cf_OnFailure cfg1 \<noteq> FailClosed \<and> cf_OnFailure cfg1 \<noteq> FailOpen then Inl (ErrFailureMode (cf_OnFailure cfg1))
      else let cfg2 = (if cf_BurstSeconds cfg1 = 0 then cfg1\<lparr>cf_BurstSeconds := DefaultBurstSeconds\<rparr> else cfg1) in
      if cf_BurstSeconds cfg2 < 1 \<or> cf_BurstSeconds cfg2 > MaxBurstSeconds then Inl ErrBurst
      else let cfg3 = (if cf_LeaseTTL cfg2 = 0 then cfg2\<lparr>cf_LeaseTTL := DefaultLeaseTTL\<rparr> else cfg2) in
      if cf_LeaseTTL cfg3 < 3 * millisecond then Inl ErrShortTTL
      else let cfg4 = (if cf_MaxLocalLeases cfg3 = 0 then cfg3\<lparr>cf_MaxLocalLeases := DefaultMaxLocalLeases\<rparr> else cfg3) in
      if cf_MaxLocalLeases cfg4 < 1 then Inl ErrMaxLeases
      else if list_ex (\<lambda>(m, _). \<not> validKeyPart m) (cf_ModelRequestsPerMinute cfg4) then Inl ErrModelName
      else let models = map (\<lambda>(m, n). (m, min n MaxQuota)) (filter (\<lambda>(_, n). n > 0) (cf_ModelRequestsPerMinute cfg4))
           in Inr \<lparr>rl_cfg = cfg4\<lparr>cf_ModelRequestsPerMinute := models\<rparr>, rl_leases = [], rl_releaseQ = [], rl_dropped = 0,
                rl_closed = False, rl_releasers = []\<rparr>)"

section \<open>Requests and decisions\<close>

record rl_request =
  rr_TenantID :: string
  rr_Model :: string
  rr_Cost :: int
  rr_Limits :: rl_limits

datatype release_func = noopRelease | Releaser nat

record rl_decision =
  dc_Allowed :: bool
  dc_Limit :: "rl_limit option"
  dc_RetryAfter :: duration
  dc_Bypassed :: bool
  dc_Release :: "release_func option" \<comment> \<open>\<open>None\<close> is nil\<close>

datatype unavailable_cause = ErrLeaseCapacity | ErrBadName | ErrBusyUnavailable | CauseRedis redis_error

record unavailable_error =
  ue_RetryAfter :: duration
  ue_Cause :: unavailable_cause

definition ceilSeconds :: "duration \<Rightarrow> int" where
  "ceilSeconds d = (let s = go_div (d + second - 1) second in if s < 1 then 1 else s)"

definition clampQuota :: "int \<Rightarrow> int" where
  "clampQuota n = (if n < 0 then 0 else if n > MaxQuota then MaxQuota else n)"

definition nowOverride :: "time option \<Rightarrow> int" where
  \<comment> \<open>the reading of a test clock, when one is configured\<close>
  "nowOverride clock = (case clock of None \<Rightarrow> 0 | Some t \<Rightarrow> t div millisecond)"

definition limitFromCode :: "int \<Rightarrow> rl_limit" where
  "limitFromCode code =
     (if code = 1 then LimitRequests else if code = 2 then LimitTokens else if code = 3 then LimitConcurrency
      else if code = 4 then LimitModel else LimitUnavailable)"

definition forget :: "string \<Rightarrow> rl_limiter \<Rightarrow> rl_limiter" where
  "forget i l = (if i = [] then l else l\<lparr>rl_leases := mdel i (rl_leases l)\<rparr>)"

definition failed :: "rl_limiter \<Rightarrow> duration \<Rightarrow> unavailable_cause \<Rightarrow> unavailable_error + rl_decision" where
  \<comment> \<open>the duration is the client's \<^verbatim>\<open>RetryAfter\<close>\<close>
  "failed l retry cause =
     (if cf_OnFailure (rl_cfg l) = FailOpen \<and> cause \<noteq> ErrLeaseCapacity
      then Inr \<lparr>dc_Allowed = True, dc_Limit = None, dc_RetryAfter = 0, dc_Bypassed = True, dc_Release = Some noopRelease\<rparr>
      else if cause = CauseRedis ErrBusy then Inl \<lparr>ue_RetryAfter = second, ue_Cause = ErrBusyUnavailable\<rparr>
      else Inl \<lparr>ue_RetryAfter = retry, ue_Cause = cause\<rparr>)"

section \<open>Allow\<close>

record pending_check =
  pd_tenant :: string
  pd_lease :: string
  pd_keys :: "string list"
  pd_args :: acquire_args

definition Milliseconds :: "duration \<Rightarrow> int" where
  "Milliseconds d = go_div d millisecond"

definition admitted_unchecked :: rl_decision where
  "admitted_unchecked = \<lparr>dc_Allowed = True, dc_Limit = None, dc_RetryAfter = 0, dc_Bypassed = False, dc_Release = Some noopRelease\<rparr>"

definition effective_limits :: "rl_request \<Rightarrow> rl_limits" where
  "effective_limits r =
     (if rr_TenantID r = [] then \<lparr>li_RequestsPerMinute = 0, li_TokensPerMinute = 0, li_MaxConcurrent = 0\<rparr>
      else \<lparr>li_RequestsPerMinute = clampQuota (li_RequestsPerMinute (rr_Limits r)), li_TokensPerMinute = clampQuota (li_TokensPerMinute (rr_Limits r)),
        li_MaxConcurrent = clampQuota (li_MaxConcurrent (rr_Limits r))\<rparr>)"

definition Allow_begin :: "string \<Rightarrow> int \<Rightarrow> duration \<Rightarrow> rl_request \<Rightarrow> rl_limiter \<Rightarrow> rl_limiter \<times> ((unavailable_error + rl_decision) + pending_check)" where
  \<comment> \<open>up to the script call: the fresh lease ID, the clock override and the client's \<^verbatim>\<open>RetryAfter\<close>\<close>
  "Allow_begin newID override retry r l =
     (let lim = effective_limits r;
          modelQuota = mget_or 0 (cf_ModelRequestsPerMinute (rl_cfg l)) (rr_Model r)
      in if limits_None lim \<and> modelQuota = 0 then (l, Inl (Inr admitted_unchecked))
         else if \<not> validKeyPart (rr_TenantID r) \<or> (modelQuota > 0 \<and> \<not> validKeyPart (rr_Model r)) then (l, Inl (failed l retry ErrBadName))
         else let cost = max 0 (min (rr_Cost r) (int MaxCost));
                  leaseID = (if li_MaxConcurrent lim > 0 then newID else [])
              in if li_MaxConcurrent lim > 0 \<and> int (length (rl_leases l)) \<ge> cf_MaxLocalLeases (rl_cfg l)
                 then (l, Inl (Inl \<lparr>ue_RetryAfter = second, ue_Cause = ErrLeaseCapacity\<rparr>))
                 else let l1 = (if li_MaxConcurrent lim > 0 then l\<lparr>rl_leases := mput leaseID (rr_TenantID r) (rl_leases l)\<rparr> else l);
                          modelKey = (if modelQuota > 0 then keyModel (rr_Model r) else keyModelUnused);
                          keys = [keyRequests (rr_TenantID r), keyTokens (rr_TenantID r), keyConcurrency (rr_TenantID r), modelKey];
                          args = \<lparr>aa_override = override, aa_rq = li_RequestsPerMinute lim, aa_tq = li_TokensPerMinute lim,
                                   aa_mc = li_MaxConcurrent lim, aa_mq = modelQuota, aa_cost = cost, aa_burst = cf_BurstSeconds (rl_cfg l),
                                   aa_lease_id = leaseID, aa_lease_ttl = Milliseconds (cf_LeaseTTL (rl_cfg l))\<rparr>
                      in (l1, Inr \<lparr>pd_tenant = rr_TenantID r, pd_lease = leaseID, pd_keys = keys, pd_args = args\<rparr>))"

definition releaser :: "string \<Rightarrow> string \<Rightarrow> rl_limiter \<Rightarrow> rl_limiter \<times> release_func" where
  "releaser tenant i l = (l\<lparr>rl_releasers := rl_releasers l @ [(tenant, i, False)]\<rparr>, Releaser (length (rl_releasers l)))"

definition Allow_end :: "pending_check \<Rightarrow> duration \<Rightarrow> (redis_error + int list) \<Rightarrow> rl_limiter \<Rightarrow> rl_limiter \<times> (unavailable_error + rl_decision)" where
  "Allow_end pd retry res l =
     (case res of
        Inl e \<Rightarrow> let l1 = forget (pd_lease pd) l in (l1, failed l1 retry (CauseRedis e))
      | Inr rs \<Rightarrow>
          if rs ! 0 = 1
          then if pd_lease pd \<noteq> []
               then let (l1, f) = releaser (pd_tenant pd) (pd_lease pd) l in (l1, Inr (admitted_unchecked\<lparr>dc_Release := Some f\<rparr>))
               else (l, Inr admitted_unchecked)
          else (forget (pd_lease pd) l,
                Inr \<lparr>dc_Allowed = False, dc_Limit = Some (limitFromCode (rs ! 1)), dc_RetryAfter = rs ! 2 * millisecond, dc_Bypassed = False,
                  dc_Release = Some noopRelease\<rparr>))"

section \<open>Releases and renewal\<close>

definition enqueue :: "string \<times> string \<Rightarrow> rl_limiter \<Rightarrow> rl_limiter" where
  "enqueue j l =
     (if rl_closed l then l\<lparr>rl_dropped := rl_dropped l + 1\<rparr>
      else if length (rl_releaseQ l) < releaseQueueSize then l\<lparr>rl_releaseQ := rl_releaseQ l @ [j]\<rparr>
      else l\<lparr>rl_dropped := rl_dropped l + 1\<rparr>)"

definition call_release :: "release_func \<Rightarrow> rl_limiter \<Rightarrow> rl_limiter" where
  \<comment> \<open>calling the function a decision carries\<close>
  "call_release f l =
     (case f of
        noopRelease \<Rightarrow> l
      | Releaser n \<Rightarrow> (case rl_releasers l ! n of (tenant, i, once) \<Rightarrow>
          if once then l
          else enqueue (tenant, i) (forget i (l\<lparr>rl_releasers := (rl_releasers l)[n := (tenant, i, True)]\<rparr>))))"

definition doRelease :: "redis_error option \<Rightarrow> rl_limiter \<Rightarrow> rl_limiter" where
  \<comment> \<open>the error of the script call, if any\<close>
  "doRelease err l = (case err of None \<Rightarrow> l | Some _ \<Rightarrow> l\<lparr>rl_dropped := rl_dropped l + 1\<rparr>)"

definition release_worker :: "redis_error option \<Rightarrow> rl_limiter \<Rightarrow> rl_limiter \<times> (string \<times> string) option" where
  \<comment> \<open>one turn of a release worker of \<^verbatim>\<open>Run\<close>, with the job it sends\<close>
  "release_worker err l =
     (case rl_releaseQ l of [] \<Rightarrow> (l, None) | j # js \<Rightarrow> (doRelease err (l\<lparr>rl_releaseQ := js\<rparr>), Some j))"

fun Close_loop :: "(redis_error option \<times> bool) list \<Rightarrow> rl_limiter \<Rightarrow> rl_limiter \<times> (string \<times> string) list" where
  \<comment> \<open>one element per turn: the error of its release, and whether the deadline is still ahead\<close>
  "Close_loop [] l = (l, [])"
| "Close_loop ((err, ahead) # xs) l =
     (if \<not> ahead then (l, [])
      else case rl_releaseQ l of [] \<Rightarrow> (l, [])
        | j # js \<Rightarrow> let (l', sent) = Close_loop xs (doRelease err (l\<lparr>rl_releaseQ := js\<rparr>)) in (l', j # sent))"

definition limiter_Close :: "(redis_error option \<times> bool) list \<Rightarrow> rl_limiter \<Rightarrow> rl_limiter \<times> (string \<times> string) list" where
  "limiter_Close xs l = Close_loop xs (l\<lparr>rl_closed := True\<rparr>)"

definition by_tenant :: "(string, string) gomap \<Rightarrow> (string, string list) gomap" where
  "by_tenant leases = foldl (\<lambda>m (i, tenant). mput tenant (mget_or [] m tenant @ [i]) m) [] leases"

function chunks :: "string list \<Rightarrow> string list list" where
  "chunks ids = (if ids = [] then [] else take renewChunk ids # chunks (drop renewChunk ids))"
  by pat_completeness auto
termination
  by (relation "measure length") (auto simp: renewChunk_def)

declare chunks.simps [simp del]

definition renewAll :: "rl_limiter \<Rightarrow> (string \<times> string list) list" where
  \<comment> \<open>the calls of \<^verbatim>\<open>renewScript\<close>, as tenant and lease ids; the context is not done\<close>
  "renewAll l = concat (map (\<lambda>(tenant, ids). map (\<lambda>c. (tenant, c)) (chunks ids)) (by_tenant (rl_leases l)))"

section \<open>The limiter on a Redis\<close>

record redis_env =
  re_t0 :: time \<comment> \<open>the gateway's clock when a call starts\<close>
  re_t1 :: time \<comment> \<open>and when it ends\<close>
  re_time :: redis_time
  re_fault :: "(driver_error \<times> bool) option" \<comment> \<open>the driver's error, and whether the script ran all the same\<close>

type_synonym redis_world = "redis_client \<times> redis_db"

definition run_acquire :: "redis_env \<Rightarrow> string list \<Rightarrow> acquire_args \<Rightarrow> redis_world \<Rightarrow> redis_world \<times> (redis_error + int list)" where
  \<comment> \<open>\<^verbatim>\<open>l.c.Run(ctx, acquireScript, ...)\<close>\<close>
  "run_acquire env keys args = (\<lambda>(c, db).
     case client_admit (re_t0 env) c of
       (c1, Inl e) \<Rightarrow> ((c1, db), Inl e)
     | (c1, Inr probe) \<Rightarrow>
         let (db1, reply) = acquireScript (re_time env) keys args db in
         (case re_fault env of
            None \<Rightarrow> let (c2, r) = Run_end 3 probe (Inr (RArr (map RInt reply))) (re_t1 env) c1 in ((c2, db1), r)
          | Some (e, applied) \<Rightarrow> let (c2, r) = Run_end 3 probe (Inl e) (re_t1 env) c1 in ((c2, if applied then db1 else db), r)))"

definition limiter_Allow :: "string \<Rightarrow> time option \<Rightarrow> redis_env \<Rightarrow> rl_request \<Rightarrow> rl_limiter \<times> redis_world
    \<Rightarrow> (rl_limiter \<times> redis_world) \<times> (unavailable_error + rl_decision)" where
  "limiter_Allow newID clock env r = (\<lambda>(l, w).
     case Allow_begin newID (nowOverride clock) (client_RetryAfter (re_t0 env) (fst w)) r l of
       (l1, Inl d) \<Rightarrow> ((l1, w), d)
     | (l1, Inr pd) \<Rightarrow>
         let (w1, res) = run_acquire env (pd_keys pd) (pd_args pd) w;
             (l2, d) = Allow_end pd (client_RetryAfter (re_t1 env) (fst w1)) res l1
         in ((l2, w1), d))"

section \<open>Agreement with the model\<close>

definition params_of :: "rl_config \<Rightarrow> rl_params" where
  "params_of cfg = \<lparr>rp_BurstSeconds = cf_BurstSeconds cfg, rp_LeaseTTLMs = Milliseconds (cf_LeaseTTL cfg)\<rparr>"

definition model_quota :: "rl_limiter \<Rightarrow> rl_request \<Rightarrow> int" where
  "model_quota l r = mget_or 0 (cf_ModelRequestsPerMinute (rl_cfg l)) (rr_Model r)"

definition request_of :: "string \<Rightarrow> rl_limiter \<Rightarrow> rl_request \<Rightarrow> model_request" where
  \<comment> \<open>what the reference model is asked\<close>
  "request_of newID l r = \<lparr>mr_TenantID = rr_TenantID r, mr_Model = rr_Model r, mr_Cost = max 0 (min (rr_Cost r) (int MaxCost)),
     mr_Limits = effective_limits r, mr_ModelRequestsPerMinute = model_quota l r,
     mr_LeaseID = (if li_MaxConcurrent (effective_limits r) > 0 then newID else [])\<rparr>"

definition needs_check :: "rl_limiter \<Rightarrow> rl_request \<Rightarrow> bool" where
  "needs_check l r \<longleftrightarrow> \<not> (limits_None (effective_limits r) \<and> model_quota l r = 0)"

definition names_ok :: "rl_limiter \<Rightarrow> rl_request \<Rightarrow> bool" where
  "names_ok l r \<longleftrightarrow> validKeyPart (rr_TenantID r) \<and> (model_quota l r > 0 \<longrightarrow> validKeyPart (rr_Model r))"

definition lease_room :: "rl_limiter \<Rightarrow> rl_request \<Rightarrow> bool" where
  "lease_room l r \<longleftrightarrow> (li_MaxConcurrent (effective_limits r) > 0 \<longrightarrow> int (length (rl_leases l)) < cf_MaxLocalLeases (rl_cfg l))"

definition limiter_cfg_ok :: "rl_config \<Rightarrow> bool" where
  "limiter_cfg_ok cfg \<longleftrightarrow> (cf_OnFailure cfg = FailClosed \<or> cf_OnFailure cfg = FailOpen) \<and> 1 \<le> cf_BurstSeconds cfg \<and> cf_BurstSeconds cfg \<le> MaxBurstSeconds
     \<and> 3 * millisecond \<le> cf_LeaseTTL cfg \<and> 1 \<le> cf_MaxLocalLeases cfg \<and> (\<forall>q \<in> set (cf_ModelRequestsPerMinute cfg). 0 < snd q \<and> snd q \<le> MaxQuota)"

lemma NewRedis_ok: "NewRedis client cfg = Inr l \<Longrightarrow> limiter_cfg_ok (rl_cfg l) \<and> rl_leases l = [] \<and> rl_releaseQ l = [] \<and> rl_releasers l = []"
proof -
  assume h: "NewRedis client cfg = Inr l"
  define cfg1 cfg2 cfg3 cfg4 where d: "cfg1 = (if cf_OnFailure cfg = [] then cfg\<lparr>cf_OnFailure := FailClosed\<rparr> else cfg)"
    "cfg2 = (if cf_BurstSeconds cfg1 = 0 then cfg1\<lparr>cf_BurstSeconds := DefaultBurstSeconds\<rparr> else cfg1)"
    "cfg3 = (if cf_LeaseTTL cfg2 = 0 then cfg2\<lparr>cf_LeaseTTL := DefaultLeaseTTL\<rparr> else cfg2)"
    "cfg4 = (if cf_MaxLocalLeases cfg3 = 0 then cfg3\<lparr>cf_MaxLocalLeases := DefaultMaxLocalLeases\<rparr> else cfg3)"
  note h = h[unfolded NewRedis_def Let_def, folded d(1), folded d(2), folded d(3), folded d(4)]
  have e: "cf_OnFailure cfg4 = cf_OnFailure cfg1" "cf_BurstSeconds cfg4 = cf_BurstSeconds cfg2" "cf_LeaseTTL cfg4 = cf_LeaseTTL cfg3"
    by (simp_all add: d)
  show ?thesis using h by (simp add: limiter_cfg_ok_def e rate_consts split: if_splits) (auto simp: e)
qed

lemma clampQuota_range: "clampQuota n \<in> {0..MaxQuota}"
  by (auto simp: clampQuota_def rate_consts)

lemma request_of_fit:
  assumes "limiter_cfg_ok (rl_cfg l)"
  shows "request_fit (request_of newID l r)"
proof -
  have "model_quota l r \<in> {0..MaxQuota}"
  proof (cases "mget (cf_ModelRequestsPerMinute (rl_cfg l)) (rr_Model r)")
    case (Some n)
    from mget_mem[OF this] assms have "0 < n" "n \<le> MaxQuota" by (force simp: limiter_cfg_ok_def)+
    then show ?thesis using Some by (simp add: model_quota_def mget_or_def)
  qed (simp add: model_quota_def mget_or_def rate_consts)
  moreover have "li_RequestsPerMinute (effective_limits r) \<in> {0..MaxQuota}" "li_TokensPerMinute (effective_limits r) \<in> {0..MaxQuota}"
    "li_MaxConcurrent (effective_limits r) \<in> {0..MaxQuota}"
    using clampQuota_range by (simp_all add: effective_limits_def rate_consts)
  ultimately show ?thesis by (simp add: request_fit_def request_of_def)
qed

lemma Allow_begin_check:
  assumes "needs_check l r" "names_ok l r" "lease_room l r"
  shows "Allow_begin newID override retry r l =
    ((if li_MaxConcurrent (effective_limits r) > 0 then l\<lparr>rl_leases := mput newID (rr_TenantID r) (rl_leases l)\<rparr> else l),
     Inr \<lparr>pd_tenant = rr_TenantID r, pd_lease = mr_LeaseID (request_of newID l r), pd_keys = script_keys (request_of newID l r),
          pd_args = script_args (params_of (rl_cfg l)) override (request_of newID l r)\<rparr>)"
  using assms
  by (auto simp: Allow_begin_def Let_def needs_check_def names_ok_def lease_room_def model_quota_def[symmetric] script_keys_def script_args_def request_of_def params_of_def)

definition decision_of :: "rl_outcome \<Rightarrow> release_func \<Rightarrow> rl_decision" where
  "decision_of out f = \<lparr>dc_Allowed = oc_Allowed out, dc_Limit = oc_Limit out, dc_RetryAfter = oc_RetryMs out * millisecond, dc_Bypassed = False,
     dc_Release = Some f\<rparr>"

lemma outcome_shape:
  assumes "Allow now r m = (m', out)"
  shows "oc_Allowed out \<Longrightarrow> oc_Limit out = None \<and> oc_RetryMs out = 0"
    "\<not> oc_Allowed out \<Longrightarrow> \<exists>l. oc_Limit out = Some l \<and> l \<noteq> LimitUnavailable"
proof -
  note U = Allow_unrolled[of now r m, unfolded assms]
  show "oc_Allowed out \<Longrightarrow> oc_Limit out = None \<and> oc_RetryMs out = 0" using U by (auto split: if_splits)
  have g: "fst (go_step l q level n w) \<in> {fst w, Some l}" for l q level n w by (simp add: go_step_def rl_consider_def)
  have "fst (worst_of now r m) \<noteq> Some LimitUnavailable"
    unfolding worst_of_def Let_def using g by (smt (verit, best) fst_conv insertE option.distinct(1) option.inject rl_consider_def rl_limit.distinct singletonD)
  then show "\<not> oc_Allowed out \<Longrightarrow> \<exists>l. oc_Limit out = Some l \<and> l \<noteq> LimitUnavailable" using U by (auto split: if_splits)
qed

lemma limit_round: "l \<noteq> LimitUnavailable \<Longrightarrow> limitFromCode (limit_code (Some l)) = l"
  by (cases l) (simp_all add: limitFromCode_def)

lemma run_acquire_good:
  assumes S: "sim (server_ms (re_time env)) db m" "time_ok (re_time env)" and r: "request_fit r"
    and ov: "override = 0 \<or> override = server_ms (re_time env)"
    and up: "\<not> rc_down c \<or> rc_downUntil c \<le> re_t0 env \<and> \<not> rc_probing c" and ok: "re_fault env = None"
    and al: "Allow (server_ms (re_time env)) r m = (m', out)"
  shows "\<exists>c' db'. run_acquire env (script_keys r) (script_args (md_p m) override r) (c, db) = ((c', db'), Inr (outcome_reply out))
    \<and> \<not> rc_down c' \<and> sim (server_ms (re_time env)) db' m'"
proof -
  obtain db' reply where a: "acquireScript (re_time env) (script_keys r) (script_args (md_p m) override r) db = (db', reply)" by force
  note A = acquire_sim[OF S r ov a al]
  have len: "3 = length (outcome_reply out)" by (simp add: outcome_reply_def)
  have "\<exists>c1 probe. client_admit (re_t0 env) c = (c1, Inr probe)" using up by (cases "rc_down c") (auto simp: client_admit_def)
  then obtain c1 probe where "client_admit (re_t0 env) c = (c1, Inr probe)" by blast
  then show ?thesis
    using a A by (simp add: run_acquire_def ok len good_end)
qed

lemma mdel_mput_fresh: "mget m k = None \<Longrightarrow> mdel k (mput k v m) = m"
  by (induction m) (auto split: if_splits simp: AList.delete_eq)

lemma Allow_end_good:
  assumes "Allow now r m = (m', out)" "mget leases i = None" "i \<noteq> []"
    and pd: "pd_tenant pd = t" "pd_lease pd = (if conc then i else [])"
    and l1: "l1 = (if conc then l\<lparr>rl_leases := mput i t leases\<rparr> else l)" "rl_leases l = leases"
  shows "\<exists>l'. Allow_end pd retry (Inr (outcome_reply out)) l1
      = (l', Inr (decision_of out (if oc_Allowed out \<and> conc then Releaser (length (rl_releasers l)) else noopRelease)))
    \<and> rl_leases l' = (if oc_Allowed out \<and> conc then mput i t leases else leases)
    \<and> rl_releasers l' = (if oc_Allowed out \<and> conc then rl_releasers l @ [(t, i, False)] else rl_releasers l)"
proof (cases "oc_Allowed out")
  case True
  then show ?thesis
    using outcome_shape(1)[OF assms(1)] assms by (auto simp: Allow_end_def outcome_reply_def releaser_def decision_of_def admitted_unchecked_def)
next
  case False
  then obtain lim where "oc_Limit out = Some lim" "lim \<noteq> LimitUnavailable" using outcome_shape(2)[OF assms(1)] by blast
  then show ?thesis
    using False assms limit_round by (auto simp: Allow_end_def outcome_reply_def decision_of_def forget_def mdel_mput_fresh)
qed

text \<open>C10: the deployed limiter decides as the reference model. When Redis answers, a request that needs a check is admitted or refused
  exactly as the model on integers decides for the clamped quotas, with the limit and the retry time it reports; the database keeps
  representing the model's state, the client is healthy, and the process tracks a lease exactly for an admitted request with a
  concurrency quota.\<close>

theorem limiter_decides_as_model:
  assumes cfg: "limiter_cfg_ok (rl_cfg l)" "md_p m = params_of (rl_cfg l)"
    and S: "sim (server_ms (re_time env)) db m" "time_ok (re_time env)"
    and clk: "nowOverride clock = 0 \<or> nowOverride clock = server_ms (re_time env)"
    and up: "\<not> rc_down c \<or> rc_downUntil c \<le> re_t0 env \<and> \<not> rc_probing c" and ok: "re_fault env = None"
    and req: "needs_check l r" "names_ok l r" "lease_room l r" and i: "i \<noteq> []" "mget (rl_leases l) i = None"
    and al: "Allow (server_ms (re_time env)) (request_of i l r) m = (m', out)"
    and lim: "conc \<longleftrightarrow> 0 < li_MaxConcurrent (effective_limits r)"
  shows "case limiter_Allow i clock env r (l, c, db) of ((l', c', db'), res) \<Rightarrow>
      res = Inr (decision_of out (if oc_Allowed out \<and> conc then Releaser (length (rl_releasers l)) else noopRelease))
    \<and> sim (server_ms (re_time env)) db' m' \<and> \<not> rc_down c'
    \<and> rl_leases l' = (if oc_Allowed out \<and> conc then mput i (rr_TenantID r) (rl_leases l) else rl_leases l)"
proof -
  obtain c' db' where R: "run_acquire env (script_keys (request_of i l r)) (script_args (md_p m) (nowOverride clock) (request_of i l r)) (c, db)
      = ((c', db'), Inr (outcome_reply out))" "\<not> rc_down c'" "sim (server_ms (re_time env)) db' m'"
    using run_acquire_good[OF S request_of_fit[OF cfg(1)] clk up ok al] by blast
  define pd where "pd = \<lparr>pd_tenant = rr_TenantID r, pd_lease = mr_LeaseID (request_of i l r), pd_keys = script_keys (request_of i l r),
      pd_args = script_args (params_of (rl_cfg l)) (nowOverride clock) (request_of i l r)\<rparr>"
  define l1 where "l1 = (if conc then l\<lparr>rl_leases := mput i (rr_TenantID r) (rl_leases l)\<rparr> else l)"
  have "Allow_begin i (nowOverride clock) retry r l = (l1, Inr pd)" for retry
    using Allow_begin_check[OF req] by (simp add: pd_def l1_def lim)
  moreover obtain l' where "Allow_end pd (client_RetryAfter (re_t1 env) c') (Inr (outcome_reply out)) l1
      = (l', Inr (decision_of out (if oc_Allowed out \<and> conc then Releaser (length (rl_releasers l)) else noopRelease)))"
    "rl_leases l' = (if oc_Allowed out \<and> conc then mput i (rr_TenantID r) (rl_leases l) else rl_leases l)"
    using Allow_end_good[OF al i(2,1) _ _ l1_def refl, of pd] by (auto simp: pd_def request_of_def lim)
  ultimately show ?thesis using R cfg(2) by (simp add: limiter_Allow_def pd_def)
qed

definition ex_cfg :: rl_config where
  "ex_cfg = \<lparr>cf_OnFailure = [], cf_BurstSeconds = 1, cf_LeaseTTL = 0, cf_MaxLocalLeases = 0, cf_ModelRequestsPerMinute = []\<rparr>"

definition ex_limiter :: rl_limiter where
  "ex_limiter = \<lparr>rl_cfg = \<lparr>cf_OnFailure = FailClosed, cf_BurstSeconds = 1, cf_LeaseTTL = 60 * second, cf_MaxLocalLeases = 100000,
     cf_ModelRequestsPerMinute = []\<rparr>, rl_leases = [], rl_releaseQ = [], rl_dropped = 0, rl_closed = False, rl_releasers = []\<rparr>"

definition ex_request :: rl_request where
  "ex_request = \<lparr>rr_TenantID = ''t'', rr_Model = ''m'', rr_Cost = 3,
     rr_Limits = \<lparr>li_RequestsPerMinute = 60, li_TokensPerMinute = 0, li_MaxConcurrent = 2\<rparr>\<rparr>"

definition ex_env :: redis_env where
  "ex_env = \<lparr>re_t0 = 0, re_t1 = 5, re_time = (1000, 0), re_fault = None\<rparr>"

lemma ex_limiter_new: "NewRedis True ex_cfg = Inr ex_limiter"
  by (simp add: NewRedis_def ex_cfg_def ex_limiter_def FailClosed_def FailOpen_def rate_consts DefaultLeaseTTL_def DefaultMaxLocalLeases_def Let_def
    second_def millisecond_def)

lemma ex_limits: "effective_limits ex_request = \<lparr>li_RequestsPerMinute = 60, li_TokensPerMinute = 0, li_MaxConcurrent = 2\<rparr>"
  by (simp add: effective_limits_def ex_request_def clampQuota_def rate_consts)

theorem limiter_decides_as_model_witness:
  "case limiter_Allow ''id'' None ex_env ex_request (ex_limiter, newClient [] 0, empty_db) of ((l', _, _), res) \<Rightarrow>
     res = Inr (decision_of \<lparr>oc_Allowed = True, oc_Limit = None, oc_RetryMs = 0\<rparr> (Releaser 0)) \<and> rl_leases l' = [(''id'', ''t'')]"
proof -
  let ?m = "NewModel (params_of (rl_cfg ex_limiter))"
  have p: "params_of (rl_cfg ex_limiter) = ex_rp"
    by (simp add: params_of_def ex_limiter_def ex_rp_def Milliseconds_def go_div_nonneg second_def millisecond_def)
  have cfg: "limiter_cfg_ok (rl_cfg ex_limiter)" using NewRedis_ok[OF ex_limiter_new] by simp
  have S: "sim (server_ms (re_time ex_env)) empty_db ?m" unfolding empty_db_def
    by (rule sim_empty) (simp add: p params_fit_def ex_rp_def rate_consts)
  have t: "time_ok (re_time ex_env)" by (simp add: time_ok_def ex_env_def server_ms_def rate_consts)
  have req: "needs_check ex_limiter ex_request" "names_ok ex_limiter ex_request" "lease_room ex_limiter ex_request"
    by (simp_all add: needs_check_def names_ok_def lease_room_def ex_limits limits_None_def) (simp_all add: ex_request_def ex_limiter_def validKeyPart_def maxKeyPart_def
      model_quota_def mget_or_def)
  have mr: "request_of ''id'' ex_limiter ex_request = ex_mr\<lparr>mr_Limits := effective_limits ex_request, mr_LeaseID := ''id''\<rparr>"
    by (simp add: request_of_def ex_limits MaxCost_def model_quota_def mget_or_def) (simp add: ex_request_def ex_mr_def ex_limiter_def)
  have "snd (Allow (server_ms (re_time ex_env)) (request_of ''id'' ex_limiter ex_request) ?m) = \<lparr>oc_Allowed = True, oc_Limit = None, oc_RetryMs = 0\<rparr>"
    unfolding mr ex_limits p by (simp add: ex_run_defs ex_env_def Let_def)
  then obtain m' where al: "Allow (server_ms (re_time ex_env)) (request_of ''id'' ex_limiter ex_request) ?m = (m', \<lparr>oc_Allowed = True, oc_Limit = None, oc_RetryMs = 0\<rparr>)"
    by (metis prod.collapse)
  have "md_p ?m = params_of (rl_cfg ex_limiter)" "re_fault ex_env = None" "mget (rl_leases ex_limiter) ''id'' = None" "\<not> rc_down (newClient [] 0)"
    by (simp_all add: NewModel_def ex_env_def ex_limiter_def newClient_def)
  then show ?thesis
    using limiter_decides_as_model[OF cfg _ S t _ _ _ req _ _ al refl, where clock = None and c = "newClient [] 0"]
    by (simp add: nowOverride_def ex_limits split: prod.splits) (simp add: ex_limiter_def ex_request_def)
qed

section \<open>Failure modes\<close>

definition fails_as :: "rl_config \<Rightarrow> duration \<Rightarrow> unavailable_cause \<Rightarrow> unavailable_error + rl_decision \<Rightarrow> bool" where
  \<comment> \<open>an open limiter admits the request marked as bypassed, a closed one reports the cause with a positive time to wait\<close>
  "fails_as cfg retry cause d \<longleftrightarrow>
     (if cf_OnFailure cfg = FailOpen
      then d = Inr \<lparr>dc_Allowed = True, dc_Limit = None, dc_RetryAfter = 0, dc_Bypassed = True, dc_Release = Some noopRelease\<rparr>
      else cf_OnFailure cfg = FailClosed \<and> d = Inl \<lparr>ue_RetryAfter = retry, ue_Cause = cause\<rparr> \<and> 0 < retry)"

lemma history_retry_pos:
  assumes "client_history xs secret backoff = (c, fl)"
  shows "0 < client_RetryAfter now c"
proof -
  let ?T = "Max (insert zero_time (finish_time ` set xs))"
  have "\<forall>x \<in> set xs. finish_time x \<le> ?T" "zero_time \<le> ?T" by simp_all
  from history_until[OF assms this] have "0 < rc_backoff c" by (auto simp: second_def split: if_splits)
  then show ?thesis by (simp add: client_RetryAfter_def Let_def)
qed

lemma failed_fails_as:
  assumes "limiter_cfg_ok (rl_cfg l)" "0 < retry" "cause \<noteq> ErrLeaseCapacity"
  shows "fails_as (rl_cfg l) (if cause = CauseRedis ErrBusy then second else retry) (if cause = CauseRedis ErrBusy then ErrBusyUnavailable else cause) (failed l retry cause)"
  using assms second_pos by (auto simp: fails_as_def failed_def limiter_cfg_ok_def)

text \<open>C17: What the limiter does when it cannot check a request that needs a check, in every state of its Redis client. A tenant or model name that cannot be a key fails the check
  before anything is taken; the bound on local leases refuses in both modes, with a second to wait, and changes nothing; and whatever error the script call ends with, the lease taken for it,
  and nothing else, is given up, whatever happened meanwhile. Each failure other than the lease bound ends by the failure mode: an open limiter admits the request marked as bypassed, a
  closed one returns the cause with the client's own RetryAfter at that moment, which is positive (a second when only the connection pool was exhausted).\<close>

theorem redis_failure_modes:
  assumes cfg: "limiter_cfg_ok (rl_cfg l)" and i: "i \<noteq> []" "mget (rl_leases l) i = None" and r: "needs_check l r"
    and c: "client_history xs secret backoff = (c0, fl0)" "client_history (xs @ ys) secret backoff = (c1, fl1)"
  shows "(\<not> names_ok l r \<longrightarrow> (\<exists>d. Allow_begin i ov (client_RetryAfter t0 c0) r l = (l, Inl d) \<and> fails_as (rl_cfg l) (client_RetryAfter t0 c0) ErrBadName d))
    \<and> (names_ok l r \<and> \<not> lease_room l r \<longrightarrow> Allow_begin i ov (client_RetryAfter t0 c0) r l = (l, Inl (Inl \<lparr>ue_RetryAfter = second, ue_Cause = ErrLeaseCapacity\<rparr>)))
    \<and> (names_ok l r \<and> lease_room l r \<longrightarrow> (\<exists>l1 pd. Allow_begin i ov (client_RetryAfter t0 c0) r l = (l1, Inr pd)
         \<and> (\<forall>e. rl_leases (fst (Allow_end pd (client_RetryAfter t1 c1) (Inl e) l1)) = rl_leases l)
         \<and> (\<forall>l2 e. rl_cfg l2 = rl_cfg l \<longrightarrow> (\<exists>d. Allow_end pd (client_RetryAfter t1 c1) (Inl e) l2 = (forget (pd_lease pd) l2, d)
              \<and> fails_as (rl_cfg l) (if e = ErrBusy then second else client_RetryAfter t1 c1) (if e = ErrBusy then ErrBusyUnavailable else CauseRedis e) d))))"
proof (intro conjI impI)
  note pos = history_retry_pos[OF c(1), of t0] history_retry_pos[OF c(2), of t1]
  {
    assume "\<not> names_ok l r"
    then have "Allow_begin i ov (client_RetryAfter t0 c0) r l = (l, Inl (failed l (client_RetryAfter t0 c0) ErrBadName))"
      using r by (auto simp: Allow_begin_def Let_def needs_check_def names_ok_def model_quota_def)
    then show "\<exists>d. Allow_begin i ov (client_RetryAfter t0 c0) r l = (l, Inl d) \<and> fails_as (rl_cfg l) (client_RetryAfter t0 c0) ErrBadName d"
      using failed_fails_as[OF cfg pos(1), of ErrBadName] by simp
  }
  {
    assume "names_ok l r \<and> \<not> lease_room l r"
    then show "Allow_begin i ov (client_RetryAfter t0 c0) r l = (l, Inl (Inl \<lparr>ue_RetryAfter = second, ue_Cause = ErrLeaseCapacity\<rparr>))"
      using r by (auto simp: lease_room_def Allow_begin_def Let_def needs_check_def names_ok_def model_quota_def)
  }
  assume room: "names_ok l r \<and> lease_room l r"
  obtain l1 pd where b: "Allow_begin i ov (client_RetryAfter t0 c0) r l = (l1, Inr pd)" and l1: "rl_leases (forget (pd_lease pd) l1) = rl_leases l"
    using Allow_begin_check[OF r conjunct1[OF room] conjunct2[OF room], of i ov "client_RetryAfter t0 c0"] i by (auto simp: forget_def request_of_def mdel_mput_fresh)
  have e: "Allow_end pd (client_RetryAfter t1 c1) (Inl e) l2 = (forget (pd_lease pd) l2, failed (forget (pd_lease pd) l2) (client_RetryAfter t1 c1) (CauseRedis e))" for l2 e
    by (simp add: Allow_end_def Let_def)
  have f: "rl_cfg (forget j l2) = rl_cfg l2" for j l2 by (simp add: forget_def)
  have "fails_as (rl_cfg l) (if e = ErrBusy then second else client_RetryAfter t1 c1) (if e = ErrBusy then ErrBusyUnavailable else CauseRedis e)
      (failed (forget (pd_lease pd) l2) (client_RetryAfter t1 c1) (CauseRedis e))" if "rl_cfg l2 = rl_cfg l" for l2 e
    using failed_fails_as[of "forget (pd_lease pd) l2" "client_RetryAfter t1 c1" "CauseRedis e"] pos(2) cfg that by (simp add: f)
  then show "\<exists>l1 pd. Allow_begin i ov (client_RetryAfter t0 c0) r l = (l1, Inr pd)
         \<and> (\<forall>e. rl_leases (fst (Allow_end pd (client_RetryAfter t1 c1) (Inl e) l1)) = rl_leases l)
         \<and> (\<forall>l2 e. rl_cfg l2 = rl_cfg l \<longrightarrow> (\<exists>d. Allow_end pd (client_RetryAfter t1 c1) (Inl e) l2 = (forget (pd_lease pd) l2, d)
              \<and> fails_as (rl_cfg l) (if e = ErrBusy then second else client_RetryAfter t1 c1) (if e = ErrBusy then ErrBusyUnavailable else CauseRedis e) d))"
    using b l1 e by (intro exI[of _ l1] exI[of _ pd]) simp
qed

theorem redis_failure_modes_witness:
  "\<exists>l1 pd. Allow_begin ''id'' 0 second ex_request ex_limiter = (l1, Inr pd)
     \<and> Allow_end pd second (Inl ErrBackoff) l1 = (forget (pd_lease pd) l1, Inl \<lparr>ue_RetryAfter = second, ue_Cause = CauseRedis ErrBackoff\<rparr>)
     \<and> rl_leases (forget (pd_lease pd) l1) = []"
proof -
  have cfg: "limiter_cfg_ok (rl_cfg ex_limiter)" using NewRedis_ok[OF ex_limiter_new] by simp
  have req: "needs_check ex_limiter ex_request" "names_ok ex_limiter ex_request" "lease_room ex_limiter ex_request"
    by (simp_all add: needs_check_def names_ok_def lease_room_def ex_limits limits_None_def) (simp_all add: ex_request_def ex_limiter_def validKeyPart_def maxKeyPart_def
      model_quota_def mget_or_def)
  have l: "rl_leases ex_limiter = []" "cf_OnFailure (rl_cfg ex_limiter) \<noteq> FailOpen" by (simp_all add: ex_limiter_def FailOpen_def FailClosed_def)
  have c: "client_history [] [] 0 = (newClient [] 0, [])" "client_history ([] @ []) [] 0 = (newClient [] 0, [])" "client_RetryAfter t (newClient [] 0) = second" for t
    by (simp_all add: client_history_def newClient_def client_RetryAfter_def client_Down_def)
  from redis_failure_modes[OF cfg _ _ req(1) c(1,2), of "''id''" 0 0 0, unfolded c(3)] req(2,3) l(1)
  obtain l1 pd where b: "Allow_begin ''id'' 0 second ex_request ex_limiter = (l1, Inr pd)"
    and e: "\<forall>e. rl_leases (fst (Allow_end pd second (Inl e) l1)) = []"
    and f: "\<forall>l2 e. rl_cfg l2 = rl_cfg ex_limiter \<longrightarrow> (\<exists>d. Allow_end pd second (Inl e) l2 = (forget (pd_lease pd) l2, d)
              \<and> fails_as (rl_cfg ex_limiter) (if e = ErrBusy then second else second) (if e = ErrBusy then ErrBusyUnavailable else CauseRedis e) d)"
    by auto
  have "rl_cfg l1 = rl_cfg ex_limiter" using b unfolding Allow_begin_check[OF req] by auto
  then show ?thesis using b e[rule_format, of ErrBackoff] f[rule_format, of l1 ErrBackoff] l(2) by (auto simp: fails_as_def)
qed

section \<open>Leases of this process\<close>

datatype limiter_event =
    StartAllow string int duration rl_request   \<comment> \<open>the fresh lease ID, the override, the client's RetryAfter, the request\<close>
  | EndAllow nat duration "redis_error + int list"
  | CallRelease nat
  | WorkerTurn "redis_error option"
  | CloseLimiter "(redis_error option \<times> bool) list"

record limiter_run =
  lr_limiter :: rl_limiter
  lr_pending :: "pending_check list"
  lr_sent :: "(string \<times> string) list"

definition drop_at :: "nat \<Rightarrow> 'a list \<Rightarrow> 'a list" where
  "drop_at i xs = take i xs @ drop (Suc i) xs"

primrec limiter_step :: "limiter_event \<Rightarrow> limiter_run \<Rightarrow> limiter_run" where
  "limiter_step (StartAllow i ov retry r) s =
     (case Allow_begin i ov retry r (lr_limiter s) of
        (l, Inl _) \<Rightarrow> s\<lparr>lr_limiter := l\<rparr> | (l, Inr pd) \<Rightarrow> s\<lparr>lr_limiter := l, lr_pending := lr_pending s @ [pd]\<rparr>)"
| "limiter_step (EndAllow n retry res) s =
     (if n < length (lr_pending s)
      then s\<lparr>lr_limiter := fst (Allow_end (lr_pending s ! n) retry res (lr_limiter s)), lr_pending := drop_at n (lr_pending s)\<rparr> else s)"
| "limiter_step (CallRelease n) s =
     (if n < length (rl_releasers (lr_limiter s)) then s\<lparr>lr_limiter := call_release (Releaser n) (lr_limiter s)\<rparr> else s)"
| "limiter_step (WorkerTurn err) s =
     (case release_worker err (lr_limiter s) of (l, j) \<Rightarrow> s\<lparr>lr_limiter := l, lr_sent := lr_sent s @ (case j of None \<Rightarrow> [] | Some x \<Rightarrow> [x])\<rparr>)"
| "limiter_step (CloseLimiter xs) s =
     (case limiter_Close xs (lr_limiter s) of (l, js) \<Rightarrow> s\<lparr>lr_limiter := l, lr_sent := lr_sent s @ js\<rparr>)"

definition open_ids :: "limiter_run \<Rightarrow> string list" where
  \<comment> \<open>the leases of checks under way and of requests that run\<close>
  "open_ids s = filter (\<lambda>i. i \<noteq> []) (map pd_lease (lr_pending s)) @ map (\<lambda>(_, i, _). i) (filter (\<lambda>(_, _, once). \<not> once) (rl_releasers (lr_limiter s)))"

fun event_ids :: "limiter_event \<Rightarrow> string list" where
  "event_ids (StartAllow i ov retry r) = [i]"
| "event_ids _ = []"

definition jobs_called :: "rl_limiter \<Rightarrow> (string \<times> string) list" where
  "jobs_called l = map (\<lambda>(t, i, _). (t, i)) (filter (\<lambda>(_, _, once). once) (rl_releasers l))"

definition lease_inv :: "string set \<Rightarrow> limiter_run \<Rightarrow> bool" where
  "lease_inv used s \<longleftrightarrow> mok (rl_leases (lr_limiter s)) \<and> distinct (open_ids s) \<and> mkeys (rl_leases (lr_limiter s)) = set (open_ids s)
     \<and> set (open_ids s) \<subseteq> used - {[]} \<and> int (length (rl_leases (lr_limiter s))) \<le> cf_MaxLocalLeases (rl_cfg (lr_limiter s))
     \<and> length (rl_releaseQ (lr_limiter s)) \<le> releaseQueueSize
     \<and> mset (rl_releaseQ (lr_limiter s)) + mset (lr_sent s) \<subseteq># mset (jobs_called (lr_limiter s))"

lemma mset_update:
  assumes "n < length xs"
  shows "mset (map f (filter P (xs[n := y]))) + (if P (xs ! n) then {#f (xs ! n)#} else {#}) = mset (map f (filter P xs)) + (if P y then {#f y#} else {#})"
    "mset (map f (filter P xs)) = mset (map f (filter P (drop_at n xs))) + (if P (xs ! n) then {#f (xs ! n)#} else {#})"
proof -
  have x: "xs = take n xs @ xs ! n # drop (Suc n) xs" using id_take_nth_drop[OF assms] .
  have e: "mset (map f (filter P xs)) = mset (map f (filter P (take n xs @ xs ! n # drop (Suc n) xs)))" using x by simp
  show "mset (map f (filter P (xs[n := y]))) + (if P (xs ! n) then {#f (xs ! n)#} else {#}) = mset (map f (filter P xs)) + (if P y then {#f y#} else {#})"
    unfolding e upd_conv_take_nth_drop[OF assms] by simp
  show "mset (map f (filter P xs)) = mset (map f (filter P (drop_at n xs))) + (if P (xs ! n) then {#f (xs ! n)#} else {#})"
    unfolding e drop_at_def by simp
qed

lemma open_ids_alt: "mset (open_ids s) = mset (map pd_lease (filter (\<lambda>p. pd_lease p \<noteq> []) (lr_pending s)))
    + mset (map (\<lambda>(_, i, _). i) (filter (\<lambda>(_, _, once). \<not> once) (rl_releasers (lr_limiter s))))"
  by (simp add: open_ids_def filter_map o_def)

lemma lease_inv_move:
  \<comment> \<open>a step that touches the tracked leases and the open ids in the same way\<close>
  assumes inv: "lease_inv used s" and used: "used \<subseteq> used'"
    and ids: "mset (open_ids s') = mset ids" and keys: "mok (rl_leases (lr_limiter s'))" "mkeys (rl_leases (lr_limiter s')) = set ids"
    and ok: "distinct ids" "set ids \<subseteq> used' - {[]}" "length ids \<le> length (open_ids s) \<or> int (length ids) \<le> cf_MaxLocalLeases (rl_cfg (lr_limiter s))"
    and frame: "rl_cfg (lr_limiter s') = rl_cfg (lr_limiter s)" "length (rl_releaseQ (lr_limiter s')) \<le> releaseQueueSize"
      "mset (rl_releaseQ (lr_limiter s')) + mset (lr_sent s') \<subseteq># mset (jobs_called (lr_limiter s'))"
  shows "lease_inv used' s'"
proof -
  have len: "length (rl_leases (lr_limiter x)) = length (open_ids x)"
    if "mok (rl_leases (lr_limiter x))" "distinct (open_ids x)" "mkeys (rl_leases (lr_limiter x)) = set (open_ids x)" for x
    using that by (metis distinct_card length_map list.set_map mok_def)
  have d: "distinct (open_ids s')" "set (open_ids s') = set ids" "length (open_ids s') = length ids"
    using mset_eq_imp_distinct_iff[OF ids] mset_eq_setD[OF ids] mset_eq_length[OF ids] ok by simp_all
  have "int (length (open_ids s)) \<le> cf_MaxLocalLeases (rl_cfg (lr_limiter s))" using inv len[of s] by (simp add: lease_inv_def)
  moreover have "length (rl_leases (lr_limiter s')) = length ids" using len[of s'] d keys by simp
  ultimately have "int (length (rl_leases (lr_limiter s'))) \<le> cf_MaxLocalLeases (rl_cfg (lr_limiter s'))" using ok(3) frame(1) by auto
  then show ?thesis using d keys ok frame used by (auto simp: lease_inv_def)
qed

lemma Allow_begin_cases:
  assumes "Allow_begin i ov retry r l = (l1, x)"
  shows "(\<exists>d. x = Inl d \<and> l1 = l) \<or> (\<exists>pd. x = Inr pd \<and>
     (l1 = l \<and> pd_lease pd = [] \<or> l1 = l\<lparr>rl_leases := mput i (rr_TenantID r) (rl_leases l)\<rparr> \<and> pd_lease pd = i
        \<and> int (length (rl_leases l)) < cf_MaxLocalLeases (rl_cfg l)))"
  using assms by (auto simp: Allow_begin_def Let_def split: if_splits)

lemma Start_inv:
  assumes inv: "lease_inv used s" and i: "i \<notin> used" "i \<noteq> []"
  shows "lease_inv (insert i used) (limiter_step (StartAllow i ov retry r) s)"
proof -
  obtain l1 x where b: "Allow_begin i ov retry r (lr_limiter s) = (l1, x)" by force
  have I: "mok (rl_leases (lr_limiter s))" "distinct (open_ids s)" "mkeys (rl_leases (lr_limiter s)) = set (open_ids s)" "set (open_ids s) \<subseteq> used - {[]}"
    "length (rl_releaseQ (lr_limiter s)) \<le> releaseQueueSize" "mset (rl_releaseQ (lr_limiter s)) + mset (lr_sent s) \<subseteq># mset (jobs_called (lr_limiter s))"
    using inv by (simp_all add: lease_inv_def)
  have used': "set (open_ids s) \<subseteq> insert i used - {[]}" and new: "i \<notin> set (open_ids s)" using I(4) i by auto
  from Allow_begin_cases[OF b] show ?thesis
  proof (elim disjE exE conjE)
    fix d assume "x = Inl d" "l1 = lr_limiter s"
    then show ?thesis by (intro lease_inv_move[OF inv subset_insertI, where ids = "open_ids s"]) (use b I in \<open>simp_all add: used'\<close>)
  next
    fix pd assume "x = Inr pd" "l1 = lr_limiter s" "pd_lease pd = []"
    then show ?thesis
      by (intro lease_inv_move[OF inv subset_insertI, where ids = "open_ids s"]) (use b I in \<open>simp_all add: used' open_ids_alt\<close>)
  next
    fix pd assume c: "x = Inr pd" "l1 = lr_limiter s\<lparr>rl_leases := mput i (rr_TenantID r) (rl_leases (lr_limiter s))\<rparr>" "pd_lease pd = i"
      "int (length (rl_leases (lr_limiter s))) < cf_MaxLocalLeases (rl_cfg (lr_limiter s))"
    have len: "length (open_ids s) = length (rl_leases (lr_limiter s))" using I(1-3) by (metis distinct_card length_map list.set_map mok_def)
    show ?thesis
      by (rule lease_inv_move[OF inv subset_insertI, where ids = "i # open_ids s"])
        (use b c I i len new in \<open>simp_all add: used' open_ids_alt mkeys_mput jobs_called_def\<close>)
  qed
qed

lemma forget_frame [simp]: "rl_cfg (forget i l) = rl_cfg l" "rl_releaseQ (forget i l) = rl_releaseQ l" "rl_releasers (forget i l) = rl_releasers l"
  by (simp_all add: forget_def)

lemma Allow_end_cases:
  assumes "fst (Allow_end pd retry res l) = l1"
  shows "l1 = forget (pd_lease pd) l \<or> l1 = l \<and> pd_lease pd = [] \<or> l1 = fst (releaser (pd_tenant pd) (pd_lease pd) l) \<and> pd_lease pd \<noteq> []"
  using assms by (auto simp: Allow_end_def Let_def releaser_def split: sum.splits if_splits)

lemma End_inv:
  assumes inv: "lease_inv used s" and n: "n < length (lr_pending s)"
  shows "lease_inv used (limiter_step (EndAllow n retry res) s)"
proof -
  let ?pd = "lr_pending s ! n" and ?l = "lr_limiter s"
  define l1 where "l1 = fst (Allow_end ?pd retry res ?l)"
  have step: "limiter_step (EndAllow n retry res) s = s\<lparr>lr_limiter := l1, lr_pending := drop_at n (lr_pending s)\<rparr>" using n by (simp add: l1_def)
  have I: "mok (rl_leases ?l)" "distinct (open_ids s)" "mkeys (rl_leases ?l) = set (open_ids s)" "set (open_ids s) \<subseteq> used - {[]}"
    "length (rl_releaseQ ?l) \<le> releaseQueueSize" "mset (rl_releaseQ ?l) + mset (lr_sent s) \<subseteq># mset (jobs_called ?l)"
    using inv by (simp_all add: lease_inv_def)
  note P = mset_update(2)[OF n, of pd_lease "\<lambda>p. pd_lease p \<noteq> []"]
  let ?s' = "s\<lparr>lr_limiter := l1, lr_pending := drop_at n (lr_pending s)\<rparr>"
  consider (gone) "l1 = forget (pd_lease ?pd) ?l" "pd_lease ?pd \<noteq> []" | (same) "l1 = ?l" "pd_lease ?pd = []"
    | (run) "l1 = fst (releaser (pd_tenant ?pd) (pd_lease ?pd) ?l)" "pd_lease ?pd \<noteq> []"
    using Allow_end_cases[OF l1_def[symmetric]] by (cases "pd_lease ?pd = []") (auto simp: forget_def)
  then have "lease_inv used ?s'"
  proof cases
    case gone
    have e: "mset (open_ids s) = add_mset (pd_lease ?pd) (mset (open_ids ?s'))" using P gone by (simp add: open_ids_alt)
    then have d: "distinct (pd_lease ?pd # open_ids ?s')" "set (open_ids s) = set (pd_lease ?pd # open_ids ?s')" "length (open_ids s) = Suc (length (open_ids ?s'))"
      using mset_eq_imp_distinct_iff[of "open_ids s" "pd_lease ?pd # open_ids ?s'"] mset_eq_setD[of "open_ids s" "pd_lease ?pd # open_ids ?s'"]
        mset_eq_length[of "open_ids s" "pd_lease ?pd # open_ids ?s'"] I(2) by simp_all
    have k: "set (open_ids s) - {pd_lease ?pd} = set (open_ids ?s')" "set (open_ids ?s') \<subseteq> used - {[]}" using d(1,2) I(4) by auto
    have l: "rl_leases l1 = mdel (pd_lease ?pd) (rl_leases ?l)"
      and f: "rl_cfg l1 = rl_cfg ?l" "rl_releaseQ l1 = rl_releaseQ ?l" "rl_releasers l1 = rl_releasers ?l" using gone by (simp_all add: forget_def)
    show ?thesis
    proof (rule lease_inv_move[OF inv subset_refl refl])
      show "mkeys (rl_leases (lr_limiter ?s')) = set (open_ids ?s')" unfolding k(1)[symmetric] by (simp add: l mkeys_mdel I(3))
    qed (use I d(1,3) k(2) f in \<open>simp_all add: l jobs_called_def\<close>)
  next
    case same
    have "mset (open_ids ?s') = mset (open_ids s)" using same P by (simp add: open_ids_alt)
    then show ?thesis
      by (rule lease_inv_move[OF inv subset_refl]) (use same I in simp_all)
  next
    case run
    then have l: "l1 = ?l\<lparr>rl_releasers := rl_releasers ?l @ [(pd_tenant ?pd, pd_lease ?pd, False)]\<rparr>" by (simp add: releaser_def)
    have "mset (open_ids ?s') = mset (open_ids s)" using run(2) P by (simp add: open_ids_alt l)
    then show ?thesis
      by (rule lease_inv_move[OF inv subset_refl]) (use I in \<open>simp_all add: l jobs_called_def\<close>)
  qed
  then show ?thesis using step by simp
qed

lemma Release_call_inv:
  assumes inv: "lease_inv used s" and n: "n < length (rl_releasers (lr_limiter s))"
  shows "lease_inv used (limiter_step (CallRelease n) s)"
proof -
  let ?l = "lr_limiter s"
  obtain t i o' where r: "rl_releasers ?l ! n = (t, i, o')" by (metis surj_pair)
  have I: "mok (rl_leases ?l)" "distinct (open_ids s)" "mkeys (rl_leases ?l) = set (open_ids s)" "set (open_ids s) \<subseteq> used - {[]}"
    "length (rl_releaseQ ?l) \<le> releaseQueueSize" "mset (rl_releaseQ ?l) + mset (lr_sent s) \<subseteq># mset (jobs_called ?l)"
    using inv by (simp_all add: lease_inv_def)
  show ?thesis
  proof (cases o')
    case True
    then show ?thesis using inv n r by (simp add: call_release_def)
  next
    case False
    define l1 where "l1 = call_release (Releaser n) ?l"
    let ?s' = "s\<lparr>lr_limiter := l1\<rparr>"
    have step: "limiter_step (CallRelease n) s = ?s'" using n by (simp add: l1_def)
    have rs: "rl_releasers l1 = (rl_releasers ?l)[n := (t, i, True)]" and le: "rl_cfg l1 = rl_cfg ?l"
      and q: "rl_releaseQ l1 = rl_releaseQ ?l \<or> rl_releaseQ l1 = rl_releaseQ ?l @ [(t, i)] \<and> length (rl_releaseQ l1) \<le> releaseQueueSize"
      and ls: "rl_leases l1 = rl_leases (forget i ?l)"
      using r False by (auto simp: l1_def call_release_def enqueue_def forget_def)
    have "mset (open_ids s) = add_mset i (mset (open_ids ?s'))"
      using mset_update(1)[OF n, of "\<lambda>(_, i, _). i" "\<lambda>(_, _, once). \<not> once" "(t, i, True)"] r False by (simp add: open_ids_alt rs)
    then have d: "distinct (i # open_ids ?s')" "set (open_ids s) = set (i # open_ids ?s')" "length (open_ids s) = Suc (length (open_ids ?s'))"
      using mset_eq_imp_distinct_iff[of "open_ids s" "i # open_ids ?s'"] mset_eq_setD[of "open_ids s" "i # open_ids ?s'"]
        mset_eq_length[of "open_ids s" "i # open_ids ?s'"] I(2) by simp_all
    have k: "set (open_ids s) - {i} = set (open_ids ?s')" "set (open_ids ?s') \<subseteq> used - {[]}" "i \<noteq> []" using d(1,2) I(4) by auto
    have l: "rl_leases l1 = mdel i (rl_leases ?l)" using k(3) ls by (simp add: forget_def)
    have j: "mset (jobs_called l1) = add_mset (t, i) (mset (jobs_called ?l))"
      using mset_update(1)[OF n, of "\<lambda>(t, i, _). (t, i)" "\<lambda>(_, _, once). once" "(t, i, True)"] r False by (simp add: jobs_called_def rs)
    show ?thesis unfolding step
    proof (rule lease_inv_move[OF inv subset_refl refl])
      show "mkeys (rl_leases (lr_limiter ?s')) = set (open_ids ?s')" unfolding k(1)[symmetric] by (simp add: l mkeys_mdel I(3))
      show "mset (rl_releaseQ (lr_limiter ?s')) + mset (lr_sent ?s') \<subseteq># mset (jobs_called (lr_limiter ?s'))"
        using q
      proof
        assume "rl_releaseQ l1 = rl_releaseQ ?l"
        then show ?thesis using subset_mset.order_trans[OF I(6) mset_subset_eq_add_right[of _ "{#(t, i)#}"]] by (simp add: j)
      next
        assume "rl_releaseQ l1 = rl_releaseQ ?l @ [(t, i)] \<and> length (rl_releaseQ l1) \<le> releaseQueueSize"
        then show ?thesis using I(6) by (simp add: j)
      qed
      show "length (rl_releaseQ (lr_limiter ?s')) \<le> releaseQueueSize" using q I(5) by auto
    qed (use le I d(1,3) k(2) in \<open>simp_all add: l\<close>)
  qed
qed

lemma queue_inv:
  \<comment> \<open>jobs move from the queue to the wire\<close>
  assumes inv: "lease_inv used s" and l: "rl_leases l1 = rl_leases (lr_limiter s)" "rl_cfg l1 = rl_cfg (lr_limiter s)" "rl_releasers l1 = rl_releasers (lr_limiter s)"
    and q: "mset (rl_releaseQ l1) + mset js = mset (rl_releaseQ (lr_limiter s))"
  shows "lease_inv used (s\<lparr>lr_limiter := l1, lr_sent := lr_sent s @ js\<rparr>)"
proof -
  let ?s' = "s\<lparr>lr_limiter := l1, lr_sent := lr_sent s @ js\<rparr>"
  have I: "mok (rl_leases (lr_limiter s))" "distinct (open_ids s)" "mkeys (rl_leases (lr_limiter s)) = set (open_ids s)" "set (open_ids s) \<subseteq> used - {[]}"
    "length (rl_releaseQ (lr_limiter s)) \<le> releaseQueueSize" "mset (rl_releaseQ (lr_limiter s)) + mset (lr_sent s) \<subseteq># mset (jobs_called (lr_limiter s))"
    using inv by (simp_all add: lease_inv_def)
  have "size (mset (rl_releaseQ l1)) \<le> length (rl_releaseQ (lr_limiter s))" using arg_cong[OF q, of size] by simp
  moreover have j: "jobs_called l1 = jobs_called (lr_limiter s)" by (simp add: jobs_called_def l)
  have "mset (rl_releaseQ l1) + mset (lr_sent s @ js) = mset (rl_releaseQ (lr_limiter s)) + mset (lr_sent s)" unfolding q[symmetric] by simp
  with I(6) have "mset (rl_releaseQ l1) + mset (lr_sent s @ js) \<subseteq># mset (jobs_called l1)" unfolding j by (simp only:)
  moreover have "open_ids ?s' = open_ids s" by (simp add: open_ids_def l)
  ultimately show ?thesis
    by (intro lease_inv_move[OF inv subset_refl, where ids = "open_ids s"]) (use I l in simp_all)
qed

lemma doRelease_frame [simp]: "rl_leases (doRelease e l) = rl_leases l" "rl_cfg (doRelease e l) = rl_cfg l" "rl_releasers (doRelease e l) = rl_releasers l"
  "rl_releaseQ (doRelease e l) = rl_releaseQ l"
  by (simp_all add: doRelease_def split: option.split)

lemma Close_loop_frame:
  "Close_loop xs l = (l', js) \<Longrightarrow> rl_leases l' = rl_leases l \<and> rl_cfg l' = rl_cfg l \<and> rl_releasers l' = rl_releasers l
     \<and> mset (rl_releaseQ l') + mset js = mset (rl_releaseQ l)"
proof (induction xs l arbitrary: l' js rule: Close_loop.induct)
  case (2 err ahead xs l)
  then show ?case by (fastforce split: if_splits list.splits prod.splits)
qed simp

lemma limiter_step_inv:
  assumes inv: "lease_inv used s" and fresh: "\<forall>i \<in> set (event_ids x). i \<notin> used \<and> i \<noteq> []"
  shows "lease_inv (used \<union> set (event_ids x)) (limiter_step x s)"
proof (cases x)
  case (StartAllow i ov retry r)
  then show ?thesis using Start_inv[OF inv] fresh by simp
next
  case (EndAllow n retry res)
  then show ?thesis using End_inv[OF inv] inv by (cases "n < length (lr_pending s)") (simp_all del: limiter_step.simps(2), simp)
next
  case (CallRelease n)
  then show ?thesis using Release_call_inv[OF inv] inv by (cases "n < length (rl_releasers (lr_limiter s))") (simp_all del: limiter_step.simps(3), simp)
next
  case (WorkerTurn err)
  then show ?thesis
    using queue_inv[OF inv, of "fst (release_worker err (lr_limiter s))" "case snd (release_worker err (lr_limiter s)) of None \<Rightarrow> [] | Some j \<Rightarrow> [j]"]
    by (cases "rl_releaseQ (lr_limiter s)") (simp_all add: release_worker_def)
next
  case (CloseLimiter xs)
  obtain l' js where c: "limiter_Close xs (lr_limiter s) = (l', js)" by force
  then show ?thesis
    using queue_inv[OF inv, of l' js] Close_loop_frame[OF c[unfolded limiter_Close_def]] CloseLimiter by simp
qed

definition limiter_history :: "rl_limiter \<Rightarrow> limiter_event list \<Rightarrow> limiter_run" where
  "limiter_history l xs = foldl (\<lambda>s x. limiter_step x s) \<lparr>lr_limiter = l, lr_pending = [], lr_sent = []\<rparr> xs"

lemma limiter_history_inv:
  assumes "NewRedis client cfg = Inr l" "distinct (concat (map event_ids xs))" "[] \<notin> set (concat (map event_ids xs))"
  shows "lease_inv (set (concat (map event_ids xs))) (limiter_history l xs)"
  using assms(2,3)
proof (induction xs rule: rev_induct)
  case Nil
  show ?case using NewRedis_ok[OF assms(1)] by (simp add: limiter_history_def lease_inv_def open_ids_def jobs_called_def limiter_cfg_ok_def)
next
  case (snoc x xs)
  have inv: "lease_inv (set (concat (map event_ids xs))) (limiter_history l xs)" using snoc by simp
  have "\<forall>i \<in> set (event_ids x). i \<notin> set (concat (map event_ids xs)) \<and> i \<noteq> []" using snoc.prems by auto
  from limiter_step_inv[OF inv this] show ?case by (simp add: limiter_history_def)
qed

text \<open>C7: no lease is leaked, and none is given back twice. After every interleaving of checks, answers, release calls (repeated ones
  included), release workers and a close, with lease IDs that do not repeat, the process tracks exactly the leases of the checks under way and of
  the admitted requests that have not released, within its bound; when there are none of these it tracks no lease. The jobs queued or
  sent to Redis are releases that were called, each at most once.\<close>

theorem leases_tracked_exactly:
  assumes "NewRedis client cfg = Inr l" "distinct (concat (map event_ids xs))" "[] \<notin> set (concat (map event_ids xs))"
    and s: "s = limiter_history l xs"
  shows "mkeys (rl_leases (lr_limiter s)) = set (open_ids s) \<and> int (length (rl_leases (lr_limiter s))) \<le> cf_MaxLocalLeases (rl_cfg (lr_limiter s))
    \<and> (lr_pending s = [] \<and> (\<forall>(_, _, once) \<in> set (rl_releasers (lr_limiter s)). once) \<longrightarrow> rl_leases (lr_limiter s) = [])
    \<and> length (rl_releaseQ (lr_limiter s)) \<le> releaseQueueSize
    \<and> mset (rl_releaseQ (lr_limiter s)) + mset (lr_sent s) \<subseteq># mset (jobs_called (lr_limiter s))"
proof -
  have inv: "lease_inv (set (concat (map event_ids xs))) s" unfolding s by (rule limiter_history_inv[OF assms(1-3)])
  have "open_ids s = []" if "lr_pending s = [] \<and> (\<forall>(_, _, once) \<in> set (rl_releasers (lr_limiter s)). once)"
    using that by (auto simp: open_ids_def filter_empty_conv)
  then show ?thesis using inv by (auto simp: lease_inv_def)
qed

theorem leases_tracked_exactly_witness:
  "let s = limiter_history ex_limiter [StartAllow ''a'' 0 second ex_request, StartAllow ''b'' 0 second ex_request, EndAllow 0 second (Inr [1, 0, 0]),
       EndAllow 0 second (Inl ErrBackoff), CallRelease 0, CallRelease 0, WorkerTurn None]
   in rl_leases (lr_limiter s) = [] \<and> lr_sent s = [(''t'', ''a'')]"
proof -
  define s where "s = limiter_history ex_limiter [StartAllow ''a'' 0 second ex_request, StartAllow ''b'' 0 second ex_request, EndAllow 0 second (Inr [1, 0, 0]),
       EndAllow 0 second (Inl ErrBackoff), CallRelease 0, CallRelease 0, WorkerTurn None]"
  have b: "Allow_begin i 0 second ex_request l = (l\<lparr>rl_leases := mput i ''t'' (rl_leases l)\<rparr>,
      Inr \<lparr>pd_tenant = ''t'', pd_lease = i, pd_keys = script_keys (request_of i l ex_request), pd_args = script_args (params_of (rl_cfg l)) 0 (request_of i l ex_request)\<rparr>)"
    if "rl_cfg l = rl_cfg ex_limiter" "length (rl_leases l) < 2" for l i
  proof -
    have "needs_check l ex_request" "names_ok l ex_request" "lease_room l ex_request"
      by (simp_all add: needs_check_def names_ok_def lease_room_def ex_limits limits_None_def model_quota_def that(1))
        (use that(2) in \<open>simp_all add: ex_request_def ex_limiter_def validKeyPart_def maxKeyPart_def mget_or_def\<close>)
    from Allow_begin_check[OF this, of i 0 second] show ?thesis by (simp add: ex_limits request_of_def) (simp add: ex_request_def)
  qed
  have e: "lr_pending s = [] \<and> rl_releasers (lr_limiter s) = [(''t'', ''a'', True)] \<and> lr_sent s = [(''t'', ''a'')]"
    by (simp add: s_def limiter_history_def b ex_limiter_def drop_at_def Allow_end_def releaser_def call_release_def enqueue_def forget_def release_worker_def
      doRelease_def releaseQueueSize_def admitted_unchecked_def Let_def)
  have "rl_leases (lr_limiter s) = []"
    using leases_tracked_exactly[OF ex_limiter_new _ _ s_def] e by simp
  then show ?thesis using e by (simp add: s_def[symmetric] Let_def)
qed

end
