(* ===== verification/History.thy ===== *)
theory History
  imports Go_Base
begin

text \<open>
  The \<^verbatim>\<open>history\<close> of \<^verbatim>\<open>internal/scheduler/signals/tracker.go\<close>: cumulative starts and finishes by time bucket, trimmed to a window and
  compacted in place. The lemmas relate it to the plain log of events, and bound its size. The cumulative totals are natural
  numbers: the source's \<^verbatim>\<open>uint64\<close> would need \<open>2^64\<close> events to wrap, and the subtractions are of a smaller total from a larger one.
\<close>

section \<open>Operations\<close>

record hist_rec =
  rec_idx :: int
  rec_cumS :: nat
  rec_cumF :: nat

record history =
  h_recs :: "hist_rec list" \<comment> \<open>the live records are \<open>drop h_from h_recs\<close>\<close>
  h_from :: nat
  h_totS :: nat
  h_totF :: nat
  h_baseS :: nat
  h_baseF :: nat
  h_droppedIdx :: int
  h_hasDropped :: bool

definition history_zero :: history where
  "history_zero = \<lparr>h_recs = [], h_from = 0, h_totS = 0, h_totF = 0, h_baseS = 0, h_baseF = 0, h_droppedIdx = 0, h_hasDropped = False\<rparr>"

definition hist_live :: "history \<Rightarrow> nat" where
  "hist_live h = length (h_recs h) - h_from h"

definition hist_reset :: "history \<Rightarrow> history" where
  "hist_reset h = history_zero"

function hist_trim :: "int \<Rightarrow> history \<Rightarrow> history" where
  \<comment> \<open>the loop that drops the records before \<open>limit\<close>\<close>
  "hist_trim limit h =
     (if h_from h < length (h_recs h) \<and> rec_idx (h_recs h ! h_from h) < limit
      then let r = h_recs h ! h_from h
           in hist_trim limit (h\<lparr>h_baseS := rec_cumS r, h_baseF := rec_cumF r, h_droppedIdx := rec_idx r, h_hasDropped := True, h_from := h_from h + 1\<rparr>)
      else h)"
  by pat_completeness auto
termination
  by (relation "measure (\<lambda>(limit, h). length (h_recs h) - h_from h)") auto

declare hist_trim.simps [simp del]

definition hist_compact :: "history \<Rightarrow> history" where
  "hist_compact h =
     (if h_from h > 32 \<and> h_from h * 2 > length (h_recs h) then h\<lparr>h_recs := drop (h_from h) (h_recs h), h_from := 0\<rparr> else h)"

definition hist_record :: "int \<Rightarrow> bool \<Rightarrow> int \<Rightarrow> history \<Rightarrow> history" where
  "hist_record idx start keep h =
     (let h1 = (if start then h\<lparr>h_totS := h_totS h + 1\<rparr> else h\<lparr>h_totF := h_totF h + 1\<rparr>);
          n = length (h_recs h1)
      in if n > h_from h1 \<and> idx \<le> rec_idx (h_recs h1 ! (n - 1))
         then h1\<lparr>h_recs := (h_recs h1)[n - 1 := (h_recs h1 ! (n - 1))\<lparr>rec_cumS := h_totS h1, rec_cumF := h_totF h1\<rparr>]\<rparr>
         else hist_compact (hist_trim (idx - keep)
                (h1\<lparr>h_recs := h_recs h1 @ [\<lparr>rec_idx = idx, rec_cumS = h_totS h1, rec_cumF = h_totF h1\<rparr>]\<rparr>)))"

definition hist_since :: "int \<Rightarrow> bool \<Rightarrow> history \<Rightarrow> nat \<times> bool" where
  "hist_since pivot start h =
     (let live = drop (h_from h) (h_recs h);
          i = sort_search (length live) (\<lambda>i. rec_idx (live ! i) \<ge> pivot)
      in if i = 0 \<and> h_hasDropped h \<and> pivot \<le> h_droppedIdx h then (0, False)
         else let (cumS, cumF) = (if i > 0 then (rec_cumS (live ! (i - 1)), rec_cumF (live ! (i - 1))) else (h_baseS h, h_baseF h))
              in (if start then h_totS h - cumS else h_totF h - cumF, True))"

section \<open>The log of events\<close>

type_synonym event_log = "(int \<times> bool) list" \<comment> \<open>bucket, and whether it is a start\<close>

definition log_bucket :: "event_log \<Rightarrow> int \<Rightarrow> int" where
  \<comment> \<open>a clock that steps back does not reorder events\<close>
  "log_bucket lg idx = (if lg = [] then idx else max idx (fst (last lg)))"

definition cum_upto :: "bool \<Rightarrow> event_log \<Rightarrow> int \<Rightarrow> nat" where
  "cum_upto s lg b = count_if (\<lambda>(k, t). t = s \<and> k \<le> b) lg"

definition log_since :: "bool \<Rightarrow> event_log \<Rightarrow> int \<Rightarrow> nat" where
  "log_since s lg b = count_if (\<lambda>(k, t). t = s \<and> b \<le> k) lg"

abbreviation live_recs :: "history \<Rightarrow> hist_rec list" where
  "live_recs h \<equiv> drop (h_from h) (h_recs h)"

definition hist_rep :: "event_log \<Rightarrow> history \<Rightarrow> bool" where
  "hist_rep lg h \<longleftrightarrow> h_from h \<le> length (h_recs h)
     \<and> h_totS h = count_if snd lg \<and> h_totF h = count_if (\<lambda>e. \<not> snd e) lg
     \<and> sorted_wrt (<) (map rec_idx (live_recs h))
     \<and> (\<forall>r \<in> set (live_recs h). rec_cumS r = cum_upto True lg (rec_idx r) \<and> rec_cumF r = cum_upto False lg (rec_idx r))
     \<and> (if h_hasDropped h then h_baseS h = cum_upto True lg (h_droppedIdx h) \<and> h_baseF h = cum_upto False lg (h_droppedIdx h)
            \<and> (\<forall>r \<in> set (live_recs h). h_droppedIdx h < rec_idx r)
        else h_baseS h = 0 \<and> h_baseF h = 0)
     \<and> (\<forall>e \<in> set lg. (h_hasDropped h \<and> fst e \<le> h_droppedIdx h) \<or> fst e \<in> rec_idx ` set (live_recs h))
     \<and> (lg = [] \<longrightarrow> live_recs h = [] \<and> \<not> h_hasDropped h)
     \<and> (lg \<noteq> [] \<longrightarrow> live_recs h \<noteq> [] \<and> rec_idx (last (live_recs h)) = fst (last lg) \<and> (\<forall>e \<in> set lg. fst e \<le> fst (last lg)))"

lemma cum_upto_snoc: "cum_upto s (lg @ [(k, t)]) b = cum_upto s lg b + (if t = s \<and> k \<le> b then 1 else 0)"
  by (simp add: cum_upto_def)

lemma cum_upto_all: "\<forall>e \<in> set lg. fst e \<le> b \<Longrightarrow> cum_upto True lg b = count_if snd lg \<and> cum_upto False lg b = count_if (\<lambda>e. \<not> snd e) lg"
  unfolding cum_upto_def by (intro conjI count_if_cong) auto

lemma hist_rep_zero: "hist_rep [] history_zero"
  by (simp add: hist_rep_def history_zero_def)

lemma compact_live: "h_from h \<le> length (h_recs h) \<Longrightarrow> live_recs (hist_compact h) = live_recs h \<and> h_from (hist_compact h) \<le> length (h_recs (hist_compact h))"
  by (simp add: hist_compact_def)

lemma compact_frame [simp]: "h_totS (hist_compact h) = h_totS h" "h_totF (hist_compact h) = h_totF h" "h_baseS (hist_compact h) = h_baseS h"
  "h_baseF (hist_compact h) = h_baseF h" "h_droppedIdx (hist_compact h) = h_droppedIdx h" "h_hasDropped (hist_compact h) = h_hasDropped h"
  by (simp_all add: hist_compact_def)

lemma compact_rep: "hist_rep lg h \<Longrightarrow> hist_rep lg (hist_compact h)"
  using compact_live[of h] by (simp add: hist_rep_def)

lemma drop_first_rep:
  assumes R: "hist_rep lg h" and live: "live_recs h = r # rest" "rest \<noteq> []"
  shows "hist_rep lg (h\<lparr>h_baseS := rec_cumS r, h_baseF := rec_cumF r, h_droppedIdx := rec_idx r, h_hasDropped := True, h_from := h_from h + 1\<rparr>)"
    (is "hist_rep lg ?h")
proof -
  have l: "live_recs ?h = rest" using arg_cong[OF live(1), of tl] by (simp add: drop_Suc tl_drop)
  have "h_from h < length (h_recs h)" using live(1) by (metis drop_all list.distinct(1) not_le)
  then have fr: "h_from ?h \<le> length (h_recs ?h)" by simp
  have s: "sorted_wrt (<) (map rec_idx (r # rest))" using R live by (simp add: hist_rep_def)
  have "(h_hasDropped ?h \<and> fst e \<le> h_droppedIdx ?h) \<or> fst e \<in> rec_idx ` set rest" if e: "e \<in> set lg" for e
  proof -
    have "(h_hasDropped h \<and> fst e \<le> h_droppedIdx h) \<or> fst e \<in> rec_idx ` set (r # rest)" using R e live by (simp add: hist_rep_def)
    moreover have "h_hasDropped h \<Longrightarrow> h_droppedIdx h < rec_idx r" using R live by (simp add: hist_rep_def)
    ultimately show ?thesis by auto
  qed
  then show ?thesis using R s live fr unfolding hist_rep_def l live(1) by simp
qed

lemma trim_rep:
  assumes "hist_rep lg h" "live_recs h \<noteq> []" "limit \<le> rec_idx (last (live_recs h))"
  shows "hist_rep lg (hist_trim limit h) \<and> (h_hasDropped (hist_trim limit h) \<longrightarrow> h_hasDropped h \<and> h_droppedIdx (hist_trim limit h) = h_droppedIdx h
    \<or> h_droppedIdx (hist_trim limit h) < limit) \<and> (\<forall>r \<in> set (live_recs (hist_trim limit h)). limit \<le> rec_idx r)
    \<and> h_recs (hist_trim limit h) = h_recs h"
  using assms
proof (induction limit h rule: hist_trim.induct)
  case (1 limit h)
  have lt: "h_from h < length (h_recs h)" using "1.prems"(2) by simp
  then have live: "live_recs h = h_recs h ! h_from h # drop (Suc (h_from h)) (h_recs h)" by (simp add: Cons_nth_drop_Suc)
  show ?case
  proof (cases "rec_idx (h_recs h ! h_from h) < limit")
    case True
    let ?r = "h_recs h ! h_from h"
    let ?h = "h\<lparr>h_baseS := rec_cumS ?r, h_baseF := rec_cumF ?r, h_droppedIdx := rec_idx ?r, h_hasDropped := True, h_from := h_from h + 1\<rparr>"
    have rest: "drop (Suc (h_from h)) (h_recs h) \<noteq> []" using "1.prems"(3) True live by (auto split: if_splits)
    have t: "hist_trim limit h = hist_trim limit ?h" using lt True by (subst hist_trim.simps) (simp add: Let_def)
    have "hist_rep lg (hist_trim limit ?h) \<and> (h_hasDropped (hist_trim limit ?h) \<longrightarrow> h_hasDropped ?h \<and> h_droppedIdx (hist_trim limit ?h) = h_droppedIdx ?h
      \<or> h_droppedIdx (hist_trim limit ?h) < limit) \<and> (\<forall>r \<in> set (live_recs (hist_trim limit ?h)). limit \<le> rec_idx r) \<and> h_recs (hist_trim limit ?h) = h_recs ?h"
    proof (rule "1.IH"[OF _ refl])
      show "limit \<le> rec_idx (last (live_recs ?h))" using "1.prems"(3) live rest by simp
    qed (use lt True rest drop_first_rep[OF "1.prems"(1) live rest] in simp_all)
    then show ?thesis unfolding t using True by auto
  next
    case False
    then have t: "hist_trim limit h = h" by (subst hist_trim.simps) simp
    have "sorted_wrt (<) (map rec_idx (h_recs h ! h_from h # drop (Suc (h_from h)) (h_recs h)))" using "1.prems"(1) live by (simp add: hist_rep_def)
    then have "\<forall>r \<in> set (live_recs h). limit \<le> rec_idx r" unfolding live using False by auto
    then show ?thesis using "1.prems"(1) by (simp add: t)
  qed
qed

lemma snoc_live: "h_from h \<le> length (h_recs h) \<Longrightarrow> live_recs (h\<lparr>h_recs := h_recs h @ [x]\<rparr>) = live_recs h @ [x]"
  by simp

lemma append_rep:
  assumes R: "hist_rep lg h" and new: "lg = [] \<or> fst (last lg) < idx"
    and x: "x = \<lparr>rec_idx = idx, rec_cumS = h_totS h + (if start then 1 else 0), rec_cumF = h_totF h + (if start then 0 else 1)\<rparr>"
  shows "hist_rep (lg @ [(idx, start)]) (h\<lparr>h_totS := rec_cumS x, h_totF := rec_cumF x, h_recs := h_recs h @ [x]\<rparr>)" (is "hist_rep ?lg ?h")
proof -
  have fr: "h_from h \<le> length (h_recs h)" using R by (simp add: hist_rep_def)
  have live: "live_recs ?h = live_recs h @ [x]" using fr by simp
  have old: "\<forall>e \<in> set lg. fst e < idx" using R new by (cases "lg = []") (auto simp: hist_rep_def)
  have lidx: "\<forall>r \<in> set (live_recs h). rec_idx r < idx"
  proof
    fix r assume r: "r \<in> set (live_recs h)"
    then have ne: "lg \<noteq> []" using R by (auto simp: hist_rep_def)
    have s: "sorted_wrt (<) (map rec_idx (live_recs h))" using R by (simp add: hist_rep_def)
    have "rec_idx r \<le> rec_idx (last (live_recs h))"
    proof (cases "live_recs h" rule: rev_cases)
      case (snoc ys y)
      then show ?thesis using s r by (auto simp: sorted_wrt_append)
    qed (use r in simp)
    moreover have "rec_idx (last (live_recs h)) = fst (last lg)" using R ne unfolding hist_rep_def by blast
    ultimately show "rec_idx r < idx" using ne new by linarith
  qed
  have up: "cum_upto s ?lg b = cum_upto s lg b" if "b < idx" for s b using that by (simp add: cum_upto_snoc)
  have dr: "h_hasDropped h \<Longrightarrow> h_droppedIdx h < idx"
    using R lidx by (cases "live_recs h") (auto simp: hist_rep_def)
  have tot: "cum_upto True lg idx = h_totS h" "cum_upto False lg idx = h_totF h"
    using cum_upto_all[of lg idx] old R by (auto simp: hist_rep_def less_imp_le)
  have new': "rec_cumS x = cum_upto True ?lg (rec_idx x) \<and> rec_cumF x = cum_upto False ?lg (rec_idx x)" by (simp add: x cum_upto_snoc tot)
  have sorted: "sorted_wrt (<) (map rec_idx (live_recs h @ [x]))" using R lidx by (simp add: hist_rep_def sorted_wrt_append x)
  have le: "\<forall>e \<in> set ?lg. fst e \<le> fst (last ?lg)" using old by auto
  have cums: "\<forall>r \<in> set (live_recs h @ [x]). rec_cumS r = cum_upto True ?lg (rec_idx r) \<and> rec_cumF r = cum_upto False ?lg (rec_idx r)"
    using R new' lidx up by (auto simp: hist_rep_def)
  show ?thesis
    using R dr up le sorted cums unfolding hist_rep_def live by (auto simp: x)
qed

lemma bump_rep:
  \<comment> \<open>an event in the last bucket\<close>
  assumes R: "hist_rep lg h" and live: "live_recs h = ys @ [y]" and k: "rec_idx y = fst (last lg)" "lg \<noteq> []"
    and y': "y' = y\<lparr>rec_cumS := h_totS h + (if start then 1 else 0), rec_cumF := h_totF h + (if start then 0 else 1)\<rparr>"
    and h': "h_from h' = h_from h" "h_from h' \<le> length (h_recs h')" "live_recs h' = ys @ [y']" "h_totS h' = rec_cumS y'" "h_totF h' = rec_cumF y'"
      "h_baseS h' = h_baseS h" "h_baseF h' = h_baseF h" "h_droppedIdx h' = h_droppedIdx h" "h_hasDropped h' = h_hasDropped h"
  shows "hist_rep (lg @ [(rec_idx y, start)]) h'" (is "hist_rep ?lg h'")
proof -
  have s: "sorted_wrt (<) (map rec_idx (ys @ [y]))" using R live unfolding hist_rep_def by metis
  have all: "\<forall>e \<in> set lg. fst e \<le> rec_idx y" using R k unfolding hist_rep_def by metis
  have up: "cum_upto s ?lg b = cum_upto s lg b" if "b < rec_idx y" for s b using that by (simp add: cum_upto_snoc)
  have ys: "\<forall>r \<in> set ys. rec_idx r < rec_idx y" using s by (simp add: sorted_wrt_append)
  have tot: "cum_upto True lg (rec_idx y) = h_totS h" "cum_upto False lg (rec_idx y) = h_totF h"
    using cum_upto_all[OF all] R by (simp_all add: hist_rep_def)
  have old: "\<forall>r \<in> set ys. rec_cumS r = cum_upto True lg (rec_idx r) \<and> rec_cumF r = cum_upto False lg (rec_idx r)"
    using R live unfolding hist_rep_def by (metis Un_iff set_append)
  have cums: "\<forall>r \<in> set (ys @ [y']). rec_cumS r = cum_upto True ?lg (rec_idx r) \<and> rec_cumF r = cum_upto False ?lg (rec_idx r)"
    using old ys up tot by (auto simp: y' cum_upto_snoc)
  have d: "h_hasDropped h \<Longrightarrow> h_droppedIdx h < rec_idx y" "h_hasDropped h \<Longrightarrow> \<forall>r \<in> set ys. h_droppedIdx h < rec_idx r"
    "h_hasDropped h \<Longrightarrow> h_baseS h = cum_upto True lg (h_droppedIdx h) \<and> h_baseF h = cum_upto False lg (h_droppedIdx h)"
    "\<not> h_hasDropped h \<Longrightarrow> h_baseS h = 0 \<and> h_baseF h = 0"
    using R live unfolding hist_rep_def by (metis Un_iff list.set_intros(1) set_append)+
  have mem: "\<forall>e \<in> set lg. (h_hasDropped h \<and> fst e \<le> h_droppedIdx h) \<or> fst e \<in> rec_idx ` set (ys @ [y])"
    using R live unfolding hist_rep_def by metis
  have t: "h_totS h = count_if snd lg" "h_totF h = count_if (\<lambda>e. \<not> snd e) lg" using R by (simp_all add: hist_rep_def)
  have sy: "sorted_wrt (<) (map rec_idx (ys @ [y']))" using s by (simp add: y')
  show ?thesis
    unfolding hist_rep_def h'(3) using h' cums sy d up mem all t by (auto simp: y')
qed

lemma record_rep:
  assumes R: "hist_rep lg h" and keep: "0 \<le> keep"
  shows "hist_rep (lg @ [(log_bucket lg idx, start)]) (hist_record idx start keep h)"
proof -
  let ?tS = "h_totS h + (if start then 1 else 0)" and ?tF = "h_totF h + (if start then 0 else 1)"
  define h1 where "h1 = h\<lparr>h_totS := ?tS, h_totF := ?tF\<rparr>"
  define n where "n = length (h_recs h)"
  have h1: "(if start then h\<lparr>h_totS := h_totS h + 1\<rparr> else h\<lparr>h_totF := h_totF h + 1\<rparr>) = h1" by (simp add: h1_def)
  have fr: "h_from h \<le> n" using R by (simp add: hist_rep_def n_def)
  have ne: "lg = [] \<longleftrightarrow> live_recs h = []" using R unfolding hist_rep_def by metis
  have last: "lg \<noteq> [] \<Longrightarrow> rec_idx (last (live_recs h)) = fst (last lg)" using R unfolding hist_rep_def by metis
  have lastn: "live_recs h \<noteq> [] \<Longrightarrow> last (live_recs h) = h_recs h ! (n - 1)" by (simp add: last_drop last_conv_nth n_def)
  show ?thesis
  proof (cases "n > h_from h \<and> idx \<le> rec_idx (h_recs h ! (n - 1))")
    case True
    then have l: "live_recs h \<noteq> []" by (simp add: n_def)
    obtain ys y where ys: "live_recs h = ys @ [y]" using l by (metis append_butlast_last_id)
    have y: "y = h_recs h ! (n - 1)" using lastn[OF l] ys by simp
    have b: "log_bucket lg idx = rec_idx y" using last ne l True ys by (simp add: log_bucket_def y)
    let ?y = "y\<lparr>rec_cumS := ?tS, rec_cumF := ?tF\<rparr>"
    have len: "n - 1 - h_from h = length ys" using arg_cong[OF ys, of length] by (simp add: n_def)
    have "h_from h \<le> n - 1" using True by linarith
    from drop_update_swap[OF this, of "h_recs h" ?y] have lv: "drop (h_from h) ((h_recs h)[n - 1 := ?y]) = ys @ [?y]"
      unfolding len ys list_update_length .
    have e: "hist_record idx start keep h = h1\<lparr>h_recs := (h_recs h)[n - 1 := ?y]\<rparr>"
      using True by (simp add: hist_record_def Let_def h1 h1_def n_def y)
    show ?thesis unfolding b e
      by (rule bump_rep[OF R ys _ _ refl]) (use last ne l ys lv fr in \<open>simp_all add: h1_def n_def\<close>)
  next
    case False
    have new: "lg = [] \<or> fst (last lg) < idx"
    proof (cases "lg = []")
      case f: False
      then have "live_recs h \<noteq> []" using ne by simp
      then show ?thesis using False last[OF f] lastn by (auto simp: n_def)
    qed simp
    let ?x = "\<lparr>rec_idx = idx, rec_cumS = ?tS, rec_cumF = ?tF\<rparr>"
    let ?h = "h1\<lparr>h_recs := h_recs h @ [?x]\<rparr>"
    have b: "log_bucket lg idx = idx" using new by (auto simp: log_bucket_def)
    have R': "hist_rep (lg @ [(idx, start)]) ?h" using append_rep[OF R new refl] by (simp add: h1_def)
    have lv: "live_recs ?h = live_recs h @ [?x]" using fr by (simp add: h1_def n_def)
    have "hist_rep (lg @ [(idx, start)]) (hist_trim (idx - keep) ?h)"
      using trim_rep[OF R', of "idx - keep"] keep unfolding lv by simp
    moreover have "hist_record idx start keep h = hist_compact (hist_trim (idx - keep) ?h)"
      using False by (simp add: hist_record_def Let_def h1) (auto simp: h1_def n_def)
    ultimately show ?thesis unfolding b by (simp add: compact_rep)
  qed
qed

lemma since_split:
  assumes "\<forall>e \<in> set lg. fst e \<le> c \<longleftrightarrow> fst e < b"
  shows "log_since s lg b = (if s then count_if snd lg else count_if (\<lambda>e. \<not> snd e) lg) - cum_upto s lg c"
proof -
  have "log_since s lg b + cum_upto s lg c = (if s then count_if snd lg else count_if (\<lambda>e. \<not> snd e) lg)"
    using assms by (induction lg) (auto simp: log_since_def cum_upto_def)
  then show ?thesis by linarith
qed

lemma since_spec:
  assumes R: "hist_rep lg h"
  shows "hist_since pivot start h = (if h_hasDropped h \<and> pivot \<le> h_droppedIdx h then (0, False) else (log_since start lg pivot, True))"
proof -
  define live where "live = live_recs h"
  note R = R[unfolded hist_rep_def, folded live_def]
  define f where "f = (\<lambda>i. rec_idx (live ! i) \<ge> pivot)"
  define i where "i = sort_search (length live) f"
  have s: "sorted_wrt (<) (map rec_idx live)" using R by simp
  have lt: "rec_idx (live ! a) < rec_idx (live ! b)" if "a < b" "b < length live" for a b
    using sorted_wrt_nth_less[OF s that(1)] that by simp
  have "search_mono f (length live)"
    unfolding search_mono_def f_def using lt by (metis le_neq_implies_less less_imp_le order_trans)
  from sort_search_spec[OF this] have res: "i \<le> length live" "\<And>k. k < i \<Longrightarrow> rec_idx (live ! k) < pivot" "\<And>k. i \<le> k \<Longrightarrow> k < length live \<Longrightarrow> pivot \<le> rec_idx (live ! k)"
    unfolding i_def[symmetric] search_result_def by (auto simp: f_def not_le)
  have mem: "(h_hasDropped h \<and> fst e \<le> h_droppedIdx h) \<or> (\<exists>k < length live. fst e = rec_idx (live ! k))" if "e \<in> set lg" for e
    using R that by (metis (no_types, lifting) image_iff in_set_conv_nth)
  have dr: "h_hasDropped h \<Longrightarrow> k < length live \<Longrightarrow> h_droppedIdx h < rec_idx (live ! k)" for k
    using R by (metis nth_mem)
  have tot: "h_totS h = count_if snd lg" "h_totF h = count_if (\<lambda>e. \<not> snd e) lg" using R by simp_all
  show ?thesis
  proof (cases "i = 0")
    case False
    define r where "r = live ! (i - 1)"
    have k: "i - 1 < length live" using res(1) False by simp
    have rp: "rec_idx r < pivot" using res(2)[of "i - 1"] False by (simp add: r_def)
    have "fst e \<le> rec_idx r \<longleftrightarrow> fst e < pivot" if e: "e \<in> set lg" for e
    proof -
      have "fst e < pivot \<Longrightarrow> fst e \<le> rec_idx r"
        using mem[OF e]
      proof
        assume a: "fst e < pivot" "h_hasDropped h \<and> fst e \<le> h_droppedIdx h"
        then show ?thesis using dr[OF _ k] by (auto simp: r_def)
      next
        assume a: "fst e < pivot" "\<exists>k < length live. fst e = rec_idx (live ! k)"
        then obtain j where j: "j < length live" "fst e = rec_idx (live ! j)" by blast
        then have "j < i" using res(3)[of j] a(1) by (cases "i \<le> j") auto
        then have "j = i - 1 \<or> j < i - 1" by linarith
        then show ?thesis using less_imp_le[OF lt[OF _ k], of j] j by (auto simp: r_def)
      qed
      then show ?thesis using rp by auto
    qed
    moreover have "rec_cumS r = cum_upto True lg (rec_idx r)" "rec_cumF r = cum_upto False lg (rec_idx r)"
      using R k unfolding r_def by (metis nth_mem)+
    moreover have "\<not> (h_hasDropped h \<and> pivot \<le> h_droppedIdx h)" using dr[OF _ k] rp by (auto simp: r_def)
    ultimately show ?thesis
      using False since_split[of lg "rec_idx r" pivot start] tot by (simp add: hist_since_def Let_def live_def[symmetric] i_def[unfolded f_def, symmetric] r_def)
  next
    case True
    show ?thesis
    proof (cases "h_hasDropped h")
      case h: True
      have "fst e \<le> h_droppedIdx h \<longleftrightarrow> fst e < pivot" if e: "e \<in> set lg" "h_droppedIdx h < pivot" for e
      proof -
        have "fst e < pivot \<Longrightarrow> fst e \<le> h_droppedIdx h" using mem[OF e(1)] res(3) True by force
        then show ?thesis using e(2) by auto
      qed
      moreover have "h_baseS h = cum_upto True lg (h_droppedIdx h)" "h_baseF h = cum_upto False lg (h_droppedIdx h)" using R h by simp_all
      ultimately show ?thesis
        using True h since_split[of lg "h_droppedIdx h" pivot start] tot by (auto simp: hist_since_def Let_def live_def[symmetric] i_def[unfolded f_def, symmetric])
    next
      case h: False
      have "\<forall>e \<in> set lg. pivot \<le> fst e" using mem res(3) True h by force
      then have "log_since start lg pivot = (if start then count_if snd lg else count_if (\<lambda>e. \<not> snd e) lg)"
        unfolding log_since_def by (cases start) (auto intro!: count_if_cong)
      moreover have "h_baseS h = 0" "h_baseF h = 0" using R h by simp_all
      ultimately show ?thesis using True h tot by (simp add: hist_since_def Let_def live_def[symmetric] i_def[unfolded f_def, symmetric])
    qed
  qed
qed

section \<open>Size\<close>

definition hist_small :: "int \<Rightarrow> history \<Rightarrow> bool" where
  \<comment> \<open>the window and the backing array\<close>
  "hist_small keep h \<longleftrightarrow> (live_recs h \<noteq> [] \<longrightarrow> (\<forall>r \<in> set (live_recs h). rec_idx (last (live_recs h)) - keep \<le> rec_idx r))
     \<and> (h_from h \<le> 32 \<or> h_from h * 2 \<le> length (h_recs h))
     \<and> (h_hasDropped h \<longrightarrow> live_recs h \<noteq> [] \<and> h_droppedIdx h < rec_idx (last (live_recs h)) - keep)"

lemma sorted_int_length: "sorted_wrt (<) (xs :: int list) \<Longrightarrow> xs \<noteq> [] \<Longrightarrow> \<forall>x \<in> set xs. last xs - k \<le> x \<Longrightarrow> int (length xs) \<le> k + 1"
proof -
  assume s: "sorted_wrt (<) xs" "xs \<noteq> []" "\<forall>x \<in> set xs. last xs - k \<le> x"
  have "set xs \<subseteq> {last xs - k..last xs}"
  proof
    fix x assume x: "x \<in> set xs"
    have "xs = butlast xs @ [last xs]" using s(2) by simp
    then have "sorted_wrt (<) (butlast xs @ [last xs])" using s(1) by simp
    then have "x \<le> last xs" using x s(2) by (metis (no_types, lifting) Un_iff append_butlast_last_id empty_iff empty_set
      less_imp_le list.set_intros(1) order_refl set_ConsD set_append sorted_wrt_append)
    then show "x \<in> {last xs - k..last xs}" using s(3) x by simp
  qed
  then have "card (set xs) \<le> card {last xs - k..last xs}" by (intro card_mono) auto
  moreover have "distinct xs" using s(1) strict_sorted_iff by blast
  moreover have "0 \<le> k" using bspec[OF s(3) last_in_set[OF s(2)]] by simp
  ultimately show ?thesis by (simp add: distinct_card)
qed

lemma small_bounds:
  assumes "hist_rep lg h" "hist_small keep h" "0 \<le> keep"
  shows "int (hist_live h) \<le> keep + 1" "length (h_recs h) \<le> max (32 + hist_live h) (2 * hist_live h)"
proof -
  have s: "sorted_wrt (<) (map rec_idx (live_recs h))" "h_from h \<le> length (h_recs h)" using assms(1) by (simp_all add: hist_rep_def)
  show "int (hist_live h) \<le> keep + 1"
  proof (cases "live_recs h = []")
    case False
    have "last (map rec_idx (live_recs h)) = rec_idx (last (live_recs h))" using False by (rule last_map)
    then have "\<forall>x \<in> set (map rec_idx (live_recs h)). last (map rec_idx (live_recs h)) - keep \<le> x" using assms(2) False unfolding hist_small_def by auto
    from sorted_int_length[OF s(1) _ this] False show ?thesis by (simp add: hist_live_def)
  qed (use assms(3) in \<open>simp add: hist_live_def\<close>)
  show "length (h_recs h) \<le> max (32 + hist_live h) (2 * hist_live h)"
    using assms(2) s(2) unfolding hist_small_def hist_live_def by linarith
qed

lemma small_cong:
  assumes "map rec_idx (live_recs h') = map rec_idx (live_recs h)" "h_from h' = h_from h" "length (h_recs h') = length (h_recs h)"
    "h_hasDropped h' = h_hasDropped h" "h_droppedIdx h' = h_droppedIdx h"
  shows "hist_small keep h' = hist_small keep h"
proof -
  have e: "live_recs h' = [] \<longleftrightarrow> live_recs h = []" using arg_cong[OF assms(1), of length] by (simp add: assms)
  have l: "live_recs h \<noteq> [] \<Longrightarrow> rec_idx (last (live_recs h')) = rec_idx (last (live_recs h))"
    using arg_cong[OF assms(1), of last] e by (simp add: last_map del: last_drop)
  have "rec_idx ` set (live_recs h') = rec_idx ` set (live_recs h)" using arg_cong[OF assms(1), of set] by simp
  then have "(\<forall>r \<in> set (live_recs h'). a \<le> rec_idx r) = (\<forall>r \<in> set (live_recs h). a \<le> rec_idx r)" for a by (metis (no_types, lifting) image_iff)
  then show ?thesis unfolding hist_small_def using e l assms by (cases "live_recs h = []") simp_all
qed

lemma record_small:
  assumes R: "hist_rep lg h" and S: "hist_small keep h" and keep: "0 \<le> keep"
  shows "hist_small keep (hist_record idx start keep h)"
proof -
  define h1 where "h1 = (if start then h\<lparr>h_totS := h_totS h + 1\<rparr> else h\<lparr>h_totF := h_totF h + 1\<rparr>)"
  define n where "n = length (h_recs h)"
  have f: "h_recs h1 = h_recs h" "h_from h1 = h_from h" "h_hasDropped h1 = h_hasDropped h" "h_droppedIdx h1 = h_droppedIdx h" by (simp_all add: h1_def)
  note def = hist_record_def[of idx start keep h, folded h1_def, unfolded Let_def f, folded n_def]
  note R' = record_rep[OF R keep, of idx start]
  show ?thesis
  proof (cases "n > h_from h \<and> idx \<le> rec_idx (h_recs h ! (n - 1))")
    case True
    let ?y = "(h_recs h ! (n - 1))\<lparr>rec_cumS := h_totS h1, rec_cumF := h_totF h1\<rparr>"
    have "map rec_idx ((h_recs h)[n - 1 := ?y]) = map rec_idx (h_recs h)"
      using True by (intro nth_equalityI) (auto simp: nth_list_update n_def)
    then have "map rec_idx (drop (h_from h) ((h_recs h)[n - 1 := ?y])) = map rec_idx (live_recs h)" by (simp add: drop_map[symmetric])
    then show ?thesis using True S unfolding def by (subst small_cong[of _ h]) (simp_all add: f)
  next
    case False
    let ?h = "h1\<lparr>h_recs := h_recs h @ [\<lparr>rec_idx = idx, rec_cumS = h_totS h1, rec_cumF = h_totF h1\<rparr>]\<rparr>"
    define ht where "ht = hist_trim (idx - keep) ?h"
    have e: "hist_record idx start keep h = hist_compact ht" unfolding def ht_def using False by (rule if_not_P)
    have fr: "h_from h \<le> length (h_recs h)" using R by (simp add: hist_rep_def)
    have ne: "lg = [] \<longleftrightarrow> live_recs h = []" using R unfolding hist_rep_def by metis
    have last: "lg \<noteq> [] \<Longrightarrow> rec_idx (last (live_recs h)) = fst (last lg)" using R unfolding hist_rep_def by metis
    have new: "lg = [] \<or> fst (last lg) < idx"
      using False ne last by (cases "lg = []") (auto simp: n_def last_conv_nth)
    have H: "hist_rep (lg @ [(idx, start)]) ?h" using append_rep[OF R new refl, of start] by (simp add: h1_def split: if_splits)
    have lv: "live_recs ?h = live_recs h @ [\<lparr>rec_idx = idx, rec_cumS = h_totS h1, rec_cumF = h_totF h1\<rparr>]" using fr by (simp add: f)
    have T: "hist_rep (lg @ [(idx, start)]) ht" "h_hasDropped ht \<longrightarrow> h_hasDropped ?h \<and> h_droppedIdx ht = h_droppedIdx ?h \<or> h_droppedIdx ht < idx - keep"
      "\<forall>r \<in> set (live_recs ht). idx - keep \<le> rec_idx r"
      using trim_rep[OF H, of "idx - keep", folded ht_def] keep unfolding lv by auto
    have l: "live_recs ht \<noteq> []" "rec_idx (last (live_recs ht)) = idx" "h_from ht \<le> length (h_recs ht)" using T(1) unfolding hist_rep_def by force+
    have d: "h_hasDropped h \<Longrightarrow> h_droppedIdx h < idx - keep" using S new ne last unfolding hist_small_def by (cases "lg = []") auto
    have c: "live_recs (hist_compact ht) = live_recs ht" using compact_live[OF l(3)] by simp
    have "h_from (hist_compact ht) \<le> 32 \<or> h_from (hist_compact ht) * 2 \<le> length (h_recs (hist_compact ht))" by (auto simp: hist_compact_def)
    then show ?thesis unfolding e hist_small_def c using T l d by (auto simp: f)
  qed
qed

definition hist_run :: "int \<Rightarrow> (int \<times> bool) list \<Rightarrow> history" where
  "hist_run keep xs = foldl (\<lambda>h (idx, start). hist_record idx start keep h) history_zero xs"

definition log_run :: "(int \<times> bool) list \<Rightarrow> event_log" where
  "log_run xs = foldl (\<lambda>lg (idx, start). lg @ [(log_bucket lg idx, start)]) [] xs"

lemma run_rep: "0 \<le> keep \<Longrightarrow> hist_rep (log_run xs) (hist_run keep xs) \<and> hist_small keep (hist_run keep xs)"
proof (induction xs rule: rev_induct)
  case Nil
  show ?case by (simp add: hist_run_def log_run_def hist_rep_zero) (simp add: hist_small_def history_zero_def)
next
  case (snoc x xs)
  then show ?case using record_rep[of "log_run xs" "hist_run keep xs" keep] record_small[of "log_run xs" "hist_run keep xs" keep]
    by (simp add: hist_run_def log_run_def case_prod_beta)
qed

text \<open>C16: the trimmed, compacted history answers as the full log of events would. For every sequence of starts and finishes, even with a
  clock that steps back, the number of starts (or finishes) it reports since a bucket is the number in the log; it declines to answer only for
  buckets more than the window before the last event. Its memory is bounded by the window, whatever the number of events.\<close>

theorem history_answers_as_log:
  assumes keep: "0 \<le> keep"
  shows "(case hist_since pivot start (hist_run keep xs) of (n, ok) \<Rightarrow>
        (ok \<longrightarrow> n = log_since start (log_run xs) pivot)
      \<and> (xs = [] \<or> fst (last (log_run xs)) - keep \<le> pivot \<longrightarrow> ok))
    \<and> int (hist_live (hist_run keep xs)) \<le> keep + 1
    \<and> int (length (h_recs (hist_run keep xs))) \<le> max (keep + 33) (2 * keep + 2)"
proof -
  note R = conjunct1[OF run_rep[OF keep, of xs]] and S = conjunct2[OF run_rep[OF keep, of xs]]
  have "h_hasDropped (hist_run keep xs) \<Longrightarrow> h_droppedIdx (hist_run keep xs) < fst (last (log_run xs)) - keep \<and> xs \<noteq> []"
    using R S unfolding hist_rep_def hist_small_def by (cases "log_run xs = []") (auto simp: log_run_def)
  moreover have "int (length (h_recs (hist_run keep xs))) \<le> max (keep + 33) (2 * keep + 2)" using small_bounds[OF R S keep] by linarith
  ultimately show ?thesis using small_bounds(1)[OF R S keep] unfolding since_spec[OF R] by auto
qed

theorem history_answers_as_log_witness: "hist_since 5 True (hist_run 3 [(4, True), (5, True), (3, False), (6, True)]) = (2, True)"
proof -
  have l: "log_run [(4, True), (5, True), (3, False), (6, True)] = [(4, True), (5, True), (5, False), (6, True)]" by (simp add: log_run_def log_bucket_def)
  from history_answers_as_log[of 3, where pivot = 5 and start = True and xs = "[(4, True), (5, True), (3, False), (6, True)]"] show ?thesis
    unfolding l by (auto simp: log_since_def split: prod.splits)
qed

end
