(* ===== verification/Tracker.thy ===== *)
theory Tracker
  imports History Protocol
begin

text \<open>
  \<^verbatim>\<open>internal/scheduler/signals\<close>: the ledger of requests this gateway has in flight on each worker, the correction of a worker's report by
  the starts and finishes since it was made (\<^verbatim>\<open>tracker.go\<close>), and the capacity estimates (\<^verbatim>\<open>capacity.go\<close>). The
  clock readings are arguments; \<^verbatim>\<open>math.Exp2\<close>, which the decay uses, is an argument too, since the library promises no exact result for it.
\<close>

unbundle bit_operations_syntax

section \<open>Types\<close>

record sig_config =
  sg_Bucket :: duration
  sg_Window :: duration
  sg_MaxWorkers :: int
  sg_MaxModels :: int
  sg_CapacityHalflife :: duration
  sg_CapacityFloor :: float64

definition DefaultBucket :: duration where "DefaultBucket = 100 * millisecond"
definition DefaultMaxWorkers :: int where "DefaultMaxWorkers = 4096"
definition DefaultMaxModels :: int where "DefaultMaxModels = 1024"
definition DefaultCapacityHalflife :: duration where "DefaultCapacityHalflife = 60 * second"
definition DefaultCapacityFloor :: float64 where "DefaultCapacityFloor = flit (1 / 4)"
definition maxCount :: int where "maxCount = 2 ^ 31 - 1"
definition maxReportAge :: float64 where "maxReportAge = Fin 1000000"
definition maxTPS :: float64 where "maxTPS = Fin 10000000"
definition minTPS :: float64 where "minTPS = flit (1 / 1000)"
definition peerClamp :: float64 where "peerClamp = Fin 10"
definition costAlpha :: float64 where "costAlpha = flit (1 / 10)"
definition finishLag :: int where "finishLag = 0"

record sig_key =
  sk_WorkerID :: string
  sk_Registered :: int

definition sig_KeyOf :: "worker_snapshot \<Rightarrow> sig_key" where
  "sig_KeyOf w = \<lparr>sk_WorkerID = WorkerID w, sk_Registered = RegisteredAt w\<rparr>"

record sig_token =
  tk_key :: sig_key
  tk_gen :: nat

definition zero_token :: sig_token where
  "zero_token = \<lparr>tk_key = \<lparr>sk_WorkerID = [], sk_Registered = 0\<rparr>, tk_gen = 0\<rparr>"

definition Token_Valid :: "sig_token \<Rightarrow> bool" where
  "Token_Valid t \<longleftrightarrow> tk_gen t \<noteq> 0"

datatype fallback = FallbackNone | FallbackUntracked | FallbackHistory

record sig_input =
  in_Key :: sig_key
  in_Local :: int
  in_Reported :: int
  in_At :: time

record sig_result =
  rs_Active :: int
  rs_Inflight :: int
  rs_Work :: int
  rs_Fallback :: fallback
  rs_Capacity :: float64
  rs_CapacityPrior :: bool

definition Result_Observed :: "sig_result \<Rightarrow> observed_load" where
  "Result_Observed r = observed_zero\<lparr>InflightRequests := rs_Inflight r, WorkAheadTokens := float_of (rs_Work r), EffectiveActive := rs_Active r,
     Flags := (if rs_Fallback r \<noteq> FallbackNone then ObservedColdStart else 0)\<rparr>"

record observation =
  ob_Key :: sig_key
  ob_LastHeartbeat :: time
  ob_Model :: string
  ob_ReportedActive :: int
  ob_ReportedTPS :: float64
  ob_Fresh :: bool

record sig_stats =
  st_Tracked :: int
  st_Untracked :: nat
  st_Resets :: nat
  st_Pruned :: nat
  st_FallbackUntracked :: nat
  st_FallbackHistory :: nat

record sig_entry =
  te_gen :: nat
  te_inflight :: int
  te_work :: int
  te_validFrom :: time
  te_lastHB :: time
  te_hist :: history
  te_model :: string
  te_hasPeak :: bool
  te_peak :: float64
  te_peakAt :: time
  te_capHB :: time
  te_capR :: float64
  te_capPrior :: bool

definition sig_new_entry :: "nat \<Rightarrow> time \<Rightarrow> sig_entry" where
  "sig_new_entry gen now = \<lparr>te_gen = gen, te_inflight = 0, te_work = 0, te_validFrom = now, te_lastHB = zero_time, te_hist = history_zero, te_model = [],
     te_hasPeak = False, te_peak = Fin 0, te_peakAt = zero_time, te_capHB = zero_time, te_capR = Fin 0, te_capPrior = False\<rparr>"

record tracker =
  tr_cfg :: sig_config
  tr_epoch :: "time option" \<comment> \<open>\<^verbatim>\<open>epoch\<close> and \<^verbatim>\<open>hasEp\<close>\<close>
  tr_entries :: "(sig_key, sig_entry) gomap"
  tr_nextGen :: nat
  tr_stats :: sig_stats
  tr_meanCost :: "(string, float64) gomap"

definition NewTracker :: "sig_config \<Rightarrow> tracker" where
  "NewTracker cfg0 =
     (let cfg1 = (if sg_Bucket cfg0 \<le> 0 then cfg0\<lparr>sg_Bucket := DefaultBucket\<rparr> else cfg0);
          cfg2 = (if sg_MaxWorkers cfg1 \<le> 0 then cfg1\<lparr>sg_MaxWorkers := DefaultMaxWorkers\<rparr> else cfg1);
          cfg3 = (if sg_Window cfg2 < 2 * sg_Bucket cfg2 then cfg2\<lparr>sg_Window := 2 * sg_Bucket cfg2\<rparr> else cfg2);
          cfg4 = (if sg_MaxModels cfg3 \<le> 0 then cfg3\<lparr>sg_MaxModels := DefaultMaxModels\<rparr> else cfg3);
          cfg5 = (if sg_CapacityHalflife cfg4 \<le> 0 then cfg4\<lparr>sg_CapacityHalflife := DefaultCapacityHalflife\<rparr> else cfg4);
          cfg6 = (if \<not> (flt (Fin 0) (sg_CapacityFloor cfg5) \<and> fle (sg_CapacityFloor cfg5) (Fin 1))
                  then cfg5\<lparr>sg_CapacityFloor := DefaultCapacityFloor\<rparr> else cfg5)
      in \<lparr>tr_cfg = cfg6, tr_epoch = None, tr_entries = [], tr_nextGen = 0,
          tr_stats = \<lparr>st_Tracked = 0, st_Untracked = 0, st_Resets = 0, st_Pruned = 0, st_FallbackUntracked = 0, st_FallbackHistory = 0\<rparr>, tr_meanCost = []\<rparr>)"

definition ReportTime :: "time \<Rightarrow> float64 \<Rightarrow> time" where
  "ReportTime now age =
     (if \<not> flt (Fin 0) age then now
      else let a = (if flt maxReportAge age then maxReportAge else age) in now - trunc_of (fmul a (Fin 1000000000)))"

section \<open>Buckets\<close>

definition setEpoch :: "time \<Rightarrow> tracker \<Rightarrow> tracker" where
  "setEpoch now t = (case tr_epoch t of None \<Rightarrow> t\<lparr>tr_epoch := Some now\<rparr> | Some _ \<Rightarrow> t)"

definition epoch_of :: "tracker \<Rightarrow> time" where
  "epoch_of t = (case tr_epoch t of None \<Rightarrow> zero_time | Some e \<Rightarrow> e)"

definition tr_bucket :: "tracker \<Rightarrow> time \<Rightarrow> int" where
  "tr_bucket t x =
     (let d = x - epoch_of t; b = go_div d (sg_Bucket (tr_cfg t))
      in if d < 0 \<and> go_mod d (sg_Bucket (tr_cfg t)) \<noteq> 0 then b - 1 else b)"

definition tr_window :: "tracker \<Rightarrow> int" where
  "tr_window t = go_div (sg_Window (tr_cfg t)) (sg_Bucket (tr_cfg t)) + 2"

definition clampCount :: "int \<Rightarrow> int" where
  "clampCount n = min (max n 0) maxCount"

section \<open>The ledger\<close>

definition tr_create :: "sig_key \<Rightarrow> time \<Rightarrow> tracker \<Rightarrow> tracker" where
  "tr_create k now t =
     (if int (length (tr_entries t)) \<ge> sg_MaxWorkers (tr_cfg t) then t\<lparr>tr_stats := (tr_stats t)\<lparr>st_Untracked := st_Untracked (tr_stats t) + 1\<rparr>\<rparr>
      else t\<lparr>tr_nextGen := tr_nextGen t + 1, tr_entries := mput k (sig_new_entry (tr_nextGen t + 1) now) (tr_entries t)\<rparr>)"

definition tr_ensure :: "sig_key \<Rightarrow> time \<Rightarrow> tracker \<Rightarrow> tracker" where
  \<comment> \<open>the lookup that creates a missing entry\<close>
  "tr_ensure k now t = (case mget (tr_entries t) k of None \<Rightarrow> tr_create k now t | Some _ \<Rightarrow> t)"

definition tr_Begin :: "time \<Rightarrow> sig_key \<Rightarrow> tracker \<Rightarrow> tracker \<times> sig_token" where
  "tr_Begin now k t0 =
     (let t = tr_ensure k now (setEpoch now t0) in
      case mget (tr_entries t) k of
        None \<Rightarrow> (t, zero_token)
      | Some e \<Rightarrow>
          (t\<lparr>tr_entries := mput k (e\<lparr>te_inflight := te_inflight e + 1, te_hist := hist_record (tr_bucket t now) True (tr_window t) (te_hist e)\<rparr>) (tr_entries t)\<rparr>,
           \<lparr>tk_key = k, tk_gen = te_gen e\<rparr>))"

definition tr_AddCost :: "sig_token \<Rightarrow> int \<Rightarrow> tracker \<Rightarrow> tracker \<times> bool" where
  "tr_AddCost tok cost t =
     (if \<not> Token_Valid tok \<or> cost \<le> 0 then (t, False)
      else case mget (tr_entries t) (tk_key tok) of
        None \<Rightarrow> (t, False)
      | Some e \<Rightarrow> if te_gen e \<noteq> tk_gen tok then (t, False)
                 else (t\<lparr>tr_entries := mput (tk_key tok) (e\<lparr>te_work := te_work e + cost\<rparr>) (tr_entries t)\<rparr>, True))"

definition tr_End :: "time \<Rightarrow> sig_token \<Rightarrow> int \<Rightarrow> tracker \<Rightarrow> tracker" where
  "tr_End now tok cost t0 =
     (if \<not> Token_Valid tok then t0
      else let t = setEpoch now t0 in
        case mget (tr_entries t) (tk_key tok) of
          None \<Rightarrow> t
        | Some e \<Rightarrow>
            if te_gen e \<noteq> tk_gen tok then t
            else let e1 = (if te_inflight e > 0 then e\<lparr>te_inflight := te_inflight e - 1\<rparr> else e);
                     w = te_work e1 - cost;
                     e2 = (if cost > 0 then e1\<lparr>te_work := (if w < 0 then 0 else w)\<rparr> else e1);
                     e3 = e2\<lparr>te_hist := hist_record (tr_bucket t now) False (tr_window t) (te_hist e2)\<rparr>
                 in t\<lparr>tr_entries := mput (tk_key tok) e3 (tr_entries t)\<rparr>)"

definition tr_Ledger :: "sig_key \<Rightarrow> tracker \<Rightarrow> int \<times> int" where
  "tr_Ledger k t = (case mget (tr_entries t) k of Some e \<Rightarrow> (te_inflight e, te_work e) | None \<Rightarrow> (0, 0))"

definition tr_Totals :: "tracker \<Rightarrow> int \<times> int" where
  "tr_Totals t = foldl (\<lambda>(i, w) (_, e). (i + te_inflight e, w + te_work e)) (0, 0) (tr_entries t)"

definition tr_Stats :: "tracker \<Rightarrow> sig_stats" where
  "tr_Stats t = (tr_stats t)\<lparr>st_Tracked := int (length (tr_entries t))\<rparr>"

definition HistoryRecords :: "tracker \<Rightarrow> nat" where
  "HistoryRecords t = foldl (\<lambda>n (_, e). n + hist_live (te_hist e)) 0 (tr_entries t)"

section \<open>The overlay\<close>

definition overlayLocked :: "time \<Rightarrow> sig_input \<Rightarrow> tracker \<Rightarrow> tracker \<times> sig_result" where
  "overlayLocked now inp t0 =
     (let t = setEpoch now t0;
          local = clampCount (in_Local inp); reported = clampCount (in_Reported inp);
          res0 = \<lparr>rs_Active = max local reported, rs_Inflight = 0, rs_Work = 0, rs_Fallback = FallbackNone, rs_Capacity = Fin 0, rs_CapacityPrior = False\<rparr>
      in case mget (tr_entries t) (in_Key inp) of
           None \<Rightarrow> (t\<lparr>tr_stats := (tr_stats t)\<lparr>st_FallbackUntracked := st_FallbackUntracked (tr_stats t) + 1\<rparr>\<rparr>,
                    res0\<lparr>rs_Fallback := FallbackUntracked, rs_CapacityPrior := True\<rparr>)
         | Some e \<Rightarrow>
             let res = res0\<lparr>rs_Inflight := te_inflight e, rs_Work := te_work e, rs_Capacity := te_capR e, rs_CapacityPrior := te_capPrior e \<or> fle (te_capR e) (Fin 0)\<rparr>;
                 at' = (if in_At inp > now then now else in_At inp);
                 miss = (t\<lparr>tr_stats := (tr_stats t)\<lparr>st_FallbackHistory := st_FallbackHistory (tr_stats t) + 1\<rparr>\<rparr>, res\<lparr>rs_Fallback := FallbackHistory\<rparr>)
             in if at' < te_validFrom e \<or> now - at' > sg_Window (tr_cfg t) then miss
                else let b = tr_bucket t at';
                         (started, ok) = hist_since b True (te_hist e);
                         (finished, _) = hist_since (b + finishLag) False (te_hist e)
                     in if \<not> ok then miss
                        else let eff = reported + int started - int finished
                             in (t, res\<lparr>rs_Active := min (max eff local) maxCount\<rparr>))"

definition tr_Overlay :: "time \<Rightarrow> sig_input \<Rightarrow> tracker \<Rightarrow> tracker \<times> sig_result" where
  "tr_Overlay now inp t = overlayLocked now inp t"

section \<open>Capacity\<close>

definition tr_sample :: "observation \<Rightarrow> time \<Rightarrow> sig_entry \<Rightarrow> sig_entry" where
  "tr_sample m now e =
     (if \<not> ob_Fresh m \<or> ob_ReportedActive m < 1 \<or> ob_LastHeartbeat m = zero_time \<or> ob_LastHeartbeat m = te_capHB e then e
      else let e1 = e\<lparr>te_capHB := ob_LastHeartbeat m\<rparr>; v = ob_ReportedTPS m in
        if \<not> fle minTPS v \<or> is_inf v then e1
        else let v1 = fmin v maxTPS;
                 v2 = (if te_hasPeak e1 \<and> flt v1 (te_capR e1) then te_capR e1 else v1)
             in e1\<lparr>te_peak := v2, te_peakAt := now, te_hasPeak := True\<rparr>)"

definition median :: "float64 list \<Rightarrow> float64" where
  "median v =
     (let s = sort v; n = length s
      in if n mod 2 = 1 then s ! (n div 2) else fdiv (fadd (s ! (n div 2 - 1)) (s ! (n div 2))) (Fin 2))"

definition medianWithout :: "float64 list \<Rightarrow> nat \<Rightarrow> float64" where
  "medianWithout srt i =
     (let at' = (\<lambda>k. srt ! (if k \<ge> i then k + 1 else k)); m = length srt - 1
      in if m mod 2 = 1 then at' (m div 2) else fdiv (fadd (at' (m div 2 - 1)) (at' (m div 2))) (Fin 2))"

definition clamp_peak :: "float64 list \<Rightarrow> float64 \<Rightarrow> float64" where
  \<comment> \<open>the loop body of \<^verbatim>\<open>clampToPeers\<close>, on the sorted peaks\<close>
  "clamp_peak srt peak =
     (let i = sort_search (length srt) (\<lambda>i. fle peak (srt ! i));
          bound = fmul peerClamp (medianWithout srt i)
      in if flt bound peak then bound else peak)"

definition clampToPeers :: "float64 list \<Rightarrow> sig_entry list \<Rightarrow> sig_entry list" where
  "clampToPeers peaks es =
     (if length peaks < 2 then es
      else let srt = sort peaks
           in map (\<lambda>e. if te_hasPeak e then e\<lparr>te_peak := clamp_peak srt (te_peak e)\<rparr> else e) es)"

definition decay :: "(float64 \<Rightarrow> float64) \<Rightarrow> sig_config \<Rightarrow> float64 \<Rightarrow> float64 \<Rightarrow> duration \<Rightarrow> float64" where
  "decay exp2 cfg peak target elapsed0 =
     (let elapsed = (if elapsed0 < 0 then 0 else elapsed0);
          f = exp2 (fdiv (fneg (duration_seconds elapsed)) (duration_seconds (sg_CapacityHalflife cfg)))
      in fmax (fadd target (fmul (fsub peak target) f)) (fmul (sg_CapacityFloor cfg) target))"

definition peaks_of :: "sig_entry list \<Rightarrow> float64 list" where
  "peaks_of es = map te_peak (filter te_hasPeak es)"

definition recompute_fleet :: "(float64 \<Rightarrow> float64) \<Rightarrow> sig_config \<Rightarrow> time \<Rightarrow> sig_entry list \<Rightarrow> sig_entry list" where
  \<comment> \<open>the loop body of \<^verbatim>\<open>recomputeCapacity\<close>, on the workers of one model\<close>
  "recompute_fleet exp2 cfg now es =
     (let peaks = peaks_of es in
      if peaks = [] then es
      else let es1 = clampToPeers peaks es;
               target = median (peaks_of es1);
               es2 = map (\<lambda>e. if te_hasPeak e then e\<lparr>te_capR := decay exp2 cfg (te_peak e) target (now - te_peakAt e), te_capPrior := False\<rparr> else e) es1;
               prior = median (map te_capR (filter te_hasPeak es2))
           in map (\<lambda>e. if \<not> te_hasPeak e then e\<lparr>te_capR := prior\<rparr> else e) es2)"

definition replace_model :: "string \<Rightarrow> sig_entry list \<Rightarrow> (sig_key, sig_entry) gomap \<Rightarrow> (sig_key, sig_entry) gomap" where
  \<comment> \<open>the entries are shared by pointer: those of the model are written back in place\<close>
  "replace_model model es m = fst (foldl (\<lambda>(acc, rest) (k, e). if te_model e = model then (acc @ [(k, hd rest)], tl rest) else (acc @ [(k, e)], rest)) ([], es) m)"

definition recomputeCapacity :: "(float64 \<Rightarrow> float64) \<Rightarrow> time \<Rightarrow> tracker \<Rightarrow> tracker" where
  "recomputeCapacity exp2 now t =
     (let es0 = map (\<lambda>(k, e). (k, e\<lparr>te_capR := Fin 0, te_capPrior := True\<rparr>)) (tr_entries t);
          models = remdups (filter (\<lambda>m. m \<noteq> []) (map (\<lambda>(_, e). te_model e) es0))
      in t\<lparr>tr_entries := foldl (\<lambda>m model.
             replace_model model (recompute_fleet exp2 (tr_cfg t) now (map snd (filter (\<lambda>(_, e). te_model e = model) m))) m) es0 models\<rparr>)"

definition pruneModels :: "tracker \<Rightarrow> tracker" where
  "pruneModels t =
     (if tr_meanCost t = [] then t
      else let live = (\<lambda>(_, e). te_model e) ` set (tr_entries t)
           in t\<lparr>tr_meanCost := filter (\<lambda>(m, _). m \<in> live) (tr_meanCost t)\<rparr>)"

definition ObserveCost :: "string \<Rightarrow> int \<Rightarrow> tracker \<Rightarrow> tracker" where
  "ObserveCost model cost t =
     (if cost \<le> 0 then t
      else case mget (tr_meanCost t) model of
        Some m \<Rightarrow> t\<lparr>tr_meanCost := mput model (fadd m (fmul costAlpha (fsub (float_of cost) m))) (tr_meanCost t)\<rparr>
      | None \<Rightarrow> if int (length (tr_meanCost t)) < sg_MaxModels (tr_cfg t) then t\<lparr>tr_meanCost := mput model (float_of cost) (tr_meanCost t)\<rparr> else t)"

section \<open>Sync\<close>

definition sync_entry :: "time \<Rightarrow> observation \<Rightarrow> sig_entry \<Rightarrow> sig_entry" where
  "sync_entry now m e =
     (let e1 = (if ob_LastHeartbeat m \<noteq> zero_time \<and> te_lastHB e \<noteq> zero_time \<and> ob_LastHeartbeat m < te_lastHB e
                then e\<lparr>te_hist := hist_reset (te_hist e), te_validFrom := now\<rparr> else e)
      in tr_sample m now (e1\<lparr>te_lastHB := ob_LastHeartbeat m, te_model := ob_Model m\<rparr>))"

definition sync_one :: "time \<Rightarrow> tracker \<Rightarrow> observation \<Rightarrow> tracker" where
  "sync_one now t0 m =
     (let t = tr_ensure (ob_Key m) now t0 in
      case mget (tr_entries t) (ob_Key m) of
        None \<Rightarrow> t
      | Some e \<Rightarrow>
          let t1 = (if ob_LastHeartbeat m \<noteq> zero_time \<and> te_lastHB e \<noteq> zero_time \<and> ob_LastHeartbeat m < te_lastHB e
                    then t\<lparr>tr_stats := (tr_stats t)\<lparr>st_Resets := st_Resets (tr_stats t) + 1\<rparr>\<rparr> else t)
          in t1\<lparr>tr_entries := mput (ob_Key m) (sync_entry now m e) (tr_entries t1)\<rparr>)"

definition tr_Sync :: "(float64 \<Rightarrow> float64) \<Rightarrow> time \<Rightarrow> observation list \<Rightarrow> tracker \<Rightarrow> tracker" where
  "tr_Sync exp2 now members t0 =
     (let t1 = foldl (sync_one now) (setEpoch now t0) members;
          seen = ob_Key ` set members;
          gone = filter (\<lambda>(k, _). k \<notin> seen) (tr_entries t1);
          t2 = t1\<lparr>tr_entries := filter (\<lambda>(k, _). k \<in> seen) (tr_entries t1),
                  tr_stats := (tr_stats t1)\<lparr>st_Pruned := st_Pruned (tr_stats t1) + length gone\<rparr>\<rparr>
      in recomputeCapacity exp2 now (pruneModels t2))"

record load_input =
  lo_Input :: sig_input
  lo_Model :: string
  lo_QueuedTokens :: int
  lo_Cost :: int
  lo_InputWeight :: float64

definition tr_Load :: "time \<Rightarrow> load_input \<Rightarrow> tracker \<Rightarrow> tracker \<times> observed_load" where
  "tr_Load now inp t0 =
     (let (t, res) = overlayLocked now (lo_Input inp) t0;
          mean = (case mget (tr_meanCost t) (lo_Model inp) of Some m \<Rightarrow> m | None \<Rightarrow> float_of (max (lo_Cost inp) 0));
          foreign = max (rs_Active res - clampCount (in_Local (lo_Input inp))) 0;
          queued = float_of (min (max (lo_QueuedTokens inp) 0) maxCount);
          iw = (if \<not> fle (Fin 0) (lo_InputWeight inp) \<or> is_inf (lo_InputWeight inp) then Fin 1 else lo_InputWeight inp);
          ob = Result_Observed res;
          w = fadd (WorkAheadTokens ob) (fadd (fmul (float_of foreign) mean) (fmul queued (fmin iw (Fin 10000))));
          fl = Flags ob OR ObservedLedger;
          fl1 = (if rs_Fallback res = FallbackUntracked then fl OR ObservedUntracked else fl);
          fl2 = (if rs_CapacityPrior res then fl1 OR ObservedPriorCapacity else fl1)
      in (t, ob\<lparr>WorkAheadTokens := w, CapacityTPS := rs_Capacity res, Flags := fl2\<rparr>))"

definition tr_Capacity :: "sig_key \<Rightarrow> tracker \<Rightarrow> float64 \<times> bool" where
  "tr_Capacity k t = (case mget (tr_entries t) k of Some e \<Rightarrow> (te_capR e, te_capPrior e \<or> fle (te_capR e) (Fin 0)) | None \<Rightarrow> (Fin 0, True))"

definition tr_MeanCost :: "string \<Rightarrow> tracker \<Rightarrow> float64 \<times> bool" where
  "tr_MeanCost model t = (case mget (tr_meanCost t) model of Some m \<Rightarrow> (m, True) | None \<Rightarrow> (Fin 0, False))"

end
