(* ===== verification/Tracker_Inv.thy ===== *)
theory Tracker_Inv
  imports Tracker
begin

text \<open>
  What the tracker of \<^verbatim>\<open>internal/scheduler/signals\<close> promises in every history of calls: the ledger is exactly the requests that hold a
  token, and the overlay is the report corrected by the starts and finishes since it was made.
\<close>

section \<open>Histories of calls\<close>

datatype tracker_event =
    EvBegin time sig_key
  | EvAddCost nat int      \<comment> \<open>by the holder of the token of this index\<close>
  | EvEnd time nat
  | EvSync time "observation list"
  | EvOverlay time sig_input
  | EvObserve string int

record tracker_run =
  tu_t :: tracker
  tu_open :: "(sig_token \<times> int) list" \<comment> \<open>the tokens not yet ended, with the cost their holder owes\<close>
  tu_log :: "sig_key \<Rightarrow> event_log"      \<comment> \<open>the events of the worker's entry since it was created or reset\<close>

definition is_reset :: "observation \<Rightarrow> sig_entry \<Rightarrow> bool" where
  "is_reset m e \<longleftrightarrow> ob_LastHeartbeat m \<noteq> zero_time \<and> te_lastHB e \<noteq> zero_time \<and> ob_LastHeartbeat m < te_lastHB e"

definition sync_log :: "time \<Rightarrow> tracker \<times> (sig_key \<Rightarrow> event_log) \<Rightarrow> observation \<Rightarrow> tracker \<times> (sig_key \<Rightarrow> event_log)" where
  "sync_log now = (\<lambda>(t, lg) m. (sync_one now t m,
     case mget (tr_entries t) (ob_Key m) of None \<Rightarrow> lg(ob_Key m := []) | Some e \<Rightarrow> if is_reset m e then lg(ob_Key m := []) else lg))"

definition log_add :: "sig_key \<Rightarrow> int \<Rightarrow> bool \<Rightarrow> (sig_key \<Rightarrow> event_log) \<Rightarrow> sig_key \<Rightarrow> event_log" where
  "log_add k b s lg = lg(k := lg k @ [(log_bucket (lg k) b, s)])"

primrec tracker_step :: "(float64 \<Rightarrow> float64) \<Rightarrow> tracker_event \<Rightarrow> tracker_run \<Rightarrow> tracker_run" where
  "tracker_step exp2 (EvBegin now k) s =
     (let (t, tok) = tr_Begin now k (tu_t s);
          lg = (if mget (tr_entries (tu_t s)) k = None then (tu_log s)(k := []) else tu_log s)
      in if Token_Valid tok then s\<lparr>tu_t := t, tu_open := tu_open s @ [(tok, 0)], tu_log := log_add k (tr_bucket t now) True lg\<rparr> else s\<lparr>tu_t := t\<rparr>)"
| "tracker_step exp2 (EvAddCost i cost) s =
     (if i < length (tu_open s)
      then let (t, ok) = tr_AddCost (fst (tu_open s ! i)) cost (tu_t s)
           in s\<lparr>tu_t := t, tu_open := (if ok then (tu_open s)[i := (fst (tu_open s ! i), snd (tu_open s ! i) + cost)] else tu_open s)\<rparr>
      else s)"
| "tracker_step exp2 (EvEnd now i) s =
     (if i < length (tu_open s)
      then let (tok, cost) = tu_open s ! i; t = tr_End now tok cost (tu_t s); k = tk_key tok
           in s\<lparr>tu_t := t, tu_open := take i (tu_open s) @ drop (Suc i) (tu_open s),
                tu_log := (case mget (tr_entries (tu_t s)) k of
                   Some e \<Rightarrow> if te_gen e = tk_gen tok then log_add k (tr_bucket t now) False (tu_log s) else tu_log s
                 | None \<Rightarrow> tu_log s)\<rparr>
      else s)"
| "tracker_step exp2 (EvSync now ms) s = s\<lparr>tu_t := tr_Sync exp2 now ms (tu_t s), tu_log := snd (foldl (sync_log now) (setEpoch now (tu_t s), tu_log s) ms)\<rparr>"
| "tracker_step exp2 (EvOverlay now inp) s = s\<lparr>tu_t := fst (tr_Overlay now inp (tu_t s))\<rparr>"
| "tracker_step exp2 (EvObserve model cost) s = s\<lparr>tu_t := ObserveCost model cost (tu_t s)\<rparr>"

definition tracker_history :: "(float64 \<Rightarrow> float64) \<Rightarrow> sig_config \<Rightarrow> tracker_event list \<Rightarrow> tracker_run" where
  "tracker_history exp2 cfg xs = foldl (\<lambda>s x. tracker_step exp2 x s) \<lparr>tu_t = NewTracker cfg, tu_open = [], tu_log = (\<lambda>_. [])\<rparr> xs"

section \<open>The invariant\<close>

type_synonym entry_core = "nat \<times> int \<times> int \<times> history" \<comment> \<open>generation, in flight, work, history\<close>

definition te_core :: "sig_entry \<Rightarrow> entry_core" where
  "te_core e = (te_gen e, te_inflight e, te_work e, te_hist e)"

definition owed :: "(sig_token \<times> int) list \<Rightarrow> sig_key \<Rightarrow> nat \<Rightarrow> (sig_token \<times> int) list" where
  "owed os k g = filter (\<lambda>(tok, _). tk_key tok = k \<and> tk_gen tok = g) os"

definition core_ok :: "int \<Rightarrow> (sig_token \<times> int) list \<Rightarrow> event_log \<Rightarrow> nat \<Rightarrow> sig_key \<Rightarrow> entry_core \<Rightarrow> bool" where
  "core_ok keep os lg next k = (\<lambda>(g, inflight, work, h). 0 < g \<and> g \<le> next \<and> hist_rep lg h \<and> hist_small keep h
     \<and> inflight = int (length (owed os k g)) \<and> work = sum_list (map snd (owed os k g)))"

definition tracker_cfg_ok :: "sig_config \<Rightarrow> bool" where
  "tracker_cfg_ok cfg \<longleftrightarrow> 0 < sg_Bucket cfg \<and> 2 * sg_Bucket cfg \<le> sg_Window cfg \<and> 0 < sg_MaxWorkers cfg \<and> 0 < sg_MaxModels cfg"

definition open_ok :: "nat \<Rightarrow> (sig_token \<times> int) list \<Rightarrow> bool" where
  "open_ok next os \<longleftrightarrow> (\<forall>(tok, c) \<in> set os. 0 < tk_gen tok \<and> tk_gen tok \<le> next \<and> 0 \<le> c)"

definition tracker_inv :: "tracker_run \<Rightarrow> bool" where
  "tracker_inv s \<longleftrightarrow> tracker_cfg_ok (tr_cfg (tu_t s)) \<and> mok (tr_entries (tu_t s)) \<and> int (length (tr_entries (tu_t s))) \<le> sg_MaxWorkers (tr_cfg (tu_t s))
     \<and> open_ok (tr_nextGen (tu_t s)) (tu_open s)
     \<and> (\<forall>k e. mget (tr_entries (tu_t s)) k = Some e \<longrightarrow> core_ok (tr_window (tu_t s)) (tu_open s) (tu_log s k) (tr_nextGen (tu_t s)) k (te_core e))"

lemma NewTracker_ok: "tracker_cfg_ok (tr_cfg (NewTracker cfg))" "tr_entries (NewTracker cfg) = []" "tr_nextGen (NewTracker cfg) = 0"
  by (simp_all add: NewTracker_def Let_def tracker_cfg_ok_def DefaultBucket_def DefaultMaxWorkers_def DefaultMaxModels_def millisecond_def)

lemma tr_window_pos: "tracker_cfg_ok (tr_cfg t) \<Longrightarrow> 0 \<le> tr_window t"
  by (simp add: tracker_cfg_ok_def tr_window_def go_div_nonneg pos_imp_zdiv_nonneg_iff)

lemma setEpoch_frame [simp]: "tr_cfg (setEpoch now t) = tr_cfg t" "tr_entries (setEpoch now t) = tr_entries t" "tr_nextGen (setEpoch now t) = tr_nextGen t"
  "tr_window (setEpoch now t) = tr_window t" "tr_meanCost (setEpoch now t) = tr_meanCost t" "tr_stats (setEpoch now t) = tr_stats t"
  by (simp_all add: setEpoch_def tr_window_def split: option.split)

lemma tr_window_cfg: "tr_cfg t' = tr_cfg t \<Longrightarrow> tr_window t' = tr_window t"
  by (simp add: tr_window_def)

lemma owed_new: "open_ok next os \<Longrightarrow> next < g \<Longrightarrow> owed os k g = []"
  by (fastforce simp: owed_def open_ok_def filter_empty_conv)

lemma ensure_cases:
  assumes "mget (tr_entries t) k = None"
  shows "tr_ensure k now t = (if int (length (tr_entries t)) \<ge> sg_MaxWorkers (tr_cfg t) then t\<lparr>tr_stats := (tr_stats t)\<lparr>st_Untracked := st_Untracked (tr_stats t) + 1\<rparr>\<rparr>
    else t\<lparr>tr_nextGen := tr_nextGen t + 1, tr_entries := mput k (sig_new_entry (tr_nextGen t + 1) now) (tr_entries t)\<rparr>)"
  using assms by (simp add: tr_ensure_def tr_create_def)

lemma ensure_frame [simp]: "tr_cfg (tr_ensure k now t) = tr_cfg t" "tr_meanCost (tr_ensure k now t) = tr_meanCost t"
  "tr_epoch (tr_ensure k now t) = tr_epoch t" "tr_window (tr_ensure k now t) = tr_window t" "tr_bucket (tr_ensure k now t) = tr_bucket t"
  by (auto simp: tr_ensure_def tr_create_def tr_window_def tr_bucket_def epoch_of_def fun_eq_iff split: option.split)

lemma core_ok_gen: "core_ok keep os lg n k c \<Longrightarrow> n \<le> n' \<Longrightarrow> core_ok keep os lg n' k c"
  by (auto simp: core_ok_def)

lemma new_core_ok:
  assumes "open_ok n os"
  shows "core_ok keep os [] (n + 1) k (te_core (sig_new_entry (n + 1) now))"
  using owed_new[OF assms, of "n + 1" k] hist_rep_zero
  by (simp add: core_ok_def te_core_def sig_new_entry_def) (simp add: hist_small_def history_zero_def)

lemma ensure_inv:
  assumes inv: "tracker_inv s" and lg: "lg = (if mget (tr_entries (tu_t s)) k = None then (tu_log s)(k := []) else tu_log s)"
  shows "tracker_inv (s\<lparr>tu_t := tr_ensure k now (tu_t s), tu_log := lg\<rparr>)"
proof (cases "mget (tr_entries (tu_t s)) k")
  case None
  let ?t = "tu_t s"
  show ?thesis
  proof (cases "int (length (tr_entries ?t)) \<ge> sg_MaxWorkers (tr_cfg ?t)")
    case True
    then show ?thesis using inv None by (auto simp: tracker_inv_def ensure_cases lg tr_window_def)
  next
    case False
    have "open_ok (Suc (tr_nextGen ?t)) (tu_open s)" using inv by (fastforce simp: tracker_inv_def open_ok_def)
    moreover have "core_ok (tr_window ?t) (tu_open s) [] (Suc (tr_nextGen ?t)) k (te_core (sig_new_entry (Suc (tr_nextGen ?t)) now))"
      using new_core_ok[of "tr_nextGen ?t" "tu_open s"] inv by (simp add: tracker_inv_def)
    moreover have "core_ok (tr_window ?t) (tu_open s) (tu_log s k') (Suc (tr_nextGen ?t)) k' (te_core e)" if "mget (tr_entries ?t) k' = Some e" for k' e
      using inv that core_ok_gen by (fastforce simp: tracker_inv_def)
    ultimately show ?thesis using inv None False by (auto simp: tracker_inv_def ensure_cases lg tr_window_def mget_mput)
  qed
next
  case (Some e)
  then show ?thesis using inv by (simp add: lg tr_ensure_def)
qed

lemma tracker_put:
  assumes inv: "tracker_inv s" and e: "mget (tr_entries (tu_t s)) k = Some e"
    and t': "tr_cfg t' = tr_cfg (tu_t s)" "tr_nextGen t' = tr_nextGen (tu_t s)" "tr_entries t' = mput k e' (tr_entries (tu_t s))"
    and os: "open_ok (tr_nextGen (tu_t s)) os" "\<And>k' g. k' \<noteq> k \<Longrightarrow> owed os k' g = owed (tu_open s) k' g"
    and lg: "\<And>k'. k' \<noteq> k \<Longrightarrow> lg k' = tu_log s k'"
    and core: "core_ok (tr_window (tu_t s)) os (lg k) (tr_nextGen (tu_t s)) k (te_core e')"
  shows "tracker_inv (s\<lparr>tu_t := t', tu_open := os, tu_log := lg\<rparr>)"
proof -
  have "core_ok (tr_window (tu_t s)) os (lg k') (tr_nextGen (tu_t s)) k' (te_core x)" if "mget (tr_entries (tu_t s)) k' = Some x" "k' \<noteq> k" for k' x
    using inv that os(2)[OF that(2)] lg[OF that(2)] by (force simp: tracker_inv_def core_ok_def)
  then show ?thesis
    using inv t' os(1) core e by (auto simp: tracker_inv_def mget_mput tr_window_cfg[OF t'(1)])
qed

lemma owed_snoc: "owed (os @ [(tok, c)]) k g = owed os k g @ (if tk_key tok = k \<and> tk_gen tok = g then [(tok, c)] else [])"
  by (simp add: owed_def)

lemma owed_split:
  assumes "i < length os" "os ! i = (tok, c)"
  shows "owed (take i os @ drop (Suc i) os) k g = owed (take i os) k g @ owed (drop (Suc i) os) k g"
    "owed os k g = owed (take i os) k g @ (if tk_key tok = k \<and> tk_gen tok = g then [(tok, c)] else []) @ owed (drop (Suc i) os) k g"
    "owed (os[i := (tok, c')]) k g = owed (take i os) k g @ (if tk_key tok = k \<and> tk_gen tok = g then [(tok, c')] else []) @ owed (drop (Suc i) os) k g"
proof -
  show "owed (take i os @ drop (Suc i) os) k g = owed (take i os) k g @ owed (drop (Suc i) os) k g" by (simp add: owed_def)
  have "os = take i os @ (tok, c) # drop (Suc i) os" using id_take_nth_drop[OF assms(1)] assms(2) by simp
  then have "owed os k g = owed (take i os @ (tok, c) # drop (Suc i) os) k g" by simp
  then show "owed os k g = owed (take i os) k g @ (if tk_key tok = k \<and> tk_gen tok = g then [(tok, c)] else []) @ owed (drop (Suc i) os) k g"
    by (simp add: owed_def)
  show "owed (os[i := (tok, c')]) k g = owed (take i os) k g @ (if tk_key tok = k \<and> tk_gen tok = g then [(tok, c')] else []) @ owed (drop (Suc i) os) k g"
    unfolding upd_conv_take_nth_drop[OF assms(1)] by (simp add: owed_def)
qed

lemma open_ok_item: "open_ok n os \<Longrightarrow> i < length os \<Longrightarrow> os ! i = (tok, c) \<Longrightarrow> 0 < tk_gen tok \<and> tk_gen tok \<le> n \<and> 0 \<le> c"
  by (metis (no_types, lifting) case_prod_conv nth_mem open_ok_def)

lemma inv_epoch: "tracker_inv s \<Longrightarrow> tracker_inv (s\<lparr>tu_t := setEpoch now (tu_t s)\<rparr>)"
  by (simp add: tracker_inv_def)

lemma tracker_Begin_inv:
  assumes inv0: "tracker_inv s"
  shows "tracker_inv (tracker_step exp2 (EvBegin now k) s)"
proof -
  define lg where "lg = (if mget (tr_entries (tu_t s)) k = None then (tu_log s)(k := []) else tu_log s)"
  define t1 where "t1 = tr_ensure k now (setEpoch now (tu_t s))"
  define s1 where "s1 = s\<lparr>tu_t := t1, tu_log := lg\<rparr>"
  let ?s = "s\<lparr>tu_t := setEpoch now (tu_t s)\<rparr>"
  have "tracker_inv (?s\<lparr>tu_t := tr_ensure k now (tu_t ?s), tu_log := lg\<rparr>)"
    by (rule ensure_inv[OF inv_epoch[OF inv0]]) (simp add: lg_def)
  then have inv: "tracker_inv s1" by (simp add: s1_def t1_def)
  show ?thesis
  proof (cases "mget (tr_entries t1) k")
    case None
    have n: "mget (tr_entries (tu_t s)) k = None"
      using None by (cases "mget (tr_entries (tu_t s)) k") (auto simp: t1_def tr_ensure_def)
    have "tracker_step exp2 (EvBegin now k) s = s\<lparr>tu_t := t1\<rparr>"
      using None by (simp add: tr_Begin_def t1_def[symmetric] Token_Valid_def zero_token_def)
    moreover have "k' \<noteq> k" if "mget (tr_entries t1) k' = Some e" for k' e using that None by auto
    then have "tracker_inv (s\<lparr>tu_t := t1\<rparr>)" using inv n by (simp add: tracker_inv_def s1_def lg_def)
    ultimately show ?thesis by simp
  next
    case (Some e)
    have co: "core_ok (tr_window t1) (tu_open s) (lg k) (tr_nextGen t1) k (te_core e)" using inv Some by (simp add: tracker_inv_def s1_def)
    have cfg: "0 \<le> tr_window t1" using inv tr_window_pos by (simp add: tracker_inv_def s1_def)
    define h where "h = hist_record (tr_bucket t1 now) True (tr_window t1) (te_hist e)"
    define e' where "e' = e\<lparr>te_inflight := te_inflight e + 1, te_hist := h\<rparr>"
    define tok where "tok = \<lparr>tk_key = k, tk_gen = te_gen e\<rparr>"
    define t2 where "t2 = t1\<lparr>tr_entries := mput k e' (tr_entries t1)\<rparr>"
    have b: "tr_bucket t2 now = tr_bucket t1 now" by (simp add: t2_def tr_bucket_def epoch_of_def)
    have g: "0 < te_gen e" "te_gen e \<le> tr_nextGen t1" using co by (simp_all add: core_ok_def te_core_def)
    have "tracker_step exp2 (EvBegin now k) s = s1\<lparr>tu_t := t2, tu_open := tu_open s @ [(tok, 0)], tu_log := log_add k (tr_bucket t1 now) True lg\<rparr>"
      using Some g by (simp add: tr_Begin_def t1_def[symmetric] Token_Valid_def lg_def s1_def t2_def[unfolded e'_def h_def] tok_def Let_def
          b[unfolded t2_def e'_def h_def])
    moreover have "tracker_inv (s1\<lparr>tu_t := t2, tu_open := tu_open s @ [(tok, 0)], tu_log := log_add k (tr_bucket t1 now) True lg\<rparr>)"
    proof (rule tracker_put[OF inv])
      show "mget (tr_entries (tu_t s1)) k = Some e" "tr_entries t2 = mput k e' (tr_entries (tu_t s1))" using Some by (simp_all add: s1_def t2_def)
      show "open_ok (tr_nextGen (tu_t s1)) (tu_open s @ [(tok, 0)])" using inv g by (auto simp: tracker_inv_def open_ok_def s1_def tok_def)
      have "hist_rep (log_add k (tr_bucket t1 now) True lg k) h" "hist_small (tr_window t1) h"
        using co record_rep[of "lg k" "te_hist e" "tr_window t1"] record_small[of "lg k" "te_hist e" "tr_window t1"] cfg
        by (auto simp: core_ok_def te_core_def h_def log_add_def)
      then show "core_ok (tr_window (tu_t s1)) (tu_open s @ [(tok, 0)]) (log_add k (tr_bucket t1 now) True lg k) (tr_nextGen (tu_t s1)) k (te_core e')"
        using co by (simp add: core_ok_def te_core_def e'_def s1_def owed_snoc tok_def)
    qed (simp_all add: s1_def t2_def owed_snoc tok_def log_add_def)
    ultimately show ?thesis by simp
  qed
qed

lemma tracker_AddCost_inv:
  assumes inv: "tracker_inv s"
  shows "tracker_inv (tracker_step exp2 (EvAddCost i cost) s)"
proof (cases "i < length (tu_open s)")
  case True
  obtain tok c where tc: "tu_open s ! i = (tok, c)" by force
  obtain t ok where a: "tr_AddCost tok cost (tu_t s) = (t, ok)" by force
  show ?thesis
  proof (cases ok)
    case False
    then have "t = tu_t s" using a by (auto simp: tr_AddCost_def split: if_splits option.splits)
    then show ?thesis using True tc a False inv by simp
  next
    case ok: True
    then obtain e where e: "mget (tr_entries (tu_t s)) (tk_key tok) = Some e" "te_gen e = tk_gen tok" "0 < cost"
      and t: "t = (tu_t s)\<lparr>tr_entries := mput (tk_key tok) (e\<lparr>te_work := te_work e + cost\<rparr>) (tr_entries (tu_t s))\<rparr>"
      using a by (auto simp: tr_AddCost_def split: if_splits option.splits)
    note item = open_ok_item[OF _ True tc]
    have co: "core_ok (tr_window (tu_t s)) (tu_open s) (tu_log s (tk_key tok)) (tr_nextGen (tu_t s)) (tk_key tok) (te_core e)"
      using inv e by (simp add: tracker_inv_def)
    have "tracker_inv (s\<lparr>tu_t := t, tu_open := (tu_open s)[i := (tok, c + cost)], tu_log := tu_log s\<rparr>)"
    proof (rule tracker_put[OF inv e(1)])
      show "open_ok (tr_nextGen (tu_t s)) ((tu_open s)[i := (tok, c + cost)])"
        using inv item e(3) by (auto simp: tracker_inv_def open_ok_def dest!: subsetD[OF set_update_subset_insert])
      show "owed ((tu_open s)[i := (tok, c + cost)]) k' g = owed (tu_open s) k' g" if "k' \<noteq> tk_key tok" for k' g
        using owed_split[OF True tc, where k = k' and g = g] that by simp
      show "core_ok (tr_window (tu_t s)) ((tu_open s)[i := (tok, c + cost)]) (tu_log s (tk_key tok)) (tr_nextGen (tu_t s)) (tk_key tok)
          (te_core (e\<lparr>te_work := te_work e + cost\<rparr>))"
        using co owed_split[OF True tc, where k = "tk_key tok" and g = "tk_gen tok"] e(2) by (simp add: core_ok_def te_core_def)
    qed (simp_all add: t)
    then show ?thesis using True tc a ok by simp
  qed
qed (use inv in simp)

lemma End_open_inv:
  \<comment> \<open>ending a token that no longer has its entry\<close>
  assumes inv: "tracker_inv s" and i: "i < length (tu_open s)" "tu_open s ! i = (tok, c)"
    and stale: "\<And>e. mget (tr_entries (tu_t s)) (tk_key tok) = Some e \<Longrightarrow> te_gen e \<noteq> tk_gen tok"
  shows "tracker_inv (s\<lparr>tu_open := take i (tu_open s) @ drop (Suc i) (tu_open s)\<rparr>)"
proof -
  let ?os = "take i (tu_open s) @ drop (Suc i) (tu_open s)"
  have "owed ?os k (te_gen e) = owed (tu_open s) k (te_gen e)" if "mget (tr_entries (tu_t s)) k = Some e" for k e
    using owed_split[OF i, where k = k and g = "te_gen e"] stale that by auto
  moreover have "open_ok (tr_nextGen (tu_t s)) ?os"
    using inv by (auto simp: tracker_inv_def open_ok_def dest: in_set_takeD in_set_dropD)
  ultimately show ?thesis using inv by (auto simp: tracker_inv_def core_ok_def te_core_def)
qed

lemma tracker_End_inv:
  assumes inv0: "tracker_inv s"
  shows "tracker_inv (tracker_step exp2 (EvEnd now i) s)"
proof (cases "i < length (tu_open s)")
  case True
  obtain tok c where tc: "tu_open s ! i = (tok, c)" by force
  let ?k = "tk_key tok" and ?os = "take i (tu_open s) @ drop (Suc i) (tu_open s)"
  define t1 where "t1 = setEpoch now (tu_t s)"
  define s1 where "s1 = s\<lparr>tu_t := t1\<rparr>"
  have inv: "tracker_inv s1" using inv_epoch[OF inv0] by (simp add: s1_def t1_def)
  have tc1: "i < length (tu_open s1)" "tu_open s1 ! i = (tok, c)" using True tc by (simp_all add: s1_def)
  have item: "0 < tk_gen tok" "tk_gen tok \<le> tr_nextGen (tu_t s)" "0 \<le> c" using open_ok_item[OF _ True tc, of "tr_nextGen (tu_t s)"] inv0 by (simp_all add: tracker_inv_def)
  show ?thesis
  proof (cases "\<exists>e. mget (tr_entries (tu_t s)) ?k = Some e \<and> te_gen e = tk_gen tok")
    case False
    have E: "tr_End now tok c (tu_t s) = t1" using False item by (auto simp: tr_End_def Token_Valid_def Let_def t1_def split: option.split)
    then have "tracker_step exp2 (EvEnd now i) s = s1\<lparr>tu_open := ?os\<rparr>"
      using True tc False by (auto simp: s1_def Let_def split: option.split)
    moreover have "tracker_inv (s1\<lparr>tu_open := take i (tu_open s1) @ drop (Suc i) (tu_open s1)\<rparr>)"
      by (rule End_open_inv[OF inv tc1]) (use False in \<open>auto simp: s1_def t1_def\<close>)
    ultimately show ?thesis by (simp add: s1_def)
  next
    case e0: True
    then obtain e where e: "mget (tr_entries (tu_t s)) ?k = Some e" "te_gen e = tk_gen tok" by blast
    have co: "core_ok (tr_window t1) (tu_open s) (tu_log s ?k) (tr_nextGen t1) ?k (te_core e)" using inv e by (simp add: tracker_inv_def s1_def t1_def)
    have keep: "0 \<le> tr_window t1" using inv tr_window_pos by (simp add: tracker_inv_def s1_def)
    note ow = owed_split[OF True tc, where k = ?k and g = "tk_gen tok"]
    have infl: "te_inflight e > 0" and w: "c \<le> te_work e"
    proof -
      show "te_inflight e > 0" using co ow(2) e(2) by (simp add: core_ok_def te_core_def)
      have "0 \<le> sum_list (map snd (owed xs ?k (tk_gen tok)))" if "open_ok (tr_nextGen t1) xs" for xs
        using that by (intro sum_list_nonneg) (auto simp: open_ok_def owed_def)
      moreover have "open_ok (tr_nextGen t1) (take i (tu_open s))" "open_ok (tr_nextGen t1) (drop (Suc i) (tu_open s))"
        using inv0 by (auto simp: tracker_inv_def open_ok_def t1_def dest: in_set_takeD in_set_dropD)
      ultimately have "0 \<le> sum_list (map snd (owed (take i (tu_open s)) ?k (tk_gen tok)))" "0 \<le> sum_list (map snd (owed (drop (Suc i) (tu_open s)) ?k (tk_gen tok)))" by simp_all
      then show "c \<le> te_work e" using co ow(2) e(2) by (simp add: core_ok_def te_core_def)
    qed
    define h where "h = hist_record (tr_bucket t1 now) False (tr_window t1) (te_hist e)"
    define e' where "e' = e\<lparr>te_inflight := te_inflight e - 1, te_work := te_work e - c, te_hist := h\<rparr>"
    define t2 where "t2 = t1\<lparr>tr_entries := mput ?k e' (tr_entries t1)\<rparr>"
    have E: "tr_End now tok c (tu_t s) = t2"
      using e item infl w by (cases "c = 0") (simp_all add: tr_End_def Token_Valid_def Let_def t1_def[symmetric] t2_def e'_def h_def, simp_all add: t1_def)
    have b: "tr_bucket t2 now = tr_bucket t1 now" by (simp add: t2_def tr_bucket_def epoch_of_def)
    have "tracker_step exp2 (EvEnd now i) s = s1\<lparr>tu_t := t2, tu_open := ?os, tu_log := log_add ?k (tr_bucket t1 now) False (tu_log s)\<rparr>"
      using True tc e E b by (simp add: Let_def s1_def)
    moreover have "tracker_inv (s1\<lparr>tu_t := t2, tu_open := ?os, tu_log := log_add ?k (tr_bucket t1 now) False (tu_log s)\<rparr>)"
    proof (rule tracker_put[OF inv])
      show "mget (tr_entries (tu_t s1)) ?k = Some e" "tr_entries t2 = mput ?k e' (tr_entries (tu_t s1))" using e by (simp_all add: s1_def t1_def t2_def)
      show "open_ok (tr_nextGen (tu_t s1)) ?os" using inv by (auto simp: tracker_inv_def open_ok_def s1_def dest: in_set_takeD in_set_dropD)
      show "owed ?os k' g = owed (tu_open s1) k' g" if "k' \<noteq> ?k" for k' g using owed_split[OF True tc, where k = k' and g = g] that by (simp add: s1_def)
      have "hist_rep (log_add ?k (tr_bucket t1 now) False (tu_log s) ?k) h" "hist_small (tr_window t1) h"
        using co record_rep[of "tu_log s ?k" "te_hist e" "tr_window t1"] record_small[of "tu_log s ?k" "te_hist e" "tr_window t1"] keep
        by (auto simp: core_ok_def te_core_def h_def log_add_def)
      then show "core_ok (tr_window (tu_t s1)) ?os (log_add ?k (tr_bucket t1 now) False (tu_log s) ?k) (tr_nextGen (tu_t s1)) ?k (te_core e')"
        using co ow e(2) by (simp add: core_ok_def te_core_def e'_def s1_def)
    qed (simp_all add: s1_def t2_def log_add_def)
    ultimately show ?thesis by simp
  qed
qed (use inv0 in simp)

section \<open>Sync keeps the ledger\<close>

definition cores :: "(sig_key, sig_entry) gomap \<Rightarrow> (sig_key, entry_core) gomap" where
  "cores m = map (\<lambda>(k, e). (k, te_core e)) m"

lemma mget_cores: "mget (cores m) k = map_option te_core (mget m k)"
  by (simp add: cores_def map_of_map)

lemma cores_inv:
  assumes inv: "tracker_inv s" and c: "cores (tr_entries t') = cores (tr_entries (tu_t s))"
    and t': "tr_cfg t' = tr_cfg (tu_t s)" "tr_nextGen t' = tr_nextGen (tu_t s)"
  shows "tracker_inv (s\<lparr>tu_t := t'\<rparr>)"
proof -
  have k: "map fst (tr_entries t') = map fst (tr_entries (tu_t s))" using arg_cong[OF c, of "map fst"] by (simp add: cores_def comp_def case_prod_beta)
  then have len: "length (tr_entries t') = length (tr_entries (tu_t s))" by (metis length_map)
  have "core_ok (tr_window (tu_t s)) (tu_open s) (tu_log s k) (tr_nextGen (tu_t s)) k (te_core e)" if "mget (tr_entries t') k = Some e" for k e
  proof -
    have "mget (cores (tr_entries (tu_t s))) k = Some (te_core e)" using that c mget_cores[of "tr_entries t'" k] by simp
    then obtain e0 where "mget (tr_entries (tu_t s)) k = Some e0" "te_core e0 = te_core e" by (auto simp: mget_cores)
    then show ?thesis using inv by (metis tracker_inv_def)
  qed
  then show ?thesis using inv t' k len by (simp add: tracker_inv_def mok_def tr_window_cfg[OF t'(1)])
qed

lemma replace_model_core:
  assumes "map te_core es = map te_core (map snd (filter (\<lambda>(_, e). te_model e = model) m))"
  shows "cores (replace_model model es m) = cores m"
proof -
  have "map te_core es = map te_core (map snd (filter (\<lambda>(_, e). te_model e = model) m)) \<Longrightarrow>
    cores (fst (foldl (\<lambda>(acc, rest) (k, e). if te_model e = model then (acc @ [(k, hd rest)], tl rest) else (acc @ [(k, e)], rest)) (acc, es) m)) = cores acc @ cores m"
    for acc es
  proof (induction m arbitrary: acc es)
    case (Cons q m)
    obtain k e where q: "q = (k, e)" by force
    show ?case
    proof (cases "te_model e = model")
      case True
      then obtain x xs where "es = x # xs" "te_core x = te_core e" using Cons.prems q by (cases es) auto
      then show ?thesis using Cons.IH[of xs "acc @ [(k, x)]"] Cons.prems q True by (simp add: cores_def)
    next
      case False
      then show ?thesis using Cons.IH[of es "acc @ [(k, e)]"] Cons.prems q by (simp add: cores_def)
    qed
  qed (simp add: cores_def)
  from this[OF assms, of "[]"] show ?thesis by (simp add: replace_model_def cores_def)
qed

lemma core_upd [simp]: "te_core (e\<lparr>te_peak := a\<rparr>) = te_core e" "te_core (e\<lparr>te_capR := b\<rparr>) = te_core e" "te_core (e\<lparr>te_capPrior := c\<rparr>) = te_core e"
  "te_core (e\<lparr>te_capHB := d\<rparr>) = te_core e" "te_core (e\<lparr>te_peakAt := d\<rparr>) = te_core e" "te_core (e\<lparr>te_hasPeak := c\<rparr>) = te_core e"
  "te_core (e\<lparr>te_lastHB := d\<rparr>) = te_core e" "te_core (e\<lparr>te_model := x\<rparr>) = te_core e" "te_core (e\<lparr>te_validFrom := d\<rparr>) = te_core e"
  by (simp_all add: te_core_def)

lemma map_core: "(\<And>e. te_core (f e) = te_core e) \<Longrightarrow> map te_core (map f es) = map te_core es"
  by simp

lemma recompute_core: "map te_core (recompute_fleet exp2 cfg now es) = map te_core es"
  by (auto simp: recompute_fleet_def clampToPeers_def Let_def intro!: map_core)

lemma recomputeCapacity_core: "cores (tr_entries (recomputeCapacity exp2 now t)) = cores (tr_entries t)"
proof -
  have "cores (foldl (\<lambda>m model. replace_model model (recompute_fleet exp2 cfg now (map snd (filter (\<lambda>(_, e). te_model e = model) m))) m) m0 ms) = cores m0" for cfg m0 ms
    by (induction ms arbitrary: m0) (simp_all add: replace_model_core recompute_core)
  then show ?thesis by (simp add: recomputeCapacity_def Let_def) (simp add: cores_def comp_def case_prod_beta)
qed

lemma sample_core: "te_core (tr_sample m now e) = te_core e"
  by (simp add: tr_sample_def Let_def)

lemma sync_entry_core: "te_core (sync_entry now m e) = (if is_reset m e then te_core (e\<lparr>te_hist := history_zero\<rparr>) else te_core e)"
  by (simp add: sync_entry_def Let_def sample_core is_reset_def hist_reset_def)

lemma sync_log_inv:
  assumes inv0: "tracker_inv (s\<lparr>tu_t := t, tu_log := lg\<rparr>)" and x: "sync_log now (t, lg) m = (t', lg')"
  shows "tracker_inv (s\<lparr>tu_t := t', tu_log := lg'\<rparr>)"
proof -
  let ?k = "ob_Key m"
  define t1 where "t1 = tr_ensure ?k now t"
  define lg1 where "lg1 = (if mget (tr_entries t) ?k = None then lg(?k := []) else lg)"
  let ?s = "s\<lparr>tu_t := t, tu_log := lg\<rparr>"
  have "tracker_inv (?s\<lparr>tu_t := tr_ensure ?k now (tu_t ?s), tu_log := lg1\<rparr>)" by (rule ensure_inv[OF inv0]) (simp add: lg1_def)
  then have inv: "tracker_inv (s\<lparr>tu_t := t1, tu_log := lg1\<rparr>)" by (simp add: t1_def)
  show ?thesis
  proof (cases "mget (tr_entries t1) ?k")
    case None
    then have n: "mget (tr_entries t) ?k = None" by (cases "mget (tr_entries t) ?k") (auto simp: t1_def tr_ensure_def)
    then have "t' = t1" "lg' = lg1" using x None by (simp_all add: sync_log_def sync_one_def t1_def[symmetric] lg1_def)
    then show ?thesis using inv by simp
  next
    case (Some e)
    have new: "\<not> is_reset m e" if "mget (tr_entries t) ?k = None"
    proof -
      have "e = sig_new_entry (tr_nextGen t + 1) now" using Some that by (auto simp: t1_def ensure_cases mget_mput split: if_splits)
      then show ?thesis by (simp add: is_reset_def sig_new_entry_def)
    qed
    have old: "mget (tr_entries t) ?k = Some e" if "mget (tr_entries t) ?k \<noteq> None" using Some that by (auto simp: t1_def tr_ensure_def)
    have lg': "lg' = (if is_reset m e then lg1(?k := []) else lg1)"
      using x new old by (cases "mget (tr_entries t) ?k") (auto simp: sync_log_def lg1_def)
    have t': "tr_cfg t' = tr_cfg t1" "tr_nextGen t' = tr_nextGen t1" "tr_entries t' = mput ?k (sync_entry now m e) (tr_entries t1)"
      using x Some by (auto simp: sync_log_def sync_one_def t1_def[symmetric] Let_def)
    have co: "core_ok (tr_window t1) (tu_open s) (lg1 ?k) (tr_nextGen t1) ?k (te_core e)" using inv Some by (simp add: tracker_inv_def)
    have "hist_rep [] history_zero" "hist_small (tr_window t1) history_zero" using hist_rep_zero by (auto simp: hist_small_def history_zero_def)
    then have co': "core_ok (tr_window t1) (tu_open s) (lg' ?k) (tr_nextGen t1) ?k (te_core (sync_entry now m e))"
      using co unfolding sync_entry_core lg' by (cases "is_reset m e") (simp_all add: core_ok_def te_core_def)
    have "tracker_inv ((s\<lparr>tu_t := t1, tu_log := lg1\<rparr>)\<lparr>tu_t := t', tu_open := tu_open s, tu_log := lg'\<rparr>)"
      by (rule tracker_put[OF inv]) (use Some t' co' inv in \<open>simp_all add: lg' tracker_inv_def\<close>)
    then show ?thesis by simp
  qed
qed

lemma sync_fold_inv:
  "tracker_inv (s\<lparr>tu_t := t, tu_log := lg\<rparr>) \<Longrightarrow> foldl (sync_log now) (t, lg) ms = (t', lg') \<Longrightarrow>
     tracker_inv (s\<lparr>tu_t := t', tu_log := lg'\<rparr>) \<and> t' = foldl (sync_one now) t ms"
proof (induction ms arbitrary: t lg)
  case (Cons m ms)
  obtain t1 lg1 where s: "sync_log now (t, lg) m = (t1, lg1)" by force
  have "t1 = sync_one now t m" using s by (simp add: sync_log_def)
  then show ?case using Cons.IH[OF sync_log_inv[OF Cons.prems(1) s]] Cons.prems(2) s by auto
qed simp

lemma tracker_Sync_inv:
  assumes inv: "tracker_inv s"
  shows "tracker_inv (tracker_step exp2 (EvSync now ms) s)"
proof -
  obtain t1 lg1 where f: "foldl (sync_log now) (setEpoch now (tu_t s), tu_log s) ms = (t1, lg1)" by force
  have "tracker_inv (s\<lparr>tu_t := setEpoch now (tu_t s), tu_log := tu_log s\<rparr>)" using inv_epoch[OF inv] by simp
  from sync_fold_inv[OF this f] have I: "tracker_inv (s\<lparr>tu_t := t1, tu_log := lg1\<rparr>)" "t1 = foldl (sync_one now) (setEpoch now (tu_t s)) ms" by blast+
  define t2 where "t2 = t1\<lparr>tr_entries := filter (\<lambda>(k, _). k \<in> ob_Key ` set ms) (tr_entries t1),
      tr_stats := (tr_stats t1)\<lparr>st_Pruned := st_Pruned (tr_stats t1) + length (filter (\<lambda>(k, _). k \<notin> ob_Key ` set ms) (tr_entries t1))\<rparr>\<rparr>"
  have m: "mok (tr_entries t1)" using I(1) by (simp add: tracker_inv_def)
  have sub: "mget (tr_entries t2) k = Some e \<Longrightarrow> mget (tr_entries t1) k = Some e" for k e
    using m by (auto simp: t2_def mget_iff_mem)
  have len: "length (tr_entries t2) \<le> length (tr_entries t1)" by (simp add: t2_def)
  have f2: "tr_cfg t2 = tr_cfg t1" "tr_nextGen t2 = tr_nextGen t1" "mok (tr_entries t2)" using m by (simp_all add: t2_def)
  then have I2: "tracker_inv (s\<lparr>tu_t := t2, tu_log := lg1\<rparr>)"
    using I(1) sub len by (simp add: tracker_inv_def tr_window_cfg[OF f2(1)])
  have "tracker_inv ((s\<lparr>tu_t := t2, tu_log := lg1\<rparr>)\<lparr>tu_t := recomputeCapacity exp2 now (pruneModels t2)\<rparr>)"
    by (rule cores_inv[OF I2]) (simp_all add: recomputeCapacity_core, simp_all add: pruneModels_def recomputeCapacity_def Let_def)
  moreover have "(s\<lparr>tu_t := t2, tu_log := lg1\<rparr>)\<lparr>tu_t := X\<rparr> = s\<lparr>tu_t := X, tu_log := lg1\<rparr>" for X by (cases s) simp
  moreover have "tr_Sync exp2 now ms (tu_t s) = recomputeCapacity exp2 now (pruneModels t2)" by (simp add: tr_Sync_def Let_def I(2)[symmetric] t2_def)
  ultimately show ?thesis unfolding tracker_step.simps f by (simp only: snd_conv)
qed

lemma Overlay_frame: "tr_cfg (fst (overlayLocked now inp t)) = tr_cfg t" "tr_nextGen (fst (overlayLocked now inp t)) = tr_nextGen t"
  "tr_entries (fst (overlayLocked now inp t)) = tr_entries t" "tr_epoch (fst (overlayLocked now inp t)) = tr_epoch (setEpoch now t)"
  by (auto simp: overlayLocked_def Let_def split: option.split prod.split)

lemma Observe_frame: "tr_cfg (ObserveCost m c t) = tr_cfg t" "tr_nextGen (ObserveCost m c t) = tr_nextGen t" "tr_entries (ObserveCost m c t) = tr_entries t"
  "tr_epoch (ObserveCost m c t) = tr_epoch t"
  by (auto simp: ObserveCost_def split: option.split)

lemma tracker_step_inv: "tracker_inv s \<Longrightarrow> tracker_inv (tracker_step exp2 x s)"
proof (cases x)
  case (EvOverlay now inp)
  assume "tracker_inv s"
  from cores_inv[OF this, of "fst (overlayLocked now inp (tu_t s))"] show ?thesis by (simp add: EvOverlay tr_Overlay_def Overlay_frame)
next
  case (EvObserve m c)
  assume "tracker_inv s"
  from cores_inv[OF this, of "ObserveCost m c (tu_t s)"] show ?thesis by (simp add: EvObserve Observe_frame)
qed (simp_all only: tracker_Begin_inv tracker_AddCost_inv tracker_End_inv tracker_Sync_inv)

lemma tracker_history_inv: "tracker_inv (tracker_history exp2 cfg xs)"
proof -
  have "tracker_inv s \<Longrightarrow> tracker_inv (foldl (\<lambda>s x. tracker_step exp2 x s) s xs)" for s
    by (induction xs arbitrary: s) (simp_all only: foldl.simps tracker_step_inv)
  moreover have "tracker_inv \<lparr>tu_t = NewTracker cfg, tu_open = [], tu_log = (\<lambda>_. [])\<rparr>"
    using NewTracker_ok[of cfg] less_imp_le by (simp add: tracker_inv_def open_ok_def tracker_cfg_ok_def)
  ultimately show ?thesis by (simp add: tracker_history_def)
qed

section \<open>The ledger\<close>

lemma totals_zero:
  assumes "\<forall>q \<in> set m. te_inflight (snd q) = 0 \<and> te_work (snd q) = 0"
  shows "foldl (\<lambda>(i, w) (_, e). (i + te_inflight e, w + te_work e)) (a, b) m = (a, b)"
  using assms by (induction m) auto

lemma records_bound:
  assumes "\<forall>q \<in> set m. int (hist_live (te_hist (snd q))) \<le> K"
  shows "int (foldl (\<lambda>n (_, e). n + hist_live (te_hist e)) a m) \<le> int a + int (length m) * K"
  using assms
proof (induction m arbitrary: a)
  case (Cons q m)
  obtain k e where q: "q = (k, e)" by force
  have "int (foldl (\<lambda>n (_, e). n + hist_live (te_hist e)) (a + hist_live (te_hist e)) m) \<le> int (a + hist_live (te_hist e)) + int (length m) * K"
    by (rule Cons.IH) (use Cons.prems in simp)
  moreover have "int (hist_live (te_hist e)) \<le> K" using Cons.prems q by simp
  ultimately show ?case by (simp add: q algebra_simps)
qed simp

text \<open>C14: the ledger is exact in every history. Whatever the order of requests, costs, ends and registry refreshes (workers that leave,
  return or re-register included), the requests and the work the tracker counts on a worker are exactly those whose token is of its current
  incarnation and not yet ended; with no token outstanding the totals are zero. The workers tracked and the history records held stay within the
  configured bounds.\<close>

theorem ledger_exact:
  assumes s: "s = tracker_history exp2 cfg xs"
  shows "tr_Ledger k (tu_t s) = (case mget (tr_entries (tu_t s)) k of None \<Rightarrow> (0, 0)
       | Some e \<Rightarrow> (int (length (owed (tu_open s) k (te_gen e))), sum_list (map snd (owed (tu_open s) k (te_gen e)))))
    \<and> (tu_open s = [] \<longrightarrow> tr_Totals (tu_t s) = (0, 0))
    \<and> int (length (tr_entries (tu_t s))) \<le> sg_MaxWorkers (tr_cfg (tu_t s))
    \<and> int (HistoryRecords (tu_t s)) \<le> sg_MaxWorkers (tr_cfg (tu_t s)) * (tr_window (tu_t s) + 1)"
proof -
  have inv: "tracker_inv s" unfolding s by (rule tracker_history_inv)
  let ?t = "tu_t s" and ?K = "tr_window (tu_t s) + 1"
  have keep: "0 \<le> tr_window ?t" using inv tr_window_pos by (simp add: tracker_inv_def)
  have mo: "mok (tr_entries ?t)" and len: "int (length (tr_entries ?t)) \<le> sg_MaxWorkers (tr_cfg ?t)" using inv by (simp_all add: tracker_inv_def)
  have co: "core_ok (tr_window ?t) (tu_open s) (tu_log s k) (tr_nextGen ?t) k (te_core e)" if "mget (tr_entries ?t) k = Some e" for k e
    using inv that by (simp add: tracker_inv_def)
  have 1: "tr_Ledger k ?t = (case mget (tr_entries ?t) k of None \<Rightarrow> (0, 0)
       | Some e \<Rightarrow> (int (length (owed (tu_open s) k (te_gen e))), sum_list (map snd (owed (tu_open s) k (te_gen e)))))"
    using co by (auto simp: tr_Ledger_def core_ok_def te_core_def split: option.split)
  have mem: "mget (tr_entries ?t) (fst q) = Some (snd q)" if "q \<in> set (tr_entries ?t)" for q using mo that by (simp add: mget_iff_mem)
  have 2: "tr_Totals ?t = (0, 0)" if "tu_open s = []"
  proof -
    have "\<forall>q \<in> set (tr_entries ?t). te_inflight (snd q) = 0 \<and> te_work (snd q) = 0"
    proof
      fix q assume "q \<in> set (tr_entries ?t)"
      from co[OF mem[OF this]] show "te_inflight (snd q) = 0 \<and> te_work (snd q) = 0" using that by (simp add: core_ok_def te_core_def owed_def)
    qed
    then show ?thesis by (simp add: tr_Totals_def totals_zero)
  qed
  have "\<forall>q \<in> set (tr_entries ?t). int (hist_live (te_hist (snd q))) \<le> ?K"
  proof
    fix q assume "q \<in> set (tr_entries ?t)"
    from co[OF mem[OF this]] show "int (hist_live (te_hist (snd q))) \<le> ?K" using small_bounds(1)[OF _ _ keep] by (auto simp: core_ok_def te_core_def)
  qed
  from records_bound[OF this, of 0] have "int (HistoryRecords ?t) \<le> int (length (tr_entries ?t)) * ?K" by (simp add: HistoryRecords_def)
  also have "\<dots> \<le> sg_MaxWorkers (tr_cfg ?t) * ?K" using len keep by (intro mult_right_mono) auto
  finally show ?thesis using 1 2 len by simp
qed

definition sample_cfg :: sig_config where
  "sample_cfg = \<lparr>sg_Bucket = 100, sg_Window = 500, sg_MaxWorkers = 4, sg_MaxModels = 4, sg_CapacityHalflife = 1000, sg_CapacityFloor = Fin 1\<rparr>"

definition sample_key :: sig_key where
  "sample_key = \<lparr>sk_WorkerID = ''w'', sk_Registered = 1\<rparr>"

definition sample_calls :: "tracker_event list" where
  "sample_calls = [EvBegin 0 sample_key, EvAddCost 0 5, EvBegin 250 sample_key, EvAddCost 1 7, EvEnd 300 0]"

lemmas sample_defs = sample_cfg_def sample_key_def sample_calls_def

theorem ledger_exact_witness:
  "tr_Ledger sample_key (tu_t (tracker_history id sample_cfg sample_calls)) = (1, 7)"
proof -
  let ?s = "tracker_history id sample_cfg sample_calls"
  have "(case mget (tr_entries (tu_t ?s)) sample_key of None \<Rightarrow> (0, 0)
       | Some e \<Rightarrow> (int (length (owed (tu_open ?s) sample_key (te_gen e))), sum_list (map snd (owed (tu_open ?s) sample_key (te_gen e))))) = (1, 7)"
    by code_simp
  then show ?thesis using ledger_exact[of ?s id sample_cfg sample_calls sample_key] by simp
qed

section \<open>The overlay\<close>

lemma go_floor_div:
  assumes "0 < b"
  shows "(if d < 0 \<and> go_mod d b \<noteq> 0 then go_div d b - 1 else go_div d b) = d div b"
proof -
  have eq: "d = b * go_div d b + go_mod d b" by (simp add: go_mod_def algebra_simps)
  show ?thesis
  proof (cases "0 \<le> d")
    case False
    then have "go_div d b = - ((- d) div b)" using assms by (simp add: go_div_def)
    then have "go_mod d b = d + b * ((- d) div b)" using eq by simp
    then have m: "go_mod d b = - ((- d) mod b)" using mult_div_mod_eq[of b "- d"] by linarith
    show ?thesis
    proof (cases "go_mod d b = 0")
      case True
      then show ?thesis using int_div_pos_eq[OF eq] assms by simp
    next
      case nz: False
      have r: "0 \<le> (- d) mod b" "(- d) mod b < b" "(- d) mod b \<noteq> 0" using assms nz m by simp_all
      have "d = b * (go_div d b - 1) + (b + go_mod d b)" using eq by (simp add: algebra_simps)
      from int_div_pos_eq[OF this] show ?thesis using r m nz False by simp
    qed
  qed (use assms in \<open>simp add: go_div_nonneg\<close>)
qed

lemma tr_bucket_floor: "0 < sg_Bucket (tr_cfg t) \<Longrightarrow> tr_bucket t x = (x - epoch_of t) div sg_Bucket (tr_cfg t)"
  unfolding tr_bucket_def Let_def by (rule go_floor_div)

lemma tr_bucket_mono: "0 < sg_Bucket (tr_cfg t) \<Longrightarrow> x \<le> y \<Longrightarrow> tr_bucket t x \<le> tr_bucket t y"
  by (simp add: tr_bucket_floor zdiv_mono1)

lemma tr_bucket_window:
  assumes "tracker_cfg_ok (tr_cfg t)" "now - at' \<le> sg_Window (tr_cfg t)"
  shows "tr_bucket t now - tr_window t \<le> tr_bucket t at'"
proof -
  let ?B = "sg_Bucket (tr_cfg t)" and ?W = "sg_Window (tr_cfg t)"
  have B: "0 < ?B" "0 \<le> ?W" using assms(1) by (auto simp: tracker_cfg_ok_def)
  have "(now - epoch_of t) div ?B \<le> ((at' - epoch_of t) + ?W) div ?B" using B assms(2) by (intro zdiv_mono1) auto
  also have "\<dots> \<le> (at' - epoch_of t) div ?B + ?W div ?B + 1"
  proof -
    have "(a + b) div ?B \<le> a div ?B + b div ?B + 1" for a b :: int
    proof -
      have "a mod ?B + b mod ?B < 2 * ?B" using B by (smt (verit) pos_mod_bound)
      moreover have "2 * ?B \<le> x" if "2 \<le> x div ?B" for x
        using mult_right_mono[OF that, of ?B] div_mult_mod_eq[of x ?B] pos_mod_sign[of ?B x] B by linarith
      ultimately have "(a mod ?B + b mod ?B) div ?B < 2" by (meson not_le)
      then show ?thesis by (simp add: div_add1_eq[of a b])
    qed
    then show ?thesis .
  qed
  finally show ?thesis using B by (simp add: tr_bucket_floor tr_window_def go_div_nonneg)
qed

definition log_le :: "time \<Rightarrow> tracker_run \<Rightarrow> bool" where
  \<comment> \<open>no event is later than \<open>T\<close>\<close>
  "log_le T s \<longleftrightarrow> tr_epoch (tu_t s) = None \<and> (\<forall>k. tu_log s k = []) \<or>
     tr_epoch (tu_t s) \<noteq> None \<and> (\<forall>k. \<forall>e \<in> set (tu_log s k). fst e \<le> tr_bucket (tu_t s) T)"

primrec event_time :: "tracker_event \<Rightarrow> time option" where
  "event_time (EvBegin now k) = Some now"
| "event_time (EvAddCost i c) = None"
| "event_time (EvEnd now i) = Some now"
| "event_time (EvSync now ms) = Some now"
| "event_time (EvOverlay now inp) = Some now"
| "event_time (EvObserve m c) = None"

lemma bucket_cong: "tr_cfg t' = tr_cfg t \<Longrightarrow> tr_epoch t' = tr_epoch t \<Longrightarrow> tr_bucket t' x = tr_bucket t x"
  by (simp add: tr_bucket_def epoch_of_def)

lemma log_bucket_le: "b \<le> B \<Longrightarrow> \<forall>e \<in> set lg. fst e \<le> B \<Longrightarrow> log_bucket lg b \<le> B"
  by (cases "lg = []") (simp_all add: log_bucket_def)

lemma epoch_set: "tr_epoch (setEpoch now t) = Some (case tr_epoch t of None \<Rightarrow> now | Some e \<Rightarrow> e)"
  by (simp add: setEpoch_def split: option.split)

lemma log_le_epoch:
  assumes "log_le T s"
  shows "log_le T (s\<lparr>tu_t := setEpoch now (tu_t s)\<rparr>)"
  using assms bucket_cong[of "setEpoch now (tu_t s)" "tu_t s"] by (cases "tr_epoch (tu_t s)") (auto simp: log_le_def setEpoch_def)

lemma log_le_move:
  \<comment> \<open>the tracker changes, but neither its epoch nor its configuration\<close>
  assumes "log_le T (s\<lparr>tu_t := t\<rparr>)" "tr_cfg t' = tr_cfg t" "tr_epoch t' = tr_epoch t" "\<And>k. set (lg k) \<subseteq> set (tu_log s k)"
  shows "log_le T (s\<lparr>tu_t := t', tu_open := os, tu_log := lg\<rparr>)"
proof (cases "tr_epoch t")
  case None
  then have "\<forall>k. tu_log s k = []" using assms(1) by (simp add: log_le_def)
  then have "\<forall>k. lg k = []" using assms(4) by (metis set_empty subset_empty empty_set)
  then show ?thesis using None assms(3) by (simp add: log_le_def)
next
  case (Some e)
  then have "\<forall>k. \<forall>e \<in> set (tu_log s k). fst e \<le> tr_bucket t T" using assms(1) by (simp add: log_le_def)
  then show ?thesis using Some assms(2-4) bucket_cong[OF assms(2,3), of T] by (auto simp: log_le_def)
qed

lemma log_le_add:
  assumes L: "log_le T (s\<lparr>tu_t := t, tu_log := lg\<rparr>)" and t: "tr_epoch t \<noteq> None" "0 < sg_Bucket (tr_cfg t)" "now \<le> T"
    and t': "tr_cfg t' = tr_cfg t" "tr_epoch t' = tr_epoch t"
  shows "log_le T (s\<lparr>tu_t := t', tu_open := os, tu_log := log_add k (tr_bucket t now) b lg\<rparr>)"
proof -
  have l: "\<forall>e \<in> set (lg k'). fst e \<le> tr_bucket t T" for k' using L t(1) by (auto simp: log_le_def)
  have "log_bucket (lg k) (tr_bucket t now) \<le> tr_bucket t T" by (rule log_bucket_le[OF tr_bucket_mono[OF t(2,3)] l])
  then show ?thesis using l t(1) t' bucket_cong[OF t', of T] by (auto simp: log_le_def log_add_def)
qed

lemma sync_one_frame [simp]: "tr_cfg (sync_one now t m) = tr_cfg t" "tr_epoch (sync_one now t m) = tr_epoch t"
  by (auto simp: sync_one_def Let_def split: option.split)

lemma sync_log_fold: "set (snd (foldl (sync_log now) (t, lg) ms) k) \<subseteq> set (lg k)"
proof (induction ms arbitrary: t lg)
  case (Cons m ms)
  obtain t1 lg1 where s: "sync_log now (t, lg) m = (t1, lg1)" by force
  have "set (lg1 k) \<subseteq> set (lg k)" using s by (auto simp: sync_log_def split: option.splits if_splits)
  then show ?case using Cons.IH[of t1 lg1] s by auto
qed simp

lemma Sync_frame: "tr_cfg (tr_Sync exp2 now ms t) = tr_cfg t" "tr_epoch (tr_Sync exp2 now ms t) = tr_epoch (setEpoch now t)"
proof -
  have "tr_cfg (foldl (sync_one now) t ms) = tr_cfg t \<and> tr_epoch (foldl (sync_one now) t ms) = tr_epoch t" for t by (induction ms arbitrary: t) simp_all
  then show "tr_cfg (tr_Sync exp2 now ms t) = tr_cfg t" "tr_epoch (tr_Sync exp2 now ms t) = tr_epoch (setEpoch now t)"
    by (simp_all add: tr_Sync_def recomputeCapacity_def pruneModels_def Let_def)
qed

lemma AddCost_frame: "tr_AddCost tok c t = (t', ok) \<Longrightarrow> tr_cfg t' = tr_cfg t \<and> tr_epoch t' = tr_epoch t"
  by (auto simp: tr_AddCost_def split: if_splits option.splits)

lemma End_frame: "0 < tk_gen tok \<Longrightarrow> tr_cfg (tr_End now tok c t) = tr_cfg t \<and> tr_epoch (tr_End now tok c t) = tr_epoch (setEpoch now t)"
  by (auto simp: tr_End_def Token_Valid_def Let_def split: option.split)

lemma Begin_frame: "tr_Begin now k t = (t', tok) \<Longrightarrow> tr_cfg t' = tr_cfg t \<and> tr_epoch t' = tr_epoch (setEpoch now t)"
  by (auto simp: tr_Begin_def Let_def split: option.splits)

lemma log_le_step:
  assumes inv: "tracker_inv s" and L: "log_le T s" and time: "\<And>now. event_time x = Some now \<Longrightarrow> now \<le> T"
  shows "log_le T (tracker_step exp2 x s)"
proof -
  have B: "0 < sg_Bucket (tr_cfg (tu_t s))" using inv by (simp add: tracker_inv_def tracker_cfg_ok_def)
  note E = log_le_epoch[OF L]
  have same: "s\<lparr>tu_t := t', tu_open := tu_open s, tu_log := tu_log s\<rparr> = s\<lparr>tu_t := t'\<rparr>" for t' by (cases s) simp
  show ?thesis
  proof (cases x)
    case (EvBegin now k)
    obtain t tok where b: "tr_Begin now k (tu_t s) = (t, tok)" by force
    note F = Begin_frame[OF b]
    define lg where "lg = (if mget (tr_entries (tu_t s)) k = None then (tu_log s)(k := []) else tu_log s)"
    show ?thesis
    proof (cases "Token_Valid tok")
      case True
      let ?t = "setEpoch now (tu_t s)"
      have "log_le T (s\<lparr>tu_t := ?t, tu_open := tu_open s, tu_log := lg\<rparr>)"
        by (rule log_le_move[OF E refl refl]) (auto simp: lg_def)
      moreover have "s\<lparr>tu_t := ?t, tu_open := tu_open s, tu_log := lg\<rparr> = s\<lparr>tu_t := ?t, tu_log := lg\<rparr>" by (cases s) simp
      ultimately have "log_le T (s\<lparr>tu_t := ?t, tu_log := lg\<rparr>)" by simp
      from log_le_add[OF this, where now = now and t' = t and os = "tu_open s @ [(tok, 0)]" and k = k and b = True]
      have "log_le T (s\<lparr>tu_t := t, tu_open := tu_open s @ [(tok, 0)], tu_log := log_add k (tr_bucket ?t now) True lg\<rparr>)"
        using B F time EvBegin by (simp add: epoch_set)
      moreover have "tr_bucket ?t now = tr_bucket t now" using F by (intro bucket_cong) simp_all
      ultimately show ?thesis using True b by (simp add: EvBegin lg_def[symmetric] Let_def)
    next
      case False
      then show ?thesis using b log_le_move[OF E, where t' = t and lg = "tu_log s" and os = "tu_open s"] F same by (simp add: EvBegin Let_def)
    qed
  next
    case (EvAddCost i c)
    show ?thesis
    proof (cases "i < length (tu_open s)")
      case True
      obtain t ok where a: "tr_AddCost (fst (tu_open s ! i)) c (tu_t s) = (t, ok)" by force
      have "log_le T (s\<lparr>tu_t := t, tu_open := os, tu_log := tu_log s\<rparr>)" for os
        by (rule log_le_move[where T = T and s = s and t = "tu_t s"]) (use L AddCost_frame[OF a] in simp_all)
      then show ?thesis using True a by (simp add: EvAddCost Let_def)
    qed (use L EvAddCost in simp)
  next
    case (EvEnd now i)
    show ?thesis
    proof (cases "i < length (tu_open s)")
      case True
      obtain tok c where tc: "tu_open s ! i = (tok, c)" by force
      have g: "0 < tk_gen tok" using open_ok_item[OF _ True tc, of "tr_nextGen (tu_t s)"] inv by (simp add: tracker_inv_def)
      define t where "t = tr_End now tok c (tu_t s)"
      note F = End_frame[OF g, of now c "tu_t s", folded t_def]
      have bt: "tr_bucket (setEpoch now (tu_t s)) now = tr_bucket t now" using F by (intro bucket_cong) simp_all
      have "s\<lparr>tu_t := setEpoch now (tu_t s), tu_log := tu_log s\<rparr> = s\<lparr>tu_t := setEpoch now (tu_t s)\<rparr>" by (cases s) simp
      then have "log_le T (s\<lparr>tu_t := setEpoch now (tu_t s), tu_log := tu_log s\<rparr>)" using E by simp
      from log_le_add[OF this, of now t]
      have 1: "log_le T (s\<lparr>tu_t := t, tu_open := os, tu_log := log_add k (tr_bucket t now) False (tu_log s)\<rparr>)" for os k
        using B F time EvEnd bt by (simp add: epoch_set)
      have 2: "log_le T (s\<lparr>tu_t := t, tu_open := os, tu_log := tu_log s\<rparr>)" for os
        by (rule log_le_move[OF E]) (use F in simp_all)
      show ?thesis using True tc 1 2 by (simp add: EvEnd t_def[symmetric] Let_def split: option.split)
    qed (use L EvEnd in simp)
  next
    case (EvSync now ms)
    let ?lg = "snd (foldl (sync_log now) (setEpoch now (tu_t s), tu_log s) ms)"
    have "log_le T (s\<lparr>tu_t := tr_Sync exp2 now ms (tu_t s), tu_open := tu_open s, tu_log := ?lg\<rparr>)"
      by (rule log_le_move[OF E]) (use sync_log_fold in \<open>simp_all add: Sync_frame\<close>)
    moreover have "s\<lparr>tu_t := t', tu_open := tu_open s, tu_log := ?lg\<rparr> = s\<lparr>tu_t := t', tu_log := ?lg\<rparr>" for t' by (cases s) simp
    ultimately show ?thesis by (simp add: EvSync)
  next
    case (EvOverlay now inp)
    have "log_le T (s\<lparr>tu_t := fst (overlayLocked now inp (tu_t s)), tu_open := tu_open s, tu_log := tu_log s\<rparr>)"
      by (rule log_le_move[OF E]) (simp_all add: Overlay_frame)
    then show ?thesis unfolding same by (simp add: EvOverlay tr_Overlay_def)
  next
    case (EvObserve m c)
    have "log_le T (s\<lparr>tu_t := ObserveCost m c (tu_t s), tu_open := tu_open s, tu_log := tu_log s\<rparr>)"
      by (rule log_le_move[where T = T and s = s and t = "tu_t s"]) (use L in \<open>simp_all add: Observe_frame\<close>)
    then show ?thesis unfolding same by (simp add: EvObserve)
  qed
qed

lemma history_log_le:
  assumes "\<forall>x \<in> set xs. \<forall>t. event_time x = Some t \<longrightarrow> t \<le> T"
  shows "log_le T (tracker_history exp2 cfg xs)"
  using assms
proof (induction xs rule: rev_induct)
  case Nil
  show ?case by (simp add: tracker_history_def log_le_def NewTracker_def Let_def)
next
  case (snoc x xs)
  have "tracker_history exp2 cfg (xs @ [x]) = tracker_step exp2 x (tracker_history exp2 cfg xs)" by (simp add: tracker_history_def)
  then show ?case using log_le_step[OF tracker_history_inv, of T exp2 cfg xs x exp2] snoc by simp
qed

lemma since_ok:
  assumes "hist_rep lg h" "hist_small keep h" "\<forall>e \<in> set lg. fst e - keep \<le> pivot"
  shows "hist_since pivot b h = (log_since b lg pivot, True)"
proof -
  have "\<not> (h_hasDropped h \<and> pivot \<le> h_droppedIdx h)"
  proof
    assume d: "h_hasDropped h \<and> pivot \<le> h_droppedIdx h"
    then have ne: "lg \<noteq> []" using assms(1) by (auto simp: hist_rep_def)
    then have "rec_idx (last (live_recs h)) = fst (last lg)" using assms(1) unfolding hist_rep_def by blast
    then have "h_droppedIdx h < fst (last lg) - keep" using d assms(2) unfolding hist_small_def by auto
    then show False using d assms(3) ne by (meson last_in_set linorder_not_less order.strict_trans2)
  qed
  then show ?thesis unfolding since_spec[OF assms(1)] by simp
qed

text \<open>C15: the overlay is the report, corrected. In every history of calls none of which reads a later clock, for a tracked worker whose report is
  inside the window, the effective active count is the reported one plus the starts and minus the finishes of this gateway in the buckets
  since the report, never below the requests this gateway holds there and capped at the largest count; the history always reaches back far enough.
  Whatever the input, the count is never below the gateway's own.\<close>

theorem overlay_corrects_report:
  assumes s: "s = tracker_history exp2 cfg xs" and clock: "\<forall>x \<in> set xs. \<forall>t. event_time x = Some t \<longrightarrow> t \<le> now"
    and e: "mget (tr_entries (tu_t s)) (in_Key inp) = Some e"
    and rep: "r = min (in_At inp) now" "te_validFrom e \<le> r" "now - r \<le> sg_Window (tr_cfg (tu_t s))"
    and b: "b = tr_bucket (setEpoch now (tu_t s)) r"
  shows "rs_Fallback (snd (tr_Overlay now inp (tu_t s))) = FallbackNone
    \<and> rs_Active (snd (tr_Overlay now inp (tu_t s))) =
        min (max (clampCount (in_Reported inp) + int (log_since True (tu_log s (in_Key inp)) b) - int (log_since False (tu_log s (in_Key inp)) b))
                 (clampCount (in_Local inp))) maxCount
    \<and> clampCount (in_Local i2) \<le> rs_Active (snd (tr_Overlay t2 i2 (tu_t s)))"
proof -
  let ?t = "setEpoch now (tu_t s)" and ?lg = "tu_log s (in_Key inp)"
  have inv: "tracker_inv s" unfolding s by (rule tracker_history_inv)
  have L: "log_le now (s\<lparr>tu_t := ?t\<rparr>)" using log_le_epoch history_log_le[OF clock] by (simp add: s)
  have cfg: "tracker_cfg_ok (tr_cfg ?t)" using inv by (simp add: tracker_inv_def)
  have core: "hist_rep ?lg (te_hist e)" "hist_small (tr_window ?t) (te_hist e)" using inv e by (auto simp: tracker_inv_def core_ok_def te_core_def)
  have old: "\<forall>x \<in> set ?lg. fst x - tr_window ?t \<le> b"
  proof
    fix x assume "x \<in> set ?lg"
    then have "fst x \<le> tr_bucket ?t now" using L by (auto simp: log_le_def)
    then show "fst x - tr_window ?t \<le> b" using tr_bucket_window[OF cfg, of now r] rep(3) b by simp
  qed
  have since: "hist_since b x (te_hist e) = (log_since x ?lg b, True)" for x by (rule since_ok[OF core old])
  have r: "(if in_At inp > now then now else in_At inp) = r" using rep(1) by auto
  have ok: "\<not> (r < te_validFrom e \<or> sg_Window (tr_cfg ?t) < now - r)" using rep(2,3) by simp
  have main: "tr_Overlay now inp (tu_t s) = (?t, \<lparr>rs_Active = min (max (clampCount (in_Reported inp) + int (log_since True ?lg b) - int (log_since False ?lg b))
      (clampCount (in_Local inp))) maxCount, rs_Inflight = te_inflight e, rs_Work = te_work e, rs_Fallback = FallbackNone, rs_Capacity = te_capR e,
      rs_CapacityPrior = te_capPrior e \<or> fle (te_capR e) (Fin 0)\<rparr>)"
    using e ok by (simp add: tr_Overlay_def overlayLocked_def Let_def r b[symmetric] finishLag_def since)
  have "clampCount (in_Local i2) \<le> rs_Active (snd (tr_Overlay t2 i2 (tu_t s)))"
    by (auto simp: tr_Overlay_def overlayLocked_def Let_def clampCount_def maxCount_def split: option.split prod.split)
  then show ?thesis unfolding main by simp
qed

definition sample_input :: sig_input where
  "sample_input = \<lparr>in_Key = sample_key, in_Local = 1, in_Reported = 4, in_At = 200\<rparr>"

theorem overlay_corrects_report_witness:
  "rs_Active (snd (tr_Overlay 400 sample_input (tu_t (tracker_history id sample_cfg sample_calls)))) = 4"
proof -
  let ?s = "tracker_history id sample_cfg sample_calls"
  let ?e = "the (mget (tr_entries (tu_t ?s)) (in_Key sample_input))"
  have e: "mget (tr_entries (tu_t ?s)) (in_Key sample_input) = Some ?e" "te_validFrom ?e \<le> 200" "400 - 200 \<le> sg_Window (tr_cfg (tu_t ?s))"
    by code_simp+
  have clock: "\<forall>x \<in> set sample_calls. \<forall>t. event_time x = Some t \<longrightarrow> t \<le> 400" by (simp add: sample_calls_def)
  have r: "200 = min (in_At sample_input) 400" by (simp add: sample_input_def)
  have v: "min (max (clampCount (in_Reported sample_input)
      + int (log_since True (tu_log ?s (in_Key sample_input)) (tr_bucket (setEpoch 400 (tu_t ?s)) 200))
      - int (log_since False (tu_log ?s (in_Key sample_input)) (tr_bucket (setEpoch 400 (tu_t ?s)) 200))) (clampCount (in_Local sample_input))) maxCount = 4"
    by code_simp
  show ?thesis using overlay_corrects_report[OF refl clock e(1) r e(2,3) refl] unfolding v by blast
qed

end
