(* ===== verification/AuthKey.thy ===== *)
theory AuthKey
  imports Go_Base
begin

text \<open>
  The API key format of \<^verbatim>\<open>internal/auth/key.go\<close> and the random identifiers of \<^verbatim>\<open>pkg/protocol/ids.go\<close>. Byte slices are
  strings; the random bytes are arguments and \<^verbatim>\<open>sha256.Sum256\<close> is a parameter. The standard encoders are written out: lower-case hex, and base64url
  without padding with the strict decoder, which still skips line breaks.
\<close>

section \<open>Hexadecimal and base64url\<close>

definition lower_hex :: string where
  "lower_hex = ''0123456789abcdef''"

definition hex_encode :: "string \<Rightarrow> string" where
  "hex_encode s = concat (map (\<lambda>c. [lower_hex ! (of_char c div 16), lower_hex ! (of_char c mod 16)]) s)"

definition b64_alphabet :: string where
  "b64_alphabet = ''ABCDEFGHIJKLMNOPQRSTUVWXYZabcdefghijklmnopqrstuvwxyz0123456789-_''"

definition b64_digit :: "nat \<Rightarrow> char" where
  "b64_digit n = b64_alphabet ! n"

definition b64_value :: "char \<Rightarrow> nat option" where
  "b64_value c = map_of (zip b64_alphabet [0..<64]) c"

fun b64_encode :: "string \<Rightarrow> string" where
  "b64_encode [] = []"
| "b64_encode [a] = [b64_digit (of_char a div 4), b64_digit (of_char a mod 4 * 16)]"
| "b64_encode [a, b] = [b64_digit (of_char a div 4), b64_digit (of_char a mod 4 * 16 + of_char b div 16), b64_digit (of_char b mod 16 * 4)]"
| "b64_encode (a # b # c # s) = [b64_digit (of_char a div 4), b64_digit (of_char a mod 4 * 16 + of_char b div 16),
     b64_digit (of_char b mod 16 * 4 + of_char c div 64), b64_digit (of_char c mod 64)] @ b64_encode s"

fun b64_quanta :: "string \<Rightarrow> string option" where
  "b64_quanta [] = Some []"
| "b64_quanta [_] = None"
| "b64_quanta [x, y] =
     (case (b64_value x, b64_value y) of
        (Some u, Some v) \<Rightarrow> if v mod 16 \<noteq> 0 then None else Some [char_of (u * 4 + v div 16)]
      | _ \<Rightarrow> None)"
| "b64_quanta [x, y, z] =
     (case (b64_value x, b64_value y, b64_value z) of
        (Some u, Some v, Some w) \<Rightarrow> if w mod 4 \<noteq> 0 then None else Some [char_of (u * 4 + v div 16), char_of (v mod 16 * 16 + w div 4)]
      | _ \<Rightarrow> None)"
| "b64_quanta (x # y # z # t # s) =
     (case (b64_value x, b64_value y, b64_value z, b64_value t) of
        (Some u, Some v, Some w, Some q) \<Rightarrow>
          map_option (\<lambda>r. [char_of (u * 4 + v div 16), char_of (v mod 16 * 16 + w div 4), char_of (w mod 4 * 64 + q)] @ r) (b64_quanta s)
      | _ \<Rightarrow> None)"

definition b64_decode :: "string \<Rightarrow> string option" where
  \<comment> \<open>\<^verbatim>\<open>base64.RawURLEncoding.Strict().DecodeString\<close>\<close>
  "b64_decode s = b64_quanta (filter (\<lambda>c. c \<noteq> CHR 0x0D \<and> c \<noteq> CHR 0x0A) s)"

section \<open>Keys\<close>

definition keyScheme :: string where "keyScheme = ''sf_''"
definition prefixHexLen :: nat where "prefixHexLen = 8"
definition secretBytes :: nat where "secretBytes = 32"
definition secretEncLen :: nat where "secretEncLen = 43"
definition keyLen :: nat where "keyLen = length keyScheme + prefixHexLen + 1 + secretEncLen"
definition hashLen :: nat where "hashLen = 32"
definition prefixSepByte :: char where "prefixSepByte = CHR ''_''"

datatype key_error = ErrMalformedKey

definition GenerateKey :: "(string \<Rightarrow> string) \<Rightarrow> string \<Rightarrow> string \<Rightarrow> string \<times> string \<times> string" where
  \<comment> \<open>from the random bytes of the prefix and of the secret: the key, its prefix and the hash of its secret\<close>
  "GenerateKey sha256 p s =
     (let prefix = hex_encode p; secret = b64_encode s; h = sha256 s
      in (keyScheme @ prefix @ ''_'' @ secret, prefix, h))"

definition validPrefix :: "string \<Rightarrow> bool" where
  "validPrefix s \<longleftrightarrow> length s = prefixHexLen
     \<and> list_all (\<lambda>c. \<not> (((of_char c :: nat) < of_char CHR ''0'' \<or> (of_char c :: nat) > of_char CHR ''9'')
                       \<and> ((of_char c :: nat) < of_char CHR ''a'' \<or> (of_char c :: nat) > of_char CHR ''f''))) s"

definition ParseKey :: "(string \<Rightarrow> string) \<Rightarrow> string \<Rightarrow> key_error + (string \<times> string)" where
  "ParseKey sha256 key =
     (if length key \<noteq> keyLen \<or> take (length keyScheme) key \<noteq> keyScheme \<or> key ! (length keyScheme + prefixHexLen) \<noteq> prefixSepByte
      then Inl ErrMalformedKey
      else let prefix = take prefixHexLen (drop (length keyScheme) key) in
        if \<not> validPrefix prefix then Inl ErrMalformedKey
        else let enc = drop (length keyScheme + prefixHexLen + 1) key in
          case b64_decode enc of
            None \<Rightarrow> Inl ErrMalformedKey
          | Some raw \<Rightarrow> if length raw \<noteq> secretBytes then Inl ErrMalformedKey else Inr (prefix, sha256 raw))"

definition HashesEqual :: "string \<Rightarrow> string \<Rightarrow> bool" where
  "HashesEqual a b \<longleftrightarrow> length a = hashLen \<and> length b = hashLen \<and> a = b"

section \<open>Identifiers\<close>

definition newID :: "string \<Rightarrow> string \<Rightarrow> string" where
  "newID prefix b = prefix @ hex_encode b"

definition NewRequestID :: "string \<Rightarrow> string" where
  "NewRequestID b = newID ''req_'' b"

definition NewAttemptID :: "string \<Rightarrow> string" where
  "NewAttemptID b = newID ''att_'' b"

section \<open>Round trips\<close>

lemma b64_value_digit: "n < 64 \<Longrightarrow> b64_value (b64_digit n) = Some n"
proof -
  have "\<forall>n \<in> set [0..<64]. b64_value (b64_digit n) = Some n" by code_simp
  then show "n < 64 \<Longrightarrow> ?thesis" by simp
qed

lemma b64_digit_value: "b64_value c = Some n \<Longrightarrow> n < 64 \<and> b64_digit n = c"
proof -
  assume "b64_value c = Some n"
  then have "(c, n) \<in> set (zip b64_alphabet [0..<64])" unfolding b64_value_def by (rule map_of_SomeD)
  moreover have "\<forall>(c, n) \<in> set (zip b64_alphabet [0..<64]). n < 64 \<and> b64_digit n = c" by code_simp
  ultimately show ?thesis by blast
qed

lemma byte_parts: "of_char c div 4 < (64::nat)" "of_char c div 16 < (16::nat)" "of_char c div 64 < (4::nat)"
    "of_char c mod 4 < (4::nat)" "of_char c mod 16 < (16::nat)" "of_char c mod 64 < (64::nat)"
  using of_char_less[of c] by (simp_all add: less_mult_imp_div_less)

lemma sextets: "of_char a mod 4 * 16 + of_char b div 16 < (64::nat)" "of_char b mod 16 * 4 + of_char c div 64 < (64::nat)"
    "of_char a mod 4 * 16 < (64::nat)" "of_char b mod 16 * 4 < (64::nat)"
  using byte_parts[of a] byte_parts[of b] byte_parts[of c] by linarith+

lemma split_sum: "b < (m::nat) \<Longrightarrow> (a * m + b) div m = a" "b < (m::nat) \<Longrightarrow> (a * m + b) mod m = b"
  by simp_all

lemma bytes_back: "of_char a div 4 * 4 + (of_char a mod 4 * 16 + of_char b div 16) div 16 = (of_char a :: nat)"
    "(of_char a mod 4 * 16 + of_char b div 16) mod 16 * 16 + (of_char b mod 16 * 4 + of_char c div 64) div 4 = (of_char b :: nat)"
    "(of_char b mod 16 * 4 + of_char c div 64) mod 4 * 64 + of_char c mod 64 = (of_char c :: nat)"
    "of_char a div 4 * 4 + of_char a mod 4 * 16 div 16 = (of_char a :: nat)"
    "(of_char a mod 4 * 16 + of_char b div 16) mod 16 * 16 + of_char b mod 16 * 4 div 4 = (of_char b :: nat)"
  using byte_parts[of a] byte_parts[of b] byte_parts[of c] by (simp_all only: split_sum nonzero_mult_div_cancel_right div_mult_mod_eq)

lemma quanta_encode: "b64_quanta (b64_encode s) = Some s"
proof (induction s rule: b64_encode.induct)
  case (4 a b c s)
  show ?case by (simp only: b64_encode.simps append_Cons append_Nil b64_quanta.simps b64_value_digit[OF byte_parts(1)] b64_value_digit[OF sextets(1)]
        b64_value_digit[OF sextets(2)] b64_value_digit[OF byte_parts(6)] option.case prod.case bytes_back 4 option.map char_of_char)
next
  case (2 a)
  show ?case by (simp only: b64_encode.simps b64_quanta.simps b64_value_digit[OF byte_parts(1)] b64_value_digit[OF sextets(3)]
        option.case prod.case bytes_back char_of_char) simp
next
  case (3 a b)
  show ?case by (simp only: b64_encode.simps b64_quanta.simps b64_value_digit[OF byte_parts(1)] b64_value_digit[OF sextets(1)] b64_value_digit[OF sextets(4)]
        option.case prod.case bytes_back char_of_char) simp
qed simp

lemma sextet_bytes:
  assumes "u < 64" "v < 64" "w < 64" "q < (64::nat)"
  shows "(of_char (char_of (u * 4 + v div 16) :: char) :: nat) = u * 4 + v div 16"
    "(of_char (char_of (v mod 16 * 16 + w div 4) :: char) :: nat) = v mod 16 * 16 + w div 4"
    "(of_char (char_of (w mod 4 * 64 + q) :: char) :: nat) = w mod 4 * 64 + q"
    "(u * 4 + v div 16) div 4 = u" "(u * 4 + v div 16) mod 4 * 16 + (v mod 16 * 16 + w div 4) div 16 = v"
    "(v mod 16 * 16 + w div 4) mod 16 * 4 + (w mod 4 * 64 + q) div 64 = w" "(w mod 4 * 64 + q) mod 64 = q"
proof -
  have d: "v div 16 < 4" "w div 4 < 16" "v mod 16 < 16" "w mod 4 < 4" using assms by (simp_all add: less_mult_imp_div_less)
  have "u * 4 + v div 16 < 256" "v mod 16 * 16 + w div 4 < 256" "w mod 4 * 64 + q < 256" using d assms by linarith+
  then show "(of_char (char_of (u * 4 + v div 16) :: char) :: nat) = u * 4 + v div 16"
    "(of_char (char_of (v mod 16 * 16 + w div 4) :: char) :: nat) = v mod 16 * 16 + w div 4"
    "(of_char (char_of (w mod 4 * 64 + q) :: char) :: nat) = w mod 4 * 64 + q" by (simp_all add: of_char_of)
  show "(u * 4 + v div 16) div 4 = u" "(w mod 4 * 64 + q) mod 64 = q" using d assms by (simp_all only: split_sum)
  show "(u * 4 + v div 16) mod 4 * 16 + (v mod 16 * 16 + w div 4) div 16 = v" "(v mod 16 * 16 + w div 4) mod 16 * 4 + (w mod 4 * 64 + q) div 64 = w"
    using d assms by (simp_all only: split_sum) simp_all
qed

lemma encode_quanta: "b64_quanta s = Some r \<Longrightarrow> s = b64_encode r"
proof (induction s arbitrary: r rule: b64_quanta.induct)
  case (3 x y)
  obtain u v where uv: "b64_value x = Some u" "b64_value y = Some v" "v mod 16 = 0" "r = [char_of (u * 4 + v div 16)]"
    using "3.prems" by (auto split: option.splits if_splits)
  have d: "u < 64" "b64_digit u = x" "v < 64" "b64_digit v = y" using b64_digit_value[OF uv(1)] b64_digit_value[OF uv(2)] by blast+
  note S = sextet_bytes[OF d(1,3), of 0 0, simplified]
  have "(u * 4 + v div 16) mod 4 * 16 = v" using S(5) uv(3) by simp
  then show ?case using S(1,4) d uv(4) by simp
next
  case (4 x y z)
  obtain u v w where uv: "b64_value x = Some u" "b64_value y = Some v" "b64_value z = Some w" "w mod 4 = 0"
      "r = [char_of (u * 4 + v div 16), char_of (v mod 16 * 16 + w div 4)]"
    using "4.prems" by (auto split: option.splits if_splits)
  have d: "u < 64" "b64_digit u = x" "v < 64" "b64_digit v = y" "w < 64" "b64_digit w = z"
    using b64_digit_value[OF uv(1)] b64_digit_value[OF uv(2)] b64_digit_value[OF uv(3)] by blast+
  note S = sextet_bytes[OF d(1,3,5), of 0]
  have "(v mod 16 * 16 + w div 4) mod 16 * 4 = w" using S(6) uv(4) by simp
  then show ?case using S d uv(5) by simp
next
  case (5 x y z t s)
  obtain u v w q r' where uv: "b64_value x = Some u" "b64_value y = Some v" "b64_value z = Some w" "b64_value t = Some q" "b64_quanta s = Some r'"
      "r = [char_of (u * 4 + v div 16), char_of (v mod 16 * 16 + w div 4), char_of (w mod 4 * 64 + q)] @ r'"
    using "5.prems" by (auto split: option.splits if_splits)
  have d: "u < 64" "b64_digit u = x" "v < 64" "b64_digit v = y" "w < 64" "b64_digit w = z" "q < 64" "b64_digit q = t"
    using b64_digit_value[OF uv(1)] b64_digit_value[OF uv(2)] b64_digit_value[OF uv(3)] b64_digit_value[OF uv(4)] by blast+
  have "s = b64_encode r'" by (rule "5.IH"[OF _ _ _ _ _ _ _ uv(5)]) (use uv in simp_all)
  then show ?case by (simp only: uv(6) append_Cons append_Nil b64_encode.simps sextet_bytes[OF d(1,3,5,7)] d)
qed auto

lemma b64_length: "length (b64_encode s) = (4 * length s + 2) div 3"
  by (induction s rule: b64_encode.induct) simp_all

lemma b64_digit_plain: "n < 64 \<Longrightarrow> b64_digit n \<noteq> CHR 0x0D \<and> b64_digit n \<noteq> CHR 0x0A"
proof -
  have "\<forall>n \<in> set [0..<64]. b64_digit n \<noteq> CHR 0x0D \<and> b64_digit n \<noteq> CHR 0x0A" by code_simp
  then show "n < 64 \<Longrightarrow> ?thesis" by simp
qed

lemma b64_encode_plain: "filter (\<lambda>c. c \<noteq> CHR 0x0D \<and> c \<noteq> CHR 0x0A) (b64_encode s) = b64_encode s"
proof (induction s rule: b64_encode.induct)
  case (2 a)
  show ?case using b64_digit_plain[OF byte_parts(1)] b64_digit_plain[OF sextets(3)] by simp
next
  case (3 a b)
  show ?case using b64_digit_plain[OF byte_parts(1)] b64_digit_plain[OF sextets(1)] b64_digit_plain[OF sextets(4)] by simp
next
  case (4 a b c s)
  then show ?case
    using b64_digit_plain[OF byte_parts(1)] b64_digit_plain[OF sextets(1)] b64_digit_plain[OF sextets(2)] b64_digit_plain[OF byte_parts(6)] by simp
qed simp

lemma b64_decode_encode: "b64_decode (b64_encode s) = Some s"
  unfolding b64_decode_def b64_encode_plain by (rule quanta_encode)

lemma b64_encode_decode:
  assumes "b64_decode e = Some s" "length e = (4 * length s + 2) div 3"
  shows "e = b64_encode s"
proof -
  let ?P = "\<lambda>c. c \<noteq> CHR 0x0D \<and> c \<noteq> CHR 0x0A"
  have f: "filter ?P e = b64_encode s" using encode_quanta assms(1) by (simp add: b64_decode_def)
  then have n: "length (filter ?P e) = length e" using assms(2) b64_length by simp
  have "?P c" if "c \<in> set e" for c
  proof (rule ccontr)
    assume "\<not> ?P c"
    from length_filter_less[where P = ?P, OF that this] show False using n by simp
  qed
  then have "filter ?P e = e" by (rule filter_True[OF ballI])
  then show ?thesis unfolding f by (rule sym)
qed

lemma lower_hex_digit: "n < 16 \<Longrightarrow> \<not> ((of_char (lower_hex ! n) < (48::nat) \<or> (57::nat) < of_char (lower_hex ! n)) \<and> (of_char (lower_hex ! n) < (97::nat) \<or> (102::nat) < of_char (lower_hex ! n)))"
proof -
  have "\<forall>n \<in> set [0..<16]. \<not> ((of_char (lower_hex ! n) < (48::nat) \<or> (57::nat) < of_char (lower_hex ! n)) \<and> (of_char (lower_hex ! n) < (97::nat) \<or> (102::nat) < of_char (lower_hex ! n)))"
    by code_simp
  then show "n < 16 \<Longrightarrow> ?thesis" by simp
qed

lemma hex_length: "length (hex_encode s) = 2 * length s"
  by (induction s) (simp_all add: hex_encode_def)

lemma hex_prefix_valid: "length p = 4 \<Longrightarrow> validPrefix (hex_encode p)"
proof -
  have "\<not> ((of_char c < (48::nat) \<or> (57::nat) < of_char c) \<and> (of_char c < (97::nat) \<or> (102::nat) < of_char c))" if c: "c \<in> set (hex_encode p)" for c
  proof -
    obtain x where "c = lower_hex ! (of_char x div 16) \<or> c = lower_hex ! (of_char x mod 16)" using c by (auto simp: hex_encode_def)
    then show ?thesis using lower_hex_digit[OF byte_parts(2)[of x]] lower_hex_digit[OF byte_parts(5)[of x]] by blast
  qed
  then show "length p = 4 \<Longrightarrow> ?thesis" by (simp add: validPrefix_def hex_length prefixHexLen_def list_all_iff)
qed

lemmas key_format = keyLen_def keyScheme_def prefixHexLen_def secretEncLen_def secretBytes_def prefixSepByte_def

lemma keyScheme_length [simp]: "length keyScheme = 3"
  by (simp add: keyScheme_def)

lemma parse_printed:
  assumes "validPrefix p" "length raw = secretBytes"
  shows "ParseKey sha256 (keyScheme @ p @ ''_'' @ b64_encode raw) = Inr (p, sha256 raw)"
proof -
  have l: "length p = 8" using assms(1) by (simp add: validPrefix_def prefixHexLen_def)
  have n: "length (b64_encode raw) = 43" using assms(2) by (simp add: b64_length secretBytes_def)
  let ?k = "keyScheme @ p @ ''_'' @ b64_encode raw"
  have "length ?k = keyLen" "take 3 ?k = keyScheme" "?k ! 11 = prefixSepByte" "take 8 (drop 3 ?k) = p" "drop 12 ?k = b64_encode raw"
    using l n by (simp_all add: key_format nth_append)
  then show ?thesis using assms by (simp add: ParseKey_def Let_def b64_decode_encode prefixHexLen_def)
qed

lemma parsed_prints:
  assumes "ParseKey sha256 key = Inr (p, h)"
  shows "\<exists>raw. length raw = secretBytes \<and> validPrefix p \<and> key = keyScheme @ p @ ''_'' @ b64_encode raw \<and> h = sha256 raw"
proof -
  obtain raw where k: "length key = keyLen" "take 3 key = keyScheme" "key ! 11 = prefixSepByte" "p = take 8 (drop 3 key)" "validPrefix p"
      "b64_decode (drop 12 key) = Some raw" "length raw = secretBytes" "h = sha256 raw"
    using assms by (auto simp: ParseKey_def Let_def prefixHexLen_def split: if_splits option.splits)
  have "drop 12 key = b64_encode raw" using k(1,7) by (intro b64_encode_decode[OF k(6)]) (simp add: key_format)
  moreover have "key = take 3 key @ take 8 (drop 3 key) @ key ! 11 # drop 12 key"
  proof -
    have "drop 11 key = key ! 11 # drop 12 key" using Cons_nth_drop_Suc[of 11 key] k(1) by (simp add: key_format)
    moreover have "drop 3 key = take 8 (drop 3 key) @ drop 11 key" using append_take_drop_id[of 8 "drop 3 key"] by simp
    ultimately show ?thesis by (metis append_take_drop_id)
  qed
  ultimately show ?thesis using k by (auto simp: prefixSepByte_def)
qed

text \<open>C35: keys survive the trip to the client and back, in one spelling only. A generated key parses to exactly the prefix and the hash that are stored
  for it; conversely whatever text parses is the one printed form of a valid prefix and a 32-byte secret, so no two texts name the same key. In particular no
  text with line breaks, upper-case hex, padding or stray low bits parses, although the base64 decoder skips line breaks.\<close>

theorem key_roundtrip:
  assumes "length p = prefixHexLen div 2" "length s = secretBytes"
  shows "ParseKey sha256 (fst (GenerateKey sha256 p s)) = Inr (snd (GenerateKey sha256 p s))
    \<and> (ParseKey sha256 key = Inr (pr, h) \<longleftrightarrow>
        (\<exists>raw. length raw = secretBytes \<and> validPrefix pr \<and> key = keyScheme @ pr @ ''_'' @ b64_encode raw \<and> h = sha256 raw))
    \<and> (ParseKey id key = Inr (pr, h) \<longrightarrow> ParseKey id key2 = Inr (pr, h) \<longrightarrow> key2 = key)"
proof -
  have v: "validPrefix (hex_encode p)" using assms(1) by (intro hex_prefix_valid) (simp add: prefixHexLen_def)
  have "ParseKey sha256 (fst (GenerateKey sha256 p s)) = Inr (snd (GenerateKey sha256 p s))"
    using parse_printed[OF v assms(2)] by (simp add: GenerateKey_def Let_def)
  moreover have "ParseKey sha256 key = Inr (pr, h) \<longleftrightarrow>
      (\<exists>raw. length raw = secretBytes \<and> validPrefix pr \<and> key = keyScheme @ pr @ ''_'' @ b64_encode raw \<and> h = sha256 raw)"
    using parsed_prints parse_printed by blast
  moreover have "key2 = key" if "ParseKey id key = Inr (pr, h)" "ParseKey id key2 = Inr (pr, h)"
    using parsed_prints[OF that(1)] parsed_prints[OF that(2)] by auto
  ultimately show ?thesis by blast
qed

definition sample_secret :: string where
  "sample_secret = replicate 32 (CHR 0xFF)"

theorem key_roundtrip_witness:
  "ParseKey id (keyScheme @ ''01020304'' @ ''_'' @ b64_encode sample_secret) = Inr (''01020304'', sample_secret)"
proof -
  have "length [CHR 0x01, CHR 0x02, CHR 0x03, CHR 0x04] = prefixHexLen div 2" "length sample_secret = secretBytes"
    by (simp_all add: prefixHexLen_def sample_secret_def secretBytes_def)
  note key_roundtrip[OF this, of id, THEN conjunct1]
  then have "ParseKey id (fst (GenerateKey id [CHR 0x01, CHR 0x02, CHR 0x03, CHR 0x04] sample_secret))
      = Inr (snd (GenerateKey id [CHR 0x01, CHR 0x02, CHR 0x03, CHR 0x04] sample_secret))" .
  moreover have "hex_encode [CHR 0x01, CHR 0x02, CHR 0x03, CHR 0x04] = ''01020304''" by (simp add: hex_encode_def lower_hex_def)
  ultimately show ?thesis by (simp only: GenerateKey_def Let_def fst_conv snd_conv id_apply)
qed

end
