(* ===== verification/Lru.thy ===== *)
theory Lru
  imports Go_Base
begin

text \<open>
  \<^verbatim>\<open>internal/auth/lru.go\<close>: the bounded least-recently-used map. The elements of \<^verbatim>\<open>container/list\<close> are indices into the
  elements allocated so far; \<^verbatim>\<open>order\<close> holds the linked ones, front first, and \<^verbatim>\<open>items\<close> the element of each key. The clients of the cache rely on
  an interface of laws, which the cache is shown to keep.
\<close>

section \<open>Operations\<close>

record 'v lru =
  lru_max :: int
  lru_order :: "nat list"
  lru_items :: "(string, nat) gomap"
  lru_elems :: "(string \<times> 'v) list" \<comment> \<open>the elements with their \<^verbatim>\<open>lruItem\<close>\<close>

definition newLRU :: "int \<Rightarrow> 'v lru" where
  "newLRU n = \<lparr>lru_max = n, lru_order = [], lru_items = [], lru_elems = []\<rparr>"

definition MoveToFront :: "nat \<Rightarrow> nat list \<Rightarrow> nat list" where
  "MoveToFront el l = el # remove1 el l"

definition lru_get :: "string \<Rightarrow> 'v lru \<Rightarrow> 'v lru \<times> 'v option" where
  "lru_get key c =
     (case mget (lru_items c) key of
        Some el \<Rightarrow> (c\<lparr>lru_order := MoveToFront el (lru_order c)\<rparr>, Some (snd (lru_elems c ! el)))
      | None \<Rightarrow> (c, None))"

function lru_evict :: "'v lru \<Rightarrow> 'v lru" where
  \<comment> \<open>the loop of \<^verbatim>\<open>put\<close>; the list is not empty there, since \<^verbatim>\<open>max\<close> is positive\<close>
  "lru_evict c =
     (if int (length (lru_order c)) > lru_max c \<and> lru_order c \<noteq> []
      then let el = last (lru_order c)
           in lru_evict (c\<lparr>lru_items := mdel (fst (lru_elems c ! el)) (lru_items c), lru_order := remove1 el (lru_order c)\<rparr>)
      else c)"
  by pat_completeness auto
termination
  by (relation "measure (\<lambda>c. length (lru_order c))") (auto simp: length_remove1)

declare lru_evict.simps [simp del]

definition lru_put :: "string \<Rightarrow> 'v \<Rightarrow> 'v lru \<Rightarrow> 'v lru" where
  "lru_put key val c =
     (case mget (lru_items c) key of
        Some el \<Rightarrow> c\<lparr>lru_elems := (lru_elems c)[el := (fst (lru_elems c ! el), val)], lru_order := MoveToFront el (lru_order c)\<rparr>
      | None \<Rightarrow> lru_evict (c\<lparr>lru_elems := lru_elems c @ [(key, val)], lru_items := mput key (length (lru_elems c)) (lru_items c),
                            lru_order := length (lru_elems c) # lru_order c\<rparr>))"

definition lru_remove :: "string \<Rightarrow> 'v lru \<Rightarrow> 'v lru" where
  "lru_remove key c =
     (case mget (lru_items c) key of
        Some el \<Rightarrow> c\<lparr>lru_items := mdel key (lru_items c), lru_order := remove1 el (lru_order c)\<rparr>
      | None \<Rightarrow> c)"

definition lru_len :: "'v lru \<Rightarrow> nat" where
  "lru_len c = length (lru_order c)"

section \<open>The recency list\<close>

definition lru_list :: "'v lru \<Rightarrow> (string \<times> 'v) list" where
  \<comment> \<open>the contents, most recently used first\<close>
  "lru_list c = map (\<lambda>el. lru_elems c ! el) (lru_order c)"

definition lru_wf :: "'v lru \<Rightarrow> bool" where
  "lru_wf c \<longleftrightarrow> 0 < lru_max c \<and> distinct (lru_order c) \<and> (\<forall>el \<in> set (lru_order c). el < length (lru_elems c))
     \<and> mok (lru_list c) \<and> (\<forall>k el. mget (lru_items c) k = Some el \<longleftrightarrow> el \<in> set (lru_order c) \<and> fst (lru_elems c ! el) = k)"

definition lru_ok :: "'v lru \<Rightarrow> bool" where
  "lru_ok c \<longleftrightarrow> lru_wf c \<and> int (lru_len c) \<le> lru_max c"

abbreviation without :: "'k \<Rightarrow> ('k \<times> 'v) list \<Rightarrow> ('k \<times> 'v) list" where
  "without k l \<equiv> filter (\<lambda>q. fst q \<noteq> k) l"

definition spec_get :: "string \<Rightarrow> (string \<times> 'v) list \<Rightarrow> (string \<times> 'v) list \<times> 'v option" where
  "spec_get k l = (case map_of l k of Some v \<Rightarrow> ((k, v) # without k l, Some v) | None \<Rightarrow> (l, None))"

definition spec_put :: "nat \<Rightarrow> string \<Rightarrow> 'v \<Rightarrow> (string \<times> 'v) list \<Rightarrow> (string \<times> 'v) list" where
  "spec_put n k v l = take n ((k, v) # without k l)"

lemma lru_list_item: "lru_wf c \<Longrightarrow> mget (lru_items c) k = Some el \<Longrightarrow> map_of (lru_list c) k = Some (snd (lru_elems c ! el))"
proof -
  assume ok: "lru_wf c" and "mget (lru_items c) k = Some el"
  then have "el \<in> set (lru_order c)" "fst (lru_elems c ! el) = k" by (auto simp: lru_wf_def)
  then have "(k, snd (lru_elems c ! el)) \<in> set (lru_list c)" by (auto simp: lru_list_def image_iff intro!: bexI[of _ el])
  then show ?thesis using ok by (simp add: lru_wf_def mok_def map_of_eq_Some_iff)
qed

lemma lru_list_none: "lru_wf c \<Longrightarrow> mget (lru_items c) k = None \<Longrightarrow> map_of (lru_list c) k = None \<and> without k (lru_list c) = lru_list c"
proof -
  assume ok: "lru_wf c" and n: "mget (lru_items c) k = None"
  have "\<forall>el \<in> set (lru_order c). fst (lru_elems c ! el) \<noteq> k"
  proof
    fix el assume "el \<in> set (lru_order c)"
    then have "mget (lru_items c) (fst (lru_elems c ! el)) = Some el" using ok by (simp add: lru_wf_def)
    then show "fst (lru_elems c ! el) \<noteq> k" using n by auto
  qed
  then have "\<forall>q \<in> set (lru_list c). fst q \<noteq> k" by (auto simp: lru_list_def)
  then show ?thesis by (auto simp: map_of_eq_None_iff intro!: filter_True)
qed

lemma without_elem:
  assumes "lru_wf c" "mget (lru_items c) k = Some el"
  shows "map (\<lambda>e. lru_elems c ! e) (remove1 el (lru_order c)) = without k (lru_list c)"
proof -
  have uniq: "fst (lru_elems c ! e) = k \<longleftrightarrow> e = el" if "e \<in> set (lru_order c)" for e
    using assms that by (metis (mono_tags, lifting) lru_wf_def option.inject)
  have "remove1 el (lru_order c) = filter (\<lambda>e. e \<noteq> el) (lru_order c)" using assms(1) by (simp add: lru_wf_def distinct_remove1_removeAll removeAll_filter_not_eq eq_commute[of el])
  also have "\<dots> = filter (\<lambda>e. fst (lru_elems c ! e) \<noteq> k) (lru_order c)" using uniq by (intro filter_cong) auto
  finally show ?thesis by (simp add: lru_list_def filter_map comp_def)
qed

lemma without_mok: "mok l \<Longrightarrow> mok ((k, v) # without k l)"
  by (auto simp: mok_def distinct_map_filter)

lemma remove_elem_wf:
  assumes "lru_wf c" "mget (lru_items c) k = Some el"
  shows "lru_wf (c\<lparr>lru_items := mdel k (lru_items c), lru_order := remove1 el (lru_order c)\<rparr>)"
proof -
  have d: "distinct (lru_order c)" "mok (lru_list c)" "0 < lru_max c" "\<forall>el \<in> set (lru_order c). el < length (lru_elems c)"
    and it: "mget (lru_items c) k' = Some e \<longleftrightarrow> e \<in> set (lru_order c) \<and> fst (lru_elems c ! e) = k'" for k' e
    using assms(1) by (auto simp: lru_wf_def)
  have el: "fst (lru_elems c ! el) = k" using assms(2) it by auto
  have uniq: "e = el" if "e \<in> set (lru_order c)" "fst (lru_elems c ! e) = k" for e using it[of k e] it[of k el] that assms(2) by auto
  have "mok (map (\<lambda>e. lru_elems c ! e) (remove1 el (lru_order c)))" unfolding without_elem[OF assms] using d(2) by simp
  then show ?thesis using d it uniq el by (auto simp: lru_wf_def lru_list_def gomap_simps split: if_splits)
qed

lemma lru_get_refines:
  assumes "lru_ok c"
  shows "lru_ok (fst (lru_get k c))" "lru_list (fst (lru_get k c)) = fst (spec_get k (lru_list c))" "snd (lru_get k c) = snd (spec_get k (lru_list c))"
    "lru_max (fst (lru_get k c)) = lru_max c"
proof -
  have wf: "lru_wf c" and len: "int (length (lru_order c)) \<le> lru_max c" using assms by (auto simp: lru_ok_def lru_len_def)
  have "lru_ok (fst (lru_get k c)) \<and> lru_list (fst (lru_get k c)) = fst (spec_get k (lru_list c)) \<and> snd (lru_get k c) = snd (spec_get k (lru_list c))"
  proof (cases "mget (lru_items c) k")
    case None
    then show ?thesis using lru_list_none[OF wf None] assms by (simp add: lru_get_def spec_get_def)
  next
    case (Some el)
    have el: "el \<in> set (lru_order c)" "fst (lru_elems c ! el) = k" using wf Some by (auto simp: lru_wf_def)
    let ?c = "c\<lparr>lru_order := MoveToFront el (lru_order c)\<rparr>"
    have l: "lru_list ?c = (k, snd (lru_elems c ! el)) # without k (lru_list c)"
      using without_elem[OF wf Some] el by (simp add: lru_list_def MoveToFront_def prod_eq_iff)
    have s: "set (MoveToFront el (lru_order c)) = set (lru_order c)" "distinct (MoveToFront el (lru_order c))" "length (MoveToFront el (lru_order c)) = length (lru_order c)"
      using wf el by (auto simp: MoveToFront_def lru_wf_def set_remove1_eq length_remove1 simp del: remove1.simps dest: length_pos_if_in_set)
    have "mok (lru_list ?c)" unfolding l using wf by (intro without_mok) (simp add: lru_wf_def)
    then have "lru_ok ?c" using wf len s by (simp add: lru_ok_def lru_wf_def lru_len_def)
    then show ?thesis using Some l lru_list_item[OF wf Some] by (simp add: lru_get_def spec_get_def)
  qed
  then show "lru_ok (fst (lru_get k c))" "lru_list (fst (lru_get k c)) = fst (spec_get k (lru_list c))" "snd (lru_get k c) = snd (spec_get k (lru_list c))" by blast+
  show "lru_max (fst (lru_get k c)) = lru_max c" by (simp add: lru_get_def split: option.split)
qed

lemma lru_evict_refines:
  assumes "lru_wf c"
  shows "lru_ok (lru_evict c) \<and> lru_list (lru_evict c) = take (nat (lru_max c)) (lru_list c) \<and> lru_max (lru_evict c) = lru_max c"
  using assms
proof (induction c rule: lru_evict.induct)
  case (1 c)
  show ?case
  proof (cases "int (length (lru_order c)) > lru_max c \<and> lru_order c \<noteq> []")
    case False
    then have "int (length (lru_order c)) \<le> lru_max c" using "1.prems" by (auto simp: lru_wf_def)
    then show ?thesis using False "1.prems" by (subst (1 2 3) lru_evict.simps) (simp add: lru_ok_def lru_len_def lru_list_def)
  next
    case True
    let ?el = "last (lru_order c)"
    have it: "mget (lru_items c) (fst (lru_elems c ! ?el)) = Some ?el" using "1.prems" True by (simp add: lru_wf_def)
    let ?c = "c\<lparr>lru_items := mdel (fst (lru_elems c ! ?el)) (lru_items c), lru_order := remove1 ?el (lru_order c)\<rparr>"
    have b: "remove1 ?el (lru_order c) = butlast (lru_order c)"
    proof -
      have "distinct (butlast (lru_order c) @ [?el])" using "1.prems" True by (simp add: lru_wf_def)
      then have "remove1 ?el (butlast (lru_order c) @ [?el]) = butlast (lru_order c)" by (simp add: remove1_append)
      then show ?thesis using True by simp
    qed
    have "lru_list ?c = butlast (lru_list c)" by (simp add: lru_list_def b map_butlast)
    moreover have "nat (lru_max c) \<le> length (lru_list c) - 1" using True by (auto simp: lru_list_def)
    ultimately have "take (nat (lru_max c)) (lru_list ?c) = take (nat (lru_max c)) (lru_list c)" by (simp add: butlast_conv_take)
    then show ?thesis using "1.IH"[OF True refl remove_elem_wf[OF "1.prems" it]] True by (subst (1 2 3) lru_evict.simps) (simp add: Let_def)
  qed
qed

lemma lru_put_refines:
  assumes "lru_ok c"
  shows "lru_ok (lru_put k v c)" "lru_list (lru_put k v c) = spec_put (nat (lru_max c)) k v (lru_list c)" "lru_max (lru_put k v c) = lru_max c"
proof -
  have wf: "lru_wf c" and len: "int (length (lru_order c)) \<le> lru_max c" using assms by (auto simp: lru_ok_def lru_len_def)
  have "lru_ok (lru_put k v c) \<and> lru_list (lru_put k v c) = spec_put (nat (lru_max c)) k v (lru_list c) \<and> lru_max (lru_put k v c) = lru_max c"
  proof (cases "mget (lru_items c) k")
    case None
    let ?c = "c\<lparr>lru_elems := lru_elems c @ [(k, v)], lru_items := mput k (length (lru_elems c)) (lru_items c), lru_order := length (lru_elems c) # lru_order c\<rparr>"
    have old: "(lru_elems c @ [(k, v)]) ! e = lru_elems c ! e" if "e \<in> set (lru_order c)" for e using wf that by (auto simp: lru_wf_def nth_append)
    have other: "fst (lru_elems c ! e) \<noteq> k" if "e \<in> set (lru_order c)" for e
    proof
      assume "fst (lru_elems c ! e) = k"
      then have "mget (lru_items c) k = Some e" using wf that unfolding lru_wf_def by blast
      then show False using None by simp
    qed
    have l: "lru_list ?c = (k, v) # without k (lru_list c)" using lru_list_none[OF wf None] old by (simp add: lru_list_def)
    have "mok (lru_list ?c)" unfolding l using wf by (intro without_mok) (simp add: lru_wf_def)
    moreover have "mget (lru_items ?c) k' = Some e \<longleftrightarrow> e \<in> set (lru_order ?c) \<and> fst (lru_elems ?c ! e) = k'" for k' e
      using wf None old other by (auto simp: lru_wf_def gomap_simps nth_append)
    ultimately have "lru_wf ?c" using wf by (fastforce simp: lru_wf_def)
    from lru_evict_refines[OF this] show ?thesis unfolding lru_put_def None option.case l spec_put_def by simp
  next
    case (Some el)
    have el: "el \<in> set (lru_order c)" "fst (lru_elems c ! el) = k" "el < length (lru_elems c)" using wf Some by (auto simp: lru_wf_def)
    let ?c = "c\<lparr>lru_elems := (lru_elems c)[el := (fst (lru_elems c ! el), v)], lru_order := MoveToFront el (lru_order c)\<rparr>"
    have d: "distinct (lru_order c)" using wf by (simp add: lru_wf_def)
    have "map (\<lambda>e. (lru_elems c)[el := (k, v)] ! e) (remove1 el (lru_order c)) = map (\<lambda>e. lru_elems c ! e) (remove1 el (lru_order c))"
      using d by (intro map_cong) (auto simp: set_remove1_eq)
    then have l: "lru_list ?c = (k, v) # without k (lru_list c)"
      using without_elem[OF wf Some] el by (simp add: lru_list_def MoveToFront_def)
    have s: "set (MoveToFront el (lru_order c)) = set (lru_order c)" "distinct (MoveToFront el (lru_order c))" "length (MoveToFront el (lru_order c)) = length (lru_order c)"
      using d el by (auto simp: MoveToFront_def set_remove1_eq length_remove1 simp del: remove1.simps dest: length_pos_if_in_set)
    have f: "fst ((lru_elems c)[el := (fst (lru_elems c ! el), v)] ! e) = fst (lru_elems c ! e)" for e
      using el(3) by (cases "e = el") (auto simp: nth_list_update)
    have "mok (lru_list ?c)" unfolding l using wf by (intro without_mok) (simp add: lru_wf_def)
    then have ok: "lru_ok ?c" using wf len s f by (simp add: lru_ok_def lru_wf_def lru_len_def)
    have "length (lru_list ?c) \<le> nat (lru_max c)" using len s by (simp add: lru_list_def)
    then have "lru_list ?c = spec_put (nat (lru_max c)) k v (lru_list c)" unfolding spec_put_def l by simp
    then show ?thesis using Some ok by (simp add: lru_put_def)
  qed
  then show "lru_ok (lru_put k v c)" "lru_list (lru_put k v c) = spec_put (nat (lru_max c)) k v (lru_list c)" "lru_max (lru_put k v c) = lru_max c" by blast+
qed

lemma lru_remove_refines:
  assumes "lru_ok c"
  shows "lru_ok (lru_remove k c)" "lru_list (lru_remove k c) = without k (lru_list c)" "lru_max (lru_remove k c) = lru_max c"
proof -
  have wf: "lru_wf c" and len: "int (length (lru_order c)) \<le> lru_max c" using assms by (auto simp: lru_ok_def lru_len_def)
  have "lru_ok (lru_remove k c) \<and> lru_list (lru_remove k c) = without k (lru_list c)"
  proof (cases "mget (lru_items c) k")
    case None
    then show ?thesis using lru_list_none[OF wf None] assms by (simp add: lru_remove_def)
  next
    case (Some el)
    have "int (length (remove1 el (lru_order c))) \<le> lru_max c" using len by (simp add: length_remove1) linarith
    then show ?thesis using Some remove_elem_wf[OF wf Some] without_elem[OF wf Some]
      by (simp add: lru_remove_def lru_ok_def lru_len_def lru_list_def)
  qed
  then show "lru_ok (lru_remove k c)" "lru_list (lru_remove k c) = without k (lru_list c)" by blast+
  show "lru_max (lru_remove k c) = lru_max c" by (simp add: lru_remove_def split: option.split)
qed

section \<open>Sequences of calls\<close>

datatype 'v lru_call = OpGet string | OpPut string 'v | OpRemove string

primrec lru_op :: "'v lru_call \<Rightarrow> 'v lru \<Rightarrow> 'v lru \<times> 'v option" where
  "lru_op (OpGet k) c = lru_get k c"
| "lru_op (OpPut k v) c = (lru_put k v c, None)"
| "lru_op (OpRemove k) c = (lru_remove k c, None)"

primrec spec_op :: "nat \<Rightarrow> 'v lru_call \<Rightarrow> (string \<times> 'v) list \<Rightarrow> (string \<times> 'v) list \<times> 'v option" where
  "spec_op n (OpGet k) l = spec_get k l"
| "spec_op n (OpPut k v) l = (spec_put n k v l, None)"
| "spec_op n (OpRemove k) l = (without k l, None)"

primrec answers :: "('o \<Rightarrow> 's \<Rightarrow> 's \<times> 'r) \<Rightarrow> 'o list \<Rightarrow> 's \<Rightarrow> 's \<times> 'r list" where
  "answers step [] s = (s, [])"
| "answers step (x # xs) s = (let (s1, r) = step x s; (s2, rs) = answers step xs s1 in (s2, r # rs))"

lemma lru_op_refines:
  assumes "lru_ok c"
  shows "lru_ok (fst (lru_op x c)) \<and> lru_list (fst (lru_op x c)) = fst (spec_op (nat (lru_max c)) x (lru_list c))
    \<and> snd (lru_op x c) = snd (spec_op (nat (lru_max c)) x (lru_list c)) \<and> lru_max (fst (lru_op x c)) = lru_max c"
  using lru_get_refines[OF assms] lru_put_refines[OF assms] lru_remove_refines[OF assms] by (cases x) simp_all

lemma lru_answers:
  assumes "lru_ok c"
  shows "lru_ok (fst (answers lru_op xs c)) \<and> lru_list (fst (answers lru_op xs c)) = fst (answers (spec_op (nat (lru_max c))) xs (lru_list c))
    \<and> snd (answers lru_op xs c) = snd (answers (spec_op (nat (lru_max c))) xs (lru_list c)) \<and> lru_max (fst (answers lru_op xs c)) = lru_max c"
  using assms
proof (induction xs arbitrary: c)
  case (Cons x xs)
  note s = lru_op_refines[OF Cons.prems, of x]
  have "lru_ok (fst (lru_op x c))" using s by blast
  from Cons.IH[OF this] show ?case using s by (simp add: Let_def split_beta)
qed simp

lemma newLRU_ok: "0 < n \<Longrightarrow> lru_ok (newLRU n)" "lru_list (newLRU n) = []" "lru_max (newLRU n) = n"
  by (simp_all add: lru_ok_def lru_wf_def lru_list_def lru_len_def newLRU_def)

section \<open>The interface the clients rely on\<close>

locale cache =
  fixes get :: "string \<Rightarrow> 'c \<Rightarrow> 'c \<times> 'v option"
    and put :: "string \<Rightarrow> 'v \<Rightarrow> 'c \<Rightarrow> 'c"
    and remove :: "string \<Rightarrow> 'c \<Rightarrow> 'c"
    and content :: "'c \<Rightarrow> string \<Rightarrow> 'v option"
    and ok :: "'c \<Rightarrow> bool"
  assumes get_ok: "ok c \<Longrightarrow> ok (fst (get k c))"
    and get_content: "ok c \<Longrightarrow> content (fst (get k c)) = content c"
    and get_answer: "ok c \<Longrightarrow> snd (get k c) = content c k"
    and put_ok: "ok c \<Longrightarrow> ok (put k v c)"
    and put_same: "ok c \<Longrightarrow> content (put k v c) k = Some v"
    and put_other: "ok c \<Longrightarrow> content (put k v c) k' = Some w \<Longrightarrow> k' \<noteq> k \<Longrightarrow> content c k' = Some w"
    and remove_ok: "ok c \<Longrightarrow> ok (remove k c)"
    and remove_content: "ok c \<Longrightarrow> content (remove k c) = (content c)(k := None)"
begin

definition holds :: "(string \<Rightarrow> 'v \<Rightarrow> bool) \<Rightarrow> 'c \<Rightarrow> bool" where
  "holds P c \<longleftrightarrow> ok c \<and> (\<forall>k v. content c k = Some v \<longrightarrow> P k v)"

lemma holds_get: "holds P c \<Longrightarrow> holds P (fst (get k c))"
  by (simp add: holds_def get_ok get_content)

lemma holds_answer: "holds P c \<Longrightarrow> get k c = (c', Some v) \<Longrightarrow> P k v"
  using get_answer[of c k] by (auto simp: holds_def)

lemma holds_put: "holds P c \<Longrightarrow> P k v \<Longrightarrow> holds P (put k v c)"
  unfolding holds_def using put_ok put_same put_other by (metis option.inject)

lemma holds_remove: "holds P c \<Longrightarrow> holds P (remove k c)"
  by (simp add: holds_def remove_ok remove_content)

lemma holds_mono: "holds P c \<Longrightarrow> (\<And>k v. P k v \<Longrightarrow> Q k v) \<Longrightarrow> holds Q c"
  by (simp add: holds_def)

lemma holds_put_other:
  assumes "holds P c" "\<And>k' w. k' \<noteq> k \<Longrightarrow> P k' w \<Longrightarrow> Q k' w" "Q k v"
  shows "holds Q (put k v c)"
  using assms put_ok put_same put_other unfolding holds_def by (metis option.inject)

lemma holds_remove_other:
  assumes "holds P c" "\<And>k' w. k' \<noteq> k \<Longrightarrow> P k' w \<Longrightarrow> Q k' w"
  shows "holds Q (remove k c)"
  using assms by (auto simp: holds_def remove_ok remove_content split: if_splits)

end

definition lru_content :: "'v lru \<Rightarrow> string \<Rightarrow> 'v option" where
  "lru_content c = map_of (lru_list c)"

lemma map_of_without: "map_of (without k l) = (map_of l)(k := None)"
  by (induction l) auto

lemma map_of_take: "mok l \<Longrightarrow> map_of (take n l) k = Some v \<Longrightarrow> map_of l k = Some v"
proof -
  assume "mok l" "map_of (take n l) k = Some v"
  then have "(k, v) \<in> set l" by (meson in_set_takeD map_of_SomeD)
  then show ?thesis using \<open>mok l\<close> by (simp add: mok_def map_of_eq_Some_iff)
qed

interpretation lru: cache lru_get lru_put lru_remove lru_content lru_ok
proof
  fix c :: "'v lru" and k k' :: string and v w :: 'v
  assume ok: "lru_ok c"
  then have m: "mok (lru_list c)" "0 < lru_max c" by (simp_all add: lru_ok_def lru_wf_def)
  show "lru_ok (fst (lru_get k c))" "lru_ok (lru_put k v c)" "lru_ok (lru_remove k c)"
    using lru_get_refines(1)[OF ok] lru_put_refines(1)[OF ok] lru_remove_refines(1)[OF ok] by blast+
  show "lru_content (fst (lru_get k c)) = lru_content c"
    unfolding lru_content_def lru_get_refines(2)[OF ok] by (auto simp: spec_get_def map_of_without split: option.split)
  show "snd (lru_get k c) = lru_content c k"
    unfolding lru_content_def lru_get_refines(3)[OF ok] by (simp add: spec_get_def split: option.split)
  obtain n where n: "nat (lru_max c) = Suc n" using m(2) by (cases "nat (lru_max c)") auto
  show "lru_content (lru_put k v c) k = Some v"
    unfolding lru_content_def lru_put_refines(2)[OF ok] by (simp add: spec_put_def n)
  show "lru_content c k' = Some w" if "lru_content (lru_put k v c) k' = Some w" "k' \<noteq> k"
  proof -
    have "map_of ((k, v) # without k (lru_list c)) k' = Some w"
      using that(1) map_of_take[OF without_mok[OF m(1)]] unfolding lru_content_def lru_put_refines(2)[OF ok] spec_put_def by blast
    then show ?thesis using that(2) by (simp add: lru_content_def map_of_without)
  qed
  show "lru_content (lru_remove k c) = (lru_content c)(k := None)"
    unfolding lru_content_def lru_remove_refines(2)[OF ok] by (rule map_of_without)
qed

text \<open>C36: the cache is a list ordered by recency. Every sequence of gets, puts and removes on a new cache answers as the list does that moves a key to its front
  whenever it is read or written and keeps the first \<^verbatim>\<open>max\<close> entries; the map and the linked list always hold the same keys, and never more than
  \<^verbatim>\<open>max\<close>.\<close>

theorem lru_is_recency_list:
  assumes "0 < n" and c: "c = fst (answers lru_op xs (newLRU n))"
  shows "snd (answers lru_op xs (newLRU n)) = snd (answers (spec_op (nat n)) xs [])
    \<and> lru_list c = fst (answers (spec_op (nat n)) xs []) \<and> int (lru_len c) \<le> n
    \<and> distinct (map fst (lru_list c)) \<and> (mget (lru_items c) k = None \<longleftrightarrow> k \<notin> fst ` set (lru_list c))"
proof -
  note a = lru_answers[OF newLRU_ok(1)[OF assms(1)], of xs, unfolded newLRU_ok, folded c]
  then have ok: "lru_wf c" "int (lru_len c) \<le> n" by (auto simp: lru_ok_def)
  have "mget (lru_items c) k = None \<longleftrightarrow> map_of (lru_list c) k = None"
    using lru_list_none[OF ok(1), of k] lru_list_item[OF ok(1), of k] by (cases "mget (lru_items c) k") auto
  then show ?thesis using a ok by (simp add: lru_wf_def mok_def map_of_eq_None_iff)
qed

definition sample_ops :: "nat lru_call list" where
  "sample_ops = [OpPut ''a'' 1, OpPut ''b'' 2, OpGet ''a'', OpPut ''c'' 3, OpGet ''b'', OpGet ''a'']"

theorem lru_is_recency_list_witness:
  "snd (answers lru_op sample_ops (newLRU 2)) = [None, None, Some 1, None, None, Some 1]"
  using lru_is_recency_list[of 2, OF _ refl, of sample_ops "''a''"]
  by (simp add: sample_ops_def spec_get_def spec_put_def numeral_2_eq_2)

end
