(* ===== verification/Auth.thy ===== *)
theory Auth
  imports AuthKey Lru
begin

text \<open>
  The authenticator of \<^verbatim>\<open>internal/auth\<close> (\<^verbatim>\<open>authenticator.go\<close>, \<^verbatim>\<open>types.go\<close>). Each section that holds the mutex is one
  step, so that the requests and the lookups they share interleave as the goroutines do; the clock readings, the store's answers and the case a \<^verbatim>\<open>select\<close>
  takes are arguments. A \<^verbatim>\<open>*flight\<close> is an index into the flights started so far.
\<close>

section \<open>Types\<close>

definition TenantActive :: string where "TenantActive = ''active''"
definition TenantSuspended :: string where "TenantSuspended = ''suspended''"
definition KeyActive :: string where "KeyActive = ''active''"
definition KeyRevoked :: string where "KeyRevoked = ''revoked''"

datatype why_unavailable = FailedMomentsAgo | LookupsExhausted | RefreshSlow | StoreBusy | StoreFailed | ContextEnded

datatype auth_error = ErrInvalid | ErrExpired | ErrRevoked | ErrSuspended | AuthUnavailable why_unavailable | ErrBadRecord | ErrBusy | ErrNotFound
  | ErrStore \<comment> \<open>any other error of the store\<close>

record tenant_policy =
  tp_Status :: string
  tp_AllowedModels :: "string list option"
  tp_RequestsPerMinute :: int
  tp_TokensPerMinute :: int
  tp_MaxConcurrent :: int
  tp_Priority :: int

definition AllowsModel :: "string \<Rightarrow> tenant_policy \<Rightarrow> bool" where
  "AllowsModel model p = (case tp_AllowedModels p of None \<Rightarrow> True | Some ms \<Rightarrow> list_ex (\<lambda>m. m = model) ms)"

record principal =
  pr_TenantID :: string
  pr_KeyID :: string
  pr_Policy :: tenant_policy

record key_record =
  kr_KeyID :: string
  kr_TenantID :: string
  kr_Prefix :: string
  kr_SecretHash :: string
  kr_KeyStatus :: string
  kr_ExpiresAt :: "time option"
  kr_Policy :: tenant_policy

type_synonym store_answer = "auth_error + key_record"

record auth_config =
  ac_CacheTTL :: duration
  ac_NegativeTTL :: duration
  ac_CacheSize :: int
  ac_StaleGrace :: duration
  ac_LookupTimeout :: duration
  ac_RefreshWait :: duration
  ac_MaxLookups :: int

definition auth_DefaultConfig :: auth_config where
  "auth_DefaultConfig = \<lparr>ac_CacheTTL = 30 * second, ac_NegativeTTL = 5 * second, ac_CacheSize = 10000, ac_StaleGrace = 5 * 60 * second,
     ac_LookupTimeout = 3 * second, ac_RefreshWait = 250 * millisecond, ac_MaxLookups = 8\<rparr>"

definition touchEvery :: duration where "touchEvery = 60 * second"
definition outageBackoff :: duration where "outageBackoff = second"

record pos_entry =
  pe_rec :: key_record
  pe_fetched :: time
  pe_lastTouch :: time

type_synonym flight = "store_answer option" \<comment> \<open>the result once \<^verbatim>\<open>done\<close> is closed\<close>

record authenticator =
  au_toucher :: bool \<comment> \<open>the store implements \<^verbatim>\<open>KeyToucher\<close>\<close>
  au_cfg :: auth_config
  au_pos :: "pos_entry lru"
  au_neg :: "time lru"
  au_flights :: "(string, nat) gomap"
  au_heap :: "flight list"
  au_outage :: bool
  au_downUntil :: time
  au_touches :: "(string \<times> time) list"
  au_cacheHits :: nat
  au_cacheMisses :: nat
  au_reserve :: int
  au_inflightRefresh :: int
  au_inflightNew :: int
  au_lastWarn :: time

definition touchesCap :: nat where "touchesCap = 256"

definition auth_defaults :: "auth_config \<Rightarrow> auth_config" where
  \<comment> \<open>the defaults \<^verbatim>\<open>New\<close> fills in, field by field\<close>
  "auth_defaults c =
     (let d = auth_DefaultConfig in
      \<lparr>ac_CacheTTL = (if ac_CacheTTL c \<le> 0 then ac_CacheTTL d else ac_CacheTTL c),
       ac_NegativeTTL = (if ac_NegativeTTL c \<le> 0 then ac_NegativeTTL d else ac_NegativeTTL c),
       ac_CacheSize = (if ac_CacheSize c \<le> 0 then ac_CacheSize d else ac_CacheSize c),
       ac_StaleGrace = (if ac_StaleGrace c < 0 then 0 else ac_StaleGrace c),
       ac_LookupTimeout = (if ac_LookupTimeout c \<le> 0 then ac_LookupTimeout d else ac_LookupTimeout c),
       ac_RefreshWait = (if ac_RefreshWait c \<le> 0 then ac_RefreshWait d else ac_RefreshWait c),
       ac_MaxLookups = (if ac_MaxLookups c < 2 then ac_MaxLookups d else ac_MaxLookups c)\<rparr>)"

definition NewAuthenticator :: "bool \<Rightarrow> auth_config \<Rightarrow> authenticator" where
  "NewAuthenticator toucher cfg0 =
     (let cfg = auth_defaults cfg0
      in \<lparr>au_toucher = toucher, au_cfg = cfg, au_pos = newLRU (ac_CacheSize cfg), au_neg = newLRU (ac_CacheSize cfg), au_flights = [], au_heap = [],
          au_outage = False, au_downUntil = zero_time, au_touches = [], au_cacheHits = 0, au_cacheMisses = 0,
          au_reserve = max 1 (go_div (ac_MaxLookups cfg) 4), au_inflightRefresh = 0, au_inflightNew = 0, au_lastWarn = zero_time\<rparr>)"

definition CacheSizes :: "authenticator \<Rightarrow> nat \<times> nat" where
  "CacheSizes a = (lru_len (au_pos a), lru_len (au_neg a))"

definition CacheStats :: "authenticator \<Rightarrow> nat \<times> nat" where
  "CacheStats a = (au_cacheHits a, au_cacheMisses a)"

section \<open>The caches\<close>

datatype cache_answer =
    CacheHit store_answer
  | CacheMiss "pos_entry option" \<comment> \<open>with the entry that is expired but within its grace\<close>

definition cachedNegative :: "string \<Rightarrow> time \<Rightarrow> authenticator \<Rightarrow> authenticator \<times> cache_answer" where
  "cachedNegative prefix now a =
     (let (neg, hit) = lru_get prefix (au_neg a) in
      case hit of
        Some at' \<Rightarrow> if now - at' < ac_NegativeTTL (au_cfg a) \<and> now - at' \<ge> 0 then (a\<lparr>au_neg := neg\<rparr>, CacheHit (Inl ErrNotFound))
                   else (a\<lparr>au_neg := lru_remove prefix neg\<rparr>, CacheMiss None)
      | None \<Rightarrow> (a\<lparr>au_neg := neg\<rparr>, CacheMiss None))"

definition cachedLocked :: "string \<Rightarrow> time \<Rightarrow> authenticator \<Rightarrow> authenticator \<times> cache_answer" where
  "cachedLocked prefix now a =
     (let (pos, hit) = lru_get prefix (au_pos a) in
      case hit of
        Some e \<Rightarrow>
          let age = now - pe_fetched e in
          if age < ac_CacheTTL (au_cfg a) \<and> age \<ge> 0 then (a\<lparr>au_pos := pos\<rparr>, CacheHit (Inr (pe_rec e)))
          else if age < ac_CacheTTL (au_cfg a) + ac_StaleGrace (au_cfg a) \<and> age \<ge> 0 then (a\<lparr>au_pos := pos\<rparr>, CacheMiss (Some e))
          else cachedNegative prefix now (a\<lparr>au_pos := lru_remove prefix pos\<rparr>)
      | None \<Rightarrow> cachedNegative prefix now (a\<lparr>au_pos := pos\<rparr>))"

section \<open>Requests\<close>

definition record_end :: "pos_entry option \<Rightarrow> store_answer \<Rightarrow> store_answer" where
  \<comment> \<open>the switch that ends \<^verbatim>\<open>record\<close>\<close>
  "record_end stale r =
     (case r of
        Inr rec \<Rightarrow> Inr rec
      | Inl e \<Rightarrow> if e = ErrNotFound \<or> e = ErrBadRecord then Inl e
                else case stale of Some s \<Rightarrow> Inr (pe_rec s) | None \<Rightarrow> Inl e)"

datatype record_step =
    RecordAnswer store_answer
  | RecordFetch "pos_entry option"

definition record_begin :: "time \<Rightarrow> string \<Rightarrow> authenticator \<Rightarrow> authenticator \<times> record_step" where
  "record_begin now prefix a0 =
     (let (a, c) = cachedLocked prefix now a0; down = now < au_downUntil a in
      case c of
        CacheHit r \<Rightarrow> (a\<lparr>au_cacheHits := au_cacheHits a + 1\<rparr>, RecordAnswer r)
      | CacheMiss stale \<Rightarrow>
          let a1 = a\<lparr>au_cacheMisses := au_cacheMisses a + 1\<rparr> in
          if down then (a1, RecordAnswer (record_end stale (Inl (AuthUnavailable FailedMomentsAgo)))) else (a1, RecordFetch stale))"

datatype fetch_step =
    FetchAnswer store_answer
  | FetchAwait nat     \<comment> \<open>share the lookup under way\<close>
  | FetchStart nat     \<comment> \<open>start a lookup and wait for it\<close>

definition fetch_begin :: "time \<Rightarrow> string \<Rightarrow> bool \<Rightarrow> authenticator \<Rightarrow> authenticator \<times> fetch_step" where
  "fetch_begin now prefix refresh a0 =
     (let (a, c) = cachedLocked prefix now a0 in
      case c of
        CacheHit r \<Rightarrow> (a, FetchAnswer r)
      | CacheMiss _ \<Rightarrow>
          (case mget (au_flights a) prefix of
             Some f \<Rightarrow> (a, if refresh then FetchAnswer (Inl (AuthUnavailable RefreshSlow)) else FetchAwait f)
           | None \<Rightarrow>
               if au_inflightRefresh a + au_inflightNew a \<ge> ac_MaxLookups (au_cfg a) \<or> (\<not> refresh \<and> au_inflightNew a \<ge> ac_MaxLookups (au_cfg a) - au_reserve a)
               then (a, FetchAnswer (Inl (AuthUnavailable LookupsExhausted)))
               else let a1 = (if refresh then a\<lparr>au_inflightRefresh := au_inflightRefresh a + 1\<rparr> else a\<lparr>au_inflightNew := au_inflightNew a + 1\<rparr>);
                        f = length (au_heap a)
                    in (a1\<lparr>au_flights := mput prefix f (au_flights a), au_heap := au_heap a @ [None]\<rparr>, FetchStart f)))"

datatype await_case = FlightDone | CallerGone | BudgetSpent

definition await_enabled :: "nat \<Rightarrow> bool \<Rightarrow> await_case \<Rightarrow> authenticator \<Rightarrow> bool" where
  "await_enabled f refresh c a = (case c of FlightDone \<Rightarrow> f < length (au_heap a) \<and> au_heap a ! f \<noteq> None | CallerGone \<Rightarrow> True | BudgetSpent \<Rightarrow> refresh)"

definition await :: "nat \<Rightarrow> await_case \<Rightarrow> authenticator \<Rightarrow> store_answer" where
  "await f c a =
     (case c of
        FlightDone \<Rightarrow> (case au_heap a ! f of Some r \<Rightarrow> r | None \<Rightarrow> Inl (AuthUnavailable ContextEnded))
      | CallerGone \<Rightarrow> Inl (AuthUnavailable ContextEnded)
      | BudgetSpent \<Rightarrow> Inl (AuthUnavailable RefreshSlow))"

section \<open>Lookups\<close>

definition warnLimited :: "time \<Rightarrow> authenticator \<Rightarrow> authenticator" where
  "warnLimited now a = (if now - au_lastWarn a < 10 * second \<and> au_lastWarn a \<noteq> zero_time then a else a\<lparr>au_lastWarn := now\<rparr>)"

definition auth_failed :: "authenticator \<Rightarrow> authenticator" where
  "auth_failed a = (if \<not> au_outage a then a\<lparr>au_outage := True\<rparr> else a)"

definition recovered :: "authenticator \<Rightarrow> authenticator" where
  "recovered a = (if au_outage a then a\<lparr>au_outage := False\<rparr> else a)"

definition lookup_outcome :: "time \<Rightarrow> time \<Rightarrow> string \<Rightarrow> store_answer \<Rightarrow> authenticator \<Rightarrow> authenticator \<times> store_answer" where
  \<comment> \<open>the switch of \<^verbatim>\<open>lookup\<close>; \<^verbatim>\<open>warnLimited\<close> reads the clock again\<close>
  "lookup_outcome now wnow prefix ans a =
     (case ans of
        Inr rec \<Rightarrow>
          let (pos, old) = lru_get prefix (au_pos a);
              last' = (case old of Some o' \<Rightarrow> pe_lastTouch o' | None \<Rightarrow> zero_time);
              a1 = a\<lparr>au_pos := lru_put prefix \<lparr>pe_rec = rec, pe_fetched = now, pe_lastTouch = last'\<rparr> pos, au_neg := lru_remove prefix (au_neg a)\<rparr>
          in ((recovered a1)\<lparr>au_downUntil := zero_time\<rparr>, Inr rec)
      | Inl e \<Rightarrow>
          if e = ErrNotFound
          then ((recovered (a\<lparr>au_pos := lru_remove prefix (au_pos a), au_neg := lru_put prefix now (au_neg a)\<rparr>))\<lparr>au_downUntil := zero_time\<rparr>, Inl ErrNotFound)
          else if e = ErrBadRecord then ((recovered (warnLimited wnow a))\<lparr>au_downUntil := zero_time\<rparr>, Inl ErrBadRecord)
          else if e = ErrBusy then (warnLimited wnow a, Inl (AuthUnavailable StoreBusy))
          else ((auth_failed a)\<lparr>au_downUntil := now + outageBackoff\<rparr>, Inl (AuthUnavailable StoreFailed)))"

definition lookup_end :: "time \<Rightarrow> time \<Rightarrow> string \<Rightarrow> nat \<Rightarrow> bool \<Rightarrow> store_answer \<Rightarrow> authenticator \<Rightarrow> authenticator" where
  \<comment> \<open>\<^verbatim>\<open>lookup\<close> from the store's answer on\<close>
  "lookup_end now wnow prefix f refresh ans a0 =
     (let a1 = a0\<lparr>au_flights := mdel prefix (au_flights a0)\<rparr>;
          a2 = (if refresh then a1\<lparr>au_inflightRefresh := au_inflightRefresh a1 - 1\<rparr> else a1\<lparr>au_inflightNew := au_inflightNew a1 - 1\<rparr>);
          (a3, r) = lookup_outcome now wnow prefix ans a2
      in a3\<lparr>au_heap := (au_heap a3)[f := Some r]\<rparr>)"

section \<open>Authenticate\<close>

definition noteUse :: "string \<Rightarrow> string \<Rightarrow> time \<Rightarrow> authenticator \<Rightarrow> authenticator" where
  "noteUse prefix keyID now a =
     (if \<not> au_toucher a then a
      else let (pos, hit) = lru_get prefix (au_pos a) in
        case hit of
          None \<Rightarrow> a\<lparr>au_pos := pos\<rparr>
        | Some e \<Rightarrow>
            if now - pe_lastTouch e < touchEvery then a\<lparr>au_pos := pos\<rparr>
            else a\<lparr>au_pos := lru_put prefix (e\<lparr>pe_lastTouch := now\<rparr>) pos, \<comment> \<open>the entry is written through its pointer\<close>
                   au_touches := (if length (au_touches a) < touchesCap then au_touches a @ [(keyID, now)] else au_touches a)\<rparr>)"

definition Authenticate_end :: "time \<Rightarrow> string \<Rightarrow> string \<Rightarrow> store_answer \<Rightarrow> authenticator \<Rightarrow> authenticator \<times> (auth_error + principal)" where
  \<comment> \<open>\<^verbatim>\<open>Authenticate\<close> after \<^verbatim>\<open>record\<close> has answered\<close>
  "Authenticate_end now prefix h r a =
     (case r of
        Inl e \<Rightarrow> (a, Inl (if e = ErrNotFound then ErrInvalid else e))
      | Inr rec \<Rightarrow>
          if \<not> HashesEqual h (kr_SecretHash rec) then (a, Inl ErrInvalid)
          else if kr_KeyStatus rec \<noteq> KeyActive then (a, Inl ErrRevoked)
          else if (case kr_ExpiresAt rec of Some x \<Rightarrow> \<not> now < x | None \<Rightarrow> False) then (a, Inl ErrExpired)
          else if tp_Status (kr_Policy rec) \<noteq> TenantActive then (a, Inl ErrSuspended)
          else (noteUse prefix (kr_KeyID rec) now a, Inr \<lparr>pr_TenantID = kr_TenantID rec, pr_KeyID = kr_KeyID rec, pr_Policy = kr_Policy rec\<rparr>))"

definition auth_Run :: "authenticator \<Rightarrow> authenticator \<times> (string \<times> time) option" where
  \<comment> \<open>one turn of \<^verbatim>\<open>Run\<close>: the use it writes to the store\<close>
  "auth_Run a = (if \<not> au_toucher a then (a, None) else case au_touches a of [] \<Rightarrow> (a, None) | t # ts \<Rightarrow> (a\<lparr>au_touches := ts\<rparr>, Some t))"

end
