(* ===== verification/AuthRun.thy ===== *)
theory AuthRun
  imports Auth
begin

text \<open>
  Requests and lookups of the authenticator in every interleaving: who is let in and on what evidence, how many lookups run at once, and what an outage of the key
  store changes.
\<close>

section \<open>Interleavings\<close>

datatype caller_state =
    CFetch "pos_entry option"                \<comment> \<open>about to ask; the stale copy it may fall back on\<close>
  | CWait "pos_entry option" nat bool        \<comment> \<open>in \<^verbatim>\<open>await\<close> of a flight\<close>
  | CCheck store_answer                      \<comment> \<open>\<^verbatim>\<open>record\<close> has answered\<close>
  | CDone "auth_error + principal"

record caller =
  c_bearer :: string
  c_prefix :: string
  c_hash :: string
  c_state :: caller_state
  c_since :: nat          \<comment> \<open>the store's answers before the request came\<close>
  c_clock :: "time list"  \<comment> \<open>the clock readings of the request\<close>

type_synonym answer_log = "(string \<times> time \<times> store_answer) list"

record auth_run =
  ar_a :: authenticator
  ar_callers :: "caller list"
  ar_lookups :: "(string \<times> nat \<times> bool) list" \<comment> \<open>the lookup goroutines: prefix, flight, refresh\<close>
  ar_log :: answer_log

datatype auth_event =
    EvArrive time string
  | EvFetch time nat
  | EvLookup time time nat store_answer
  | EvAwait nat await_case
  | EvCheck time nat
  | EvRun

definition Authenticate_begin :: "(string \<Rightarrow> string) \<Rightarrow> time \<Rightarrow> string \<Rightarrow> auth_run \<Rightarrow> auth_run" where
  "Authenticate_begin sha256 now bearer s =
     (let c = \<lparr>c_bearer = bearer, c_prefix = [], c_hash = [], c_state = CDone (Inl ErrInvalid), c_since = length (ar_log s), c_clock = [now]\<rparr> in
      case ParseKey sha256 bearer of
        Inl _ \<Rightarrow> s\<lparr>ar_callers := ar_callers s @ [c]\<rparr>
      | Inr (prefix, h) \<Rightarrow>
          let (a, st) = record_begin now prefix (ar_a s)
          in s\<lparr>ar_a := a, ar_callers := ar_callers s @ [c\<lparr>c_prefix := prefix, c_hash := h,
               c_state := (case st of RecordAnswer r \<Rightarrow> CCheck r | RecordFetch stale \<Rightarrow> CFetch stale)\<rparr>]\<rparr>)"

definition fetch :: "time \<Rightarrow> nat \<Rightarrow> pos_entry option \<Rightarrow> auth_run \<Rightarrow> auth_run" where
  "fetch now i stale s =
     (let c = ar_callers s ! i; refresh = (stale \<noteq> None); (a, st) = fetch_begin now (c_prefix c) refresh (ar_a s);
          c1 = c\<lparr>c_clock := c_clock c @ [now]\<rparr>
      in case st of
           FetchAnswer r \<Rightarrow> s\<lparr>ar_a := a, ar_callers := (ar_callers s)[i := c1\<lparr>c_state := CCheck (record_end stale r)\<rparr>]\<rparr>
         | FetchAwait f \<Rightarrow> s\<lparr>ar_a := a, ar_callers := (ar_callers s)[i := c1\<lparr>c_state := CWait stale f False\<rparr>]\<rparr>
         | FetchStart f \<Rightarrow> s\<lparr>ar_a := a, ar_callers := (ar_callers s)[i := c1\<lparr>c_state := CWait stale f refresh\<rparr>],
                             ar_lookups := ar_lookups s @ [(c_prefix c, f, refresh)]\<rparr>)"

primrec auth_step :: "(string \<Rightarrow> string) \<Rightarrow> auth_event \<Rightarrow> auth_run \<Rightarrow> auth_run" where
  "auth_step sha256 (EvArrive now bearer) s = Authenticate_begin sha256 now bearer s"
| "auth_step sha256 (EvFetch now i) s =
     (if i < length (ar_callers s) then case c_state (ar_callers s ! i) of CFetch stale \<Rightarrow> fetch now i stale s | _ \<Rightarrow> s else s)"
| "auth_step sha256 (EvLookup now wnow j ans) s =
     (if j < length (ar_lookups s)
      then let (prefix, f, refresh) = ar_lookups s ! j
           in s\<lparr>ar_a := lookup_end now wnow prefix f refresh ans (ar_a s), ar_lookups := take j (ar_lookups s) @ drop (Suc j) (ar_lookups s),
                ar_log := ar_log s @ [(prefix, now, ans)]\<rparr>
      else s)"
| "auth_step sha256 (EvAwait i w) s =
     (if i < length (ar_callers s)
      then case c_state (ar_callers s ! i) of
             CWait stale f refresh \<Rightarrow>
               if await_enabled f refresh w (ar_a s)
               then s\<lparr>ar_callers := (ar_callers s)[i := (ar_callers s ! i)\<lparr>c_state := CCheck (record_end stale (await f w (ar_a s)))\<rparr>]\<rparr> else s
           | _ \<Rightarrow> s
      else s)"
| "auth_step sha256 (EvCheck now i) s =
     (if i < length (ar_callers s)
      then case c_state (ar_callers s ! i) of
             CCheck r \<Rightarrow>
               let c = ar_callers s ! i; (a, v) = Authenticate_end now (c_prefix c) (c_hash c) r (ar_a s)
               in s\<lparr>ar_a := a, ar_callers := (ar_callers s)[i := c\<lparr>c_state := CDone v, c_clock := c_clock c @ [now]\<rparr>]\<rparr>
           | _ \<Rightarrow> s
      else s)"
| "auth_step sha256 EvRun s = s\<lparr>ar_a := fst (auth_Run (ar_a s))\<rparr>"

definition auth_history :: "(string \<Rightarrow> string) \<Rightarrow> bool \<Rightarrow> auth_config \<Rightarrow> auth_event list \<Rightarrow> auth_run" where
  "auth_history sha256 toucher cfg xs =
     foldl (\<lambda>s x. auth_step sha256 x s) \<lparr>ar_a = NewAuthenticator toucher cfg, ar_callers = [], ar_lookups = [], ar_log = []\<rparr> xs"

section \<open>What the caches know\<close>

definition conclusive :: "store_answer \<Rightarrow> bool" where
  "conclusive r \<longleftrightarrow> (case r of Inr _ \<Rightarrow> True | Inl e \<Rightarrow> e = ErrNotFound)"

definition latest :: "answer_log \<Rightarrow> string \<Rightarrow> nat option" where
  \<comment> \<open>the position of the last conclusive answer for a prefix\<close>
  "latest lg k = (let ms = filter (\<lambda>m. fst (lg ! m) = k \<and> conclusive (snd (snd (lg ! m)))) [0..<length lg] in if ms = [] then None else Some (last ms))"

lemma latest_Nil [simp]: "latest [] k = None"
  by (simp add: latest_def)

lemma latest_snoc: "latest (lg @ [(k', t, r)]) k = (if k' = k \<and> conclusive r then Some (length lg) else latest lg k)"
proof -
  have "filter (\<lambda>m. fst ((lg @ [(k', t, r)]) ! m) = k \<and> conclusive (snd (snd ((lg @ [(k', t, r)]) ! m)))) [0..<length lg]
      = filter (\<lambda>m. fst (lg ! m) = k \<and> conclusive (snd (snd (lg ! m)))) [0..<length lg]"
    by (intro filter_cong) (auto simp: nth_append)
  then show ?thesis by (simp add: latest_def Let_def)
qed

lemma latest_less: "latest lg k = Some m \<Longrightarrow> m < length lg"
proof -
  assume a: "latest lg k = Some m"
  let ?ms = "filter (\<lambda>m. fst (lg ! m) = k \<and> conclusive (snd (snd (lg ! m)))) [0..<length lg]"
  have "?ms \<noteq> []" "m = last ?ms" using a by (auto simp: latest_def Let_def split: if_splits)
  then have "m \<in> set ?ms" using last_in_set by blast
  then show ?thesis by simp
qed

definition known :: "answer_log \<Rightarrow> string \<Rightarrow> pos_entry \<Rightarrow> bool" where
  \<comment> \<open>a positive entry is the latest answer for its prefix\<close>
  "known lg k e \<longleftrightarrow> (\<exists>m. latest lg k = Some m \<and> lg ! m = (k, pe_fetched e, Inr (pe_rec e)))"

definition unknown :: "answer_log \<Rightarrow> string \<Rightarrow> time \<Rightarrow> bool" where
  "unknown lg k t \<longleftrightarrow> (\<exists>m. latest lg k = Some m \<and> lg ! m = (k, t, Inl ErrNotFound))"

definition grace :: "auth_config \<Rightarrow> duration" where
  "grace cfg = ac_CacheTTL cfg + ac_StaleGrace cfg"

definition evidence :: "duration \<Rightarrow> answer_log \<Rightarrow> caller \<Rightarrow> key_record \<Rightarrow> bool" where
  \<comment> \<open>the answer a request rests on: one that came while it ran, or the latest one before it, and that one recent\<close>
  "evidence g lg c rec \<longleftrightarrow> (\<exists>m t. m < length lg \<and> lg ! m = (c_prefix c, t, Inr rec)
     \<and> (c_since c \<le> m \<or> latest (take (c_since c) lg) (c_prefix c) = Some m \<and> (\<exists>r \<in> set (c_clock c). 0 \<le> r - t \<and> r - t < g)))"

definition stale_ok :: "duration \<Rightarrow> answer_log \<Rightarrow> caller \<Rightarrow> pos_entry option \<Rightarrow> bool" where
  "stale_ok g lg c stale \<longleftrightarrow> (\<forall>e. stale = Some e \<longrightarrow> evidence g lg c (pe_rec e))"

definition flight_ok :: "answer_log \<Rightarrow> (string \<times> nat \<times> bool) list \<Rightarrow> flight list \<Rightarrow> caller \<Rightarrow> nat \<Rightarrow> bool" where
  \<comment> \<open>a flight a request waits for is under way, or ended after the request came\<close>
  "flight_ok lg ls heap c f \<longleftrightarrow> f < length heap \<and> ((heap ! f = None \<and> (\<exists>b. (c_prefix c, f, b) \<in> set ls))
     \<or> (\<exists>r. heap ! f = Some r \<and> (\<forall>rec. r = Inr rec \<longrightarrow> (\<exists>m t. c_since c \<le> m \<and> m < length lg \<and> lg ! m = (c_prefix c, t, Inr rec)))))"

definition accepted :: "auth_config \<Rightarrow> answer_log \<Rightarrow> caller \<Rightarrow> principal \<Rightarrow> bool" where
  "accepted cfg lg c p \<longleftrightarrow> (\<exists>rec. evidence (grace cfg) lg c rec \<and> HashesEqual (c_hash c) (kr_SecretHash rec) \<and> kr_KeyStatus rec = KeyActive
     \<and> tp_Status (kr_Policy rec) = TenantActive \<and> (\<forall>x. kr_ExpiresAt rec = Some x \<longrightarrow> last (c_clock c) < x)
     \<and> p = \<lparr>pr_TenantID = kr_TenantID rec, pr_KeyID = kr_KeyID rec, pr_Policy = kr_Policy rec\<rparr>)"

definition caller_ok :: "(string \<Rightarrow> string) \<Rightarrow> auth_config \<Rightarrow> answer_log \<Rightarrow> (string \<times> nat \<times> bool) list \<Rightarrow> flight list \<Rightarrow> caller \<Rightarrow> bool" where
  "caller_ok sha256 cfg lg ls heap c \<longleftrightarrow> c_since c \<le> length lg \<and>
     (case c_state c of
        CFetch stale \<Rightarrow> ParseKey sha256 (c_bearer c) = Inr (c_prefix c, c_hash c) \<and> stale_ok (grace cfg) lg c stale
      | CWait stale f refresh \<Rightarrow> ParseKey sha256 (c_bearer c) = Inr (c_prefix c, c_hash c) \<and> stale_ok (grace cfg) lg c stale \<and> flight_ok lg ls heap c f
      | CCheck r \<Rightarrow> ParseKey sha256 (c_bearer c) = Inr (c_prefix c, c_hash c) \<and> (\<forall>rec. r = Inr rec \<longrightarrow> evidence (grace cfg) lg c rec)
      | CDone v \<Rightarrow> (\<forall>p. v = Inr p \<longrightarrow> ParseKey sha256 (c_bearer c) = Inr (c_prefix c, c_hash c) \<and> accepted cfg lg c p))"

definition lookups_ok :: "authenticator \<Rightarrow> (string \<times> nat \<times> bool) list \<Rightarrow> bool" where
  "lookups_ok a ls \<longleftrightarrow> mok (au_flights a) \<and> distinct (map fst ls) \<and> distinct (map (fst \<circ> snd) ls)
     \<and> (\<forall>k f. mget (au_flights a) k = Some f \<longleftrightarrow> (\<exists>b. (k, f, b) \<in> set ls))
     \<and> (\<forall>(k, f, b) \<in> set ls. f < length (au_heap a) \<and> au_heap a ! f = None)
     \<and> au_inflightRefresh a = int (count_if (\<lambda>q. snd (snd q)) ls) \<and> au_inflightNew a = int (count_if (\<lambda>q. \<not> snd (snd q)) ls)
     \<and> au_inflightRefresh a + au_inflightNew a \<le> ac_MaxLookups (au_cfg a) \<and> au_inflightNew a \<le> ac_MaxLookups (au_cfg a) - au_reserve a
     \<and> 1 \<le> au_reserve a \<and> au_reserve a < ac_MaxLookups (au_cfg a)"

definition caches_ok :: "authenticator \<Rightarrow> answer_log \<Rightarrow> bool" where
  "caches_ok a lg \<longleftrightarrow> lru.holds (known lg) (au_pos a) \<and> lru.holds (unknown lg) (au_neg a)
     \<and> lru_max (au_pos a) = ac_CacheSize (au_cfg a) \<and> lru_max (au_neg a) = ac_CacheSize (au_cfg a) \<and> 0 \<le> ac_StaleGrace (au_cfg a)"

definition auth_inv :: "(string \<Rightarrow> string) \<Rightarrow> auth_run \<Rightarrow> bool" where
  "auth_inv sha256 s \<longleftrightarrow> caches_ok (ar_a s) (ar_log s) \<and> lookups_ok (ar_a s) (ar_lookups s)
     \<and> (\<forall>c \<in> set (ar_callers s). caller_ok sha256 (au_cfg (ar_a s)) (ar_log s) (ar_lookups s) (au_heap (ar_a s)) c)"

section \<open>Evidence\<close>

lemma latest_append: "latest lg k = Some m \<Longrightarrow> \<forall>q \<in> set xs. fst q \<noteq> k \<or> \<not> conclusive (snd (snd q)) \<Longrightarrow> latest (lg @ xs) k = Some m"
proof (induction xs rule: rev_induct)
  case (snoc x xs)
  obtain k' t r where x: "x = (k', t, r)" by (cases x)
  have "latest ((lg @ xs) @ [(k', t, r)]) k = Some m" using snoc by (subst latest_snoc) (auto simp: x)
  then show ?case by (simp add: x)
qed simp

lemma latest_take: "latest lg k = Some m \<Longrightarrow> m < n \<Longrightarrow> latest (take n lg) k = Some m"
proof (induction lg rule: rev_induct)
  case (snoc x lg)
  obtain k' t r where x: "x = (k', t, r)" by (cases x)
  show ?case
  proof (cases "n \<le> length lg")
    case True
    then have "latest lg k = Some m" using snoc.prems by (simp add: x latest_snoc split: if_splits)
    then show ?thesis using snoc.IH snoc.prems True by simp
  next
    case False
    then show ?thesis using snoc.prems by simp
  qed
qed simp

lemma known_snoc:
  assumes "known lg k e" "k' \<noteq> k \<or> \<not> conclusive r"
  shows "known (lg @ [(k', t, r)]) k e"
  using assms latest_less unfolding known_def latest_snoc by (fastforce simp: nth_append)

lemma unknown_snoc:
  assumes "unknown lg k e" "k' \<noteq> k \<or> \<not> conclusive r"
  shows "unknown (lg @ [(k', t, r)]) k e"
  using assms latest_less unfolding unknown_def latest_snoc by (fastforce simp: nth_append)

lemma known_evidence:
  assumes "known lg (c_prefix c) e" "now \<in> set (c_clock c)" "0 \<le> now - pe_fetched e" "now - pe_fetched e < g"
  shows "evidence g lg c (pe_rec e)"
proof -
  obtain m where m: "latest lg (c_prefix c) = Some m" "lg ! m = (c_prefix c, pe_fetched e, Inr (pe_rec e))" using assms(1) by (auto simp: known_def)
  have "c_since c \<le> m \<or> latest (take (c_since c) lg) (c_prefix c) = Some m" using latest_take[OF m(1)] by (cases "c_since c \<le> m") auto
  then show ?thesis unfolding evidence_def using assms m latest_less[OF m(1)] by blast
qed

lemma evidence_snoc:
  assumes "evidence g lg c rec" "c_since c \<le> length lg"
  shows "evidence g (lg @ [x]) c rec"
proof -
  obtain m t where m: "m < length lg" "lg ! m = (c_prefix c, t, Inr rec)"
      "c_since c \<le> m \<or> latest (take (c_since c) lg) (c_prefix c) = Some m \<and> (\<exists>r \<in> set (c_clock c). 0 \<le> r - t \<and> r - t < g)"
    using assms(1) unfolding evidence_def by blast
  have "take (c_since c) (lg @ [x]) = take (c_since c) lg" using assms(2) by simp
  then show ?thesis unfolding evidence_def using m by (intro exI[of _ m] exI[of _ t]) (simp add: nth_append)
qed

lemma evidence_cong:
  assumes "evidence g lg c rec" "c_prefix c' = c_prefix c" "c_since c' = c_since c" "set (c_clock c) \<subseteq> set (c_clock c')"
  shows "evidence g lg c' rec"
proof -
  obtain m t where m: "m < length lg" "lg ! m = (c_prefix c, t, Inr rec)"
      "c_since c \<le> m \<or> latest (take (c_since c) lg) (c_prefix c) = Some m \<and> (\<exists>r \<in> set (c_clock c). 0 \<le> r - t \<and> r - t < g)"
    using assms(1) unfolding evidence_def by blast
  then have "c_since c \<le> m \<or> latest (take (c_since c) lg) (c_prefix c) = Some m \<and> (\<exists>r \<in> set (c_clock c'). 0 \<le> r - t \<and> r - t < g)"
    using assms(4) by blast
  then show ?thesis unfolding evidence_def assms(2,3) using m(1,2) by blast
qed

lemma stale_ok_snoc: "stale_ok g lg c st \<Longrightarrow> c_since c \<le> length lg \<Longrightarrow> stale_ok g (lg @ [x]) c st"
  by (simp add: stale_ok_def evidence_snoc)

lemma stale_ok_cong:
  assumes "stale_ok g lg c st" "c_prefix c' = c_prefix c" "c_since c' = c_since c" "set (c_clock c) \<subseteq> set (c_clock c')"
  shows "stale_ok g lg c' st"
  using assms evidence_cong unfolding stale_ok_def by blast

lemma record_end_evidence:
  assumes "record_end st r = Inr rec" "stale_ok g lg c st" "\<And>rec. r = Inr rec \<Longrightarrow> evidence g lg c rec"
  shows "evidence g lg c rec"
  using assms by (auto simp: record_end_def stale_ok_def split: sum.splits if_splits option.splits)

section \<open>The caches keep to the answers\<close>

lemma cachedNegative_spec:
  assumes "caches_ok a lg" and r: "cachedNegative k now a = (a', c)"
  obtains n where "a' = a\<lparr>au_neg := n\<rparr>" "caches_ok a' lg" "c = CacheHit (Inl ErrNotFound) \<or> c = CacheMiss None"
proof -
  obtain neg hit where g: "lru_get k (au_neg a) = (neg, hit)" by force
  have ok: "lru_ok (au_neg a)" using assms(1) by (simp add: caches_ok_def lru.holds_def)
  have h: "lru.holds (unknown lg) neg" using lru.holds_get[of "unknown lg" "au_neg a" k] assms(1) g by (simp add: caches_ok_def)
  have x: "lru_max neg = lru_max (au_neg a)" using lru_get_refines(4)[OF ok, of k] g by simp
  have okn: "lru_ok neg" using h by (simp add: lru.holds_def)
  have rm: "lru.holds (unknown lg) (lru_remove k neg)" "lru_max (lru_remove k neg) = lru_max (au_neg a)" using lru.holds_remove[OF h] lru_remove_refines(3)[OF okn] x by simp_all
  have "\<exists>n. a' = a\<lparr>au_neg := n\<rparr> \<and> lru.holds (unknown lg) n \<and> lru_max n = lru_max (au_neg a) \<and> (c = CacheHit (Inl ErrNotFound) \<or> c = CacheMiss None)"
    using r h x rm unfolding cachedNegative_def g by (auto split: option.splits if_splits)
  then show ?thesis using that assms(1) by (auto simp: caches_ok_def)
qed

lemma cachedLocked_spec:
  assumes "caches_ok a lg" and r: "cachedLocked k now a = (a', c)"
  obtains (found) p n where "a' = a\<lparr>au_pos := p, au_neg := n\<rparr>" "caches_ok a' lg"
    "\<And>rec. c = CacheHit (Inr rec) \<Longrightarrow> \<exists>e. known lg k e \<and> rec = pe_rec e \<and> 0 \<le> now - pe_fetched e \<and> now - pe_fetched e < ac_CacheTTL (au_cfg a)"
    "\<And>e. c = CacheMiss (Some e) \<Longrightarrow> known lg k e \<and> 0 \<le> now - pe_fetched e \<and> now - pe_fetched e < grace (au_cfg a)"
proof -
  obtain pos hit where g: "lru_get k (au_pos a) = (pos, hit)" by force
  have hp: "lru.holds (known lg) (au_pos a)" and ok: "lru_ok (au_pos a)" using assms(1) by (auto simp: caches_ok_def lru.holds_def)
  have h: "lru.holds (known lg) pos" using lru.holds_get[OF hp, of k] g by simp
  have x: "lru_max pos = lru_max (au_pos a)" using lru_get_refines(4)[OF ok, of k] g by simp
  have okp: "lru_ok pos" using h by (simp add: lru.holds_def)
  have rm: "lru.holds (known lg) (lru_remove k pos)" "lru_max (lru_remove k pos) = lru_max (au_pos a)"
    using lru.holds_remove[OF h] lru_remove_refines(3)[OF okp] x by simp_all
  have c1: "caches_ok (a\<lparr>au_pos := pos\<rparr>) lg" and c2: "caches_ok (a\<lparr>au_pos := lru_remove k pos\<rparr>) lg" using assms(1) h x rm by (simp_all add: caches_ok_def)
  have kn: "known lg k e" if "hit = Some e" for e using lru.holds_answer[OF hp] g that by blast
  have neg: thesis if q: "q = pos \<or> q = lru_remove k pos" "cachedNegative k now (a\<lparr>au_pos := q\<rparr>) = (a', c)" for q
  proof -
    have "caches_ok (a\<lparr>au_pos := q\<rparr>) lg" using q(1) c1 c2 by blast
    then obtain n where "a' = a\<lparr>au_pos := q, au_neg := n\<rparr>" "caches_ok a' lg" "c = CacheHit (Inl ErrNotFound) \<or> c = CacheMiss None"
      using q(2) by (rule cachedNegative_spec)
    then show thesis using found[of n q] by auto
  qed
  show thesis
  proof (cases hit)
    case None
    then show thesis using r neg[of pos] by (simp add: cachedLocked_def g)
  next
    case (Some e)
    let ?age = "now - pe_fetched e"
    show thesis
    proof (cases "?age < ac_CacheTTL (au_cfg a) \<and> 0 \<le> ?age")
      case True
      then have "a' = a\<lparr>au_pos := pos\<rparr>" "c = CacheHit (Inr (pe_rec e))" using r Some by (auto simp: cachedLocked_def g Let_def)
      then show thesis using found[of "au_neg a" pos] c1 kn[OF Some] True by auto
    next
      case old: False
      show thesis
      proof (cases "?age < ac_CacheTTL (au_cfg a) + ac_StaleGrace (au_cfg a) \<and> 0 \<le> ?age")
        case True
        then have "a' = a\<lparr>au_pos := pos\<rparr>" "c = CacheMiss (Some e)" using r Some old by (auto simp: cachedLocked_def g Let_def)
        then show thesis using found[of "au_neg a" pos] c1 kn[OF Some] True by (auto simp: grace_def)
      next
        case False
        then show thesis using r Some old neg[of "lru_remove k pos"] by (simp add: cachedLocked_def g Let_def split: if_splits)
      qed
    qed
  qed
qed

section \<open>Every step keeps the invariant\<close>

lemma lookups_ok_caches [simp]: "lookups_ok (a\<lparr>au_pos := p, au_neg := n\<rparr>) ls = lookups_ok a ls" "lookups_ok (a\<lparr>au_pos := p\<rparr>) ls = lookups_ok a ls"
    "lookups_ok (a\<lparr>au_cacheHits := x\<rparr>) ls = lookups_ok a ls" "lookups_ok (a\<lparr>au_cacheMisses := x\<rparr>) ls = lookups_ok a ls"
    "lookups_ok (a\<lparr>au_touches := t\<rparr>) ls = lookups_ok a ls" "lookups_ok (a\<lparr>au_pos := p, au_touches := t\<rparr>) ls = lookups_ok a ls"
  by (simp_all add: lookups_ok_def)

lemma caches_ok_fields [simp]: "caches_ok (a\<lparr>au_cacheHits := x\<rparr>) lg = caches_ok a lg" "caches_ok (a\<lparr>au_cacheMisses := x\<rparr>) lg = caches_ok a lg"
    "caches_ok (a\<lparr>au_touches := t\<rparr>) lg = caches_ok a lg"
  by (simp_all add: caches_ok_def)

lemma record_begin_spec:
  assumes "caches_ok a lg" and r: "record_begin now k a = (a', st)"
  shows "caches_ok a' lg \<and> (\<exists>p n h m. a' = a\<lparr>au_pos := p, au_neg := n, au_cacheHits := h, au_cacheMisses := m\<rparr>)
    \<and> (\<forall>rec. st = RecordAnswer (Inr rec) \<longrightarrow> (\<exists>e. known lg k e \<and> rec = pe_rec e \<and> 0 \<le> now - pe_fetched e \<and> now - pe_fetched e < grace (au_cfg a)))
    \<and> (\<forall>e. st = RecordFetch (Some e) \<longrightarrow> known lg k e \<and> 0 \<le> now - pe_fetched e \<and> now - pe_fetched e < grace (au_cfg a))"
proof -
  obtain a1 c where r1: "cachedLocked k now a = (a1, c)" by force
  obtain p n where a1: "a1 = a\<lparr>au_pos := p, au_neg := n\<rparr>" and ok: "caches_ok a1 lg"
    and hit: "\<And>rec. c = CacheHit (Inr rec) \<Longrightarrow> \<exists>e. known lg k e \<and> rec = pe_rec e \<and> 0 \<le> now - pe_fetched e \<and> now - pe_fetched e < ac_CacheTTL (au_cfg a)"
    and stale: "\<And>e. c = CacheMiss (Some e) \<Longrightarrow> known lg k e \<and> 0 \<le> now - pe_fetched e \<and> now - pe_fetched e < grace (au_cfg a)"
    using assms(1) r1 by (rule cachedLocked_spec) blast
  have TG: "ac_CacheTTL (au_cfg a) \<le> grace (au_cfg a)" using assms(1) by (simp add: caches_ok_def grace_def)
  show ?thesis
  proof (cases c)
    case (CacheHit q)
    then have a': "a' = a1\<lparr>au_cacheHits := au_cacheHits a1 + 1\<rparr>" and st: "st = RecordAnswer q" using r r1 by (simp_all add: record_begin_def)
    have 1: "caches_ok a' lg" using ok by (simp add: a')
    have "a' = a\<lparr>au_pos := p, au_neg := n, au_cacheHits := au_cacheHits a + 1, au_cacheMisses := au_cacheMisses a\<rparr>"
      by (simp add: a' a1)
    then have 2: "\<exists>p n h m. a' = a\<lparr>au_pos := p, au_neg := n, au_cacheHits := h, au_cacheMisses := m\<rparr>" by blast
    have "\<exists>e. known lg k e \<and> rec = pe_rec e \<and> 0 \<le> now - pe_fetched e \<and> now - pe_fetched e < grace (au_cfg a)" if "q = Inr rec" for rec
      using hit[of rec] CacheHit that TG by fastforce
    then show ?thesis using 1 2 st by simp
  next
    case (CacheMiss q)
    have a': "a' = a1\<lparr>au_cacheMisses := au_cacheMisses a1 + 1\<rparr>"
      and st: "st = RecordFetch q \<or> st = RecordAnswer (record_end q (Inl (AuthUnavailable FailedMomentsAgo)))"
      using r r1 CacheMiss by (auto simp: record_begin_def Let_def split: if_splits)
    have 1: "caches_ok a' lg" using ok by (simp add: a')
    have "a' = a\<lparr>au_pos := p, au_neg := n, au_cacheHits := au_cacheHits a, au_cacheMisses := au_cacheMisses a + 1\<rparr>" by (simp add: a' a1)
    then have 2: "\<exists>p n h m. a' = a\<lparr>au_pos := p, au_neg := n, au_cacheHits := h, au_cacheMisses := m\<rparr>" by blast
    have "\<exists>e. q = Some e \<and> rec = pe_rec e" if "st = RecordAnswer (Inr rec)" for rec
      using st that by (auto simp: record_end_def split: option.splits)
    then have 3: "\<forall>rec. st = RecordAnswer (Inr rec) \<longrightarrow> (\<exists>e. known lg k e \<and> rec = pe_rec e \<and> 0 \<le> now - pe_fetched e \<and> now - pe_fetched e < grace (au_cfg a))"
      using stale CacheMiss by blast
    have "\<forall>e. st = RecordFetch (Some e) \<longrightarrow> known lg k e \<and> 0 \<le> now - pe_fetched e \<and> now - pe_fetched e < grace (au_cfg a)"
      using stale CacheMiss st by blast
    then show ?thesis using 1 2 3 by blast
  qed
qed

lemma callers_update:
  assumes "\<forall>c \<in> set cs. P c" "P c'"
  shows "\<forall>c \<in> set (cs[i := c']). P c"
  using assms set_update_subset_insert[of cs i c'] by blast

lemma begin_inv:
  assumes inv: "auth_inv sha256 s"
  shows "auth_inv sha256 (Authenticate_begin sha256 now bearer s)"
proof (cases "ParseKey sha256 bearer")
  case (Inl e)
  then show ?thesis using inv by (simp add: Authenticate_begin_def auth_inv_def caller_ok_def)
next
  case (Inr ph)
  obtain k h where ph: "ph = (k, h)" by force
  obtain a st where r: "record_begin now k (ar_a s) = (a, st)" by force
  let ?lg = "ar_log s" and ?cfg = "au_cfg (ar_a s)"
  have co: "caches_ok (ar_a s) ?lg" and lo: "lookups_ok (ar_a s) (ar_lookups s)"
    and cs: "\<forall>c \<in> set (ar_callers s). caller_ok sha256 ?cfg ?lg (ar_lookups s) (au_heap (ar_a s)) c" using inv by (auto simp: auth_inv_def)
  note B = record_begin_spec[OF co r]
  obtain p n x y where a: "a = (ar_a s)\<lparr>au_pos := p, au_neg := n, au_cacheHits := x, au_cacheMisses := y\<rparr>" using B by blast
  let ?c = "\<lparr>c_bearer = bearer, c_prefix = k, c_hash = h, c_state = (case st of RecordAnswer r \<Rightarrow> CCheck r | RecordFetch stale \<Rightarrow> CFetch stale),
    c_since = length ?lg, c_clock = [now]\<rparr>"
  have ev: "evidence (grace ?cfg) ?lg ?c (pe_rec e)" if "known ?lg k e" "0 \<le> now - pe_fetched e" "now - pe_fetched e < grace ?cfg" for e
    by (rule known_evidence) (use that in simp_all)
  have "caller_ok sha256 ?cfg ?lg (ar_lookups s) (au_heap (ar_a s)) ?c"
  proof (cases st)
    case (RecordAnswer r)
    have "evidence (grace ?cfg) ?lg ?c rec" if "r = Inr rec" for rec using B ev RecordAnswer that by blast
    then show ?thesis using Inr ph RecordAnswer by (simp add: caller_ok_def)
  next
    case (RecordFetch stale)
    have "stale_ok (grace ?cfg) ?lg ?c stale" unfolding stale_ok_def using B ev RecordFetch by blast
    then show ?thesis using Inr ph RecordFetch by (simp add: caller_ok_def)
  qed
  moreover have "lookups_ok a (ar_lookups s)" using lo by (simp add: a lookups_ok_def)
  moreover have "au_cfg a = ?cfg" "au_heap a = au_heap (ar_a s)" by (simp_all add: a)
  ultimately show ?thesis using B cs Inr ph r by (simp add: Authenticate_begin_def auth_inv_def)
qed

lemma lookups_ok_start:
  assumes lo: "lookups_ok b ls" and new: "mget (au_flights b) k = None"
    and room: "au_inflightRefresh b + au_inflightNew b < ac_MaxLookups (au_cfg b)" "refresh \<or> au_inflightNew b < ac_MaxLookups (au_cfg b) - au_reserve b"
  shows "lookups_ok ((if refresh then b\<lparr>au_inflightRefresh := au_inflightRefresh b + 1\<rparr> else b\<lparr>au_inflightNew := au_inflightNew b + 1\<rparr>)
      \<lparr>au_flights := mput k (length (au_heap b)) (au_flights b), au_heap := au_heap b @ [None]\<rparr>) (ls @ [(k, length (au_heap b), refresh)])"
    (is "lookups_ok ?b ?ls")
proof -
  have fl: "mget (au_flights b) k' = Some f \<longleftrightarrow> (\<exists>x. (k', f, x) \<in> set ls)" for k' f using lo by (simp add: lookups_ok_def)
  have hp: "f < length (au_heap b)" "au_heap b ! f = None" if "(k', f, x) \<in> set ls" for k' f x using lo that by (auto simp: lookups_ok_def)
  have dk: "k \<notin> fst ` set ls" using fl[of k] new by force
  have df: "length (au_heap b) \<notin> (fst \<circ> snd) ` set ls" using hp by force
  have "mget (mput k (length (au_heap b)) (au_flights b)) k' = Some f \<longleftrightarrow> (\<exists>x. (k', f, x) \<in> set ?ls)" for k' f
    using fl[of k' f] dk by (force simp: gomap_simps)
  moreover have "\<forall>(k', f, x) \<in> set ?ls. f < length (au_heap b @ [None]) \<and> (au_heap b @ [None]) ! f = None" using hp by (fastforce simp: nth_append less_Suc_eq)
  ultimately show ?thesis using lo room dk df by (cases refresh) (simp_all add: lookups_ok_def)
qed

lemma fetch_begin_spec:
  assumes co: "caches_ok a lg" and lo: "lookups_ok a ls" and r: "fetch_begin now k refresh a = (a', st)"
  shows "caches_ok a' lg \<and> au_cfg a' = au_cfg a
    \<and> (case st of
         FetchAnswer r \<Rightarrow> au_heap a' = au_heap a \<and> lookups_ok a' ls
           \<and> (\<forall>rec. r = Inr rec \<longrightarrow> (\<exists>e. known lg k e \<and> rec = pe_rec e \<and> 0 \<le> now - pe_fetched e \<and> now - pe_fetched e < grace (au_cfg a)))
       | FetchAwait f \<Rightarrow> au_heap a' = au_heap a \<and> lookups_ok a' ls \<and> (\<exists>b. (k, f, b) \<in> set ls)
       | FetchStart f \<Rightarrow> f = length (au_heap a) \<and> au_heap a' = au_heap a @ [None] \<and> lookups_ok a' (ls @ [(k, f, refresh)]))"
proof -
  obtain b c where r1: "cachedLocked k now a = (b, c)" by force
  obtain p n where b: "b = a\<lparr>au_pos := p, au_neg := n\<rparr>" and ok: "caches_ok b lg"
    and hit: "\<And>rec. c = CacheHit (Inr rec) \<Longrightarrow> \<exists>e. known lg k e \<and> rec = pe_rec e \<and> 0 \<le> now - pe_fetched e \<and> now - pe_fetched e < ac_CacheTTL (au_cfg a)"
    using co r1 by (rule cachedLocked_spec) blast
  have TG: "ac_CacheTTL (au_cfg a) \<le> grace (au_cfg a)" using co by (simp add: caches_ok_def grace_def)
  have lo1: "lookups_ok b ls" using lo by (simp add: b)
  show ?thesis
  proof (cases c)
    case (CacheHit q)
    then have "a' = b" "st = FetchAnswer q" using r r1 by (simp_all add: fetch_begin_def)
    then show ?thesis using ok lo1 hit CacheHit TG b by fastforce
  next
    case miss: (CacheMiss q)
    show ?thesis
    proof (cases "mget (au_flights b) k")
      case (Some f)
      then have "a' = b" "st = (if refresh then FetchAnswer (Inl (AuthUnavailable RefreshSlow)) else FetchAwait f)" using r r1 miss by (simp_all add: fetch_begin_def)
      moreover have "\<exists>x. (k, f, x) \<in> set ls" using Some lo1 by (simp add: lookups_ok_def)
      ultimately show ?thesis using ok lo1 b by simp
    next
      case None
      let ?full = "au_inflightRefresh b + au_inflightNew b \<ge> ac_MaxLookups (au_cfg b) \<or> (\<not> refresh \<and> au_inflightNew b \<ge> ac_MaxLookups (au_cfg b) - au_reserve b)"
      show ?thesis
      proof (cases ?full)
        case True
        then have "a' = b" "st = FetchAnswer (Inl (AuthUnavailable LookupsExhausted))" using r r1 miss None by (auto simp: fetch_begin_def)
        then show ?thesis using ok lo1 b by simp
      next
        case False
        let ?f = "length (au_heap b)"
        let ?b = "(if refresh then b\<lparr>au_inflightRefresh := au_inflightRefresh b + 1\<rparr> else b\<lparr>au_inflightNew := au_inflightNew b + 1\<rparr>)
          \<lparr>au_flights := mput k ?f (au_flights b), au_heap := au_heap b @ [None]\<rparr>"
        have a': "a' = ?b" and st: "st = FetchStart ?f" using r r1 miss None False by (auto simp: fetch_begin_def Let_def)
        have "lookups_ok ?b (ls @ [(k, ?f, refresh)])" by (rule lookups_ok_start[OF lo1 None]) (use False in auto)
        moreover have "caches_ok ?b lg" using ok by (cases refresh) (simp_all add: caches_ok_def)
        ultimately show ?thesis using a' st b by (cases refresh) simp_all
      qed
    qed
  qed
qed

lemma flight_ok_more:
  assumes "flight_ok lg ls heap c f" "set ls \<subseteq> set ls'" "heap' = heap \<or> heap' = heap @ [None]"
  shows "flight_ok lg ls' heap' c f"
proof -
  have "f < length heap' \<and> heap' ! f = heap ! f" using assms(1,3) by (auto simp: flight_ok_def nth_append)
  then show ?thesis using assms(1,2) unfolding flight_ok_def by auto
qed

lemma caller_ok_more:
  assumes "caller_ok sha256 cfg lg ls heap c" "set ls \<subseteq> set ls'" "heap' = heap \<or> heap' = heap @ [None]"
  shows "caller_ok sha256 cfg lg ls' heap' c"
  using assms(1) flight_ok_more[OF _ assms(2,3)] unfolding caller_ok_def by (auto split: caller_state.splits)

lemma fetch_inv:
  assumes inv: "auth_inv sha256 s" and i: "i < length (ar_callers s)" and st: "c_state (ar_callers s ! i) = CFetch stale"
  shows "auth_inv sha256 (fetch now i stale s)"
proof -
  let ?lg = "ar_log s" and ?cfg = "au_cfg (ar_a s)" and ?d = "ar_callers s ! i" and ?ls = "ar_lookups s" and ?h = "au_heap (ar_a s)"
  let ?c = "?d\<lparr>c_clock := c_clock ?d @ [now]\<rparr>"
  have co: "caches_ok (ar_a s) ?lg" and lo: "lookups_ok (ar_a s) ?ls"
    and cs: "\<forall>c \<in> set (ar_callers s). caller_ok sha256 ?cfg ?lg ?ls ?h c" using inv by (auto simp: auth_inv_def)
  have c0: "c_since ?d \<le> length ?lg" "ParseKey sha256 (c_bearer ?d) = Inr (c_prefix ?d, c_hash ?d)" "stale_ok (grace ?cfg) ?lg ?d stale"
    using bspec[OF cs nth_mem[OF i]] st by (simp_all add: caller_ok_def)
  obtain a w where r: "fetch_begin now (c_prefix ?d) (stale \<noteq> None) (ar_a s) = (a, w)" by force
  note F = fetch_begin_spec[OF co lo r]
  have so: "stale_ok (grace ?cfg) ?lg (?c\<lparr>c_state := x\<rparr>) stale" for x by (rule stale_ok_cong[OF c0(3)]) auto
  have ev: "evidence (grace ?cfg) ?lg (?c\<lparr>c_state := x\<rparr>) (pe_rec e)" if "known ?lg (c_prefix ?d) e" "0 \<le> now - pe_fetched e" "now - pe_fetched e < grace ?cfg" for e x
    by (rule known_evidence[where now = now]) (use that in simp_all)
  show ?thesis
  proof (cases w)
    case (FetchAnswer q)
    have "evidence (grace ?cfg) ?lg (?c\<lparr>c_state := x\<rparr>) rec" if "record_end stale q = Inr rec" for rec x
      by (rule record_end_evidence[OF that so]) (use F ev FetchAnswer in auto)
    then have "caller_ok sha256 ?cfg ?lg ?ls ?h (?c\<lparr>c_state := CCheck (record_end stale q)\<rparr>)" using c0 by (simp add: caller_ok_def)
    from callers_update[OF cs this] show ?thesis using F FetchAnswer r by (simp add: fetch_def Let_def auth_inv_def)
  next
    case (FetchAwait f)
    then obtain b where b: "(c_prefix ?d, f, b) \<in> set ?ls" "au_heap a = ?h" "lookups_ok a ?ls" using F by auto
    have "flight_ok ?lg ?ls ?h (?c\<lparr>c_state := x\<rparr>) f" for x using lo b(1) by (fastforce simp: flight_ok_def lookups_ok_def)
    then have "caller_ok sha256 ?cfg ?lg ?ls ?h (?c\<lparr>c_state := CWait stale f False\<rparr>)" using c0 so by (simp add: caller_ok_def)
    from callers_update[OF cs this] show ?thesis using F FetchAwait r by (simp add: fetch_def Let_def auth_inv_def)
  next
    case (FetchStart f)
    let ?ls' = "?ls @ [(c_prefix ?d, f, stale \<noteq> None)]"
    have f: "f = length ?h" "au_heap a = ?h @ [None]" "lookups_ok a ?ls'" using F FetchStart by auto
    have "flight_ok ?lg ?ls' (?h @ [None]) (?c\<lparr>c_state := x\<rparr>) f" for x by (auto simp: flight_ok_def f(1))
    then have new: "caller_ok sha256 ?cfg ?lg ?ls' (?h @ [None]) (?c\<lparr>c_state := CWait stale f (stale \<noteq> None)\<rparr>)" using c0 so by (simp add: caller_ok_def)
    have "\<forall>c \<in> set (ar_callers s). caller_ok sha256 ?cfg ?lg ?ls' (?h @ [None]) c"
    proof
      fix c assume "c \<in> set (ar_callers s)"
      then have "caller_ok sha256 ?cfg ?lg ?ls ?h c" using cs by blast
      then show "caller_ok sha256 ?cfg ?lg ?ls' (?h @ [None]) c" by (rule caller_ok_more) auto
    qed
    from callers_update[OF this new] show ?thesis using F FetchStart r f by (simp add: fetch_def Let_def auth_inv_def)
  qed
qed

lemma same_fields: "au_cfg (recovered a) = au_cfg a" "au_heap (recovered a) = au_heap a" "au_flights (recovered a) = au_flights a" "au_reserve (recovered a) = au_reserve a"
    "au_inflightRefresh (recovered a) = au_inflightRefresh a" "au_inflightNew (recovered a) = au_inflightNew a" "au_pos (recovered a) = au_pos a" "au_neg (recovered a) = au_neg a"
    "au_cfg (auth_failed a) = au_cfg a" "au_heap (auth_failed a) = au_heap a" "au_flights (auth_failed a) = au_flights a" "au_reserve (auth_failed a) = au_reserve a"
    "au_inflightRefresh (auth_failed a) = au_inflightRefresh a" "au_inflightNew (auth_failed a) = au_inflightNew a" "au_pos (auth_failed a) = au_pos a" "au_neg (auth_failed a) = au_neg a"
    "au_cfg (warnLimited t a) = au_cfg a" "au_heap (warnLimited t a) = au_heap a" "au_flights (warnLimited t a) = au_flights a" "au_reserve (warnLimited t a) = au_reserve a"
    "au_inflightRefresh (warnLimited t a) = au_inflightRefresh a" "au_inflightNew (warnLimited t a) = au_inflightNew a" "au_pos (warnLimited t a) = au_pos a" "au_neg (warnLimited t a) = au_neg a"
  by (simp_all add: recovered_def auth_failed_def warnLimited_def)

lemma new_known: "known (lg @ [(k, now, Inr rec)]) k \<lparr>pe_rec = rec, pe_fetched = now, pe_lastTouch = t\<rparr>" "unknown (lg @ [(k, now, Inl ErrNotFound)]) k now"
  by (simp_all add: known_def unknown_def latest_snoc conclusive_def)

lemma lookup_outcome_spec:
  assumes co: "caches_ok a lg" and r: "lookup_outcome now wnow k ans a = (a', r)"
  shows "caches_ok a' (lg @ [(k, now, ans)])"
    and "au_cfg a' = au_cfg a \<and> au_heap a' = au_heap a \<and> au_flights a' = au_flights a \<and> au_reserve a' = au_reserve a
      \<and> au_inflightRefresh a' = au_inflightRefresh a \<and> au_inflightNew a' = au_inflightNew a"
    and "r = Inr rec \<Longrightarrow> ans = Inr rec"
proof -
  have hp: "lru.holds (known lg) (au_pos a)" "lru_ok (au_pos a)" and hn: "lru.holds (unknown lg) (au_neg a)" "lru_ok (au_neg a)"
    using co by (auto simp: caches_ok_def lru.holds_def)
  have a': "a' = fst (lookup_outcome now wnow k ans a)" and r': "r = snd (lookup_outcome now wnow k ans a)" using r by simp_all
  let ?lg = "lg @ [(k, now, ans)]"
  have kp: "known ?lg k' e" if "known lg k' e" "k' \<noteq> k \<or> \<not> conclusive ans" for k' e by (rule known_snoc[OF that(1)]) (use that(2) in auto)
  have kn: "unknown ?lg k' e" if "unknown lg k' e" "k' \<noteq> k \<or> \<not> conclusive ans" for k' e by (rule unknown_snoc[OF that(1)]) (use that(2) in auto)
  have "caches_ok a' ?lg \<and> (r = Inr rec \<longrightarrow> ans = Inr rec)"
  proof (cases ans)
    case (Inr rc)
    obtain pos old where g: "lru_get k (au_pos a) = (pos, old)" by force
    define t where "t = (case old of Some o' \<Rightarrow> pe_lastTouch o' | None \<Rightarrow> zero_time)"
    let ?e = "\<lparr>pe_rec = rc, pe_fetched = now, pe_lastTouch = t\<rparr>"
    have h: "lru.holds (known lg) pos" using lru.holds_get[OF hp(1), of k] g by simp
    have okp: "lru_ok pos" using h by (simp add: lru.holds_def)
    have x: "lru_max pos = lru_max (au_pos a)" using lru_get_refines(4)[OF hp(2), of k] g by simp
    have "lru.holds (known ?lg) (lru_put k ?e pos)" by (rule lru.holds_put_other[OF h]) (use kp new_known(1) Inr in auto)
    moreover have "lru.holds (unknown ?lg) (lru_remove k (au_neg a))" by (rule lru.holds_remove_other[OF hn(1)]) (use kn in auto)
    moreover have "a' = (recovered (a\<lparr>au_pos := lru_put k ?e pos, au_neg := lru_remove k (au_neg a)\<rparr>))\<lparr>au_downUntil := zero_time\<rparr>" "r = Inr rc"
      unfolding a' r' by (simp_all add: lookup_outcome_def Inr g t_def Let_def)
    ultimately show ?thesis using co Inr x lru_put_refines(3)[OF okp] lru_remove_refines(3)[OF hn(2)] by (simp add: caches_ok_def same_fields)
  next
    case (Inl e)
    show ?thesis
    proof (cases "e = ErrNotFound")
      case True
      have "lru.holds (known ?lg) (lru_remove k (au_pos a))" by (rule lru.holds_remove_other[OF hp(1)]) (use kp in auto)
      moreover have "lru.holds (unknown ?lg) (lru_put k now (au_neg a))" by (rule lru.holds_put_other[OF hn(1)]) (use kn new_known(2) Inl True in auto)
      moreover have "a' = (recovered (a\<lparr>au_pos := lru_remove k (au_pos a), au_neg := lru_put k now (au_neg a)\<rparr>))\<lparr>au_downUntil := zero_time\<rparr>" "r = Inl ErrNotFound"
        unfolding a' r' by (simp_all add: lookup_outcome_def Inl True)
      ultimately show ?thesis using co lru_put_refines(3)[OF hn(2)] lru_remove_refines(3)[OF hp(2)] by (simp add: caches_ok_def same_fields)
    next
      case False
      then have n: "\<not> conclusive ans" by (simp add: conclusive_def Inl)
      have "lru.holds (known ?lg) (au_pos a)" "lru.holds (unknown ?lg) (au_neg a)"
        by (rule lru.holds_mono[OF hp(1)], use kp n in blast) (rule lru.holds_mono[OF hn(1)], use kn n in blast)
      moreover have "au_pos a' = au_pos a \<and> au_neg a' = au_neg a \<and> au_cfg a' = au_cfg a \<and> (\<forall>rc. r \<noteq> Inr rc)"
        unfolding a' r' using False by (simp add: lookup_outcome_def Inl same_fields)
      ultimately show ?thesis using co by (simp add: caches_ok_def)
    qed
  qed
  then show "caches_ok a' ?lg" "r = Inr rec \<Longrightarrow> ans = Inr rec" by blast+
  show "au_cfg a' = au_cfg a \<and> au_heap a' = au_heap a \<and> au_flights a' = au_flights a \<and> au_reserve a' = au_reserve a
      \<and> au_inflightRefresh a' = au_inflightRefresh a \<and> au_inflightNew a' = au_inflightNew a"
    unfolding a' by (cases ans) (simp_all add: lookup_outcome_def same_fields Let_def split_beta)
qed

lemma lookups_ok_end:
  assumes lo: "lookups_ok a ls" and j: "j < length ls" "ls ! j = (k, f, refresh)"
    and b: "au_cfg b = au_cfg a" "au_reserve b = au_reserve a" "au_heap b = (au_heap a)[f := Some r]" "au_flights b = mdel k (au_flights a)"
      "au_inflightRefresh b = au_inflightRefresh a - (if refresh then 1 else 0)" "au_inflightNew b = au_inflightNew a - (if refresh then 0 else 1)"
  shows "lookups_ok b (take j ls @ drop (Suc j) ls)"
proof -
  let ?x = "take j ls" and ?y = "drop (Suc j) ls"
  have ls: "ls = ?x @ (k, f, refresh) # ?y" using j id_take_nth_drop by metis
  have D: "distinct (map fst (?x @ (k, f, refresh) # ?y))" "distinct (map (fst \<circ> snd) (?x @ (k, f, refresh) # ?y))"
    using lo unfolding ls[symmetric] by (simp_all add: lookups_ok_def)
  have dk: "k \<notin> fst ` set (?x @ ?y)" and df: "f \<notin> (fst \<circ> snd) ` set (?x @ ?y)" using D by auto
  have d: "distinct (map fst (?x @ ?y))" "distinct (map (fst \<circ> snd) (?x @ ?y))" using D by auto
  have mem: "q \<in> set ls \<longleftrightarrow> q = (k, f, refresh) \<or> q \<in> set (?x @ ?y)" for q by (subst ls) auto
  have fl: "mget (au_flights a) k' = Some g \<longleftrightarrow> (\<exists>x. (k', g, x) \<in> set ls)" for k' g using lo by (simp add: lookups_ok_def)
  have 1: "mget (au_flights b) k' = Some g \<longleftrightarrow> (\<exists>x. (k', g, x) \<in> set (?x @ ?y))" for k' g
  proof (cases "k' = k")
    case True
    then show ?thesis using dk by (force simp: b(4) gomap_simps image_iff)
  next
    case False
    then show ?thesis using fl[of k' g] unfolding mem b(4) by (simp add: gomap_simps)
  qed
  have 2: "\<forall>(k', g, x) \<in> set (?x @ ?y). g < length (au_heap b) \<and> au_heap b ! g = None"
  proof clarify
    fix k' g x assume q: "(k', g, x) \<in> set (?x @ ?y)"
    then have "(k', g, x) \<in> set ls" using mem by blast
    then have "g < length (au_heap a) \<and> au_heap a ! g = None" using lo by (auto simp: lookups_ok_def)
    moreover have "g \<noteq> f" using q df by force
    ultimately show "g < length (au_heap b) \<and> au_heap b ! g = None" by (simp add: b(3))
  qed
  have "count_if P ls = count_if P (?x @ ?y) + (if P (k, f, refresh) then 1 else 0)" for P by (subst ls) simp
  then have 3: "au_inflightRefresh b = int (count_if (\<lambda>q. snd (snd q)) (?x @ ?y))" "au_inflightNew b = int (count_if (\<lambda>q. \<not> snd (snd q)) (?x @ ?y))"
    using lo by (simp_all add: lookups_ok_def b(5,6))
  have L: "mok (au_flights a)" "au_inflightRefresh a + au_inflightNew a \<le> ac_MaxLookups (au_cfg a)" "au_inflightNew a \<le> ac_MaxLookups (au_cfg a) - au_reserve a"
      "1 \<le> au_reserve a" "au_reserve a < ac_MaxLookups (au_cfg a)" using lo by (simp_all add: lookups_ok_def)
  have 4: "mok (au_flights b)" "au_inflightRefresh b + au_inflightNew b \<le> ac_MaxLookups (au_cfg b)" "au_inflightNew b \<le> ac_MaxLookups (au_cfg b) - au_reserve b"
      "1 \<le> au_reserve b" "au_reserve b < ac_MaxLookups (au_cfg b)" using L unfolding b by (cases refresh; simp)+
  show ?thesis unfolding lookups_ok_def using d 1 2 3 4 by blast
qed

lemma flight_ok_end:
  assumes "flight_ok lg ls heap c g" and j: "j < length ls" "ls ! j = (k, f, refresh)"
    and uniq: "\<And>b. (c_prefix c, f, b) \<in> set ls \<Longrightarrow> c_prefix c = k" and r: "\<And>rec. r = Inr rec \<Longrightarrow> ans = Inr rec" and since: "c_since c \<le> length lg"
    and f: "heap ! f = None"
  shows "flight_ok (lg @ [(k, now, ans)]) (take j ls @ drop (Suc j) ls) (heap[f := Some r]) c g"
proof -
  have g: "g < length heap" using assms(1) by (simp add: flight_ok_def)
  have ls: "set ls = insert (k, f, refresh) (set (take j ls @ drop (Suc j) ls))" using j by (subst id_take_nth_drop[OF j(1)]) auto
  consider (run) b where "heap ! g = None" "(c_prefix c, g, b) \<in> set ls"
    | (ended) q where "heap ! g = Some q" "\<forall>rec. q = Inr rec \<longrightarrow> (\<exists>m t. c_since c \<le> m \<and> m < length lg \<and> lg ! m = (c_prefix c, t, Inr rec))"
    using assms(1) by (auto simp: flight_ok_def)
  then show ?thesis
  proof cases
    case run
    show ?thesis
    proof (cases "g = f")
      case True
      then have "c_prefix c = k" using run(2) uniq by blast
      then show ?thesis using True g r since unfolding flight_ok_def by (auto intro!: exI[of _ "length lg"])
    next
      case False
      then show ?thesis using run g ls unfolding flight_ok_def by auto
    qed
  next
    case ended
    have "(heap[f := Some r]) ! g = Some q" using ended(1) f by (cases "g = f") auto
    moreover have "\<exists>m t. c_since c \<le> m \<and> m < length (lg @ [(k, now, ans)]) \<and> (lg @ [(k, now, ans)]) ! m = (c_prefix c, t, Inr rec)" if q: "q = Inr rec" for rec
    proof -
      obtain m t where "c_since c \<le> m" "m < length lg" "lg ! m = (c_prefix c, t, Inr rec)" using ended(2) q by blast
      then show ?thesis by (intro exI[of _ m] exI[of _ t]) (simp add: nth_append)
    qed
    ultimately show ?thesis using g unfolding flight_ok_def by simp
  qed
qed

lemma caller_ok_end:
  assumes c: "caller_ok sha256 cfg lg ls heap c" and j: "j < length ls" "ls ! j = (k, f, refresh)"
    and uniq: "\<And>b. (c_prefix c, f, b) \<in> set ls \<Longrightarrow> c_prefix c = k" and r: "\<And>rec. r = Inr rec \<Longrightarrow> ans = Inr rec" and f: "heap ! f = None"
  shows "caller_ok sha256 cfg (lg @ [(k, now, ans)]) (take j ls @ drop (Suc j) ls) (heap[f := Some r]) c"
proof -
  have since: "c_since c \<le> length lg" using c by (simp add: caller_ok_def)
  have ac: "accepted cfg lg c p \<Longrightarrow> accepted cfg (lg @ [(k, now, ans)]) c p" for p
    unfolding accepted_def using evidence_snoc[OF _ since] by blast
  show ?thesis using c evidence_snoc[OF _ since] stale_ok_snoc[OF _ since] ac flight_ok_end[OF _ j uniq r since f]
    unfolding caller_ok_def by (cases "c_state c") auto
qed

lemma lookup_inv:
  assumes inv: "auth_inv sha256 s" and j: "j < length (ar_lookups s)" "ar_lookups s ! j = (k, f, refresh)"
  shows "auth_inv sha256 (s\<lparr>ar_a := lookup_end now wnow k f refresh ans (ar_a s), ar_lookups := take j (ar_lookups s) @ drop (Suc j) (ar_lookups s),
    ar_log := ar_log s @ [(k, now, ans)]\<rparr>)"
proof -
  let ?a = "ar_a s" and ?ls = "ar_lookups s" and ?lg = "ar_log s"
  have co: "caches_ok ?a ?lg" and lo: "lookups_ok ?a ?ls" and cs: "\<forall>c \<in> set (ar_callers s). caller_ok sha256 (au_cfg ?a) ?lg ?ls (au_heap ?a) c"
    using inv by (auto simp: auth_inv_def)
  have mem: "(k, f, refresh) \<in> set ?ls" using j nth_mem by metis
  have f: "au_heap ?a ! f = None" using lo mem by (auto simp: lookups_ok_def)
  have uniq: "k' = k" if "(k', f, b) \<in> set ?ls" for k' b
  proof -
    have "inj_on (fst \<circ> snd) (set ?ls)" using lo by (simp add: lookups_ok_def distinct_map)
    from inj_onD[OF this _ that mem] have "(k', f, b) = (k, f, refresh)" by simp
    then show ?thesis by simp
  qed
  let ?b = "(if refresh then (?a\<lparr>au_flights := mdel k (au_flights ?a)\<rparr>)\<lparr>au_inflightRefresh := au_inflightRefresh ?a - 1\<rparr>
     else (?a\<lparr>au_flights := mdel k (au_flights ?a)\<rparr>)\<lparr>au_inflightNew := au_inflightNew ?a - 1\<rparr>)"
  obtain b r where r: "lookup_outcome now wnow k ans ?b = (b, r)" by force
  have le: "lookup_end now wnow k f refresh ans ?a = b\<lparr>au_heap := (au_heap b)[f := Some r]\<rparr>" using r by (cases refresh) (simp_all add: lookup_end_def Let_def)
  have cb: "caches_ok ?b ?lg" using co by (simp add: caches_ok_def)
  note O = lookup_outcome_spec[OF cb r]
  have fields: "au_cfg b = au_cfg ?a" "au_reserve b = au_reserve ?a" "au_heap b = au_heap ?a" "au_flights b = mdel k (au_flights ?a)"
      "au_inflightRefresh b = au_inflightRefresh ?a - (if refresh then 1 else 0)" "au_inflightNew b = au_inflightNew ?a - (if refresh then 0 else 1)"
    using O(2) by simp_all
  have "lookups_ok (b\<lparr>au_heap := (au_heap b)[f := Some r]\<rparr>) (take j ?ls @ drop (Suc j) ?ls)"
    by (rule lookups_ok_end[OF lo j]) (simp_all add: fields)
  moreover have "caches_ok (b\<lparr>au_heap := (au_heap b)[f := Some r]\<rparr>) (?lg @ [(k, now, ans)])" using O(1) by (simp add: caches_ok_def)
  moreover have "\<forall>c \<in> set (ar_callers s). caller_ok sha256 (au_cfg ?a) (?lg @ [(k, now, ans)]) (take j ?ls @ drop (Suc j) ?ls) ((au_heap ?a)[f := Some r]) c"
  proof
    fix c assume "c \<in> set (ar_callers s)"
    then show "caller_ok sha256 (au_cfg ?a) (?lg @ [(k, now, ans)]) (take j ?ls @ drop (Suc j) ?ls) ((au_heap ?a)[f := Some r]) c"
      by (intro caller_ok_end[OF _ j _ _ f]) (use cs uniq O(3) in blast)+
  qed
  ultimately show ?thesis unfolding auth_inv_def le by (simp add: fields)
qed

lemma authenticator_same: "a\<lparr>au_pos := au_pos a, au_touches := au_touches a\<rparr> = a"
  by simp

lemma noteUse_spec:
  assumes co: "caches_ok a lg"
  shows "caches_ok (noteUse k kid now a) lg \<and> (\<exists>p t. noteUse k kid now a = a\<lparr>au_pos := p, au_touches := t\<rparr>)"
proof -
  obtain pos hit where g: "lru_get k (au_pos a) = (pos, hit)" by force
  have hp: "lru.holds (known lg) (au_pos a)" "lru_ok (au_pos a)" using co by (auto simp: caches_ok_def lru.holds_def)
  have h: "lru.holds (known lg) pos" using lru.holds_get[OF hp(1), of k] g by simp
  have okp: "lru_ok pos" using h by (simp add: lru.holds_def)
  have x: "lru_max pos = lru_max (au_pos a)" using lru_get_refines(4)[OF hp(2), of k] g by simp
  have put: "lru.holds (known lg) (lru_put k (e\<lparr>pe_lastTouch := now\<rparr>) pos)" if "hit = Some e" for e
  proof (rule lru.holds_put[OF h])
    show "known lg k (e\<lparr>pe_lastTouch := now\<rparr>)" using lru.holds_answer[OF hp(1)] g that by (simp add: known_def)
  qed
  have e1: "\<exists>p t. a\<lparr>au_pos := pos\<rparr> = a\<lparr>au_pos := p, au_touches := t\<rparr>" by (rule exI[of _ pos], rule exI[of _ "au_touches a"]) simp
  have e2: "\<exists>p t. a = a\<lparr>au_pos := p, au_touches := t\<rparr>" by (metis authenticator_same)
  have c1: "caches_ok (a\<lparr>au_pos := pos\<rparr>) lg" using co h x by (simp add: caches_ok_def)
  show ?thesis
  proof (cases "au_toucher a")
    case False
    then have "noteUse k kid now a = a" by (simp add: noteUse_def)
    then show ?thesis using co e2 by metis
  next
    case True
    show ?thesis
    proof (cases hit)
      case None
      then have "noteUse k kid now a = a\<lparr>au_pos := pos\<rparr>" using True by (simp add: noteUse_def g)
      then show ?thesis using c1 e1 by metis
    next
      case (Some e)
      have "caches_ok (a\<lparr>au_pos := lru_put k (e\<lparr>pe_lastTouch := now\<rparr>) pos, au_touches := t\<rparr>) lg" for t
        using co put[OF Some] x lru_put_refines(3)[OF okp] by (simp add: caches_ok_def)
      moreover have "noteUse k kid now a = (if now - pe_lastTouch e < touchEvery then a\<lparr>au_pos := pos\<rparr>
          else a\<lparr>au_pos := lru_put k (e\<lparr>pe_lastTouch := now\<rparr>) pos,
                 au_touches := (if length (au_touches a) < touchesCap then au_touches a @ [(kid, now)] else au_touches a)\<rparr>)"
        using True Some by (simp add: noteUse_def g)
      ultimately show ?thesis using c1 e1 by metis
    qed
  qed
qed

lemma check_spec:
  assumes co: "caches_ok a lg" and ev: "\<And>rec. r = Inr rec \<Longrightarrow> evidence (grace cfg) lg c rec" and e: "Authenticate_end now (c_prefix c) (c_hash c) r a = (a', v)"
    and c': "c' = c\<lparr>c_state := CDone v, c_clock := c_clock c @ [now]\<rparr>"
  shows "caches_ok a' lg \<and> (\<exists>p t. a' = a\<lparr>au_pos := p, au_touches := t\<rparr>) \<and> (\<forall>p. v = Inr p \<longrightarrow> accepted cfg lg c' p)"
proof -
  have e2: "\<exists>p t. a = a\<lparr>au_pos := p, au_touches := t\<rparr>" by (metis authenticator_same)
  show ?thesis
  proof (cases "\<exists>p. v = Inr p")
    case False
    then have "a' = a" using e by (auto simp: Authenticate_end_def split: sum.splits if_splits)
    then show ?thesis using False co e2 by blast
  next
    case True
    then obtain p where p: "v = Inr p" by blast
    then obtain rec where rec: "r = Inr rec" "HashesEqual (c_hash c) (kr_SecretHash rec)" "kr_KeyStatus rec = KeyActive" "tp_Status (kr_Policy rec) = TenantActive"
        "\<forall>x. kr_ExpiresAt rec = Some x \<longrightarrow> now < x" "p = \<lparr>pr_TenantID = kr_TenantID rec, pr_KeyID = kr_KeyID rec, pr_Policy = kr_Policy rec\<rparr>"
        "a' = noteUse (c_prefix c) (kr_KeyID rec) now a"
      using e by (auto simp: Authenticate_end_def split: sum.splits if_splits option.splits)
    have "evidence (grace cfg) lg c' rec" by (rule evidence_cong[OF ev[OF rec(1)]]) (auto simp: c')
    then have "accepted cfg lg c' p" unfolding accepted_def using rec by (intro exI[of _ rec]) (simp add: c')
    then show ?thesis using noteUse_spec[OF co, of "c_prefix c" "kr_KeyID rec" now] p rec(7) by simp
  qed
qed

lemma await_inv:
  assumes inv: "auth_inv sha256 s" and i: "i < length (ar_callers s)" and st: "c_state (ar_callers s ! i) = CWait stale f refresh"
    and en: "await_enabled f refresh w (ar_a s)"
  shows "auth_inv sha256 (s\<lparr>ar_callers := (ar_callers s)[i := (ar_callers s ! i)\<lparr>c_state := CCheck (record_end stale (await f w (ar_a s)))\<rparr>]\<rparr>)"
proof -
  let ?lg = "ar_log s" and ?cfg = "au_cfg (ar_a s)" and ?d = "ar_callers s ! i" and ?ls = "ar_lookups s" and ?h = "au_heap (ar_a s)"
  let ?c = "?d\<lparr>c_state := CCheck (record_end stale (await f w (ar_a s)))\<rparr>"
  have cs: "\<forall>c \<in> set (ar_callers s). caller_ok sha256 ?cfg ?lg ?ls ?h c" using inv by (simp add: auth_inv_def)
  have d: "c_since ?d \<le> length ?lg" "ParseKey sha256 (c_bearer ?d) = Inr (c_prefix ?d, c_hash ?d)" "stale_ok (grace ?cfg) ?lg ?d stale" "flight_ok ?lg ?ls ?h ?d f"
    using bspec[OF cs nth_mem[OF i]] st by (simp_all add: caller_ok_def)
  have so: "stale_ok (grace ?cfg) ?lg ?c stale" by (rule stale_ok_cong[OF d(3)]) simp_all
  have "evidence (grace ?cfg) ?lg ?c rec" if "record_end stale (await f w (ar_a s)) = Inr rec" for rec
  proof (rule record_end_evidence[OF that so])
    fix rc assume a: "await f w (ar_a s) = Inr rc"
    then have "w = FlightDone" by (cases w) (simp_all add: await_def)
    then have "?h ! f = Some (Inr rc)" using a en by (auto simp: await_def await_enabled_def)
    then obtain m t where "c_since ?d \<le> m" "m < length ?lg" "?lg ! m = (c_prefix ?d, t, Inr rc)" using d(4) by (auto simp: flight_ok_def)
    then show "evidence (grace ?cfg) ?lg ?c rc" unfolding evidence_def by (intro exI[of _ m] exI[of _ t]) simp
  qed
  then have "caller_ok sha256 ?cfg ?lg ?ls ?h ?c" using d by (simp add: caller_ok_def)
  from callers_update[OF cs this] show ?thesis using inv by (simp add: auth_inv_def)
qed

lemma check_inv:
  assumes inv: "auth_inv sha256 s" and i: "i < length (ar_callers s)" and st: "c_state (ar_callers s ! i) = CCheck r"
    and e: "Authenticate_end now (c_prefix (ar_callers s ! i)) (c_hash (ar_callers s ! i)) r (ar_a s) = (a, v)"
  shows "auth_inv sha256 (s\<lparr>ar_a := a, ar_callers := (ar_callers s)[i := (ar_callers s ! i)\<lparr>c_state := CDone v, c_clock := c_clock (ar_callers s ! i) @ [now]\<rparr>]\<rparr>)"
proof -
  let ?lg = "ar_log s" and ?cfg = "au_cfg (ar_a s)" and ?d = "ar_callers s ! i" and ?ls = "ar_lookups s" and ?h = "au_heap (ar_a s)"
  let ?c = "?d\<lparr>c_state := CDone v, c_clock := c_clock ?d @ [now]\<rparr>"
  have co: "caches_ok (ar_a s) ?lg" and lo: "lookups_ok (ar_a s) ?ls"
    and cs: "\<forall>c \<in> set (ar_callers s). caller_ok sha256 ?cfg ?lg ?ls ?h c" using inv by (simp_all add: auth_inv_def)
  have d: "c_since ?d \<le> length ?lg" "ParseKey sha256 (c_bearer ?d) = Inr (c_prefix ?d, c_hash ?d)" "\<And>rec. r = Inr rec \<Longrightarrow> evidence (grace ?cfg) ?lg ?d rec"
    using bspec[OF cs nth_mem[OF i]] st by (simp_all add: caller_ok_def)
  note S = check_spec[OF co d(3) e refl]
  obtain p t where a: "a = (ar_a s)\<lparr>au_pos := p, au_touches := t\<rparr>" using S by blast
  have "caller_ok sha256 ?cfg ?lg ?ls ?h ?c" using d(1,2) S by (simp add: caller_ok_def)
  from callers_update[OF cs this] have "\<forall>c \<in> set ((ar_callers s)[i := ?c]). caller_ok sha256 ?cfg ?lg ?ls ?h c" .
  moreover have "lookups_ok a ?ls" "au_cfg a = ?cfg" "au_heap a = ?h" using lo by (simp_all add: a)
  ultimately show ?thesis using S by (simp add: auth_inv_def)
qed

lemma auth_step_inv: "auth_inv sha256 s \<Longrightarrow> auth_inv sha256 (auth_step sha256 x s)"
proof (cases x)
  case (EvRun)
  assume "auth_inv sha256 s"
  moreover have "\<exists>t. fst (auth_Run (ar_a s)) = (ar_a s)\<lparr>au_touches := t\<rparr>"
    by (cases "au_touches (ar_a s)") (auto simp: auth_Run_def intro: exI[of _ "[]"] exI[of _ "au_touches (ar_a s)"])
  ultimately show ?thesis by (auto simp: EvRun auth_inv_def)
qed (auto simp: begin_inv fetch_inv lookup_inv await_inv check_inv Let_def split: caller_state.split prod.split)

lemma NewAuthenticator_cfg:
  fixes toucher cfg
  defines "a \<equiv> NewAuthenticator toucher cfg"
  shows "0 \<le> ac_StaleGrace (au_cfg a)" "0 < ac_CacheSize (au_cfg a)" "2 \<le> ac_MaxLookups (au_cfg a)" "au_reserve a = max 1 (go_div (ac_MaxLookups (au_cfg a)) 4)"
    "au_pos a = newLRU (ac_CacheSize (au_cfg a))" "au_neg a = newLRU (ac_CacheSize (au_cfg a))"
    "au_flights a = []" "au_heap a = []" "au_inflightRefresh a = 0" "au_inflightNew a = 0"
  unfolding a_def NewAuthenticator_def Let_def by (simp_all add: auth_defaults_def auth_DefaultConfig_def Let_def)

lemma auth_history_inv: "auth_inv sha256 (auth_history sha256 toucher cfg xs)"
proof (induction xs rule: rev_induct)
  case Nil
  let ?a = "NewAuthenticator toucher cfg"
  note N = NewAuthenticator_cfg[of toucher cfg]
  have "1 \<le> au_reserve ?a" "au_reserve ?a < ac_MaxLookups (au_cfg ?a)" using N(3,4) by (auto simp: go_div_nonneg max_def)
  then have "lookups_ok ?a []" using N by (simp add: lookups_ok_def)
  moreover have "caches_ok ?a []" using N by (simp add: caches_ok_def lru.holds_def newLRU_ok lru_content_def)
  ultimately show ?case by (simp add: auth_history_def auth_inv_def)
next
  case (snoc x xs)
  then show ?case using auth_step_inv by (simp add: auth_history_def)
qed

section \<open>Who is let in\<close>

lemma latest_later:
  assumes "latest lg k = Some m" "m < n" "n < length lg" "fst (lg ! n) = k"
  shows "\<not> conclusive (snd (snd (lg ! n)))"
  using assms
proof (induction lg rule: rev_induct)
  case (snoc x lg)
  obtain k' t r where x: "x = (k', t, r)" by (cases x)
  show ?case
  proof (cases "n = length lg")
    case True
    then show ?thesis using snoc.prems by (auto simp: x latest_snoc split: if_splits)
  next
    case False
    then have n: "n < length lg" using snoc.prems by simp
    then have "latest lg k = Some m" using snoc.prems by (auto simp: x latest_snoc split: if_splits)
    then show ?thesis using snoc.IH snoc.prems n by (simp add: nth_append)
  qed
qed simp

text \<open>C1: no request is let in without the store's word on its key. In every interleaving of requests and shared lookups, a request that is accepted presented a
  well-formed key whose secret hashes to the one the store gave for its prefix, in a record that says the key and the tenant are active and not expired at the moment
  of the check. That record came while the request was running, or it was the last conclusive answer for the prefix before the request, read less than the cache time
  plus the grace earlier: a revocation or deletion the store has reported is never overruled by an older answer.\<close>

theorem access_needs_current_key:
  assumes s: "s = auth_history sha256 toucher cfg xs" and c: "c \<in> set (ar_callers s)" "c_state c = CDone (Inr p)"
  shows "\<exists>rec m t. ParseKey sha256 (c_bearer c) = Inr (c_prefix c, c_hash c) \<and> HashesEqual (c_hash c) (kr_SecretHash rec)
    \<and> kr_KeyStatus rec = KeyActive \<and> tp_Status (kr_Policy rec) = TenantActive \<and> (\<forall>x. kr_ExpiresAt rec = Some x \<longrightarrow> last (c_clock c) < x)
    \<and> p = \<lparr>pr_TenantID = kr_TenantID rec, pr_KeyID = kr_KeyID rec, pr_Policy = kr_Policy rec\<rparr>
    \<and> m < length (ar_log s) \<and> ar_log s ! m = (c_prefix c, t, Inr rec)
    \<and> (c_since c \<le> m \<or>
       (\<forall>n. m < n \<longrightarrow> n < c_since c \<longrightarrow> fst (ar_log s ! n) = c_prefix c \<longrightarrow> \<not> conclusive (snd (snd (ar_log s ! n))))
       \<and> (\<exists>r \<in> set (c_clock c). 0 \<le> r - t \<and> r - t < ac_CacheTTL (au_cfg (ar_a s)) + ac_StaleGrace (au_cfg (ar_a s))))"
proof -
  let ?lg = "ar_log s"
  have "auth_inv sha256 s" unfolding s by (rule auth_history_inv)
  then have ok: "caller_ok sha256 (au_cfg (ar_a s)) ?lg (ar_lookups s) (au_heap (ar_a s)) c" using c(1) by (simp add: auth_inv_def)
  then have pk: "ParseKey sha256 (c_bearer c) = Inr (c_prefix c, c_hash c)" and ac: "accepted (au_cfg (ar_a s)) ?lg c p" and since: "c_since c \<le> length ?lg"
    using c(2) by (simp_all add: caller_ok_def)
  obtain rec where rec: "evidence (grace (au_cfg (ar_a s))) ?lg c rec" "HashesEqual (c_hash c) (kr_SecretHash rec)" "kr_KeyStatus rec = KeyActive"
      "tp_Status (kr_Policy rec) = TenantActive" "\<forall>x. kr_ExpiresAt rec = Some x \<longrightarrow> last (c_clock c) < x"
      "p = \<lparr>pr_TenantID = kr_TenantID rec, pr_KeyID = kr_KeyID rec, pr_Policy = kr_Policy rec\<rparr>"
    using ac unfolding accepted_def by blast
  obtain m t where m: "m < length ?lg" "?lg ! m = (c_prefix c, t, Inr rec)"
      "c_since c \<le> m \<or> latest (take (c_since c) ?lg) (c_prefix c) = Some m \<and> (\<exists>r \<in> set (c_clock c). 0 \<le> r - t \<and> r - t < grace (au_cfg (ar_a s)))"
    using rec(1) unfolding evidence_def by blast
  have "\<not> conclusive (snd (snd (?lg ! n)))"
    if "latest (take (c_since c) ?lg) (c_prefix c) = Some m" "m < n" "n < c_since c" "fst (?lg ! n) = c_prefix c" for n
    using latest_later[OF that(1,2)] that since by simp
  then have "c_since c \<le> m \<or>
       (\<forall>n. m < n \<longrightarrow> n < c_since c \<longrightarrow> fst (?lg ! n) = c_prefix c \<longrightarrow> \<not> conclusive (snd (snd (?lg ! n))))
       \<and> (\<exists>r \<in> set (c_clock c). 0 \<le> r - t \<and> r - t < ac_CacheTTL (au_cfg (ar_a s)) + ac_StaleGrace (au_cfg (ar_a s)))"
    using m(3) unfolding grace_def by blast
  then show ?thesis using pk rec(2-) m(1,2) by blast
qed

definition sample_key_record :: key_record where
  "sample_key_record = \<lparr>kr_KeyID = ''k'', kr_TenantID = ''t'', kr_Prefix = ''01020304'', kr_SecretHash = sample_secret, kr_KeyStatus = KeyActive, kr_ExpiresAt = None,
     kr_Policy = \<lparr>tp_Status = TenantActive, tp_AllowedModels = None, tp_RequestsPerMinute = 0, tp_TokensPerMinute = 0, tp_MaxConcurrent = 0, tp_Priority = 0\<rparr>\<rparr>"

definition sample_bearer :: string where
  "sample_bearer = keyScheme @ ''01020304'' @ ''_'' @ b64_encode sample_secret"

definition sample_requests :: "auth_event list" where
  "sample_requests = [EvArrive 0 sample_bearer, EvFetch 0 0, EvLookup 1 1 0 (Inr sample_key_record), EvAwait 0 FlightDone, EvCheck 2 0]"

lemma sample_parse: "ParseKey id sample_bearer = Inr (''01020304'', sample_secret)"
proof -
  have "validPrefix ''01020304''" "length sample_secret = secretBytes" by (simp_all add: validPrefix_def prefixHexLen_def sample_secret_def secretBytes_def)
  from parse_printed[OF this, of id] show ?thesis by (simp only: sample_bearer_def id_apply)
qed

lemmas auth_eval = auth_history_def Authenticate_begin_def NewAuthenticator_def auth_defaults_def auth_DefaultConfig_def record_begin_def cachedLocked_def cachedNegative_def
  lru_get_def newLRU_def fetch_def fetch_begin_def lookup_end_def lookup_outcome_def lru_put_def lru_evict.simps lru_remove_def recovered_def MoveToFront_def
  await_enabled_def await_def record_end_def Authenticate_end_def noteUse_def

lemma sample_access: "ar_callers (auth_history id False auth_DefaultConfig sample_requests)
    = [\<lparr>c_bearer = sample_bearer, c_prefix = ''01020304'', c_hash = sample_secret,
        c_state = CDone (Inr \<lparr>pr_TenantID = ''t'', pr_KeyID = ''k'', pr_Policy = kr_Policy sample_key_record\<rparr>), c_since = 0, c_clock = [0, 0, 2]\<rparr>]"
proof -
  have h: "HashesEqual sample_secret (kr_SecretHash sample_key_record)" "kr_KeyStatus sample_key_record = KeyActive" "kr_ExpiresAt sample_key_record = None"
      "tp_Status (kr_Policy sample_key_record) = TenantActive" "kr_TenantID sample_key_record = ''t''" "kr_KeyID sample_key_record = ''k''"
    by (simp_all add: sample_key_record_def HashesEqual_def hashLen_def sample_secret_def)
  show ?thesis by (simp add: sample_requests_def auth_eval sample_parse h Let_def go_div_nonneg zero_time_def second_def)
qed

theorem access_needs_current_key_witness:
  "\<exists>rec :: key_record. HashesEqual sample_secret (kr_SecretHash rec) \<and> kr_KeyStatus rec = KeyActive \<and> kr_TenantID rec = ''t''"
proof -
  let ?s = "auth_history id False auth_DefaultConfig sample_requests"
  let ?c = "ar_callers ?s ! 0"
  have c: "?c \<in> set (ar_callers ?s)" "c_state ?c = CDone (Inr \<lparr>pr_TenantID = ''t'', pr_KeyID = ''k'', pr_Policy = kr_Policy sample_key_record\<rparr>)" "c_hash ?c = sample_secret"
    by (simp_all add: sample_access)
  obtain rec :: key_record where r: "HashesEqual (c_hash ?c) (kr_SecretHash rec)" "kr_KeyStatus rec = KeyActive"
      "\<lparr>pr_TenantID = ''t'', pr_KeyID = ''k'', pr_Policy = kr_Policy sample_key_record\<rparr> = \<lparr>pr_TenantID = kr_TenantID rec, pr_KeyID = kr_KeyID rec, pr_Policy = kr_Policy rec\<rparr>"
    using access_needs_current_key[OF refl c(1,2)] by blast
  then have "kr_TenantID rec = ''t''" by simp
  then show ?thesis using r(1,2) unfolding c(3) by blast
qed

section \<open>How many lookups run\<close>

text \<open>C33: lookups are bounded and shared. In every interleaving at most \<^verbatim>\<open>MaxLookups\<close> lookups run, at most one for a prefix, and those for keys not in the cache
  leave the reserved slots free; so a refresh of a cached key finds a slot whenever fewer refreshes than the reserve are under way, however many unknown keys are
  presented. The two caches never hold more than \<^verbatim>\<open>CacheSize\<close> entries each.\<close>

theorem lookups_bounded:
  assumes s: "s = auth_history sha256 toucher cfg xs"
  shows "int (length (ar_lookups s)) \<le> ac_MaxLookups (au_cfg (ar_a s))
    \<and> int (count_if (\<lambda>q. \<not> snd (snd q)) (ar_lookups s)) \<le> ac_MaxLookups (au_cfg (ar_a s)) - au_reserve (ar_a s)
    \<and> distinct (map fst (ar_lookups s))
    \<and> (int (count_if (\<lambda>q. snd (snd q)) (ar_lookups s)) < au_reserve (ar_a s) \<longrightarrow>
        snd (fetch_begin now prefix True (ar_a s)) \<noteq> FetchAnswer (Inl (AuthUnavailable LookupsExhausted)))
    \<and> int (fst (CacheSizes (ar_a s))) \<le> ac_CacheSize (au_cfg (ar_a s)) \<and> int (snd (CacheSizes (ar_a s))) \<le> ac_CacheSize (au_cfg (ar_a s))"
proof -
  let ?a = "ar_a s" and ?ls = "ar_lookups s"
  have inv: "auth_inv sha256 s" unfolding s by (rule auth_history_inv)
  then have lo: "lookups_ok ?a ?ls" and co: "caches_ok ?a (ar_log s)" by (simp_all add: auth_inv_def)
  have "count_if (\<lambda>q. snd (snd q)) l + count_if (\<lambda>q. \<not> snd (snd q)) l = length l" for l :: "(string \<times> nat \<times> bool) list" by (induction l) auto
  then have n: "int (length ?ls) = au_inflightRefresh ?a + au_inflightNew ?a" using lo by (simp add: lookups_ok_def flip: of_nat_add)
  have L: "au_inflightRefresh ?a + au_inflightNew ?a \<le> ac_MaxLookups (au_cfg ?a)" "au_inflightNew ?a \<le> ac_MaxLookups (au_cfg ?a) - au_reserve ?a"
      "au_inflightNew ?a = int (count_if (\<lambda>q. \<not> snd (snd q)) ?ls)" "au_inflightRefresh ?a = int (count_if (\<lambda>q. snd (snd q)) ?ls)" "distinct (map fst ?ls)"
    using lo by (simp_all add: lookups_ok_def)
  have "snd (fetch_begin now prefix True ?a) \<noteq> FetchAnswer (Inl (AuthUnavailable LookupsExhausted))" if "au_inflightRefresh ?a < au_reserve ?a"
  proof -
    obtain b c where r: "cachedLocked prefix now ?a = (b, c)" by force
    obtain p n' where b: "b = ?a\<lparr>au_pos := p, au_neg := n'\<rparr>" using co r by (rule cachedLocked_spec)
    have "au_inflightRefresh ?a + au_inflightNew ?a < ac_MaxLookups (au_cfg ?a)" using that L(2) by linarith
    moreover have "c \<noteq> CacheHit (Inl (AuthUnavailable LookupsExhausted))"
      using r by (auto simp: cachedLocked_def cachedNegative_def Let_def split: prod.splits option.splits if_splits)
    ultimately show ?thesis by (auto simp: fetch_begin_def r b Let_def split: cache_answer.split option.split)
  qed
  moreover have "int (lru_len (au_pos ?a)) \<le> ac_CacheSize (au_cfg ?a)" "int (lru_len (au_neg ?a)) \<le> ac_CacheSize (au_cfg ?a)"
    using co by (auto simp: caches_ok_def lru.holds_def lru_ok_def)
  ultimately show ?thesis using n L by (simp add: CacheSizes_def)
qed

theorem lookups_bounded_witness:
  "int (length (ar_lookups (auth_history id False auth_DefaultConfig (take 2 sample_requests)))) \<le> 8"
proof -
  let ?s = "auth_history id False auth_DefaultConfig (take 2 sample_requests)"
  have "ac_MaxLookups (au_cfg (ar_a ?s)) = 8"
    by (simp add: sample_requests_def auth_eval sample_parse Let_def go_div_nonneg zero_time_def second_def)
  then show ?thesis using lookups_bounded[of ?s id False auth_DefaultConfig "take 2 sample_requests"] by simp
qed

section \<open>Outages\<close>

definition cache_verdict :: "time \<Rightarrow> string \<Rightarrow> authenticator \<Rightarrow> store_answer" where
  \<comment> \<open>what the caches alone can say\<close>
  "cache_verdict now k a =
     (case lru_content (au_pos a) k of
        Some e \<Rightarrow> if 0 \<le> now - pe_fetched e \<and> now - pe_fetched e < grace (au_cfg a) then Inr (pe_rec e)
                 else (case lru_content (au_neg a) k of
                         Some t \<Rightarrow> if 0 \<le> now - t \<and> now - t < ac_NegativeTTL (au_cfg a) then Inl ErrNotFound else Inl (AuthUnavailable FailedMomentsAgo)
                       | None \<Rightarrow> Inl (AuthUnavailable FailedMomentsAgo))
      | None \<Rightarrow> (case lru_content (au_neg a) k of
                   Some t \<Rightarrow> if 0 \<le> now - t \<and> now - t < ac_NegativeTTL (au_cfg a) then Inl ErrNotFound else Inl (AuthUnavailable FailedMomentsAgo)
                 | None \<Rightarrow> Inl (AuthUnavailable FailedMomentsAgo)))"

lemma cachedNegative_verdict:
  assumes "lru_ok (au_neg a)"
  shows "snd (cachedNegative k now a) = (case lru_content (au_neg a) k of
      Some t \<Rightarrow> if 0 \<le> now - t \<and> now - t < ac_NegativeTTL (au_cfg a) then CacheHit (Inl ErrNotFound) else CacheMiss None | None \<Rightarrow> CacheMiss None)"
    "au_downUntil (fst (cachedNegative k now a)) = au_downUntil a"
  using lru.get_answer[OF assms, of k] by (auto simp: cachedNegative_def split: prod.splits option.splits)

lemma down_record:
  assumes co: "caches_ok a lg" and down: "now < au_downUntil a"
  shows "snd (record_begin now k a) = RecordAnswer (cache_verdict now k a)"
proof -
  obtain pos hit where g: "lru_get k (au_pos a) = (pos, hit)" by force
  have okp: "lru_ok (au_pos a)" and okn: "lru_ok (au_neg a)" using co by (auto simp: caches_ok_def lru.holds_def)
  have hit: "hit = lru_content (au_pos a) k" using lru.get_answer[OF okp, of k] g by simp
  have TG: "ac_CacheTTL (au_cfg a) \<le> grace (au_cfg a)" using co by (simp add: caches_ok_def grace_def)
  have neg: "au_downUntil (fst (cachedNegative k now (a\<lparr>au_pos := q\<rparr>))) = au_downUntil a"
      "snd (cachedNegative k now (a\<lparr>au_pos := q\<rparr>)) = (case lru_content (au_neg a) k of
         Some t \<Rightarrow> if 0 \<le> now - t \<and> now - t < ac_NegativeTTL (au_cfg a) then CacheHit (Inl ErrNotFound) else CacheMiss None | None \<Rightarrow> CacheMiss None)" for q
    using cachedNegative_verdict[of "a\<lparr>au_pos := q\<rparr>" k now] okn by (simp_all split: option.split)
  have C: "au_downUntil (fst (cachedLocked k now a)) = au_downUntil a"
    using neg by (simp add: cachedLocked_def g Let_def split: option.split)
  have D: "snd (cachedLocked k now a) = (case lru_content (au_pos a) k of
      Some e \<Rightarrow> if now - pe_fetched e < ac_CacheTTL (au_cfg a) \<and> 0 \<le> now - pe_fetched e then CacheHit (Inr (pe_rec e))
               else if now - pe_fetched e < grace (au_cfg a) \<and> 0 \<le> now - pe_fetched e then CacheMiss (Some e)
               else (case lru_content (au_neg a) k of Some t \<Rightarrow> if 0 \<le> now - t \<and> now - t < ac_NegativeTTL (au_cfg a) then CacheHit (Inl ErrNotFound) else CacheMiss None
                     | None \<Rightarrow> CacheMiss None)
    | None \<Rightarrow> (case lru_content (au_neg a) k of Some t \<Rightarrow> if 0 \<le> now - t \<and> now - t < ac_NegativeTTL (au_cfg a) then CacheHit (Inl ErrNotFound) else CacheMiss None
               | None \<Rightarrow> CacheMiss None))"
    using neg by (simp add: cachedLocked_def g Let_def hit grace_def split: option.split)
  have R: "snd (record_begin now k a) = (case snd (cachedLocked k now a) of CacheHit r \<Rightarrow> RecordAnswer r
      | CacheMiss st \<Rightarrow> RecordAnswer (record_end st (Inl (AuthUnavailable FailedMomentsAgo))))"
    using down C by (simp add: record_begin_def split_beta Let_def split: cache_answer.split)
  show ?thesis unfolding R D using TG by (auto simp: cache_verdict_def record_end_def split: option.split)
qed


definition sample_outage :: "auth_event list" where
  "sample_outage = [EvArrive 0 sample_bearer, EvFetch 0 0, EvLookup 1 1 0 (Inl ErrStore)]"


end
