(* ===== verification/Events.thy ===== *)
theory Events
  imports AuthKey
begin

text \<open>
  \<^verbatim>\<open>pkg/protocol/events.go\<close>: the lifecycle events, their validation, and their encoding. An error is its sentinel; the texts it wraps are left out.
  \<^verbatim>\<open>encoding/json\<close> enters as the six conversions the file asks it for, and \<^verbatim>\<open>sha256\<close> as a function.
\<close>

section \<open>Types\<close>

definition EventSchemaVersion :: int where "EventSchemaVersion = 1"
definition MaxEventBytes :: int where "MaxEventBytes = 16 * 2 ^ 10"
definition MaxEventTokens :: int where "MaxEventTokens = 10000000000"
definition MaxEventMillis :: int where "MaxEventMillis = 1000000000000"
definition MaxEventAttempts :: nat where "MaxEventAttempts = 16"

definition EventReceived :: string where "EventReceived = ''inference.request.received''"
definition EventRouted :: string where "EventRouted = ''inference.request.routed''"
definition EventFirstToken :: string where "EventFirstToken = ''inference.request.first_token''"
definition EventCompleted :: string where "EventCompleted = ''inference.request.completed''"
definition EventFailed :: string where "EventFailed = ''inference.request.failed''"

definition FailureNoCapacity :: string where "FailureNoCapacity = ''no_capacity''"
definition FailureWorkerUnavailable :: string where "FailureWorkerUnavailable = ''worker_unavailable''"
definition FailureWorkerError :: string where "FailureWorkerError = ''worker_error''"
definition FailureTimeout :: string where "FailureTimeout = ''timeout''"
definition FailureClientClosed :: string where "FailureClientClosed = ''client_closed''"
definition FailureInternal :: string where "FailureInternal = ''internal''"

definition TokensFromUsage :: string where "TokensFromUsage = ''usage''"
definition TokensFromChunks :: string where "TokensFromChunks = ''chunks''"
definition TokensFromEstimate :: string where "TokensFromEstimate = ''estimate''"

datatype event_error = ErrEventInvalid | ErrEventTooLarge | ErrEventVersionUnsupported

definition maxEventID :: nat where "maxEventID = 80"
definition maxEventShort :: nat where "maxEventShort = 64"
definition maxEventModel :: nat where "maxEventModel = 128"

record received_data =
  rd_Stream :: bool
  rd_EstimatedCostTokens :: int

record routed_data =
  ro_AttemptNumber :: int
  ro_Strategy :: string

record first_token_data =
  ft_TTFTMS :: int

record attempt_data =
  ad_AttemptID :: string
  ad_Number :: int
  ad_WorkerID :: string
  ad_Outcome :: string
  ad_FailureClass :: string
  ad_DurationMS :: int

record terminal_data =
  td_Stream :: bool
  td_HTTPStatus :: int
  td_DurationMS :: int
  td_TTFTMS :: int
  td_InputTokens :: "int option"
  td_OutputTokens :: "int option"
  td_TokensSource :: string
  td_EstimatedCostTokens :: int
  td_FailureClass :: string
  td_Attempts :: "attempt_data list"

record event =
  ev_EventID :: string
  ev_EventType :: string
  ev_SchemaVersion :: int
  ev_Timestamp :: time
  ev_Source :: string
  ev_RequestID :: string
  ev_AttemptID :: string
  ev_TenantID :: string
  ev_APIKeyID :: string
  ev_Model :: string
  ev_WorkerID :: string
  ev_Received :: "received_data option"
  ev_Routed :: "routed_data option"
  ev_FirstToken :: "first_token_data option"
  ev_Terminal :: "terminal_data option"

definition IsTerminalEventType :: "string \<Rightarrow> bool" where
  "IsTerminalEventType t \<longleftrightarrow> t = EventCompleted \<or> t = EventFailed"

definition NewEventID :: "(string \<Rightarrow> string) \<Rightarrow> string \<Rightarrow> string \<Rightarrow> string \<Rightarrow> string" where
  "NewEventID sha256 requestID eventType attemptID =
     ''evt_'' @ take 32 (hex_encode (sha256 (requestID @ [CHR 0x00] @ eventType @ [CHR 0x00] @ attemptID)))"

section \<open>Validation\<close>

definition checkString :: "string \<Rightarrow> nat \<Rightarrow> bool \<Rightarrow> event_error option" where
  "checkString v n required =
     (if required \<and> v = [] then Some ErrEventInvalid
      else if length v > n then Some ErrEventInvalid
      else if list_ex (\<lambda>c. (of_char c :: nat) < 0x20 \<or> (of_char c :: nat) = 0x7f) v then Some ErrEventInvalid
      else None)"

definition checkPrefixed :: "string \<Rightarrow> string \<Rightarrow> bool \<Rightarrow> event_error option" where
  "checkPrefixed v pre required =
     (case checkString v maxEventID required of
        Some e \<Rightarrow> Some e
      | None \<Rightarrow> if v \<noteq> [] \<and> take (length pre) v \<noteq> pre then Some ErrEventInvalid else None)"

fun first_error :: "event_error option list \<Rightarrow> event_error option" where
  \<comment> \<open>a run of \<^verbatim>\<open>if err := ...; err != nil\<close>\<close>
  "first_error [] = None"
| "first_error (Some e # _) = Some e"
| "first_error (None # cs) = first_error cs"

definition require :: "bool \<Rightarrow> event_error option" where
  "require ok = (if ok then None else Some ErrEventInvalid)"

definition validateAttempt :: "attempt_data \<Rightarrow> event_error option" where
  "validateAttempt a = first_error
     [checkPrefixed (ad_AttemptID a) ''att_'' True, checkString (ad_WorkerID a) maxEventShort False, checkString (ad_Outcome a) maxEventShort True,
      checkString (ad_FailureClass a) maxEventShort False, require (\<not> (ad_Number a < 1 \<or> ad_DurationMS a < 0 \<or> ad_DurationMS a > MaxEventMillis))]"

definition failureClasses :: "string list" where
  "failureClasses = [FailureNoCapacity, FailureWorkerUnavailable, FailureWorkerError, FailureTimeout, FailureClientClosed, FailureInternal]"

definition tokenCount_bad :: "int option \<Rightarrow> bool" where
  "tokenCount_bad n = (case n of Some k \<Rightarrow> k < 0 \<or> k > MaxEventTokens | None \<Rightarrow> False)"

definition validateTerminal :: "string \<Rightarrow> terminal_data \<Rightarrow> event_error option" where
  "validateTerminal eventType t = first_error
     ([require (\<not> (td_HTTPStatus t < 100 \<or> td_HTTPStatus t > 599)),
       require (\<not> (td_DurationMS t < 0 \<or> td_DurationMS t > MaxEventMillis \<or> td_TTFTMS t < 0 \<or> td_TTFTMS t > MaxEventMillis
                   \<or> td_EstimatedCostTokens t < 0 \<or> td_EstimatedCostTokens t > MaxEventTokens)),
       require (\<not> tokenCount_bad (td_InputTokens t)), require (\<not> tokenCount_bad (td_OutputTokens t)),
       require (td_TokensSource t = TokensFromUsage \<or> td_TokensSource t = TokensFromChunks \<or> td_TokensSource t = TokensFromEstimate),
       require (\<not> (td_TokensSource t = TokensFromEstimate \<and> (td_InputTokens t \<noteq> None \<or> td_OutputTokens t \<noteq> None))),
       (if eventType = EventFailed then require (td_FailureClass t \<in> set failureClasses) else require (\<not> td_FailureClass t \<noteq> [])),
       require (\<not> length (td_Attempts t) > MaxEventAttempts)] @ map validateAttempt (td_Attempts t))"

definition validatePayload :: "event \<Rightarrow> event_error option" where
  "validatePayload e =
     (let payloads = length (filter id [ev_Received e \<noteq> None, ev_Routed e \<noteq> None, ev_FirstToken e \<noteq> None, ev_Terminal e \<noteq> None]) in
      if payloads \<noteq> 1 then Some ErrEventInvalid
      else if ev_EventType e = EventReceived then
        (case ev_Received e of
           None \<Rightarrow> Some ErrEventInvalid
         | Some r \<Rightarrow> require (\<not> (rd_EstimatedCostTokens r < 0 \<or> rd_EstimatedCostTokens r > MaxEventTokens)))
      else if ev_EventType e = EventRouted then
        (case ev_Routed e of
           None \<Rightarrow> Some ErrEventInvalid
         | Some r \<Rightarrow> if ev_AttemptID e = [] \<or> ro_AttemptNumber r < 1 then Some ErrEventInvalid else checkString (ro_Strategy r) maxEventShort False)
      else if ev_EventType e = EventFirstToken then
        (case ev_FirstToken e of
           None \<Rightarrow> Some ErrEventInvalid
         | Some f \<Rightarrow> require (\<not> (ft_TTFTMS f < 0 \<or> ft_TTFTMS f > MaxEventMillis)))
      else if ev_EventType e = EventCompleted \<or> ev_EventType e = EventFailed then
        (case ev_Terminal e of None \<Rightarrow> Some ErrEventInvalid | Some t \<Rightarrow> validateTerminal (ev_EventType e) t)
      else Some ErrEventInvalid)"

definition Event_Validate :: "(string \<Rightarrow> string) \<Rightarrow> event \<Rightarrow> event_error option" where
  "Event_Validate sha256 e =
     (if ev_SchemaVersion e \<noteq> EventSchemaVersion
      then Some (if ev_SchemaVersion e > EventSchemaVersion then ErrEventVersionUnsupported else ErrEventInvalid)
      else first_error
        [checkPrefixed (ev_EventID e) ''evt_'' True, checkPrefixed (ev_RequestID e) ''req_'' True, checkPrefixed (ev_AttemptID e) ''att_'' False,
         checkPrefixed (ev_APIKeyID e) ''key_'' False, checkPrefixed (ev_TenantID e) ''ten_'' False,
         checkString (ev_Source e) maxEventShort True, checkString (ev_Model e) maxEventModel False, checkString (ev_WorkerID e) maxEventShort False,
         require (ev_Timestamp e \<noteq> zero_time),
         require (ev_EventID e = NewEventID sha256 (ev_RequestID e) (ev_EventType e) (ev_AttemptID e)),
         validatePayload e])"

section \<open>Encoding\<close>

datatype payload = PReceived received_data | PRouted routed_data | PFirstToken first_token_data | PTerminal terminal_data

record wire =
  w_EventID :: string
  w_EventType :: string
  w_SchemaVersion :: int
  w_Timestamp :: time
  w_Source :: string
  w_RequestID :: string
  w_AttemptID :: string
  w_TenantID :: string
  w_APIKeyID :: string
  w_Model :: string
  w_WorkerID :: string
  w_Payload :: string

record event_codec = \<comment> \<open>what the file asks of \<^verbatim>\<open>encoding/json\<close>; None is an error\<close>
  jc_MarshalPayload :: "payload \<Rightarrow> string option"
  jc_MarshalWire :: "wire \<Rightarrow> string option"
  jc_Head :: "string \<Rightarrow> int option"
  jc_Wire :: "string \<Rightarrow> wire option"
  jc_Received :: "string \<Rightarrow> received_data option"
  jc_Routed :: "string \<Rightarrow> routed_data option"
  jc_FirstToken :: "string \<Rightarrow> first_token_data option"
  jc_Terminal :: "string \<Rightarrow> terminal_data option"

definition event_payload :: "event \<Rightarrow> payload" where
  "event_payload e =
     (case ev_Received e of
        Some r \<Rightarrow> PReceived r
      | None \<Rightarrow> (case ev_Routed e of
          Some r \<Rightarrow> PRouted r
        | None \<Rightarrow> (case ev_FirstToken e of
            Some f \<Rightarrow> PFirstToken f
          | None \<Rightarrow> PTerminal (the (ev_Terminal e))))) \<comment> \<open>set, since \<^verbatim>\<open>Validate\<close> passed\<close>"

definition wire_of :: "event \<Rightarrow> string \<Rightarrow> wire" where
  "wire_of e raw = \<lparr>w_EventID = ev_EventID e, w_EventType = ev_EventType e, w_SchemaVersion = ev_SchemaVersion e, w_Timestamp = ev_Timestamp e,
     w_Source = ev_Source e, w_RequestID = ev_RequestID e, w_AttemptID = ev_AttemptID e, w_TenantID = ev_TenantID e, w_APIKeyID = ev_APIKeyID e,
     w_Model = ev_Model e, w_WorkerID = ev_WorkerID e, w_Payload = raw\<rparr>"

definition Encode :: "(string \<Rightarrow> string) \<Rightarrow> event_codec \<Rightarrow> event \<Rightarrow> event_error + string" where
  "Encode sha256 jc e =
     (case Event_Validate sha256 e of
        Some err \<Rightarrow> Inl err
      | None \<Rightarrow>
          (case jc_MarshalPayload jc (event_payload e) of
             None \<Rightarrow> Inl ErrEventInvalid
           | Some raw \<Rightarrow>
               (case jc_MarshalWire jc (wire_of e raw) of
                  None \<Rightarrow> Inl ErrEventInvalid
                | Some out \<Rightarrow> if int (length out) > MaxEventBytes then Inl ErrEventTooLarge else Inr out)))"

definition event_of :: "wire \<Rightarrow> event" where
  "event_of w = \<lparr>ev_EventID = w_EventID w, ev_EventType = w_EventType w, ev_SchemaVersion = w_SchemaVersion w, ev_Timestamp = w_Timestamp w, ev_Source = w_Source w,
     ev_RequestID = w_RequestID w, ev_AttemptID = w_AttemptID w, ev_TenantID = w_TenantID w, ev_APIKeyID = w_APIKeyID w, ev_Model = w_Model w, ev_WorkerID = w_WorkerID w,
     ev_Received = None, ev_Routed = None, ev_FirstToken = None, ev_Terminal = None\<rparr>"

definition json_blank :: "string \<Rightarrow> bool" where
  \<comment> \<open>no byte is left by \<^verbatim>\<open>bytes.TrimSpace\<close>; a raw message is a JSON value, around which only these spaces can stand\<close>
  "json_blank s \<longleftrightarrow> list_all (\<lambda>c. c \<in> {CHR '' '', CHR 0x09, CHR 0x0A, CHR 0x0B, CHR 0x0C, CHR 0x0D}) s"

definition decodePayload :: "event_codec \<Rightarrow> string \<Rightarrow> string \<Rightarrow> payload option" where
  \<comment> \<open>the switch of \<^verbatim>\<open>Decode\<close> with its closure \<^verbatim>\<open>dec\<close>\<close>
  "decodePayload jc eventType raw =
     (if eventType = EventReceived then if json_blank raw then None else map_option PReceived (jc_Received jc raw)
      else if eventType = EventRouted then if json_blank raw then None else map_option PRouted (jc_Routed jc raw)
      else if eventType = EventFirstToken then if json_blank raw then None else map_option PFirstToken (jc_FirstToken jc raw)
      else if eventType = EventCompleted \<or> eventType = EventFailed then if json_blank raw then None else map_option PTerminal (jc_Terminal jc raw)
      else None)"

definition with_payload :: "payload \<Rightarrow> event \<Rightarrow> event" where
  "with_payload p e =
     (case p of
        PReceived r \<Rightarrow> e\<lparr>ev_Received := Some r\<rparr>
      | PRouted r \<Rightarrow> e\<lparr>ev_Routed := Some r\<rparr>
      | PFirstToken f \<Rightarrow> e\<lparr>ev_FirstToken := Some f\<rparr>
      | PTerminal t \<Rightarrow> e\<lparr>ev_Terminal := Some t\<rparr>)"

definition Decode :: "(string \<Rightarrow> string) \<Rightarrow> event_codec \<Rightarrow> string \<Rightarrow> event_error + event" where
  "Decode sha256 jc b =
     (if int (length b) > MaxEventBytes then Inl ErrEventTooLarge
      else case jc_Head jc b of
        None \<Rightarrow> Inl ErrEventInvalid
      | Some v \<Rightarrow>
          if v > EventSchemaVersion then Inl ErrEventVersionUnsupported
          else case jc_Wire jc b of
            None \<Rightarrow> Inl ErrEventInvalid
          | Some w \<Rightarrow>
              (case decodePayload jc (w_EventType w) (w_Payload w) of
                 None \<Rightarrow> Inl ErrEventInvalid
               | Some p \<Rightarrow>
                   let e = with_payload p (event_of w)
                   in case Event_Validate sha256 e of Some err \<Rightarrow> Inl err | None \<Rightarrow> Inr e))"

section \<open>What a valid event is\<close>

definition plain :: "nat \<Rightarrow> string \<Rightarrow> bool" where
  "plain n v \<longleftrightarrow> length v \<le> n \<and> (\<forall>c \<in> set v. 0x20 \<le> (of_char c :: nat) \<and> (of_char c :: nat) \<noteq> 0x7f)"

definition named :: "string \<Rightarrow> string \<Rightarrow> bool" where
  "named pre v \<longleftrightarrow> plain maxEventID v \<and> (\<exists>s. v = pre @ s)"

definition attempt_typed :: "attempt_data \<Rightarrow> bool" where
  "attempt_typed a \<longleftrightarrow> named ''att_'' (ad_AttemptID a) \<and> plain maxEventShort (ad_WorkerID a) \<and> plain maxEventShort (ad_Outcome a) \<and> ad_Outcome a \<noteq> []
     \<and> plain maxEventShort (ad_FailureClass a) \<and> 1 \<le> ad_Number a \<and> 0 \<le> ad_DurationMS a \<and> ad_DurationMS a \<le> MaxEventMillis"

definition terminal_typed :: "bool \<Rightarrow> terminal_data \<Rightarrow> bool" where
  "terminal_typed failed t \<longleftrightarrow> 100 \<le> td_HTTPStatus t \<and> td_HTTPStatus t \<le> 599 \<and> 0 \<le> td_DurationMS t \<and> td_DurationMS t \<le> MaxEventMillis
     \<and> 0 \<le> td_TTFTMS t \<and> td_TTFTMS t \<le> MaxEventMillis \<and> 0 \<le> td_EstimatedCostTokens t \<and> td_EstimatedCostTokens t \<le> MaxEventTokens
     \<and> (\<forall>n. td_InputTokens t = Some n \<longrightarrow> 0 \<le> n \<and> n \<le> MaxEventTokens) \<and> (\<forall>n. td_OutputTokens t = Some n \<longrightarrow> 0 \<le> n \<and> n \<le> MaxEventTokens)
     \<and> td_TokensSource t \<in> {TokensFromUsage, TokensFromChunks, TokensFromEstimate}
     \<and> (td_TokensSource t = TokensFromEstimate \<longrightarrow> td_InputTokens t = None \<and> td_OutputTokens t = None)
     \<and> (if failed then td_FailureClass t \<in> set failureClasses else td_FailureClass t = [])
     \<and> length (td_Attempts t) \<le> MaxEventAttempts \<and> (\<forall>a \<in> set (td_Attempts t). attempt_typed a)"

definition payload_typed :: "event \<Rightarrow> payload \<Rightarrow> bool" where
  "payload_typed e p =
     (case p of
        PReceived r \<Rightarrow> ev_EventType e = EventReceived \<and> 0 \<le> rd_EstimatedCostTokens r \<and> rd_EstimatedCostTokens r \<le> MaxEventTokens
      | PRouted r \<Rightarrow> ev_EventType e = EventRouted \<and> ev_AttemptID e \<noteq> [] \<and> 1 \<le> ro_AttemptNumber r \<and> plain maxEventShort (ro_Strategy r)
      | PFirstToken f \<Rightarrow> ev_EventType e = EventFirstToken \<and> 0 \<le> ft_TTFTMS f \<and> ft_TTFTMS f \<le> MaxEventMillis
      | PTerminal t \<Rightarrow> IsTerminalEventType (ev_EventType e) \<and> terminal_typed (ev_EventType e = EventFailed) t)"

definition event_typed :: "(string \<Rightarrow> string) \<Rightarrow> event \<Rightarrow> bool" where
  "event_typed sha256 e \<longleftrightarrow> ev_SchemaVersion e = 1 \<and> named ''evt_'' (ev_EventID e) \<and> named ''req_'' (ev_RequestID e)
     \<and> (ev_AttemptID e = [] \<or> named ''att_'' (ev_AttemptID e)) \<and> (ev_APIKeyID e = [] \<or> named ''key_'' (ev_APIKeyID e))
     \<and> (ev_TenantID e = [] \<or> named ''ten_'' (ev_TenantID e)) \<and> plain maxEventShort (ev_Source e) \<and> ev_Source e \<noteq> [] \<and> plain maxEventModel (ev_Model e)
     \<and> plain maxEventShort (ev_WorkerID e) \<and> ev_Timestamp e \<noteq> zero_time
     \<and> ev_EventID e = NewEventID sha256 (ev_RequestID e) (ev_EventType e) (ev_AttemptID e)
     \<and> (\<exists>p. payload_typed e p \<and> e = with_payload p (e\<lparr>ev_Received := None, ev_Routed := None, ev_FirstToken := None, ev_Terminal := None\<rparr>))"

lemma first_error_None: "first_error cs = None \<longleftrightarrow> (\<forall>c \<in> set cs. c = None)"
  by (induction cs rule: first_error.induct) auto

lemma require_None [simp]: "require ok = None \<longleftrightarrow> ok"
  by (simp add: require_def)

lemma checkString_None: "checkString v n req = None \<longleftrightarrow> plain n v \<and> (req \<longrightarrow> v \<noteq> [])"
proof -
  have "list_ex (\<lambda>c. (of_char c :: nat) < 0x20 \<or> (of_char c :: nat) = 0x7f) v \<longleftrightarrow> \<not> (\<forall>c \<in> set v. 0x20 \<le> (of_char c :: nat) \<and> (of_char c :: nat) \<noteq> 0x7f)"
    unfolding list_ex_iff by (meson not_le)
  then show ?thesis by (auto simp: checkString_def plain_def)
qed

lemma prefix_take: "take (length pre) v = pre \<longleftrightarrow> (\<exists>s. v = pre @ s)"
  by (metis append_eq_conv_conj append_take_drop_id)

lemma checkPrefixed_None: "pre \<noteq> [] \<Longrightarrow> checkPrefixed v pre req = None \<longleftrightarrow> (\<not> req \<and> v = []) \<or> named pre v"
proof -
  assume pre: "pre \<noteq> []"
  have "checkPrefixed v pre req = None \<longleftrightarrow> checkString v maxEventID req = None \<and> (v = [] \<or> take (length pre) v = pre)"
    by (auto simp: checkPrefixed_def split: option.splits)
  then show ?thesis unfolding checkString_None prefix_take named_def using pre by (cases "v = []") (auto simp: plain_def)
qed

lemma validateAttempt_None: "validateAttempt a = None \<longleftrightarrow> attempt_typed a"
  by (auto simp: validateAttempt_def attempt_typed_def first_error_None checkPrefixed_None checkString_None)

lemma validateTerminal_None: "validateTerminal ty t = None \<longleftrightarrow> terminal_typed (ty = EventFailed) t"
proof -
  have n: "\<not> tokenCount_bad n \<longleftrightarrow> (\<forall>k. n = Some k \<longrightarrow> 0 \<le> k \<and> k \<le> MaxEventTokens)" for n
    by (auto simp: tokenCount_bad_def split: option.split)
  show ?thesis unfolding validateTerminal_def terminal_typed_def first_error_None
    by (simp add: validateAttempt_None n not_less ball_Un conj_assoc)
qed

lemma with_payload_same:
  "e = with_payload p (e\<lparr>ev_Received := None, ev_Routed := None, ev_FirstToken := None, ev_Terminal := None\<rparr>) \<longleftrightarrow>
     (ev_Received e, ev_Routed e, ev_FirstToken e, ev_Terminal e) =
       (case p of PReceived r \<Rightarrow> (Some r, None, None, None) | PRouted r \<Rightarrow> (None, Some r, None, None)
          | PFirstToken f \<Rightarrow> (None, None, Some f, None) | PTerminal t \<Rightarrow> (None, None, None, Some t))"
  by (cases e; cases p) (auto simp: with_payload_def)

lemma event_types_differ: "EventReceived \<noteq> EventRouted" "EventReceived \<noteq> EventFirstToken" "EventReceived \<noteq> EventCompleted" "EventReceived \<noteq> EventFailed"
    "EventRouted \<noteq> EventFirstToken" "EventRouted \<noteq> EventCompleted" "EventRouted \<noteq> EventFailed" "EventFirstToken \<noteq> EventCompleted" "EventFirstToken \<noteq> EventFailed"
    "EventCompleted \<noteq> EventFailed"
  by (simp_all add: EventReceived_def EventRouted_def EventFirstToken_def EventCompleted_def EventFailed_def)

lemmas event_types_distinct = event_types_differ event_types_differ[symmetric]

lemma payload_forms:
  "(\<exists>p. P p \<and> x = (case p of PReceived r \<Rightarrow> (Some r, None, None, None) | PRouted r \<Rightarrow> (None, Some r, None, None)
          | PFirstToken f \<Rightarrow> (None, None, Some f, None) | PTerminal t \<Rightarrow> (None, None, None, Some t))) \<longleftrightarrow>
     (\<exists>r. x = (Some r, None, None, None) \<and> P (PReceived r)) \<or> (\<exists>r. x = (None, Some r, None, None) \<and> P (PRouted r))
     \<or> (\<exists>f. x = (None, None, Some f, None) \<and> P (PFirstToken f)) \<or> (\<exists>t. x = (None, None, None, Some t) \<and> P (PTerminal t))"
proof
  assume "\<exists>p. P p \<and> x = (case p of PReceived r \<Rightarrow> (Some r, None, None, None) | PRouted r \<Rightarrow> (None, Some r, None, None)
          | PFirstToken f \<Rightarrow> (None, None, Some f, None) | PTerminal t \<Rightarrow> (None, None, None, Some t))"
  then obtain p where "P p" "x = (case p of PReceived r \<Rightarrow> (Some r, None, None, None) | PRouted r \<Rightarrow> (None, Some r, None, None)
          | PFirstToken f \<Rightarrow> (None, None, Some f, None) | PTerminal t \<Rightarrow> (None, None, None, Some t))" by blast
  then show "(\<exists>r. x = (Some r, None, None, None) \<and> P (PReceived r)) \<or> (\<exists>r. x = (None, Some r, None, None) \<and> P (PRouted r))
     \<or> (\<exists>f. x = (None, None, Some f, None) \<and> P (PFirstToken f)) \<or> (\<exists>t. x = (None, None, None, Some t) \<and> P (PTerminal t))" by (cases p) auto
qed (elim disjE exE conjE; rule exI, rule conjI, assumption, simp)+

lemma validatePayload_None:
  "validatePayload e = None \<longleftrightarrow>
     (\<exists>p. payload_typed e p \<and> e = with_payload p (e\<lparr>ev_Received := None, ev_Routed := None, ev_FirstToken := None, ev_Terminal := None\<rparr>))"
proof -
  show ?thesis unfolding with_payload_same payload_forms
    by (cases "ev_Received e"; cases "ev_Routed e"; cases "ev_FirstToken e"; cases "ev_Terminal e")
       (simp_all add: validatePayload_def payload_typed_def event_types_distinct IsTerminalEventType_def validateTerminal_None checkString_None not_less)
qed

lemma Validate_None: "Event_Validate sha256 e = None \<longleftrightarrow> event_typed sha256 e"
  by (simp add: Event_Validate_def event_typed_def first_error_None checkPrefixed_None checkString_None validatePayload_None EventSchemaVersion_def conj_assoc)

text \<open>C37: events are typed at both ends. \<^verbatim>\<open>Validate\<close> accepts exactly the events with schema version 1, identifiers of their kinds, printable and
  bounded strings, counts and durations in range, the identifier derived from what the event is about, and exactly one payload, that of the event's type. So
  nothing else is ever sent, and nothing else is handed to a consumer, whatever bytes arrive.\<close>

theorem events_well_typed:
  "(Event_Validate sha256 e = None \<longleftrightarrow> event_typed sha256 e)
    \<and> (Encode sha256 jc e = Inr out \<longrightarrow> event_typed sha256 e \<and> int (length out) \<le> MaxEventBytes)
    \<and> (Decode sha256 jc b = Inr e' \<longrightarrow> event_typed sha256 e' \<and> int (length b) \<le> MaxEventBytes)"
proof -
  have "event_typed sha256 e \<and> int (length out) \<le> MaxEventBytes" if "Encode sha256 jc e = Inr out"
    using that Validate_None[of sha256 e] by (auto simp: Encode_def split: option.splits if_splits)
  moreover have "event_typed sha256 e' \<and> int (length b) \<le> MaxEventBytes" if "Decode sha256 jc b = Inr e'"
    using that Validate_None[of sha256 e'] by (auto simp: Decode_def Let_def split: option.splits if_splits)
  ultimately show ?thesis using Validate_None by blast
qed

definition sample_sha :: "string \<Rightarrow> string" where
  "sample_sha s = replicate 32 (CHR 0xAB)"

definition sample_event :: event where
  "sample_event = \<lparr>ev_EventID = ''evt_abababababababababababababababab'', ev_EventType = EventReceived, ev_SchemaVersion = 1, ev_Timestamp = 7, ev_Source = ''gw'',
     ev_RequestID = ''req_1'', ev_AttemptID = [], ev_TenantID = [], ev_APIKeyID = [], ev_Model = ''m'', ev_WorkerID = [],
     ev_Received = Some \<lparr>rd_Stream = True, rd_EstimatedCostTokens = 5\<rparr>, ev_Routed = None, ev_FirstToken = None, ev_Terminal = None\<rparr>"

definition sample_codec :: event_codec where
  "sample_codec = \<lparr>jc_MarshalPayload = (\<lambda>_. Some ''p''), jc_MarshalWire = (\<lambda>_. Some ''w''), jc_Head = (\<lambda>_. Some 1), jc_Wire = (\<lambda>_. Some (wire_of sample_event ''p'')),
     jc_Received = (\<lambda>_. Some \<lparr>rd_Stream = True, rd_EstimatedCostTokens = 5\<rparr>), jc_Routed = (\<lambda>_. None), jc_FirstToken = (\<lambda>_. None), jc_Terminal = (\<lambda>_. None)\<rparr>"

lemma sample_encode: "Encode sample_sha sample_codec sample_event = Inr ''w''"
  by code_simp

theorem events_well_typed_witness: "event_typed sample_sha sample_event"
  using events_well_typed[of sample_sha sample_event sample_codec "''w''"] sample_encode by blast

section \<open>Round trip\<close>

definition reads_back :: "event_codec \<Rightarrow> event \<Rightarrow> bool" where
  \<comment> \<open>\<^verbatim>\<open>json.Unmarshal\<close> gives back what \<^verbatim>\<open>json.Marshal\<close> wrote for the parts of this event\<close>
  "reads_back jc e \<longleftrightarrow>
     (\<forall>raw. jc_MarshalPayload jc (event_payload e) = Some raw \<longrightarrow> \<not> json_blank raw
        \<and> (case event_payload e of PReceived r \<Rightarrow> jc_Received jc raw = Some r | PRouted r \<Rightarrow> jc_Routed jc raw = Some r
             | PFirstToken f \<Rightarrow> jc_FirstToken jc raw = Some f | PTerminal t \<Rightarrow> jc_Terminal jc raw = Some t)
        \<and> (\<forall>out. jc_MarshalWire jc (wire_of e raw) = Some out \<longrightarrow> jc_Wire jc out = Some (wire_of e raw) \<and> jc_Head jc out = Some (ev_SchemaVersion e)))"

lemma wire_back: "event_of (wire_of e raw) = e\<lparr>ev_Received := None, ev_Routed := None, ev_FirstToken := None, ev_Terminal := None\<rparr>"
  by (simp add: event_of_def wire_of_def)

lemma event_payload_with: "event_payload (with_payload p (e\<lparr>ev_Received := None, ev_Routed := None, ev_FirstToken := None, ev_Terminal := None\<rparr>)) = p"
  by (cases p) (simp_all add: event_payload_def with_payload_def)

lemma decode_encoded:
  assumes "reads_back jc e" "Encode sha256 jc e = Inr out"
  shows "Decode sha256 jc out = Inr e"
proof -
  obtain raw where e: "Event_Validate sha256 e = None" "jc_MarshalPayload jc (event_payload e) = Some raw" "jc_MarshalWire jc (wire_of e raw) = Some out"
      "\<not> int (length out) > MaxEventBytes"
    using assms(2) by (auto simp: Encode_def split: option.splits if_splits)
  obtain p where p: "payload_typed e p" "e = with_payload p (e\<lparr>ev_Received := None, ev_Routed := None, ev_FirstToken := None, ev_Terminal := None\<rparr>)"
      "ev_SchemaVersion e = 1"
    using e(1) unfolding Validate_None event_typed_def by blast
  have ep: "event_payload e = p" using event_payload_with[of p e] p(2) by simp
  have r: "\<not> json_blank raw" "jc_Wire jc out = Some (wire_of e raw)" "jc_Head jc out = Some (ev_SchemaVersion e)"
      "case p of PReceived r \<Rightarrow> jc_Received jc raw = Some r | PRouted r \<Rightarrow> jc_Routed jc raw = Some r
         | PFirstToken f \<Rightarrow> jc_FirstToken jc raw = Some f | PTerminal t \<Rightarrow> jc_Terminal jc raw = Some t"
    using assms(1) e(2,3) unfolding reads_back_def ep by simp_all
  have "decodePayload jc (ev_EventType e) raw = Some p"
    using p(1) r(1,4) by (cases p) (auto simp: decodePayload_def payload_typed_def IsTerminalEventType_def event_types_distinct)
  moreover have "w_EventType (wire_of e raw) = ev_EventType e" "w_Payload (wire_of e raw) = raw" by (simp_all add: wire_of_def)
  moreover have "with_payload p (event_of (wire_of e raw)) = e" unfolding wire_back using p(2) by simp
  ultimately show ?thesis using e(1,4) r(2,3) p(3) by (simp add: Decode_def EventSchemaVersion_def Let_def)
qed

text \<open>C38: events survive the trip through the broker. Whatever \<^verbatim>\<open>Encode\<close> accepts and writes, \<^verbatim>\<open>Decode\<close> reads back as the same event, provided the JSON
  library reads back the payload and the envelope it wrote.\<close>

theorem event_roundtrip:
  assumes "reads_back jc e" "Encode sha256 jc e = Inr out"
  shows "Decode sha256 jc out = Inr e"
  using assms by (rule decode_encoded)

theorem event_roundtrip_witness: "Decode sample_sha sample_codec ''w'' = Inr sample_event"
proof -
  have "reads_back sample_codec sample_event" by (simp add: reads_back_def sample_codec_def sample_event_def event_payload_def json_blank_def wire_of_def)
  then show ?thesis using sample_encode by (rule event_roundtrip)
qed

end
