(* ===== verification/Publisher.thy ===== *)
theory Publisher
  imports Events
begin

text \<open>
  \<^verbatim>\<open>internal/events/publisher.go\<close>: the bounded queue between the request path and the sink. Each definition is one atomic action of the code (an atomic load, a channel
  operation, an atomic add, a call of the sink), so that every interleaving of the callers, the drain goroutine, the delivery callbacks and \<^verbatim>\<open>Close\<close> is a sequence
  of actions. What is only logged is left out.
\<close>

section \<open>Actions\<close>

datatype drop_reason = ReasonBufferFull | ReasonProducerFull | ReasonDeliveryFailed | ReasonEncode | ReasonShutdown

datatype produce_result = Produced | ProduceFull | ProduceFailed

record publisher =
  pb_cap :: nat
  pb_ch :: "event list"
  pb_stop :: bool
  pb_done :: bool
  pb_closed :: bool
  pb_inflight :: int
  pb_abandoned :: bool
  pb_failing :: bool
  pb_published :: nat
  pb_failures :: "drop_reason \<Rightarrow> nat"

definition NewPublisher :: "int \<Rightarrow> publisher" where
  "NewPublisher bufferSize =
     (let sz = (if bufferSize < 1 then 1 else bufferSize)
      in \<lparr>pb_cap = nat sz, pb_ch = [], pb_stop = False, pb_done = False, pb_closed = False, pb_inflight = 0, pb_abandoned = False, pb_failing = False,
          pb_published = 0, pb_failures = (\<lambda>_. 0)\<rparr>)"

definition pub_drop :: "drop_reason \<Rightarrow> nat \<Rightarrow> publisher \<Rightarrow> publisher" where
  "pub_drop r n p = p\<lparr>pb_failures := (pb_failures p)(r := pb_failures p r + n)\<rparr>"

definition Publisher_Depth :: "publisher \<Rightarrow> nat" where "Publisher_Depth p = length (pb_ch p)"

definition Dropped :: "drop_reason \<Rightarrow> publisher \<Rightarrow> nat" where "Dropped r p = pb_failures p r"

definition Published :: "publisher \<Rightarrow> nat" where "Published p = pb_published p"

definition Enqueue_check :: "publisher \<Rightarrow> publisher \<times> bool" where
  \<comment> \<open>whether the caller goes on to the \<^verbatim>\<open>select\<close>\<close>
  "Enqueue_check p = (if pb_closed p then (pub_drop ReasonShutdown 1 p, False) else (p, True))"

definition Enqueue_send :: "event \<Rightarrow> publisher \<Rightarrow> publisher \<times> bool" where
  "Enqueue_send ev p = (if length (pb_ch p) < pb_cap p then (p\<lparr>pb_ch := pb_ch p @ [ev]\<rparr>, True) else (pub_drop ReasonBufferFull 1 p, False))"

datatype drain =
    DrainLoop            \<comment> \<open>at the outer \<^verbatim>\<open>select\<close>\<close>
  | DrainRest            \<comment> \<open>at the inner one, after \<^verbatim>\<open>stop\<close>\<close>
  | DrainEncode event bool \<comment> \<open>in \<^verbatim>\<open>send\<close>, before \<^verbatim>\<open>Encode\<close>; which loop it returns to\<close>
  | DrainProduce event bool \<comment> \<open>in \<^verbatim>\<open>send\<close>, counted as in flight\<close>
  | DrainDone

definition back_to :: "bool \<Rightarrow> drain" where
  "back_to rest = (if rest then DrainRest else DrainLoop)"

definition run_receive :: "drain \<Rightarrow> publisher \<Rightarrow> drain \<times> publisher" where
  "run_receive d p =
     (case (d, pb_ch p) of
        (DrainLoop, ev # evs) \<Rightarrow> (DrainEncode ev False, p\<lparr>pb_ch := evs\<rparr>)
      | (DrainRest, ev # evs) \<Rightarrow> (DrainEncode ev True, p\<lparr>pb_ch := evs\<rparr>)
      | (DrainRest, []) \<Rightarrow> (DrainDone, p\<lparr>pb_done := True\<rparr>)
      | _ \<Rightarrow> (d, p))"

definition run_stop :: "drain \<Rightarrow> publisher \<Rightarrow> drain" where
  "run_stop d p = (if d = DrainLoop \<and> pb_stop p then DrainRest else d)"

definition send_encode :: "bool \<Rightarrow> drain \<Rightarrow> publisher \<Rightarrow> drain \<times> publisher" where
  \<comment> \<open>the first half of \<^verbatim>\<open>send\<close>, given whether \<^verbatim>\<open>Encode\<close> succeeds\<close>
  "send_encode ok d p =
     (case d of
        DrainEncode ev rest \<Rightarrow> if ok then (DrainProduce ev rest, p\<lparr>pb_inflight := pb_inflight p + 1\<rparr>) else (back_to rest, pub_drop ReasonEncode 1 p)
      | _ \<Rightarrow> (d, p))"

definition send_produce :: "produce_result \<Rightarrow> drain \<Rightarrow> publisher \<Rightarrow> drain \<times> publisher" where
  "send_produce r d p =
     (case d of
        DrainProduce ev rest \<Rightarrow>
          (back_to rest,
           case r of
             Produced \<Rightarrow> p
           | ProduceFull \<Rightarrow> pub_drop ReasonProducerFull 1 (p\<lparr>pb_inflight := pb_inflight p - 1\<rparr>)
           | ProduceFailed \<Rightarrow> pub_drop ReasonDeliveryFailed 1 (p\<lparr>pb_inflight := pb_inflight p - 1\<rparr>))
      | _ \<Rightarrow> (d, p))"

definition delivered_begin :: "publisher \<Rightarrow> publisher" where
  "delivered_begin p = p\<lparr>pb_inflight := pb_inflight p - 1\<rparr>"

definition delivered_end :: "bool \<Rightarrow> publisher \<Rightarrow> publisher" where
  "delivered_end failed p =
     (if pb_abandoned p then p
      else if failed then (pub_drop ReasonDeliveryFailed 1 p)\<lparr>pb_failing := True\<rparr>
      else p\<lparr>pb_published := pb_published p + 1, pb_failing := False\<rparr>)"

definition Close_begin :: "publisher \<Rightarrow> publisher \<times> bool" where
  \<comment> \<open>whether this call is the first\<close>
  "Close_begin p = (if pb_closed p then (p, False) else (p\<lparr>pb_closed := True, pb_stop := True\<rparr>, True))"

definition Close_abandon :: "publisher \<Rightarrow> publisher" where
  \<comment> \<open>after the \<^verbatim>\<open>select\<close>, whichever case it took\<close>
  "Close_abandon p = p\<lparr>pb_abandoned := True\<rparr>"

definition Close_count :: "publisher \<Rightarrow> publisher" where
  "Close_count p =
     (let lost = length (pb_ch p) + nat (max (pb_inflight p) 0)
      in if lost > 0 then pub_drop ReasonShutdown lost p else p)"

section \<open>Interleavings\<close>

datatype close_state = NotClosing | Closing | Abandoning | ClosedFor

record pub_run =
  pu_p :: publisher
  pu_callers :: "event list"   \<comment> \<open>\<^verbatim>\<open>Enqueue\<close> calls past the check\<close>
  pu_drain :: drain
  pu_out :: nat                \<comment> \<open>records the sink took and has not settled\<close>
  pu_settling :: nat           \<comment> \<open>callbacks between their two steps\<close>
  pu_close :: close_state
  pu_offered :: nat            \<comment> \<open>\<^verbatim>\<open>Enqueue\<close> calls begun\<close>

datatype pub_event =
    EvOffer event
  | EvSend nat
  | EvReceive
  | EvStop
  | EvEncode bool
  | EvProduce produce_result
  | EvSettle
  | EvSettled bool
  | EvClose
  | EvAbandon
  | EvCount

primrec pub_step :: "pub_event \<Rightarrow> pub_run \<Rightarrow> pub_run" where
  "pub_step (EvOffer ev) s =
     (let (p, go) = Enqueue_check (pu_p s)
      in s\<lparr>pu_p := p, pu_callers := (if go then pu_callers s @ [ev] else pu_callers s), pu_offered := pu_offered s + 1\<rparr>)"
| "pub_step (EvSend i) s =
     (if i < length (pu_callers s)
      then s\<lparr>pu_p := fst (Enqueue_send (pu_callers s ! i) (pu_p s)), pu_callers := take i (pu_callers s) @ drop (Suc i) (pu_callers s)\<rparr>
      else s)"
| "pub_step EvReceive s = (let (d, p) = run_receive (pu_drain s) (pu_p s) in s\<lparr>pu_drain := d, pu_p := p\<rparr>)"
| "pub_step EvStop s = s\<lparr>pu_drain := run_stop (pu_drain s) (pu_p s)\<rparr>"
| "pub_step (EvEncode ok) s = (let (d, p) = send_encode ok (pu_drain s) (pu_p s) in s\<lparr>pu_drain := d, pu_p := p\<rparr>)"
| "pub_step (EvProduce r) s =
     (let (d, p) = send_produce r (pu_drain s) (pu_p s); taken = (case pu_drain s of DrainProduce _ _ \<Rightarrow> r = Produced | _ \<Rightarrow> False)
      in s\<lparr>pu_drain := d, pu_p := p, pu_out := (if taken then pu_out s + 1 else pu_out s)\<rparr>)"
| "pub_step EvSettle s =
     (if pu_out s > 0 then s\<lparr>pu_p := delivered_begin (pu_p s), pu_out := pu_out s - 1, pu_settling := pu_settling s + 1\<rparr> else s)"
| "pub_step (EvSettled failed) s =
     (if pu_settling s > 0 then s\<lparr>pu_p := delivered_end failed (pu_p s), pu_settling := pu_settling s - 1\<rparr> else s)"
| "pub_step EvClose s =
     (let (p, first) = Close_begin (pu_p s) in if first then s\<lparr>pu_p := p, pu_close := Closing\<rparr> else s)"
| "pub_step EvAbandon s = (if pu_close s = Closing then s\<lparr>pu_p := Close_abandon (pu_p s), pu_close := Abandoning\<rparr> else s)"
| "pub_step EvCount s = (if pu_close s = Abandoning then s\<lparr>pu_p := Close_count (pu_p s), pu_close := ClosedFor\<rparr> else s)"

definition pub_init :: "int \<Rightarrow> pub_run" where
  "pub_init n = \<lparr>pu_p = NewPublisher n, pu_callers = [], pu_drain = DrainLoop, pu_out = 0, pu_settling = 0, pu_close = NotClosing, pu_offered = 0\<rparr>"

abbreviation pub_run_from :: "pub_run \<Rightarrow> pub_event list \<Rightarrow> pub_run" where
  "pub_run_from s xs \<equiv> foldl (\<lambda>s x. pub_step x s) s xs"

section \<open>Accounting\<close>

definition dropped_total :: "publisher \<Rightarrow> nat" where
  "dropped_total p = pb_failures p ReasonBufferFull + pb_failures p ReasonProducerFull + pb_failures p ReasonDeliveryFailed + pb_failures p ReasonEncode
     + pb_failures p ReasonShutdown"

definition held :: "drain \<Rightarrow> nat" where
  "held d = (case d of DrainEncode _ _ \<Rightarrow> 1 | DrainProduce _ _ \<Rightarrow> 1 | _ \<Rightarrow> 0)"

definition counted_out :: "drain \<Rightarrow> nat" where
  "counted_out d = (case d of DrainProduce _ _ \<Rightarrow> 1 | _ \<Rightarrow> 0)"

definition pub_inv :: "pub_run \<Rightarrow> bool" where
  "pub_inv s \<longleftrightarrow> length (pb_ch (pu_p s)) \<le> pb_cap (pu_p s) \<and> pb_inflight (pu_p s) = int (pu_out s + counted_out (pu_drain s))
     \<and> (pb_closed (pu_p s) \<longleftrightarrow> pu_close s \<noteq> NotClosing) \<and> (pb_abandoned (pu_p s) \<longleftrightarrow> pu_close s = Abandoning \<or> pu_close s = ClosedFor)
     \<and> (\<not> pb_abandoned (pu_p s) \<longrightarrow>
          pu_offered s = pb_published (pu_p s) + dropped_total (pu_p s) + length (pu_callers s) + length (pb_ch (pu_p s)) + held (pu_drain s) + pu_out s + pu_settling s)"

lemma dropped_total_drop [simp]: "dropped_total (pub_drop r n p) = dropped_total p + n"
  by (cases r) (simp_all add: dropped_total_def pub_drop_def)

lemma pub_drop_fields [simp]: "pb_ch (pub_drop r n p) = pb_ch p" "pb_cap (pub_drop r n p) = pb_cap p" "pb_inflight (pub_drop r n p) = pb_inflight p"
    "pb_closed (pub_drop r n p) = pb_closed p" "pb_abandoned (pub_drop r n p) = pb_abandoned p" "pb_published (pub_drop r n p) = pb_published p"
    "pb_stop (pub_drop r n p) = pb_stop p" "pb_done (pub_drop r n p) = pb_done p"
  by (simp_all add: pub_drop_def)

lemma dropped_total_fields [simp]: "dropped_total (p\<lparr>pb_ch := c\<rparr>) = dropped_total p" "dropped_total (p\<lparr>pb_inflight := i\<rparr>) = dropped_total p"
    "dropped_total (p\<lparr>pb_done := b\<rparr>) = dropped_total p" "dropped_total (p\<lparr>pb_failing := b\<rparr>) = dropped_total p"
    "dropped_total (p\<lparr>pb_published := n\<rparr>) = dropped_total p" "dropped_total (p\<lparr>pb_abandoned := b\<rparr>) = dropped_total p"
    "dropped_total (p\<lparr>pb_closed := b, pb_stop := b\<rparr>) = dropped_total p"
  by (simp_all add: dropped_total_def)

lemma held_back [simp]: "held (back_to r) = 0" "counted_out (back_to r) = 0"
  by (simp_all add: held_def counted_out_def back_to_def)

lemma pub_step_inv: "pub_inv s \<Longrightarrow> pub_inv (pub_step x s)"
proof (cases x)
  case (EvOffer ev)
  assume "pub_inv s"
  then show ?thesis by (auto simp: EvOffer pub_inv_def Enqueue_check_def)
next
  case (EvSend i)
  assume inv: "pub_inv s"
  show ?thesis
  proof (cases "i < length (pu_callers s)")
    case True
    have "length (take i (pu_callers s) @ drop (Suc i) (pu_callers s)) = length (pu_callers s) - 1" using True by simp
    then show ?thesis using inv True by (auto simp: EvSend pub_inv_def Enqueue_send_def)
  qed (use inv in \<open>simp add: EvSend\<close>)
next
  case EvReceive
  assume "pub_inv s"
  then show ?thesis by (auto simp: EvReceive pub_inv_def run_receive_def held_def counted_out_def split: drain.splits list.splits)
next
  case EvStop
  assume "pub_inv s"
  then show ?thesis by (auto simp: EvStop pub_inv_def run_stop_def held_def counted_out_def)
next
  case (EvEncode ok)
  assume "pub_inv s"
  then show ?thesis by (cases "pu_drain s") (auto simp: EvEncode pub_inv_def send_encode_def held_def[of "DrainEncode _ _"] held_def[of "DrainProduce _ _"] counted_out_def[of "DrainEncode _ _"] counted_out_def[of "DrainProduce _ _"])
next
  case (EvProduce r)
  assume "pub_inv s"
  then show ?thesis by (cases "pu_drain s"; cases r) (auto simp: EvProduce pub_inv_def send_produce_def held_def[of "DrainProduce _ _"] counted_out_def[of "DrainProduce _ _"])
next
  case EvSettle
  assume "pub_inv s"
  then show ?thesis by (auto simp: EvSettle pub_inv_def delivered_begin_def)
next
  case (EvSettled b)
  assume "pub_inv s"
  then show ?thesis by (auto simp: EvSettled pub_inv_def delivered_end_def)
next
  case EvClose
  assume "pub_inv s"
  then show ?thesis by (auto simp: EvClose pub_inv_def Close_begin_def)
next
  case EvAbandon
  assume "pub_inv s"
  then show ?thesis by (auto simp: EvAbandon pub_inv_def Close_abandon_def)
next
  case EvCount
  assume "pub_inv s"
  then show ?thesis by (auto simp: EvCount pub_inv_def Close_count_def Let_def)
qed

lemma pub_init_inv: "pub_inv (pub_init n)"
  by (simp add: pub_init_def pub_inv_def NewPublisher_def Let_def dropped_total_def held_def counted_out_def)

lemma pub_run_inv: "pub_inv s \<Longrightarrow> pub_inv (pub_run_from s xs)"
  by (induction xs arbitrary: s) (simp_all add: pub_step_inv)

lemma pub_cap_step: "pb_cap (pu_p (pub_step x s)) = pb_cap (pu_p s)"
  by (cases x) (auto simp: Enqueue_check_def Enqueue_send_def run_receive_def send_encode_def send_produce_def delivered_begin_def delivered_end_def
    Close_begin_def Close_abandon_def Close_count_def Let_def split: drain.splits list.splits produce_result.splits)

lemma pub_cap_run: "pb_cap (pu_p (pub_run_from s xs)) = pb_cap (pu_p s)"
  by (induction xs arbitrary: s) (simp_all add: pub_cap_step)

definition all_delivered :: "pub_run \<Rightarrow> bool" where
  \<comment> \<open>the drain goroutine has ended, the flush has settled every record, and no call is half done\<close>
  "all_delivered s \<longleftrightarrow> pb_closed (pu_p s) \<and> pu_callers s = [] \<and> pu_drain s = DrainDone \<and> pb_ch (pu_p s) = [] \<and> pu_out s = 0 \<and> pu_settling s = 0"

definition exact :: "pub_run \<Rightarrow> bool" where
  "exact s \<longleftrightarrow> all_delivered s \<and> pb_inflight (pu_p s) = 0 \<and> pu_offered s = pb_published (pu_p s) + dropped_total (pu_p s)"

lemma exact_step: "exact s \<Longrightarrow> exact (pub_step x s)"
  by (cases x) (auto simp: exact_def all_delivered_def Enqueue_check_def run_receive_def run_stop_def send_encode_def send_produce_def
      Close_begin_def Close_abandon_def Close_count_def Let_def)

lemma exact_run: "exact s \<Longrightarrow> exact (pub_run_from s xs)"
  by (induction xs arbitrary: s) (simp_all add: exact_step)

text \<open>C39: no event is hidden. In every interleaving of callers, drain, deliveries and shutdown, until \<^verbatim>\<open>Close\<close> gives up every event ever offered is published, counted in
  exactly one drop counter, or still on its way (in a call, in the buffer, in the drain goroutine, with the sink); the buffer never holds more than its size. After a
  shutdown that drained the buffer and flushed the sink, published plus dropped is the number offered, for good.\<close>

theorem events_accounted:
  assumes s: "s = pub_run_from (pub_init n) xs"
  shows "(\<not> pb_abandoned (pu_p s) \<longrightarrow> pu_offered s = Published (pu_p s) + dropped_total (pu_p s)
        + length (pu_callers s) + Publisher_Depth (pu_p s) + held (pu_drain s) + pu_out s + pu_settling s)
    \<and> Publisher_Depth (pu_p s) \<le> nat (max n 1)
    \<and> (all_delivered s \<longrightarrow> \<not> pb_abandoned (pu_p s) \<longrightarrow>
        pu_offered (pub_run_from s ys) = Published (pu_p (pub_run_from s ys)) + dropped_total (pu_p (pub_run_from s ys)))"
proof -
  have inv: "pub_inv s" unfolding s by (rule pub_run_inv[OF pub_init_inv])
  have "pb_cap (pu_p s) = nat (max n 1)" unfolding s pub_cap_run by (simp add: pub_init_def NewPublisher_def Let_def max_def)
  then have 2: "Publisher_Depth (pu_p s) \<le> nat (max n 1)" using inv by (simp add: pub_inv_def Publisher_Depth_def)
  have "exact s" if "all_delivered s" "\<not> pb_abandoned (pu_p s)" using that inv by (simp add: exact_def pub_inv_def all_delivered_def held_def counted_out_def)
  then have "pu_offered (pub_run_from s ys) = Published (pu_p (pub_run_from s ys)) + dropped_total (pu_p (pub_run_from s ys))"
    if "all_delivered s" "\<not> pb_abandoned (pu_p s)" using exact_run[of s ys] that by (simp add: exact_def Published_def)
  then show ?thesis using 2 inv by (simp add: pub_inv_def Published_def Publisher_Depth_def)
qed

definition clean_shutdown :: "pub_event list" where
  "clean_shutdown = [EvOffer sample_event, EvSend 0, EvReceive, EvEncode True, EvProduce Produced, EvSettle, EvSettled False, EvClose, EvStop, EvReceive]"

theorem events_accounted_witness:
  "Published (pu_p (pub_run_from (pub_run_from (pub_init 1) clean_shutdown) [EvAbandon, EvCount, EvOffer sample_event])) = 1"
proof -
  let ?s = "pub_run_from (pub_init 1) clean_shutdown" and ?ys = "[EvAbandon, EvCount, EvOffer sample_event]"
  have q: "all_delivered ?s" "\<not> pb_abandoned (pu_p ?s)" "pu_offered (pub_run_from ?s ?ys) = 2" "dropped_total (pu_p (pub_run_from ?s ?ys)) = 1"
    by (simp_all add: clean_shutdown_def pub_init_def NewPublisher_def Enqueue_check_def Enqueue_send_def run_receive_def run_stop_def send_encode_def send_produce_def
        delivered_begin_def delivered_end_def Close_begin_def Close_abandon_def Close_count_def back_to_def all_delivered_def dropped_total_def pub_drop_def)
  have e: "pu_offered (pub_run_from ?s ?ys) = Published (pu_p (pub_run_from ?s ?ys)) + dropped_total (pu_p (pub_run_from ?s ?ys))"
    using events_accounted[OF refl, of 1 clean_shutdown ?ys] q(1,2) by blast
  have "a = b + c \<Longrightarrow> a = 2 \<Longrightarrow> c = 1 \<Longrightarrow> b = 1" for a b c :: nat by simp
  from this[OF e q(3,4)] show ?thesis .
qed

section \<open>A shutdown that runs out of time\<close>

lemmas pub_eval = pub_init_def NewPublisher_def Enqueue_check_def Enqueue_send_def run_receive_def run_stop_def send_encode_def send_produce_def
  delivered_begin_def delivered_end_def Close_begin_def Close_abandon_def Close_count_def back_to_def dropped_total_def pub_drop_def Published_def

definition drained_late :: "pub_event list" where
  \<comment> \<open>\<^verbatim>\<open>Close\<close> gives up while the event is still buffered; the drain goroutine then finds the sink full\<close>
  "drained_late = [EvOffer sample_event, EvSend 0, EvClose, EvAbandon, EvCount, EvReceive, EvEncode True, EvProduce ProduceFull, EvStop, EvReceive]"

definition settled_late :: "pub_event list" where
  \<comment> \<open>\<^verbatim>\<open>Close\<close> gives up between the two steps of a delivery callback\<close>
  "settled_late = [EvOffer sample_event, EvSend 0, EvReceive, EvEncode True, EvProduce Produced, EvSettle, EvClose, EvStop, EvReceive, EvAbandon, EvCount, EvSettled False]"


end
