(* ===== verification/Usage.thy ===== *)
theory Usage
  imports Events
begin

text \<open>
  The usage consumer of \<^verbatim>\<open>internal/usage\<close> (\<^verbatim>\<open>consumer.go\<close>, \<^verbatim>\<open>types.go\<close>) over the tables of \<^verbatim>\<open>internal/postgres/usage.go\<close> and
  \<^verbatim>\<open>migrations/0003_usage_records.sql\<close>. How the database meets each call is a list of outcomes, one for each attempt; the list ends when the context does, so every loop is a
  recursion on it. An outcome in which the reply is lost after the commit is one of them.
\<close>

section \<open>Messages, rows and rejects\<close>

record usage_message =
  um_Topic :: string
  um_Partition :: int
  um_Offset :: int
  um_Value :: string

record usage_offset =
  uo_Topic :: string
  uo_Partition :: int
  uo_Offset :: int

record usage_row =
  ur_EventID :: string
  ur_RequestID :: string
  ur_TenantID :: string
  ur_APIKeyID :: string
  ur_Model :: string
  ur_WorkerID :: string
  ur_Outcome :: string
  ur_FailureClass :: string
  ur_HTTPStatus :: int
  ur_InputTokens :: "int option"
  ur_OutputTokens :: "int option"
  ur_TokensSource :: string
  ur_EstimatedCostTokens :: int
  ur_Attempts :: int
  ur_TTFTMS :: int
  ur_DurationMS :: int
  ur_OccurredAt :: time
  ur_Partition :: int
  ur_Offset :: int

datatype reject_reason = RejectDecode | RejectInvalid | RejectVersion | RejectOversize | RejectDuplicateID

record usage_reject =
  uj_Topic :: string
  uj_Partition :: int
  uj_Offset :: int
  uj_Reason :: reject_reason

datatype usage_class = UsageRow usage_row | UsageReject usage_reject | UsageSkip

definition usage_classify :: "(string \<Rightarrow> string) \<Rightarrow> event_codec \<Rightarrow> (string \<Rightarrow> bool) \<Rightarrow> usage_message \<Rightarrow> usage_class" where
  "usage_classify sha256 jc json_Valid m =
     (let rej = (\<lambda>reason. UsageReject \<lparr>uj_Topic = um_Topic m, uj_Partition = um_Partition m, uj_Offset = um_Offset m, uj_Reason = reason\<rparr>) in
      if int (length (um_Value m)) > MaxEventBytes then rej RejectOversize
      else case Decode sha256 jc (um_Value m) of
        Inl ErrEventVersionUnsupported \<Rightarrow> rej RejectVersion
      | Inl ErrEventTooLarge \<Rightarrow> rej RejectOversize
      | Inl ErrEventInvalid \<Rightarrow> if \<not> json_Valid (um_Value m) then rej RejectDecode else rej RejectInvalid
      | Inr e \<Rightarrow>
          if \<not> IsTerminalEventType (ev_EventType e) then UsageSkip
          else case ev_Terminal e of
            None \<Rightarrow> UsageSkip \<comment> \<open>not reached: a terminal event has its payload\<close>
          | Some t \<Rightarrow>
              UsageRow \<lparr>ur_EventID = ev_EventID e, ur_RequestID = ev_RequestID e, ur_TenantID = ev_TenantID e, ur_APIKeyID = ev_APIKeyID e, ur_Model = ev_Model e,
                ur_WorkerID = ev_WorkerID e, ur_Outcome = (if ev_EventType e = EventFailed then ''failed'' else ''completed''), ur_FailureClass = td_FailureClass t,
                ur_HTTPStatus = td_HTTPStatus t, ur_InputTokens = td_InputTokens t, ur_OutputTokens = td_OutputTokens t, ur_TokensSource = td_TokensSource t,
                ur_EstimatedCostTokens = td_EstimatedCostTokens t, ur_Attempts = int (length (td_Attempts t)), ur_TTFTMS = td_TTFTMS t, ur_DurationMS = td_DurationMS t,
                ur_OccurredAt = ev_Timestamp e, ur_Partition = um_Partition m, ur_Offset = um_Offset m\<rparr>)"

section \<open>The tables\<close>

definition char_length :: "string \<Rightarrow> nat" where
  \<comment> \<open>characters of UTF-8 text: the bytes that do not continue one\<close>
  "char_length s = length (filter (\<lambda>c. \<not> (0x80 \<le> (of_char c :: nat) \<and> (of_char c :: nat) < 0xC0)) s)"

definition row_fits :: "usage_row \<Rightarrow> bool" where
  \<comment> \<open>the checks of \<^verbatim>\<open>usage_records\<close>\<close>
  "row_fits r \<longleftrightarrow> take 4 (ur_EventID r) = ''evt_'' \<and> length (ur_EventID r) = 36 \<and> list_all (\<lambda>c. c \<in> set ''0123456789abcdef'') (drop 4 (ur_EventID r))
     \<and> take 4 (ur_RequestID r) = ''req_'' \<and> char_length (ur_Model r) \<le> 128 \<and> char_length (ur_WorkerID r) \<le> 64
     \<and> (ur_Outcome r = ''completed'' \<or> ur_Outcome r = ''failed'') \<and> 100 \<le> ur_HTTPStatus r \<and> ur_HTTPStatus r \<le> 599
     \<and> (case ur_InputTokens r of None \<Rightarrow> True | Some n \<Rightarrow> 0 \<le> n) \<and> (case ur_OutputTokens r of None \<Rightarrow> True | Some n \<Rightarrow> 0 \<le> n)
     \<and> (ur_TokensSource r = ''usage'' \<or> ur_TokensSource r = ''chunks'' \<or> ur_TokensSource r = ''estimate'')
     \<and> 0 \<le> ur_EstimatedCostTokens r \<and> 0 \<le> ur_Attempts r \<and> 0 \<le> ur_TTFTMS r \<and> 0 \<le> ur_DurationMS r
     \<and> (ur_Outcome r = ''failed'' \<longleftrightarrow> ur_FailureClass r \<noteq> [])"

record usage_db =
  db_rows :: "usage_row list"
  db_rejects :: "usage_reject list"

definition insert_row :: "usage_row list \<Rightarrow> usage_row \<Rightarrow> usage_row list" where
  \<comment> \<open>\<^verbatim>\<open>ON CONFLICT DO NOTHING\<close> on the primary key and the unique request\<close>
  "insert_row t r = (if list_ex (\<lambda>x. ur_EventID x = ur_EventID r \<or> ur_RequestID x = ur_RequestID r) t then t else t @ [r])"

definition insert_reject :: "usage_reject list \<Rightarrow> usage_reject \<Rightarrow> usage_reject list" where
  "insert_reject t j = (if list_ex (\<lambda>x. uj_Topic x = uj_Topic j \<and> uj_Partition x = uj_Partition j \<and> uj_Offset x = uj_Offset j) t then t else t @ [j])"

datatype db_outcome = DbUp | DbDown | DbReplyLost \<comment> \<open>committed, but the caller sees an error\<close>

datatype usage_error = ErrBadData | DbUnreachable | UsageContextEnded | ErrStopped

definition InsertUsage :: "db_outcome \<Rightarrow> usage_row list \<Rightarrow> usage_db \<Rightarrow> usage_db \<times> (usage_error + nat)" where
  "InsertUsage o' rows db =
     (if rows = [] then (db, Inr 0)
      else if o' = DbDown then (db, Inl DbUnreachable)
      else if list_ex (\<lambda>r. \<not> row_fits r) rows then (db, Inl ErrBadData)
      else let t = foldl insert_row (db_rows db) rows
           in (db\<lparr>db_rows := t\<rparr>, if o' = DbReplyLost then Inl DbUnreachable else Inr (length t - length (db_rows db))))"

definition RecordRejects :: "db_outcome \<Rightarrow> usage_reject list \<Rightarrow> usage_db \<Rightarrow> usage_db \<times> (usage_error + nat)" where
  "RecordRejects o' js db =
     (if js = [] then (db, Inr 0)
      else if o' = DbDown then (db, Inl DbUnreachable)
      else (db\<lparr>db_rejects := foldl insert_reject (db_rejects db) js\<rparr>, if o' = DbReplyLost then Inl DbUnreachable else Inr 0))"

section \<open>The consumer\<close>

record usage_consumer =
  uc_inserted :: nat
  uc_duplicate :: nat
  uc_skipped :: nat
  uc_rejected :: nat
  uc_dbErrors :: nat
  uc_dbDown :: bool

definition NewConsumer :: usage_consumer where
  "NewConsumer = \<lparr>uc_inserted = 0, uc_duplicate = 0, uc_skipped = 0, uc_rejected = 0, uc_dbErrors = 0, uc_dbDown = False\<rparr>"

type_synonym usage_state = "db_outcome list \<times> usage_db \<times> usage_consumer"

fun usage_retry :: "(db_outcome \<Rightarrow> usage_db \<Rightarrow> usage_db \<times> (usage_error + nat)) \<Rightarrow> db_outcome list \<Rightarrow> usage_db \<Rightarrow> usage_consumer \<Rightarrow> usage_state \<times> (usage_error + nat)" where
  \<comment> \<open>the attempts left, the database and the consumer afterwards, and the result\<close>
  "usage_retry op [] db c = (([], db, c), Inl UsageContextEnded)"
| "usage_retry op (x # xs) db c =
     (case op x db of
        (db1, Inr n) \<Rightarrow> ((xs, db1, c\<lparr>uc_dbDown := False\<rparr>), Inr n)
      | (db1, Inl ErrBadData) \<Rightarrow> ((xs, db1, c), Inl ErrBadData)
      | (db1, Inl _) \<Rightarrow> usage_retry op xs db1 (c\<lparr>uc_dbErrors := uc_dbErrors c + 1, uc_dbDown := True\<rparr>))"

fun insert_each :: "string \<Rightarrow> usage_row list \<Rightarrow> usage_state \<Rightarrow> usage_state \<times> (usage_error + nat \<times> usage_reject list)" where
  \<comment> \<open>the loop of \<^verbatim>\<open>insert\<close> that writes row by row\<close>
  "insert_each topic [] s = (s, Inr (0, []))"
| "insert_each topic (r # rs) (xs, db, c) =
     (case usage_retry (\<lambda>x. InsertUsage x [r]) xs db c of
        (s1, Inr one) \<Rightarrow>
          (case insert_each topic rs s1 of
             (s2, Inr (n, bad)) \<Rightarrow> (s2, Inr (one + n, bad))
           | (s2, Inl e) \<Rightarrow> (s2, Inl e))
      | (s1, Inl ErrBadData) \<Rightarrow>
          (case insert_each topic rs s1 of
             (s2, Inr (n, bad)) \<Rightarrow> (s2, Inr (n, \<lparr>uj_Topic = topic, uj_Partition = ur_Partition r, uj_Offset = ur_Offset r, uj_Reason = RejectInvalid\<rparr> # bad))
           | (s2, Inl e) \<Rightarrow> (s2, Inl e))
      | (s1, Inl e) \<Rightarrow> (s1, Inl e))"

definition usage_insert :: "string \<Rightarrow> usage_row list \<Rightarrow> usage_state \<Rightarrow> usage_state \<times> (usage_error + nat \<times> usage_reject list)" where
  "usage_insert topic rows s =
     (if rows = [] then (s, Inr (0, []))
      else case s of (xs, db, c) \<Rightarrow>
        (case usage_retry (\<lambda>x. InsertUsage x rows) xs db c of
           (s1, Inr n) \<Rightarrow> (s1, Inr (n, []))
         | (s1, Inl e) \<Rightarrow>
             if e \<noteq> ErrBadData then (s1, Inl e)
             else case insert_each topic rows s1 of
               (s2, Inl e2) \<Rightarrow> (s2, Inl e2)
             | (s2, Inr (n, bad)) \<Rightarrow>
                 if bad = [] then (s2, Inr (n, bad))
                 else case s2 of (ys, db2, c2) \<Rightarrow>
                   (case usage_retry (\<lambda>x. RecordRejects x bad) ys db2 c2 of
                      (s3, Inl e3) \<Rightarrow> (s3, Inl e3)
                    | (s3, Inr _) \<Rightarrow> (s3, Inr (n, bad)))))"

definition next_offset :: "(int, usage_offset) gomap \<Rightarrow> usage_message \<Rightarrow> (int, usage_offset) gomap" where
  "next_offset m g =
     (let o1 = \<lparr>uo_Topic = um_Topic g, uo_Partition = um_Partition g, uo_Offset = um_Offset g + 1\<rparr> in
      case mget m (um_Partition g) of
        None \<Rightarrow> mput (um_Partition g) o1 m
      | Some o' \<Rightarrow> if um_Offset g + 1 > uo_Offset o' then mput (um_Partition g) o1 m else m)"

definition rows_of :: "usage_class list \<Rightarrow> usage_row list" where
  "rows_of cs = List.map_filter (\<lambda>c. case c of UsageRow r \<Rightarrow> Some r | _ \<Rightarrow> None) cs"

definition rejects_of :: "usage_class list \<Rightarrow> usage_reject list" where
  "rejects_of cs = List.map_filter (\<lambda>c. case c of UsageReject j \<Rightarrow> Some j | _ \<Rightarrow> None) cs"

definition usage_process :: "(usage_message \<Rightarrow> usage_class) \<Rightarrow> string \<Rightarrow> bool \<Rightarrow> usage_message list \<Rightarrow> usage_state \<Rightarrow> usage_state \<times> (usage_error + usage_offset list)" where
  \<comment> \<open>up to the call of \<^verbatim>\<open>commit\<close>, whose offsets it returns; the flag is a \<^verbatim>\<open>BeforeCommit\<close> that stops\<close>
  "usage_process classify topic stop batch s =
     (let cs = map classify batch; rows = rows_of cs; rejects = rejects_of cs; skipped = length (filter (\<lambda>c. c = UsageSkip) cs);
          next = foldl next_offset [] batch;
          (s1, r1) = (if rejects = [] then (s, Inr 0) else case s of (xs, db, c) \<Rightarrow> usage_retry (\<lambda>x. RecordRejects x rejects) xs db c)
      in case r1 of
           Inl e \<Rightarrow> (s1, Inl e)
         | Inr _ \<Rightarrow>
             (case usage_insert topic rows s1 of
                (s2, Inl e) \<Rightarrow> (s2, Inl e)
              | ((xs, db, c), Inr (inserted, bad)) \<Rightarrow>
                  let c1 = c\<lparr>uc_inserted := uc_inserted c + inserted, uc_duplicate := uc_duplicate c + (length rows - length bad - inserted),
                             uc_skipped := uc_skipped c + skipped, uc_rejected := uc_rejected c + length (rejects @ bad)\<rparr>
                  in ((xs, db, c1), if stop then Inl ErrStopped else Inr (map snd next))))"

fun usage_commit :: "nat \<Rightarrow> bool list \<Rightarrow> bool" where
  \<comment> \<open>the three attempts of \<^verbatim>\<open>commit\<close>, given which of them the source takes\<close>
  "usage_commit 0 oks = False"
| "usage_commit (Suc n) [] = False"
| "usage_commit (Suc n) (ok # oks) = (if ok then True else usage_commit n oks)"

datatype poll_result = Polled "usage_message list" | PollFailed "usage_message list" | PollClosed

fun collectBatch :: "nat \<Rightarrow> usage_message list \<Rightarrow> poll_result list \<Rightarrow> usage_message list" where
  \<comment> \<open>the answers of \<^verbatim>\<open>Poll\<close> until the batch timer or the context ends the list\<close>
  "collectBatch n batch [] = batch"
| "collectBatch n batch (p # ps) =
     (if length batch \<ge> n then batch
      else case p of
        PollClosed \<Rightarrow> batch
      | Polled ms \<Rightarrow> collectBatch n (batch @ ms) ps
      | PollFailed ms \<Rightarrow> collectBatch n (batch @ ms) ps)"

section \<open>Rows fit the table\<close>

lemma char_length_le: "char_length s \<le> length s"
  by (simp add: char_length_def)

lemma lower_hex_set: "n < 16 \<Longrightarrow> lower_hex ! n \<in> set lower_hex"
  by (rule nth_mem) (simp add: lower_hex_def)

lemma hex_encode_set: "set (hex_encode s) \<subseteq> set lower_hex"
  using lower_hex_set[OF byte_parts(2)] lower_hex_set[OF byte_parts(5)] by (auto simp: hex_encode_def)

lemma event_id_fits:
  assumes "length (sha256 (r @ [CHR 0x00] @ ty @ [CHR 0x00] @ a)) = 32"
  shows "take 4 (NewEventID sha256 r ty a) = ''evt_'' \<and> length (NewEventID sha256 r ty a) = 36 \<and> list_all (\<lambda>c. c \<in> set ''0123456789abcdef'') (drop 4 (NewEventID sha256 r ty a))"
proof -
  let ?h = "hex_encode (sha256 (r @ [CHR 0x00] @ ty @ [CHR 0x00] @ a))"
  have s: "\<forall>c \<in> set (take 32 ?h). c \<in> set lower_hex" using subset_trans[OF set_take_subset hex_encode_set] by (rule subsetD[THEN ballI])
  have n: "length ?h = 64" using assms by (simp add: hex_length)
  have d: "drop 4 (''evt_'' @ take 32 ?h) = take 32 ?h" "take 4 (''evt_'' @ take 32 ?h) = ''evt_''" by simp_all
  show ?thesis unfolding NewEventID_def d list_all_iff lower_hex_def[symmetric] using s n by simp
qed

lemma classified_event:
  assumes "usage_classify sha256 jc jv m = UsageRow r"
  obtains e t where "Decode sha256 jc (um_Value m) = Inr e" "ev_Terminal e = Some t" "IsTerminalEventType (ev_EventType e)"
    "r = \<lparr>ur_EventID = ev_EventID e, ur_RequestID = ev_RequestID e, ur_TenantID = ev_TenantID e, ur_APIKeyID = ev_APIKeyID e, ur_Model = ev_Model e,
                ur_WorkerID = ev_WorkerID e, ur_Outcome = (if ev_EventType e = EventFailed then ''failed'' else ''completed''), ur_FailureClass = td_FailureClass t,
                ur_HTTPStatus = td_HTTPStatus t, ur_InputTokens = td_InputTokens t, ur_OutputTokens = td_OutputTokens t, ur_TokensSource = td_TokensSource t,
                ur_EstimatedCostTokens = td_EstimatedCostTokens t, ur_Attempts = int (length (td_Attempts t)), ur_TTFTMS = td_TTFTMS t, ur_DurationMS = td_DurationMS t,
                ur_OccurredAt = ev_Timestamp e, ur_Partition = um_Partition m, ur_Offset = um_Offset m\<rparr>"
  using assms unfolding usage_classify_def Let_def
  by (cases "Decode sha256 jc (um_Value m)") (auto split: if_splits event_error.splits option.splits)

lemma decoded_typed: "Decode sha256 jc b = Inr e \<Longrightarrow> event_typed sha256 e"
  using Validate_None[of sha256 e] by (auto simp: Decode_def Let_def split: option.splits if_splits)

lemma classified_fits:
  assumes c: "usage_classify sha256 jc jv m = UsageRow r" and sha: "\<And>s. length (sha256 s) = 32"
  shows "row_fits r"
proof -
  obtain e t where e: "Decode sha256 jc (um_Value m) = Inr e" "ev_Terminal e = Some t" "IsTerminalEventType (ev_EventType e)"
    and r: "r = \<lparr>ur_EventID = ev_EventID e, ur_RequestID = ev_RequestID e, ur_TenantID = ev_TenantID e, ur_APIKeyID = ev_APIKeyID e, ur_Model = ev_Model e,
                ur_WorkerID = ev_WorkerID e, ur_Outcome = (if ev_EventType e = EventFailed then ''failed'' else ''completed''), ur_FailureClass = td_FailureClass t,
                ur_HTTPStatus = td_HTTPStatus t, ur_InputTokens = td_InputTokens t, ur_OutputTokens = td_OutputTokens t, ur_TokensSource = td_TokensSource t,
                ur_EstimatedCostTokens = td_EstimatedCostTokens t, ur_Attempts = int (length (td_Attempts t)), ur_TTFTMS = td_TTFTMS t, ur_DurationMS = td_DurationMS t,
                ur_OccurredAt = ev_Timestamp e, ur_Partition = um_Partition m, ur_Offset = um_Offset m\<rparr>"
    using c by (rule classified_event)
  have ty: "event_typed sha256 e" using e(1) by (rule decoded_typed)
  then obtain p where p: "payload_typed e p" "e = with_payload p (e\<lparr>ev_Received := None, ev_Routed := None, ev_FirstToken := None, ev_Terminal := None\<rparr>)"
    unfolding event_typed_def by blast
  have "p = PTerminal t" using p e(2) unfolding with_payload_same by (cases p) auto
  then have t: "terminal_typed (ev_EventType e = EventFailed) t" using p(1) by (simp add: payload_typed_def)
  have i: "ev_EventID e = NewEventID sha256 (ev_RequestID e) (ev_EventType e) (ev_AttemptID e)" "named ''req_'' (ev_RequestID e)"
      "plain maxEventModel (ev_Model e)" "plain maxEventShort (ev_WorkerID e)" using ty by (simp_all add: event_typed_def)
  have f: "[] \<notin> set failureClasses"
    by (simp add: failureClasses_def FailureNoCapacity_def FailureWorkerUnavailable_def FailureWorkerError_def FailureTimeout_def FailureClientClosed_def FailureInternal_def)
  have "take 4 (ev_RequestID e) = ''req_''" using i(2) by (auto simp: named_def)
  moreover have "char_length (ev_Model e) \<le> 128" "char_length (ev_WorkerID e) \<le> 64"
    using i(3,4) char_length_le[of "ev_Model e"] char_length_le[of "ev_WorkerID e"] by (simp_all add: plain_def maxEventModel_def maxEventShort_def)
  moreover note event_id_fits[of sha256 "ev_RequestID e" "ev_EventType e" "ev_AttemptID e", OF sha, folded i(1)]
  moreover have "(\<forall>n. td_InputTokens t = Some n \<longrightarrow> 0 \<le> n)" "(\<forall>n. td_OutputTokens t = Some n \<longrightarrow> 0 \<le> n)" "100 \<le> td_HTTPStatus t" "td_HTTPStatus t \<le> 599"
      "0 \<le> td_EstimatedCostTokens t" "0 \<le> td_TTFTMS t" "0 \<le> td_DurationMS t" "ev_EventType e = EventFailed \<longleftrightarrow> td_FailureClass t \<noteq> []"
      "td_TokensSource t = ''usage'' \<or> td_TokensSource t = ''chunks'' \<or> td_TokensSource t = ''estimate''"
    using t f unfolding terminal_typed_def TokensFromUsage_def TokensFromChunks_def TokensFromEstimate_def by (simp_all split: if_splits) metis
  ultimately show ?thesis by (simp add: row_fits_def r split: option.split)
qed

section \<open>The database only grows\<close>

definition grows :: "usage_db \<Rightarrow> usage_db \<Rightarrow> bool" where
  "grows d d' \<longleftrightarrow> (\<exists>rs js. db_rows d' = db_rows d @ rs \<and> db_rejects d' = db_rejects d @ js)"

lemma grows_refl [simp]: "grows d d"
  by (simp add: grows_def)

lemma grows_trans: "grows a b \<Longrightarrow> grows b c \<Longrightarrow> grows a c"
  by (auto simp: grows_def)

definition has_row :: "usage_db \<Rightarrow> usage_row \<Rightarrow> bool" where
  "has_row d r \<longleftrightarrow> (\<exists>x \<in> set (db_rows d). ur_EventID x = ur_EventID r \<or> ur_RequestID x = ur_RequestID r)"

definition has_reject :: "usage_db \<Rightarrow> string \<Rightarrow> int \<Rightarrow> int \<Rightarrow> bool" where
  "has_reject d t p n \<longleftrightarrow> (\<exists>x \<in> set (db_rejects d). uj_Topic x = t \<and> uj_Partition x = p \<and> uj_Offset x = n)"

lemma has_row_grows: "grows d d' \<Longrightarrow> has_row d r \<Longrightarrow> has_row d' r"
  by (auto simp: grows_def has_row_def)

lemma has_reject_grows: "grows d d' \<Longrightarrow> has_reject d t p n \<Longrightarrow> has_reject d' t p n"
  by (auto simp: grows_def has_reject_def)

definition keys_unique :: "usage_db \<Rightarrow> bool" where
  "keys_unique d \<longleftrightarrow> distinct (map ur_EventID (db_rows d)) \<and> distinct (map ur_RequestID (db_rows d))
     \<and> distinct (map (\<lambda>j. (uj_Topic j, uj_Partition j, uj_Offset j)) (db_rejects d))"

definition rows_from :: "(usage_row \<Rightarrow> bool) \<Rightarrow> usage_db \<Rightarrow> bool" where
  "rows_from P d \<longleftrightarrow> (\<forall>x \<in> set (db_rows d). P x)"

lemma insert_rows_grow: "\<exists>rs. foldl insert_row t rows = t @ rs \<and> set rs \<subseteq> set rows \<and> length rs \<le> length rows"
proof (induction rows arbitrary: t)
  case (Cons r rows)
  obtain rs where rs: "foldl insert_row (insert_row t r) rows = insert_row t r @ rs" "set rs \<subseteq> set rows" "length rs \<le> length rows" using Cons by blast
  have "insert_row t r = t \<or> insert_row t r = t @ [r]" by (simp add: insert_row_def)
  then show ?case
  proof
    assume "insert_row t r = t"
    then show ?thesis using rs by (intro exI[of _ rs]) auto
  next
    assume "insert_row t r = t @ [r]"
    then show ?thesis using rs by (intro exI[of _ "r # rs"]) auto
  qed
qed simp

lemma insert_rows_has: "r \<in> set rows \<Longrightarrow> has_row (d\<lparr>db_rows := foldl insert_row t rows\<rparr>) r"
proof (induction rows arbitrary: t)
  case (Cons x rows)
  show ?case
  proof (cases "r = x")
    case True
    have "\<exists>y \<in> set (insert_row t x). ur_EventID y = ur_EventID x \<or> ur_RequestID y = ur_RequestID x" by (auto simp: insert_row_def list_ex_iff)
    moreover obtain rs where "foldl insert_row (insert_row t x) rows = insert_row t x @ rs" using insert_rows_grow by blast
    ultimately show ?thesis using True by (auto simp: has_row_def)
  next
    case False
    then show ?thesis using Cons by simp
  qed
qed simp

lemma insert_rows_unique:
  assumes "distinct (map ur_EventID t)" "distinct (map ur_RequestID t)"
  shows "distinct (map ur_EventID (foldl insert_row t rows)) \<and> distinct (map ur_RequestID (foldl insert_row t rows))"
  using assms
proof (induction rows arbitrary: t)
  case (Cons r rows)
  have "distinct (map ur_EventID (insert_row t r))" "distinct (map ur_RequestID (insert_row t r))"
    using Cons.prems by (auto simp: insert_row_def list_ex_iff)
  from Cons.IH[OF this] show ?case by simp
qed simp

lemma insert_rejects_grow: "\<exists>rs. foldl insert_reject t js = t @ rs"
proof (induction js arbitrary: t)
  case (Cons j js)
  obtain rs where "foldl insert_reject (insert_reject t j) js = insert_reject t j @ rs" using Cons by blast
  moreover have "insert_reject t j = t \<or> insert_reject t j = t @ [j]" by (simp add: insert_reject_def)
  ultimately show ?case by auto
qed simp

lemma insert_rejects_has: "j \<in> set js \<Longrightarrow> has_reject (d\<lparr>db_rejects := foldl insert_reject t js\<rparr>) (uj_Topic j) (uj_Partition j) (uj_Offset j)"
proof (induction js arbitrary: t)
  case (Cons x js)
  show ?case
  proof (cases "j = x")
    case True
    have "\<exists>y \<in> set (insert_reject t x). uj_Topic y = uj_Topic x \<and> uj_Partition y = uj_Partition x \<and> uj_Offset y = uj_Offset x" by (auto simp: insert_reject_def list_ex_iff)
    moreover obtain rs where "foldl insert_reject (insert_reject t x) js = insert_reject t x @ rs" using insert_rejects_grow by blast
    ultimately show ?thesis using True by (auto simp: has_reject_def)
  next
    case False
    then show ?thesis using Cons by simp
  qed
qed simp

lemma insert_rejects_unique:
  assumes "distinct (map (\<lambda>j. (uj_Topic j, uj_Partition j, uj_Offset j)) t)"
  shows "distinct (map (\<lambda>j. (uj_Topic j, uj_Partition j, uj_Offset j)) (foldl insert_reject t js))"
  using assms
proof (induction js arbitrary: t)
  case (Cons j js)
  have "distinct (map (\<lambda>j. (uj_Topic j, uj_Partition j, uj_Offset j)) (insert_reject t j))" using Cons.prems by (auto simp: insert_reject_def list_ex_iff)
  from Cons.IH[OF this] show ?case by simp
qed simp

text \<open>The database of a batch: it has grown from \<open>d\<close>, its keys are unique and its rows come from the batch or from before.\<close>

definition db_inv :: "(usage_row \<Rightarrow> bool) \<Rightarrow> usage_db \<Rightarrow> usage_db \<Rightarrow> bool" where
  "db_inv P d d' \<longleftrightarrow> grows d d' \<and> keys_unique d' \<and> rows_from P d'"

lemma InsertUsage_inv:
  assumes "db_inv P d db" "\<forall>r \<in> set rows. P r"
  shows "db_inv P d (fst (InsertUsage x rows db))"
    and "snd (InsertUsage x rows db) = Inr n \<Longrightarrow> (\<forall>r \<in> set rows. has_row (fst (InsertUsage x rows db)) r) \<and> n \<le> length rows"
proof -
  obtain rs where rs: "foldl insert_row (db_rows db) rows = db_rows db @ rs" "set rs \<subseteq> set rows" "length rs \<le> length rows" using insert_rows_grow by blast
  have "keys_unique (db\<lparr>db_rows := foldl insert_row (db_rows db) rows\<rparr>)" using insert_rows_unique[of "db_rows db" rows] assms(1) by (simp add: db_inv_def keys_unique_def)
  moreover have "grows db (db\<lparr>db_rows := foldl insert_row (db_rows db) rows\<rparr>)" using rs(1) by (simp add: grows_def)
  moreover have "rows_from P (db\<lparr>db_rows := foldl insert_row (db_rows db) rows\<rparr>)" using rs assms by (auto simp: db_inv_def rows_from_def)
  ultimately have "db_inv P d (db\<lparr>db_rows := foldl insert_row (db_rows db) rows\<rparr>)" using assms(1) grows_trans by (auto simp: db_inv_def)
  then show "db_inv P d (fst (InsertUsage x rows db))" using assms(1) by (simp add: InsertUsage_def Let_def)
  show "(\<forall>r \<in> set rows. has_row (fst (InsertUsage x rows db)) r) \<and> n \<le> length rows" if "snd (InsertUsage x rows db) = Inr n"
    using that insert_rows_has[where t = "db_rows db" and d = db and rows = rows] rs by (auto simp: InsertUsage_def Let_def split: if_splits)
qed

lemma RecordRejects_inv:
  assumes "db_inv P d db"
  shows "db_inv P d (fst (RecordRejects x js db))"
    and "snd (RecordRejects x js db) = Inr n \<Longrightarrow> (\<forall>j \<in> set js. has_reject (fst (RecordRejects x js db)) (uj_Topic j) (uj_Partition j) (uj_Offset j))"
proof -
  obtain rs where rs: "foldl insert_reject (db_rejects db) js = db_rejects db @ rs" using insert_rejects_grow by blast
  have "keys_unique (db\<lparr>db_rejects := foldl insert_reject (db_rejects db) js\<rparr>)" using insert_rejects_unique[of "db_rejects db" js] assms(1) by (simp add: db_inv_def keys_unique_def)
  moreover have "grows db (db\<lparr>db_rejects := foldl insert_reject (db_rejects db) js\<rparr>)" using rs(1) by (simp add: grows_def)
  ultimately have "db_inv P d (db\<lparr>db_rejects := foldl insert_reject (db_rejects db) js\<rparr>)" using assms(1) grows_trans by (auto simp: db_inv_def rows_from_def)
  then show "db_inv P d (fst (RecordRejects x js db))" using assms(1) by (simp add: RecordRejects_def)
  show "\<forall>j \<in> set js. has_reject (fst (RecordRejects x js db)) (uj_Topic j) (uj_Partition j) (uj_Offset j)" if "snd (RecordRejects x js db) = Inr n"
    using that insert_rejects_has[where t = "db_rejects db" and d = db and js = js] by (auto simp: RecordRejects_def split: if_splits)
qed

lemma retry_inv:
  assumes op: "\<And>x d. I d \<Longrightarrow> I (fst (op x d))" and post: "\<And>x d n. I d \<Longrightarrow> snd (op x d) = Inr n \<Longrightarrow> Q (fst (op x d)) n"
    and "I db" and r: "usage_retry op xs db c = ((ys, db', c'), res)"
  shows "I db' \<and> (\<forall>n. res = Inr n \<longrightarrow> Q db' n)
    \<and> uc_inserted c' = uc_inserted c \<and> uc_duplicate c' = uc_duplicate c \<and> uc_skipped c' = uc_skipped c \<and> uc_rejected c' = uc_rejected c"
  using assms(3,4)
proof (induction xs arbitrary: db c)
  case (Cons x xs)
  obtain d1 o' where o1: "op x db = (d1, o')" by force
  have I1: "I d1" using op[OF Cons.prems(1), of x] o1 by simp
  show ?case
  proof (cases o')
    case (Inr n)
    then show ?thesis using Cons.prems(2) o1 I1 post[OF Cons.prems(1), of x n] by auto
  next
    case (Inl e)
    show ?thesis
    proof (cases "e = ErrBadData")
      case True
      then show ?thesis using Cons.prems(2) o1 Inl I1 by auto
    next
      case False
      then have "usage_retry op xs d1 (c\<lparr>uc_dbErrors := uc_dbErrors c + 1, uc_dbDown := True\<rparr>) = ((ys, db', c'), res)"
        using Cons.prems(2) o1 Inl by (cases e) auto
      from Cons.IH[OF I1 this] show ?thesis by simp
    qed
  qed
qed auto

abbreviation counts_of :: "usage_consumer \<Rightarrow> nat \<times> nat \<times> nat \<times> nat" where
  "counts_of c \<equiv> (uc_inserted c, uc_duplicate c, uc_skipped c, uc_rejected c)"

lemma db_inv_refl: "db_inv P d db \<Longrightarrow> db_inv P db db"
  by (simp add: db_inv_def)

lemma db_inv_trans: "grows d e \<Longrightarrow> db_inv P e db \<Longrightarrow> db_inv P d db"
  using grows_trans by (auto simp: db_inv_def)

lemma insert_retry:
  assumes "db_inv P d db" "\<forall>r \<in> set rows. P r" "usage_retry (\<lambda>x. InsertUsage x rows) xs db c = ((ys, db', c'), res)"
  shows "db_inv P d db' \<and> grows db db' \<and> (\<forall>n. res = Inr n \<longrightarrow> (\<forall>r \<in> set rows. has_row db' r) \<and> n \<le> length rows) \<and> counts_of c' = counts_of c"
proof -
  have "db_inv P db db' \<and> (\<forall>n. res = Inr n \<longrightarrow> (\<forall>r \<in> set rows. has_row db' r) \<and> n \<le> length rows)
      \<and> uc_inserted c' = uc_inserted c \<and> uc_duplicate c' = uc_duplicate c \<and> uc_skipped c' = uc_skipped c \<and> uc_rejected c' = uc_rejected c"
    by (rule retry_inv[where I = "db_inv P db" and Q = "\<lambda>d n. (\<forall>r \<in> set rows. has_row d r) \<and> n \<le> length rows", OF _ _ db_inv_refl[OF assms(1)] assms(3)])
       (use InsertUsage_inv[OF _ assms(2)] in blast)+
  then show ?thesis using assms(1) db_inv_trans[of d db P db'] by (auto simp: db_inv_def)
qed

lemma reject_retry:
  assumes "db_inv P d db" "usage_retry (\<lambda>x. RecordRejects x js) xs db c = ((ys, db', c'), res)"
  shows "db_inv P d db' \<and> grows db db' \<and> (\<forall>n. res = Inr n \<longrightarrow> (\<forall>j \<in> set js. has_reject db' (uj_Topic j) (uj_Partition j) (uj_Offset j))) \<and> counts_of c' = counts_of c"
proof -
  have "db_inv P db db' \<and> (\<forall>n. res = Inr n \<longrightarrow> (\<forall>j \<in> set js. has_reject db' (uj_Topic j) (uj_Partition j) (uj_Offset j)))
      \<and> uc_inserted c' = uc_inserted c \<and> uc_duplicate c' = uc_duplicate c \<and> uc_skipped c' = uc_skipped c \<and> uc_rejected c' = uc_rejected c"
    by (rule retry_inv[where I = "db_inv P db" and Q = "\<lambda>d n. \<forall>j \<in> set js. has_reject d (uj_Topic j) (uj_Partition j) (uj_Offset j)", OF _ _ db_inv_refl[OF assms(1)] assms(2)])
       (use RecordRejects_inv in blast)+
  then show ?thesis using assms(1) db_inv_trans[of d db P db'] by (auto simp: db_inv_def)
qed

definition bad_row :: "string \<Rightarrow> usage_row \<Rightarrow> usage_reject" where
  "bad_row topic r = \<lparr>uj_Topic = topic, uj_Partition = ur_Partition r, uj_Offset = ur_Offset r, uj_Reason = RejectInvalid\<rparr>"

lemma bad_single: "snd (usage_retry (\<lambda>x. InsertUsage x [r]) xs db c) = Inl ErrBadData \<Longrightarrow> \<not> row_fits r"
proof (induction xs arbitrary: db c)
  case (Cons x xs)
  obtain d o' where o1: "InsertUsage x [r] db = (d, o')" by force
  show ?case
  proof (cases "o' = Inl ErrBadData")
    case True
    then show ?thesis using o1 by (auto simp: InsertUsage_def Let_def split: if_splits)
  next
    case False
    then show ?thesis using Cons.prems Cons.IH o1 by (auto split: sum.splits usage_error.splits)
  qed
qed simp

lemma insert_each_inv:
  assumes "db_inv P d db" "\<forall>r \<in> set rows. P r" "insert_each topic rows (xs, db, c) = ((ys, db', c'), res)"
  shows "db_inv P d db' \<and> grows db db' \<and> counts_of c' = counts_of c
    \<and> (\<forall>n bad. res = Inr (n, bad) \<longrightarrow> n + length bad \<le> length rows \<and> (\<forall>r \<in> set rows. has_row db' r \<or> \<not> row_fits r \<and> bad_row topic r \<in> set bad))"
  using assms
proof (induction rows arbitrary: xs db c res)
  case (Cons r rows)
  obtain zs d1 c1 o1 where o1: "usage_retry (\<lambda>x. InsertUsage x [r]) xs db c = ((zs, d1, c1), o1)" by (metis prod.exhaust)
  have R: "db_inv P d d1" "grows db d1" "\<forall>n. o1 = Inr n \<longrightarrow> has_row d1 r \<and> n \<le> 1" "counts_of c1 = counts_of c"
    using insert_retry[OF Cons.prems(1) _ o1] Cons.prems(2) by auto
  show ?case
  proof (cases "\<exists>e. o1 = Inl e \<and> e \<noteq> ErrBadData")
    case True
    then obtain e where e: "o1 = Inl e" "e \<noteq> ErrBadData" by blast
    then have "((ys, db', c'), res) = ((zs, d1, c1), Inl e)" using Cons.prems(3) o1 by (cases e) auto
    then show ?thesis using R by simp
  next
    case False
    obtain o2 where o2: "insert_each topic rows (zs, d1, c1) = ((ys, db', c'), o2)"
      and res: "res = (case o2 of Inl e \<Rightarrow> Inl e | Inr (n, bad) \<Rightarrow> (case o1 of Inr one \<Rightarrow> Inr (one + n, bad) | Inl _ \<Rightarrow> Inr (n, bad_row topic r # bad)))"
    proof -
      obtain s2 o2 where i: "insert_each topic rows (zs, d1, c1) = (s2, o2)" by (cases "insert_each topic rows (zs, d1, c1)")
      have "s2 = (ys, db', c') \<and> res = (case o2 of Inl e \<Rightarrow> Inl e | Inr (n, bad) \<Rightarrow> (case o1 of Inr one \<Rightarrow> Inr (one + n, bad) | Inl _ \<Rightarrow> Inr (n, bad_row topic r # bad)))"
        using Cons.prems(3) False by (cases o1; cases o2) (auto simp: o1 i bad_row_def)
      then show ?thesis using that i by blast
    qed
    have rest: "db_inv P d db'" "grows d1 db'" "counts_of c' = counts_of c1"
        "\<forall>n bad. o2 = Inr (n, bad) \<longrightarrow> n + length bad \<le> length rows \<and> (\<forall>r \<in> set rows. has_row db' r \<or> \<not> row_fits r \<and> bad_row topic r \<in> set bad)"
      using Cons.IH[OF R(1) _ o2] Cons.prems(2) by auto
    have g: "grows db db'" using R(2) rest(2) by (rule grows_trans)
    have hr: "o1 = Inr k \<Longrightarrow> has_row db' r \<and> k \<le> 1" for k using R(3) has_row_grows[OF rest(2)] by blast
    have "n + length bad \<le> length (r # rows) \<and> (\<forall>q \<in> set (r # rows). has_row db' q \<or> \<not> row_fits q \<and> bad_row topic q \<in> set bad)" if "res = Inr (n, bad)" for n bad
    proof (cases o2)
      case (Inl e)
      then show ?thesis using that res by simp
    next
      case (Inr nb)
      obtain n2 bad2 where nb: "nb = (n2, bad2)" by force
      have q: "n2 + length bad2 \<le> length rows" "\<forall>r \<in> set rows. has_row db' r \<or> \<not> row_fits r \<and> bad_row topic r \<in> set bad2" using rest(4) Inr nb by blast+
      show ?thesis
      proof (cases o1)
        case inr: (Inr k)
        then have "n = k + n2" "bad = bad2" using that res Inr nb by auto
        then show ?thesis using q hr[OF inr] by simp
      next
        case inl: (Inl e)
        then have "n = n2" "bad = bad_row topic r # bad2" using that res Inr nb by auto
        moreover have "\<not> row_fits r" using bad_single[of r xs db c] o1 inl False by simp
        ultimately show ?thesis using q by auto
      qed
    qed
    then show ?thesis using rest(1,3) R(4) g by simp
  qed
qed simp

lemma usage_insert_inv:
  assumes "db_inv P d db" "\<forall>r \<in> set rows. P r" "usage_insert topic rows (xs, db, c) = ((ys, db', c'), res)"
  shows "db_inv P d db' \<and> grows db db' \<and> counts_of c' = counts_of c
    \<and> (\<forall>n bad. res = Inr (n, bad) \<longrightarrow> n + length bad \<le> length rows \<and> (\<forall>r \<in> set rows. has_row db' r \<or> \<not> row_fits r \<and> has_reject db' topic (ur_Partition r) (ur_Offset r)))"
proof (cases "rows = []")
  case True
  then show ?thesis using assms by (auto simp: usage_insert_def)
next
  case ne: False
  obtain zs d1 c1 o1 where o1: "usage_retry (\<lambda>x. InsertUsage x rows) xs db c = ((zs, d1, c1), o1)" by (metis prod.exhaust)
  have R: "db_inv P d d1" "grows db d1" "\<forall>n. o1 = Inr n \<longrightarrow> (\<forall>r \<in> set rows. has_row d1 r) \<and> n \<le> length rows" "counts_of c1 = counts_of c"
    using insert_retry[OF assms(1,2) o1] by auto
  show ?thesis
  proof (cases "o1 = Inl ErrBadData")
    case False
    then have "((ys, db', c'), res) = ((zs, d1, c1), (case o1 of Inr n \<Rightarrow> Inr (n, []) | Inl e \<Rightarrow> Inl e))"
      using assms(3) ne o1 by (cases o1) (auto simp: usage_insert_def)
    then show ?thesis using R by (cases o1) auto
  next
    case True
    obtain us d2 c2 o2 where o2: "insert_each topic rows (zs, d1, c1) = ((us, d2, c2), o2)" by (metis prod.exhaust)
    have E: "db_inv P d d2" "grows d1 d2" "counts_of c2 = counts_of c1"
        "\<forall>n bad. o2 = Inr (n, bad) \<longrightarrow> n + length bad \<le> length rows \<and> (\<forall>r \<in> set rows. has_row d2 r \<or> \<not> row_fits r \<and> bad_row topic r \<in> set bad)"
      using insert_each_inv[OF R(1) assms(2) o2] by auto
    have g: "grows db d2" using R(2) E(2) by (rule grows_trans)
    show ?thesis
    proof (cases o2)
      case (Inl e)
      then have "((ys, db', c'), res) = ((us, d2, c2), Inl e)" using assms(3) ne o1 o2 True by (simp add: usage_insert_def)
      then show ?thesis using E R(4) g by simp
    next
      case (Inr nb)
      obtain n bad where nb: "nb = (n, bad)" by force
      have q: "n + length bad \<le> length rows" "\<forall>r \<in> set rows. has_row d2 r \<or> \<not> row_fits r \<and> bad_row topic r \<in> set bad" using E(4) Inr nb by blast+
      show ?thesis
      proof (cases "bad = []")
        case True
        then have "((ys, db', c'), res) = ((us, d2, c2), Inr (n, bad))" using assms(3) ne o1 o2 \<open>o1 = Inl ErrBadData\<close> Inr nb by (simp add: usage_insert_def)
        then show ?thesis using E(1,3) R(4) g q True by simp
      next
        case False
        obtain vs d3 c3 o3 where o3: "usage_retry (\<lambda>x. RecordRejects x bad) us d2 c2 = ((vs, d3, c3), o3)" by (metis prod.exhaust)
        have J: "db_inv P d d3" "grows d2 d3" "\<forall>n. o3 = Inr n \<longrightarrow> (\<forall>j \<in> set bad. has_reject d3 (uj_Topic j) (uj_Partition j) (uj_Offset j))" "counts_of c3 = counts_of c2"
          using reject_retry[OF E(1) o3] by auto
        have eq: "((ys, db', c'), res) = ((vs, d3, c3), (case o3 of Inl e \<Rightarrow> Inl e | Inr _ \<Rightarrow> Inr (n, bad)))"
          using assms(3) ne o1 o2 o3 \<open>o1 = Inl ErrBadData\<close> Inr nb False by (cases o3) (simp_all add: usage_insert_def)
        have "has_row d3 r \<or> \<not> row_fits r \<and> has_reject d3 topic (ur_Partition r) (ur_Offset r)" if "r \<in> set rows" "o3 = Inr k" for r k
        proof -
          have "has_row d2 r \<or> \<not> row_fits r \<and> bad_row topic r \<in> set bad" using q(2) that(1) by blast
          then show ?thesis
          proof
            assume b: "\<not> row_fits r \<and> bad_row topic r \<in> set bad"
            then have "has_reject d3 (uj_Topic (bad_row topic r)) (uj_Partition (bad_row topic r)) (uj_Offset (bad_row topic r))" using J(3) that(2) by blast
            then show ?thesis using b by (simp add: bad_row_def)
          qed (use has_row_grows[OF J(2)] in blast)
        qed
        then show ?thesis using eq J(1,4) E(3) R(4) grows_trans[OF g J(2)] q(1) by (cases o3) auto
      qed
    qed
  qed
qed

definition durable :: "(usage_message \<Rightarrow> usage_class) \<Rightarrow> string \<Rightarrow> usage_db \<Rightarrow> usage_message \<Rightarrow> bool" where
  \<comment> \<open>what became of a message is in the database\<close>
  "durable classify topic db m =
     (case classify m of
        UsageRow r \<Rightarrow> has_row db r \<or> \<not> row_fits r \<and> has_reject db topic (ur_Partition r) (ur_Offset r)
      | UsageReject j \<Rightarrow> has_reject db (uj_Topic j) (uj_Partition j) (uj_Offset j)
      | UsageSkip \<Rightarrow> True)"

lemma durable_grows: "grows d d' \<Longrightarrow> durable classify topic d m \<Longrightarrow> durable classify topic d' m"
  using has_row_grows has_reject_grows unfolding durable_def by (cases "classify m") auto

lemma of_classes: "r \<in> set (rows_of cs) \<longleftrightarrow> UsageRow r \<in> set cs" "j \<in> set (rejects_of cs) \<longleftrightarrow> UsageReject j \<in> set cs"
    "length (rows_of cs) + length (rejects_of cs) + length (filter (\<lambda>c. c = UsageSkip) cs) = length cs"
  by (induction cs) (auto simp: rows_of_def rejects_of_def List.map_filter_simps split: usage_class.split)

lemma usage_process_inv:
  assumes "db_inv P d db" "\<forall>m \<in> set batch. \<forall>r. classify m = UsageRow r \<longrightarrow> P r"
    and run: "usage_process classify topic stop batch (xs, db, c) = ((ys, db', c'), res)"
  shows "db_inv P d db' \<and> grows db db' \<and> (\<forall>offs. res = Inr offs \<longrightarrow> offs = map snd (foldl next_offset [] batch) \<and> (\<forall>m \<in> set batch. durable classify topic db' m)
      \<and> uc_inserted c' + uc_duplicate c' + uc_skipped c' + uc_rejected c' = uc_inserted c + uc_duplicate c + uc_skipped c + uc_rejected c + length batch)"
proof -
  let ?cs = "map classify batch"
  let ?rows = "rows_of ?cs" and ?js = "rejects_of ?cs" and ?k = "length (filter (\<lambda>c. c = UsageSkip) ?cs)"
  have P: "\<forall>r \<in> set ?rows. P r" using assms(2) by (auto simp: of_classes image_iff)
  obtain zs d1 c1 o1 where o1: "(if ?js = [] then ((xs, db, c), Inr 0) else usage_retry (\<lambda>x. RecordRejects x ?js) xs db c) = ((zs, d1, c1), o1)" by (metis prod.exhaust)
  have J: "db_inv P d d1" "grows db d1" "\<forall>n. o1 = Inr n \<longrightarrow> (\<forall>j \<in> set ?js. has_reject d1 (uj_Topic j) (uj_Partition j) (uj_Offset j))" "counts_of c1 = counts_of c"
  proof -
    have "db_inv P d d1 \<and> grows db d1 \<and> (\<forall>n. o1 = Inr n \<longrightarrow> (\<forall>j \<in> set ?js. has_reject d1 (uj_Topic j) (uj_Partition j) (uj_Offset j))) \<and> counts_of c1 = counts_of c"
    proof (cases "?js = []")
      case True
      then show ?thesis using o1 assms(1) by auto
    next
      case False
      then have "usage_retry (\<lambda>x. RecordRejects x ?js) xs db c = ((zs, d1, c1), o1)" using o1 by simp
      from reject_retry[OF assms(1) this] show ?thesis .
    qed
    then show "db_inv P d d1" "grows db d1" "\<forall>n. o1 = Inr n \<longrightarrow> (\<forall>j \<in> set ?js. has_reject d1 (uj_Topic j) (uj_Partition j) (uj_Offset j))" "counts_of c1 = counts_of c" by blast+
  qed
  show ?thesis
  proof (cases o1)
    case (Inl e)
    then have "((ys, db', c'), res) = ((zs, d1, c1), Inl e)" using run o1 by (simp add: usage_process_def Let_def split: if_splits)
    then show ?thesis using J by simp
  next
    case (Inr k)
    obtain us d2 c2 o2 where o2: "usage_insert topic ?rows (zs, d1, c1) = ((us, d2, c2), o2)" by (metis prod.exhaust)
    have I: "db_inv P d d2" "grows d1 d2" "counts_of c2 = counts_of c1"
        "\<forall>n bad. o2 = Inr (n, bad) \<longrightarrow> n + length bad \<le> length ?rows \<and> (\<forall>r \<in> set ?rows. has_row d2 r \<or> \<not> row_fits r \<and> has_reject d2 topic (ur_Partition r) (ur_Offset r))"
      using usage_insert_inv[OF J(1) P o2] by auto
    have g: "grows db d2" using J(2) I(2) by (rule grows_trans)
    show ?thesis
    proof (cases o2)
      case l2: (Inl e)
      then have "((ys, db', c'), res) = ((us, d2, c2), Inl e)" using run o1 o2 Inr by (simp add: usage_process_def Let_def split: if_splits)
      then show ?thesis using I(1) g by simp
    next
      case r2: (Inr nb)
      obtain n bad where nb: "nb = (n, bad)" by force
      let ?c = "c2\<lparr>uc_inserted := uc_inserted c2 + n, uc_duplicate := uc_duplicate c2 + (length ?rows - length bad - n),
        uc_skipped := uc_skipped c2 + ?k, uc_rejected := uc_rejected c2 + length (?js @ bad)\<rparr>"
      have eq: "((ys, db', c'), res) = ((us, d2, ?c), if stop then Inl ErrStopped else Inr (map snd (foldl next_offset [] batch)))"
        using run o1 o2 Inr r2 nb by (simp add: usage_process_def Let_def split: if_splits)
      have q: "n + length bad \<le> length ?rows" "\<forall>r \<in> set ?rows. has_row d2 r \<or> \<not> row_fits r \<and> has_reject d2 topic (ur_Partition r) (ur_Offset r)" using I(4) r2 nb by blast+
      have "durable classify topic d2 m" if "m \<in> set batch" for m
      proof (cases "classify m")
        case (UsageRow r)
        then have "r \<in> set ?rows" using that by (auto simp: of_classes image_iff intro!: bexI[of _ m])
        then show ?thesis using q(2) UsageRow by (simp add: durable_def)
      next
        case (UsageReject j)
        then have "j \<in> set ?js" using that by (auto simp: of_classes image_iff intro!: bexI[of _ m])
        then show ?thesis using J(3) Inr UsageReject has_reject_grows[OF I(2)] by (simp add: durable_def)
      qed (simp add: durable_def)
      moreover have "length ?rows + length ?js + ?k = length batch" using of_classes(3)[of ?cs] by simp
      ultimately show ?thesis using eq I(1,3) J(4) g q(1) by (cases stop) auto
    qed
  qed
qed

section \<open>Consuming a topic through crashes\<close>

record usage_system =
  us_db :: usage_db
  us_c :: usage_consumer
  us_committed :: "int \<Rightarrow> int" \<comment> \<open>the group's offset for each partition\<close>
  us_position :: "int \<Rightarrow> int"  \<comment> \<open>where this process reads next\<close>

datatype usage_event =
    UsBatch "usage_message list" "db_outcome list" bool "bool list" \<comment> \<open>a batch, the database's outcomes, a stop before the commit, the commit's outcomes\<close>
  | UsRestart

definition part_of :: "int \<Rightarrow> usage_message list \<Rightarrow> usage_message list" where
  "part_of p ms = filter (\<lambda>m. um_Partition m = p) ms"

definition deliverable :: "(int \<Rightarrow> usage_message list) \<Rightarrow> (int \<Rightarrow> int) \<Rightarrow> usage_message list \<Rightarrow> bool" where
  \<comment> \<open>a batch holds the next messages of each of its partitions, in order\<close>
  "deliverable tlog pos batch \<longleftrightarrow> (\<forall>p \<in> um_Partition ` set batch. part_of p batch = take (length (part_of p batch)) (drop (nat (pos p)) (tlog p)))"

primrec usage_step :: "(usage_message \<Rightarrow> usage_class) \<Rightarrow> string \<Rightarrow> (int \<Rightarrow> usage_message list) \<Rightarrow> usage_event \<Rightarrow> usage_system \<Rightarrow> usage_system" where
  "usage_step classify topic tlog (UsBatch batch outs stop commits) s =
     (if \<not> deliverable tlog (us_position s) batch then s
      else case usage_process classify topic stop batch (outs, us_db s, us_c s) of
        ((_, db, c), Inl _) \<Rightarrow> s\<lparr>us_db := db, us_c := c, us_position := us_committed s\<rparr> \<comment> \<open>\<^verbatim>\<open>Run\<close> has returned\<close>
      | ((_, db, c), Inr offs) \<Rightarrow>
          s\<lparr>us_db := db, us_c := c,
            us_committed := (if usage_commit 3 commits then foldl (\<lambda>f off. f(uo_Partition off := uo_Offset off)) (us_committed s) offs else us_committed s),
            us_position := (\<lambda>p. us_position s p + int (length (part_of p batch)))\<rparr>)"
| "usage_step classify topic tlog UsRestart s = s\<lparr>us_c := NewConsumer, us_position := us_committed s\<rparr>"

definition usage_init :: usage_system where
  "usage_init = \<lparr>us_db = \<lparr>db_rows = [], db_rejects = []\<rparr>, us_c = NewConsumer, us_committed = (\<lambda>_. 0), us_position = (\<lambda>_. 0)\<rparr>"

definition topic_ok :: "(int \<Rightarrow> usage_message list) \<Rightarrow> bool" where
  "topic_ok tlog \<longleftrightarrow> (\<forall>p i. i < length (tlog p) \<longrightarrow> um_Partition (tlog p ! i) = p \<and> um_Offset (tlog p ! i) = int i)"

lemma part_of_snoc: "part_of p (ms @ [m]) = (if um_Partition m = p then part_of p ms @ [m] else part_of p ms)"
  by (simp add: part_of_def)

lemma next_offsets:
  assumes "\<And>p. sorted_wrt (\<lambda>a b. um_Offset a < um_Offset b) (part_of p batch)"
  shows "mok (foldl next_offset [] batch) \<and> mget (foldl next_offset [] batch) p = (if part_of p batch = [] then None
    else Some \<lparr>uo_Topic = um_Topic (last (part_of p batch)), uo_Partition = p, uo_Offset = um_Offset (last (part_of p batch)) + 1\<rparr>)"
  using assms
proof (induction batch arbitrary: p rule: rev_induct)
  case Nil
  then show ?case by (simp add: part_of_def)
next
  case (snoc m batch)
  let ?n = "foldl next_offset [] batch"
  have s: "sorted_wrt (\<lambda>a b. um_Offset a < um_Offset b) (part_of q batch)" for q using snoc.prems[of q] by (auto simp: part_of_snoc sorted_wrt_append split: if_splits)
  have IH: "mok ?n" "mget ?n q = (if part_of q batch = [] then None
    else Some \<lparr>uo_Topic = um_Topic (last (part_of q batch)), uo_Partition = q, uo_Offset = um_Offset (last (part_of q batch)) + 1\<rparr>)" for q
    using snoc.IH[OF s, of q] by blast+
  let ?p = "um_Partition m"
  have up: "um_Offset (last (part_of ?p batch)) < um_Offset m" if "part_of ?p batch \<noteq> []"
    using snoc.prems[of ?p] that by (auto simp: part_of_snoc sorted_wrt_append)
  have "next_offset ?n m = mput ?p \<lparr>uo_Topic = um_Topic m, uo_Partition = ?p, uo_Offset = um_Offset m + 1\<rparr> ?n"
    using IH(2)[of ?p] up by (cases "part_of ?p batch = []") (simp_all add: next_offset_def Let_def)
  then show ?case using IH by (simp add: gomap_simps part_of_snoc)
qed

lemma fold_commit: "foldl (\<lambda>f off. f(uo_Partition off := uo_Offset off)) f offs p = f p \<or> (\<exists>off \<in> set offs. uo_Partition off = p \<and> foldl (\<lambda>f off. f(uo_Partition off := uo_Offset off)) f offs p = uo_Offset off)"
proof (induction offs rule: rev_induct)
  case (snoc x offs)
  then show ?case by auto
qed simp

lemma deliverable_part:
  assumes ok: "topic_ok tlog" and d: "deliverable tlog pos batch" and pos: "\<And>p. 0 \<le> pos p \<and> pos p \<le> int (length (tlog p))"
  shows "part_of p batch = take (length (part_of p batch)) (drop (nat (pos p)) (tlog p))" (is ?A)
    and "pos p + int (length (part_of p batch)) \<le> int (length (tlog p))" (is ?B)
    and "i < length (part_of p batch) \<Longrightarrow> part_of p batch ! i = tlog p ! (nat (pos p) + i) \<and> um_Offset (part_of p batch ! i) = pos p + int i"
proof -
  show A: ?A
  proof (cases "p \<in> um_Partition ` set batch")
    case True
    then show ?thesis using d unfolding deliverable_def by blast
  next
    case False
    then have "part_of p batch = []" by (auto simp: part_of_def filter_empty_conv)
    then show ?thesis by simp
  qed
  have "length (part_of p batch) \<le> length (tlog p) - nat (pos p)" using arg_cong[OF A, of length] by simp
  then show B: ?B using pos[of p] by linarith
  assume i: "i < length (part_of p batch)"
  have "part_of p batch ! i = take (length (part_of p batch)) (drop (nat (pos p)) (tlog p)) ! i" using A by simp
  also have "\<dots> = tlog p ! (nat (pos p) + i)" using i B pos[of p] by (simp add: nth_append)
  finally have e: "part_of p batch ! i = tlog p ! (nat (pos p) + i)" .
  have "nat (pos p) + i < length (tlog p)" using i B pos[of p] by linarith
  then show "part_of p batch ! i = tlog p ! (nat (pos p) + i) \<and> um_Offset (part_of p batch ! i) = pos p + int i"
    using e ok pos[of p] by (simp add: topic_ok_def)
qed

lemma deliverable_sorted:
  assumes "topic_ok tlog" "deliverable tlog pos batch" "\<And>p. 0 \<le> pos p \<and> pos p \<le> int (length (tlog p))"
  shows "sorted_wrt (\<lambda>a b. um_Offset a < um_Offset b) (part_of p batch)"
  unfolding sorted_wrt_iff_nth_less
proof (intro allI impI)
  fix i j assume ij: "i < j" "j < length (part_of p batch)"
  have "um_Offset (part_of p batch ! i) = pos p + int i" "um_Offset (part_of p batch ! j) = pos p + int j"
    by (rule deliverable_part(3)[OF assms, THEN conjunct2], use ij in simp)+
  then show "um_Offset (part_of p batch ! i) < um_Offset (part_of p batch ! j)" using ij(1) by linarith
qed

lemma commit_offsets:
  assumes "topic_ok tlog" "deliverable tlog pos batch" "\<And>p. 0 \<le> pos p \<and> pos p \<le> int (length (tlog p))"
    and off: "off \<in> set (map snd (foldl next_offset [] batch))"
  shows "uo_Offset off = pos (uo_Partition off) + int (length (part_of (uo_Partition off) batch))"
proof -
  have N: "mok (foldl next_offset [] batch)" "mget (foldl next_offset [] batch) p = (if part_of p batch = [] then None
      else Some \<lparr>uo_Topic = um_Topic (last (part_of p batch)), uo_Partition = p, uo_Offset = um_Offset (last (part_of p batch)) + 1\<rparr>)" for p
    using next_offsets[of batch p] deliverable_sorted[OF assms(1,2,3)] by blast+
  obtain p where "(p, off) \<in> set (foldl next_offset [] batch)" using off by auto
  then have "mget (foldl next_offset [] batch) p = Some off" using N(1) by (simp add: mget_iff_mem)
  then have o': "part_of p batch \<noteq> []" "off = \<lparr>uo_Topic = um_Topic (last (part_of p batch)), uo_Partition = p, uo_Offset = um_Offset (last (part_of p batch)) + 1\<rparr>"
    using N(2)[of p] by (auto split: if_splits)
  then have "um_Offset (last (part_of p batch)) = pos p + int (length (part_of p batch) - 1)"
    unfolding last_conv_nth[OF o'(1)] by (intro deliverable_part(3)[OF assms(1,2,3), THEN conjunct2]) simp
  then show ?thesis using o' by (cases "part_of p batch") auto
qed

definition usage_origin :: "(usage_message \<Rightarrow> usage_class) \<Rightarrow> (int \<Rightarrow> usage_message list) \<Rightarrow> usage_row \<Rightarrow> bool" where
  "usage_origin classify tlog r \<longleftrightarrow> (\<exists>p. \<exists>m \<in> set (tlog p). classify m = UsageRow r)"

definition usage_inv :: "(usage_message \<Rightarrow> usage_class) \<Rightarrow> string \<Rightarrow> (int \<Rightarrow> usage_message list) \<Rightarrow> usage_system \<Rightarrow> bool" where
  "usage_inv classify topic tlog s \<longleftrightarrow> keys_unique (us_db s) \<and> rows_from (usage_origin classify tlog) (us_db s)
     \<and> (\<forall>p. 0 \<le> us_committed s p \<and> us_committed s p \<le> us_position s p \<and> us_position s p \<le> int (length (tlog p)))
     \<and> (\<forall>p i. i < nat (us_position s p) \<longrightarrow> durable classify topic (us_db s) (tlog p ! i))"

lemma usage_step_inv:
  assumes ok: "topic_ok tlog" and inv: "usage_inv classify topic tlog s"
  shows "usage_inv classify topic tlog (usage_step classify topic tlog x s) \<and> grows (us_db s) (us_db (usage_step classify topic tlog x s))"
proof (cases x)
  case UsRestart
  have c: "0 \<le> us_committed s p \<and> us_committed s p \<le> int (length (tlog p))" "i < nat (us_committed s p) \<Longrightarrow> i < nat (us_position s p)" for p i
  proof -
    have "0 \<le> us_committed s p \<and> us_committed s p \<le> us_position s p \<and> us_position s p \<le> int (length (tlog p))" using inv by (simp add: usage_inv_def)
    then show "0 \<le> us_committed s p \<and> us_committed s p \<le> int (length (tlog p))" "i < nat (us_committed s p) \<Longrightarrow> i < nat (us_position s p)" by linarith+
  qed
  then show ?thesis using inv UsRestart by (simp add: usage_inv_def)
next
  case (UsBatch batch outs stop commits)
  let ?pos = "us_position s"
  show ?thesis
  proof (cases "deliverable tlog ?pos batch")
    case False
    then show ?thesis using inv UsBatch by simp
  next
    case d: True
    have pos: "0 \<le> ?pos p \<and> ?pos p \<le> int (length (tlog p))" and com: "0 \<le> us_committed s p" "us_committed s p \<le> ?pos p" for p
      using inv unfolding usage_inv_def by (meson order_trans)+
    have dur: "durable classify topic (us_db s) (tlog p ! i)" if "i < nat (?pos p)" for p i using inv that by (simp add: usage_inv_def)
    obtain zs db c r where run: "usage_process classify topic stop batch (outs, us_db s, us_c s) = ((zs, db, c), r)" by (metis prod.exhaust)
    have "m \<in> set (tlog (um_Partition m))" if "m \<in> set batch" for m
    proof -
      have "m \<in> set (part_of (um_Partition m) batch)" using that by (simp add: part_of_def)
      then show ?thesis by (subst (asm) deliverable_part(1)[OF ok d pos]) (meson in_set_dropD in_set_takeD)
    qed
    then have P: "\<forall>m \<in> set batch. \<forall>r. classify m = UsageRow r \<longrightarrow> usage_origin classify tlog r" by (auto simp: usage_origin_def)
    have db0: "db_inv (usage_origin classify tlog) (us_db s) (us_db s)" using inv by (simp add: usage_inv_def db_inv_def)
    note R = usage_process_inv[OF db0 P run]
    have g: "grows (us_db s) db" using R by blast
    have K: "keys_unique db" "rows_from (usage_origin classify tlog) db" using R by (simp_all add: db_inv_def)
    show ?thesis
    proof (cases r)
      case (Inl e)
      have "durable classify topic db (tlog p ! i)" if "i < nat (us_committed s p)" for p i
        using that dur[of i p] com[of p] durable_grows[OF g] by simp
      moreover have "us_committed s p \<le> int (length (tlog p))" for p using com(2)[of p] pos[of p] by linarith
      ultimately show ?thesis using UsBatch d run Inl K com g by (simp add: usage_inv_def)
    next
      case (Inr offs)
      let ?new = "\<lambda>p. ?pos p + int (length (part_of p batch))"
      let ?com = "if usage_commit 3 commits then foldl (\<lambda>f off. f(uo_Partition off := uo_Offset off)) (us_committed s) offs else us_committed s"
      have offs: "offs = map snd (foldl next_offset [] batch)" and all: "\<forall>m \<in> set batch. durable classify topic db m" using R Inr by blast+
      have c1: "?com p = us_committed s p \<or> ?com p = ?new p" for p
        using fold_commit[of "us_committed s" offs p] commit_offsets[OF ok d pos] unfolding offs by fastforce
      have nb: "?new p \<le> int (length (tlog p))" for p by (rule deliverable_part(2)[OF ok d pos])
      have cb: "0 \<le> ?com p \<and> ?com p \<le> ?new p" for p using c1[of p] com[of p] pos[of p] by (elim disjE) linarith+
      have "durable classify topic db (tlog p ! i)" if i: "i < nat (?new p)" for p i
      proof (cases "i < nat (?pos p)")
        case True
        then show ?thesis using dur durable_grows[OF g] by blast
      next
        case False
        let ?j = "i - nat (?pos p)"
        have j: "?j < length (part_of p batch)" using i False pos[of p] by linarith
        then have "part_of p batch ! ?j = tlog p ! i" using deliverable_part(3)[OF ok d pos j] False by simp
        moreover have "part_of p batch ! ?j \<in> set batch" using nth_mem[OF j] by (simp add: part_of_def)
        ultimately show ?thesis using all by metis
      qed
      then show ?thesis using UsBatch d run Inr K cb nb g by (simp add: usage_inv_def)
    qed
  qed
qed

lemma usage_run_inv:
  assumes ok: "topic_ok tlog" and inv: "usage_inv classify topic tlog s"
  shows "usage_inv classify topic tlog (foldl (\<lambda>s x. usage_step classify topic tlog x s) s xs)
    \<and> grows (us_db s) (us_db (foldl (\<lambda>s x. usage_step classify topic tlog x s) s xs))"
  using inv
proof (induction xs arbitrary: s)
  case (Cons x xs)
  note S = usage_step_inv[OF ok Cons.prems, of x]
  have "usage_inv classify topic tlog (usage_step classify topic tlog x s)" using S by blast
  from Cons.IH[OF this] show ?case using S grows_trans by auto
qed simp

lemma usage_init_inv: "usage_inv classify topic tlog usage_init"
  by (simp add: usage_inv_def usage_init_def keys_unique_def rows_from_def)

subsection \<open>Where the recorded rejects come from\<close>

definition rejects_from :: "(usage_reject \<Rightarrow> bool) \<Rightarrow> usage_db \<Rightarrow> bool" where
  "rejects_from Q d \<longleftrightarrow> (\<forall>j \<in> set (db_rejects d). Q j)"

definition reject_origin :: "(usage_message \<Rightarrow> usage_class) \<Rightarrow> string \<Rightarrow> (int \<Rightarrow> usage_message list) \<Rightarrow> usage_reject \<Rightarrow> bool" where
  \<comment> \<open>a message that could not be used, or whose row the table refuses\<close>
  "reject_origin classify topic tlog j \<longleftrightarrow>
     (\<exists>p. \<exists>m \<in> set (tlog p). classify m = UsageReject j \<or> (\<exists>r. classify m = UsageRow r \<and> \<not> row_fits r \<and> j = bad_row topic r))"

lemma retry_keeps:
  assumes "\<And>x d. I d \<Longrightarrow> I (fst (op x d))" "I db"
  shows "I (fst (snd (fst (usage_retry op xs db c))))"
  using assms(2)
proof (induction xs arbitrary: db c)
  case (Cons x xs)
  obtain d o' where o': "op x db = (d, o')" by force
  then have "I d" using assms(1)[OF Cons.prems, of x] by simp
  then show ?case using Cons.IH o' by (auto split: sum.splits usage_error.splits)
qed simp

lemma insert_rejects_from: "\<forall>j \<in> set t. Q j \<Longrightarrow> \<forall>j \<in> set js. Q j \<Longrightarrow> \<forall>j \<in> set (foldl insert_reject t js). Q j"
proof (induction js arbitrary: t)
  case (Cons j js)
  then have "\<forall>x \<in> set (insert_reject t j). Q x" by (simp add: insert_reject_def)
  from Cons.IH[OF this] show ?case using Cons.prems by simp
qed simp

lemma record_retry_from:
  assumes "rejects_from Q db" "\<forall>j \<in> set js. Q j"
  shows "rejects_from Q (fst (snd (fst (usage_retry (\<lambda>x. RecordRejects x js) xs db c))))"
proof (rule retry_keeps[where I = "rejects_from Q"])
  show "rejects_from Q (fst (RecordRejects x js d))" if "rejects_from Q d" for x d
    using that insert_rejects_from[of "db_rejects d" Q js, OF _ assms(2)] by (simp add: RecordRejects_def rejects_from_def)
qed (rule assms(1))

lemma insert_retry_from: "rejects_from Q db \<Longrightarrow> rejects_from Q (fst (snd (fst (usage_retry (\<lambda>x. InsertUsage x rows) xs db c))))"
  by (rule retry_keeps[where I = "rejects_from Q"]) (auto simp: InsertUsage_def rejects_from_def Let_def)

lemma insert_each_from:
  assumes "rejects_from Q db" "insert_each topic rs (xs, db, c) = ((ys, db', c'), res)"
  shows "rejects_from Q db' \<and> (\<forall>n bad. res = Inr (n, bad) \<longrightarrow> (\<forall>j \<in> set bad. \<exists>r \<in> set rs. \<not> row_fits r \<and> j = bad_row topic r))"
  using assms
proof (induction rs arbitrary: xs db c ys db' c' res)
  case (Cons r rs)
  obtain zs d1 c1 o1 where o1: "usage_retry (\<lambda>x. InsertUsage x [r]) xs db c = ((zs, d1, c1), o1)" by (metis prod.exhaust)
  have f: "rejects_from Q d1" using insert_retry_from[OF Cons.prems(1), of "[r]" xs c] o1 by simp
  obtain us d2 c2 o2 where o2: "insert_each topic rs (zs, d1, c1) = ((us, d2, c2), o2)" by (metis prod.exhaust)
  note IH = Cons.IH[OF f o2]
  have b: "\<not> row_fits r" if "o1 = Inl ErrBadData" using bad_single[of r xs db c] o1 that by simp
  show ?case
  proof (cases "\<exists>e. o1 = Inl e \<and> e \<noteq> ErrBadData")
    case True
    then show ?thesis using Cons.prems(2) o1 f by (auto split: usage_error.splits)
  next
    case False
    then consider n where "o1 = Inr n" | "o1 = Inl ErrBadData" by (cases o1) auto
    then show ?thesis
    proof cases
      case 1
      then show ?thesis using Cons.prems(2) o1 o2 IH by (cases o2) auto
    next
      case 2
      then show ?thesis using Cons.prems(2) o1 o2 IH b by (cases o2) (auto simp: bad_row_def[of topic r, symmetric], blast)
    qed
  qed
qed simp

lemma usage_insert_from:
  assumes "rejects_from Q db" "\<forall>r \<in> set rows. \<not> row_fits r \<longrightarrow> Q (bad_row topic r)"
  shows "rejects_from Q (fst (snd (fst (usage_insert topic rows (xs, db, c)))))"
proof -
  obtain zs d1 c1 o1 where o1: "usage_retry (\<lambda>x. InsertUsage x rows) xs db c = ((zs, d1, c1), o1)" by (metis prod.exhaust)
  have f: "rejects_from Q d1" using insert_retry_from[OF assms(1), of rows xs c] o1 by simp
  obtain us d2 c2 o2 where o2: "insert_each topic rows (zs, d1, c1) = ((us, d2, c2), o2)" by (metis prod.exhaust)
  note E = insert_each_from[OF f o2]
  have "rejects_from Q (fst (snd (fst (usage_retry (\<lambda>x. RecordRejects x bad) us d2 c2))))" if "o2 = Inr (n, bad)" for n bad
    by (rule record_retry_from) (use E that assms(2) in auto)
  then show ?thesis using assms(1) f o1 o2 conjunct1[OF E] by (cases o1; cases o2) (auto simp: usage_insert_def split_beta split: sum.splits)
qed

lemma usage_process_from:
  assumes "rejects_from Q db" "\<And>m. m \<in> set batch \<Longrightarrow> (\<forall>j. classify m = UsageReject j \<longrightarrow> Q j) \<and> (\<forall>r. classify m = UsageRow r \<longrightarrow> \<not> row_fits r \<longrightarrow> Q (bad_row topic r))"
  shows "rejects_from Q (fst (snd (fst (usage_process classify topic stop batch (xs, db, c)))))"
proof -
  let ?js = "rejects_of (map classify batch)" and ?rows = "rows_of (map classify batch)"
  have js: "\<forall>j \<in> set ?js. Q j" and rows: "\<forall>r \<in> set ?rows. \<not> row_fits r \<longrightarrow> Q (bad_row topic r)" using assms(2) by (auto simp: of_classes image_iff)
  obtain zs d1 c1 o1 where o1: "(if ?js = [] then ((xs, db, c), Inr 0) else usage_retry (\<lambda>x. RecordRejects x ?js) xs db c) = ((zs, d1, c1), o1)" by (metis prod.exhaust)
  have f: "rejects_from Q d1" using record_retry_from[OF assms(1) js, of xs c] o1 assms(1) by (auto split: if_splits)
  obtain us d2 c2 o2 where o2: "usage_insert topic ?rows (zs, d1, c1) = ((us, d2, c2), o2)" by (metis prod.exhaust)
  have g: "rejects_from Q d2" using usage_insert_from[OF f rows, of zs c1] o2 by simp
  show ?thesis
  proof (cases o1)
    case (Inl e)
    then show ?thesis using o1 f by (simp add: usage_process_def Let_def split: if_splits)
  next
    case (Inr n)
    then show ?thesis using o1 o2 g by (cases o2) (simp_all add: usage_process_def Let_def split_beta split: if_splits)
  qed
qed

lemma usage_run_from:
  assumes ok: "topic_ok tlog"
  shows "rejects_from (reject_origin classify topic tlog) (us_db (foldl (\<lambda>s x. usage_step classify topic tlog x s) usage_init xs))"
proof (induction xs rule: rev_induct)
  case (snoc x xs)
  define s where "s = foldl (\<lambda>s x. usage_step classify topic tlog x s) usage_init xs"
  have inv: "usage_inv classify topic tlog s" using usage_run_inv[OF ok usage_init_inv, where classify = classify and topic = topic and xs = xs] by (simp add: s_def)
  have f: "rejects_from (reject_origin classify topic tlog) (us_db s)" using snoc by (simp add: s_def)
  have "rejects_from (reject_origin classify topic tlog) (us_db (usage_step classify topic tlog x s))"
  proof (cases x)
    case (UsBatch batch outs stop commits)
    have pos: "0 \<le> us_position s p \<and> us_position s p \<le> int (length (tlog p))" for p using inv unfolding usage_inv_def by (meson order_trans)
    have mem: "m \<in> set (tlog (um_Partition m))" if "m \<in> set batch" "deliverable tlog (us_position s) batch" for m
    proof -
      have "m \<in> set (part_of (um_Partition m) batch)" using that(1) by (simp add: part_of_def)
      then show ?thesis by (subst (asm) deliverable_part(1)[OF ok that(2) pos]) (meson in_set_dropD in_set_takeD)
    qed
    have "rejects_from (reject_origin classify topic tlog) (fst (snd (fst (usage_process classify topic stop batch (outs, us_db s, us_c s)))))"
      if "deliverable tlog (us_position s) batch" 
    proof (rule usage_process_from[OF f])
      fix m assume m: "m \<in> set batch"
      show "(\<forall>j. classify m = UsageReject j \<longrightarrow> reject_origin classify topic tlog j) \<and> (\<forall>r. classify m = UsageRow r \<longrightarrow> \<not> row_fits r \<longrightarrow> reject_origin classify topic tlog (bad_row topic r))"
        unfolding reject_origin_def using mem[OF m that] by blast
    qed
    moreover obtain zs db c r where "usage_process classify topic stop batch (outs, us_db s, us_c s) = ((zs, db, c), r)" by (metis prod.exhaust)
    ultimately show ?thesis using UsBatch f by (cases r) simp_all
  qed (use f in simp)
  then show ?case by (simp add: s_def)
qed (simp add: usage_init_def rejects_from_def)

text \<open>C2: usage is recorded exactly once, through crashes, replays and lost replies. Whatever batches are read, however the database and the offset commits fail, and
  wherever the process stops and restarts, no event and no request has two usage rows and every row comes from a message of the topic; and every message below a
  committed offset is accounted for in the database: as its row (or that of the same request), as recorded coordinates of a message that could not be used, or as one that
  carries no usage. Rows already written are never changed or lost.\<close>

theorem usage_exactly_once:
  assumes ok: "topic_ok tlog" and s: "s = foldl (\<lambda>s x. usage_step classify topic tlog x s) usage_init xs"
  shows "distinct (map ur_EventID (db_rows (us_db s))) \<and> distinct (map ur_RequestID (db_rows (us_db s)))
    \<and> (\<forall>r \<in> set (db_rows (us_db s)). \<exists>p. \<exists>m \<in> set (tlog p). classify m = UsageRow r)
    \<and> (\<forall>p i. i < nat (us_committed s p) \<longrightarrow> i < length (tlog p) \<and> durable classify topic (us_db s) (tlog p ! i))
    \<and> (\<exists>more. db_rows (us_db (foldl (\<lambda>s x. usage_step classify topic tlog x s) s ys)) = db_rows (us_db s) @ more)"
proof -
  have inv: "usage_inv classify topic tlog s" using usage_run_inv[OF ok usage_init_inv, where classify = classify and topic = topic and xs = xs] by (simp add: s)
  have g: "grows (us_db s) (us_db (foldl (\<lambda>s x. usage_step classify topic tlog x s) s ys))" using usage_run_inv[OF ok inv] by blast
  have c: "i < nat (us_position s p) \<and> i < length (tlog p)" if "i < nat (us_committed s p)" for p i
  proof -
    have "0 \<le> us_committed s p \<and> us_committed s p \<le> us_position s p \<and> us_position s p \<le> int (length (tlog p))" using inv by (simp add: usage_inv_def)
    then show ?thesis using that by linarith
  qed
  have K: "keys_unique (us_db s)" "rows_from (usage_origin classify tlog) (us_db s)" and D: "\<forall>p i. i < nat (us_position s p) \<longrightarrow> durable classify topic (us_db s) (tlog p ! i)"
    using inv unfolding usage_inv_def by blast+
  have 1: "distinct (map ur_EventID (db_rows (us_db s)))" "distinct (map ur_RequestID (db_rows (us_db s)))" using K(1) unfolding keys_unique_def by blast+
  have 2: "\<forall>r \<in> set (db_rows (us_db s)). \<exists>p. \<exists>m \<in> set (tlog p). classify m = UsageRow r" using K(2) unfolding rows_from_def usage_origin_def .
  show ?thesis using 1 2 c D g unfolding grows_def by blast
qed

definition sample_message :: usage_message where
  "sample_message = \<lparr>um_Topic = ''t'', um_Partition = 0, um_Offset = 0, um_Value = []\<rparr>"

definition sample_topic :: "int \<Rightarrow> usage_message list" where
  "sample_topic p = (if p = 0 then [sample_message] else [])"

definition sample_usage_row :: usage_row where
  "sample_usage_row = \<lparr>ur_EventID = ''evt_'' @ replicate 32 (CHR ''0''), ur_RequestID = ''req_1'', ur_TenantID = [], ur_APIKeyID = [], ur_Model = ''m'', ur_WorkerID = [],
     ur_Outcome = ''completed'', ur_FailureClass = [], ur_HTTPStatus = 200, ur_InputTokens = None, ur_OutputTokens = None, ur_TokensSource = ''estimate'',
     ur_EstimatedCostTokens = 3, ur_Attempts = 1, ur_TTFTMS = 0, ur_DurationMS = 5, ur_OccurredAt = 7, ur_Partition = 0, ur_Offset = 0\<rparr>"

definition sample_crashes :: "usage_event list" where
  \<comment> \<open>the reply of the first write is lost, then the process stops before its commit; the replay commits\<close>
  "sample_crashes = [UsBatch [sample_message] [DbReplyLost, DbUp] True [], UsRestart, UsBatch [sample_message] [DbUp] False [False, True]]"

theorem usage_exactly_once_witness:
  "durable (\<lambda>_. UsageRow sample_usage_row) ''t'' (us_db (foldl (\<lambda>s x. usage_step (\<lambda>_. UsageRow sample_usage_row) ''t'' sample_topic x s) usage_init sample_crashes)) sample_message"
proof -
  let ?c = "\<lambda>_ :: usage_message. UsageRow sample_usage_row"
  let ?s = "foldl (\<lambda>s x. usage_step ?c ''t'' sample_topic x s) usage_init sample_crashes"
  have ok: "topic_ok sample_topic" by (simp add: topic_ok_def sample_topic_def sample_message_def)
  have com: "us_committed ?s 0 = 1" by code_simp
  have "\<forall>i. i < nat (us_committed ?s 0) \<longrightarrow> i < length (sample_topic 0) \<and> durable ?c ''t'' (us_db ?s) (sample_topic 0 ! i)"
    using usage_exactly_once[OF ok refl, where classify = ?c and topic = "''t''" and xs = sample_crashes] by blast
  then have "durable ?c ''t'' (us_db ?s) (sample_topic 0 ! 0)" unfolding com by simp
  then show ?thesis by (simp add: sample_topic_def)
qed

end
