(* ===== verification/Spec2Isabelle.thy ===== *)
theory Spec2Isabelle
  imports Snapshot Cost WorkAware Budget Breakers_Cap WaitQueue Admission RateRedis Tracker_Inv AuthRun Publisher Usage
begin

text \<open>
  A verification development of ServerFlow, an inference gateway with its control plane, written in Go. The sources are under \<^verbatim>\<open>src/\<close>; file names below are
  relative to it.

  \<^bold>\<open>The program.\<close> Workers register with a control plane and send heartbeats; the registry decides which of them may be routed to. A gateway authenticates each
  request, charges it against its tenant's rate limits, picks a worker with one of six scheduling strategies and forwards the request. Circuit breakers keep failing
  workers out, a retry budget bounds retries, a per-model queue lets requests wait for a slot, and a global cap bounds them all. Every request leaves lifecycle events,
  which a publisher hands to Kafka and a usage consumer turns into one row per finished request in PostgreSQL.

  \<^bold>\<open>Conventions.\<close> A struct is a record, an error a value of a sum or option type, a Go map an association list with distinct keys (\<open>Go_Base\<close>), a pointer that is shared an
  index into a list. Times and durations are \<open>int\<close> nanoseconds; Go's \<open>int\<close> is \<open>int\<close>, with the bounds stated where arithmetic could wrap; strings are byte lists.
  \<open>float64\<close> is exact IEEE binary64 (\<open>Float64\<close>: rationals rounded to nearest even, infinities, NaN). A section that holds a mutex, and each single atomic operation, is one
  step; an interleaving of goroutines is a list of steps, and the theorems quantify over all of them. Clock readings, random draws, the answers of stores and drivers and the case a
  \<^verbatim>\<open>select\<close> takes are arguments. \<^verbatim>\<open>sha256\<close>, \<^verbatim>\<open>encoding/json\<close>, \<^verbatim>\<open>url.Parse\<close>, \<^verbatim>\<open>netip.ParseAddr\<close> and \<^verbatim>\<open>math.Exp2\<close> are parameters; what is needed
  of them is a named hypothesis of the theorem that needs it.

  \<^bold>\<open>Theories and what they show.\<close>
  \<^item> \<open>Go_Base\<close>, \<open>Float64\<close>, \<open>Utf8\<close>: the language: integer division, maps, binary search, bytes, floating point, \<^verbatim>\<open>unicode/utf8\<close>.
  \<^item> \<open>Protocol\<close> (\<^verbatim>\<open>pkg/protocol/worker.go\<close>, \<^verbatim>\<open>request.go\<close>): worker states, validation and the address policy; a forbidden IPv4 address is forbidden in every IPv6 embedding.
  \<^item> \<open>Registry\<close> (\<^verbatim>\<open>internal/registry\<close>): registration, heartbeats, eviction and queries with their invariant; a drained incarnation is never eligible again, an old registration is fenced off.
  \<^item> \<open>Cost\<close> (\<^verbatim>\<open>internal/cost\<close>): the running, saturating token estimate equals a closed formula; monotonicity and bounds.
  \<^item> \<open>Scheduler\<close>, \<open>WorkAware\<close> (\<^verbatim>\<open>internal/scheduler\<close>): the filter, the rotor and the strategies. The contract is the locale \<open>scheduler\<close>, interpreted by each strategy and by their dispatch.
  \<^item> \<open>Snapshot\<close> (\<^verbatim>\<open>internal/gateway/snapshot.go\<close>): the gateway's cached view of the registry; it is used only while it is recent, ages its workers, and offers none that is insane or would have turned suspect.
  \<^item> \<open>History\<close>, \<open>Tracker\<close>, \<open>Tracker_Inv\<close> (\<^verbatim>\<open>internal/scheduler/signals\<close>): the in-flight ledger, the compacting history, capacity estimates. The ledger is exact in every history; the history answers as the full log or says that it cannot.
  \<^item> \<open>Window\<close>, \<open>Budget\<close>, \<open>Breaker\<close>, \<open>Breakers\<close>, \<open>Breakers_Cap\<close>, \<open>WaitQueue\<close>, \<open>Admission\<close> (\<^verbatim>\<open>internal/resilience\<close>): the sliding window refines the log of events; retries stay within the budget; when a breaker trips, how it recovers, and that ejections stay within the cap in every history; no slot is lost or duplicated by the queue, which is first-in first-out and bounded; the lock-free global cap holds under every interleaving.
  \<^item> \<open>RateKeys\<close>, \<open>RateModel\<close>, \<open>RateScript\<close>, \<open>RateEquiv\<close>, \<open>RedisClient\<close>, \<open>RateRedis\<close> (\<^verbatim>\<open>internal/ratelimit\<close>, \<^verbatim>\<open>internal/redis\<close>): keys never collide; the token bucket bounds what is admitted over any span; the Lua scripts in binary64 with expiring keys answer as the Go model; the limiter over a healthy Redis decides as the model, tracks its leases exactly and fails open or closed as configured; the client probes a failed Redis one call at a time and recovers.
  \<^item> \<open>AuthKey\<close>, \<open>Lru\<close>, \<open>Auth\<close>, \<open>AuthRun\<close> (\<^verbatim>\<open>internal/auth\<close>, \<^verbatim>\<open>pkg/protocol/ids.go\<close>): keys have one spelling; the cache refines a recency list (locale \<open>cache\<close>, interpreted on it); in every interleaving of requests and shared lookups no request is let in without the store's word on its key, lookups are bounded, and an outage is served from the caches.
  \<^item> \<open>Events\<close> (\<^verbatim>\<open>pkg/protocol/events.go\<close>): validation is a type system for events at both ends of the broker; encoding and decoding are inverse.
  \<^item> \<open>Publisher\<close> (\<^verbatim>\<open>internal/events/publisher.go\<close>): every event offered is accounted for until a shutdown runs out of time; after that the counters can be wrong, which is shown too.
  \<^item> \<open>Usage\<close> (\<^verbatim>\<open>internal/usage\<close>, \<^verbatim>\<open>internal/postgres/usage.go\<close>, \<^verbatim>\<open>migrations/0003_usage_records.sql\<close>): usage is recorded exactly once through crashes, replays and lost replies.
  \<^item> This theory: what spans components, from the encoded event of a finished request to its row.

  \<^bold>\<open>Bounds and termination.\<close> No definition uses fuel. Loops are structural recursions or have a termination measure (binary search, the LRU's eviction, the cap's enforcement, the level search of
  the cool-down, which is shown to end). The consumer's retry loop, which may run for as long as the database is down, is a recursion on the list of outcomes the database gives; a theorem about it
  holds for every such list.

  \<^bold>\<open>Not modelled\<close>, and why.
  \<^item> The gateway's request loop and HTTP surface (\<^verbatim>\<open>internal/gateway\<close> other than \<^verbatim>\<open>snapshot.go\<close>, \<^verbatim>\<open>internal/api\<close>), the registry's HTTP server and client and the worker agent: streaming responses, contexts and JSON around decisions that are modelled above.
  \<^item> Prometheus collectors, logging, tracing (\<^verbatim>\<open>internal/telemetry\<close>, \<^verbatim>\<open>internal/tracing\<close>, \<^verbatim>\<open>internal/observability\<close>): no decision depends on them.
  \<^item> \<^verbatim>\<open>internal/kafka\<close>, \<^verbatim>\<open>internal/postgres\<close> other than \<^verbatim>\<open>usage.go\<close>, \<^verbatim>\<open>internal/redis/config.go\<close>: thin layers over third-party drivers and SQL.
  \<^item> \<^verbatim>\<open>internal/config\<close> and \<^verbatim>\<open>cmd\<close>: parsing of flags and variables, wiring and process exit.
  \<^item> \<^verbatim>\<open>internal/sim\<close>, \<^verbatim>\<open>internal/mockworker\<close>, \<^verbatim>\<open>internal/bench\<close> and the tests: equipment outside the serving path.
\<close>

section \<open>From a finished request to its usage record\<close>

lemma encoded_is_classified:
  assumes "reads_back jc e" "Encode sha256 jc e = Inr (um_Value m)" "IsTerminalEventType (ev_EventType e)"
  obtains r where "usage_classify sha256 jc jv m = UsageRow r" "ur_RequestID r = ev_RequestID e" "ur_EventID r = ev_EventID e"
proof -
  have d: "Decode sha256 jc (um_Value m) = Inr e" by (rule decode_encoded[OF assms(1,2)])
  have n: "int (length (um_Value m)) \<le> MaxEventBytes" using assms(2) by (auto simp: Encode_def split: option.splits if_splits)
  obtain p where p: "payload_typed e p" "e = with_payload p (e\<lparr>ev_Received := None, ev_Routed := None, ev_FirstToken := None, ev_Terminal := None\<rparr>)"
    using decoded_typed[OF d] unfolding event_typed_def by blast
  obtain t where "p = PTerminal t" using p(1) assms(3) by (cases p) (auto simp: payload_typed_def IsTerminalEventType_def event_types_distinct)
  then have "ev_Terminal e = Some t" using p(2) unfolding with_payload_same by auto
  then show ?thesis using that n d assms(3) by (simp add: usage_classify_def Let_def)
qed

lemma classified_coordinates:
  "usage_classify sha256 jc jv m = UsageReject j \<Longrightarrow> uj_Partition j = um_Partition m \<and> uj_Offset j = um_Offset m"
  "usage_classify sha256 jc jv m = UsageRow r \<Longrightarrow> ur_Partition r = um_Partition m \<and> ur_Offset r = um_Offset m"
  by (auto simp: usage_classify_def Let_def split: if_splits sum.splits event_error.splits option.splits)

lemma fitting_never_rejected:
  assumes ok: "topic_ok tlog" and i: "i < length (tlog p)" and r: "usage_classify sha256 jc jv (tlog p ! i) = UsageRow r" "row_fits r"
    and j: "reject_origin (usage_classify sha256 jc jv) topic tlog j"
  shows "\<not> (uj_Partition j = p \<and> uj_Offset j = int i)"
proof
  assume c: "uj_Partition j = p \<and> uj_Offset j = int i"
  obtain q m where m: "m \<in> set (tlog q)"
    and k: "usage_classify sha256 jc jv m = UsageReject j \<or> (\<exists>x. usage_classify sha256 jc jv m = UsageRow x \<and> \<not> row_fits x \<and> j = bad_row topic x)"
    using j unfolding reject_origin_def by blast
  obtain n where n: "n < length (tlog q)" "tlog q ! n = m" using m by (auto simp: in_set_conv_nth)
  have "um_Partition m = p" "um_Offset m = int i" using k c classified_coordinates[of sha256 jc jv m] by (auto simp: bad_row_def)
  moreover have "um_Partition m = q" "um_Offset m = int n" using ok n by (auto simp: topic_ok_def)
  ultimately have "m = tlog p ! i" using n(2) by simp
  then show False using k r by auto
qed

text \<open>C5: a finished request is billed. Take an event of a finished request that the JSON library reads back (in particular its strings are valid UTF-8, since the library replaces
  other bytes), whose ID no event of another request has. When the gateway encodes it and the message reaches the topic, then as soon as the usage consumer has committed past it the database
  has a usage row for that request, whatever failed, was replayed or restarted on the way: the event decodes, its row passes every check of the table, and neither a lost reply nor a stop
  before the commit loses it. The row is one of the topic's terminal events and the only one of its request, and the message is never recorded as a reject.\<close>

theorem finished_request_recorded:
  assumes sha: "\<And>x. length (sha256 x) = 32"
    and ok: "topic_ok tlog" and s: "s = foldl (\<lambda>s x. usage_step (usage_classify sha256 jc jv) topic tlog x s) usage_init xs"
    and e: "reads_back jc e" "Encode sha256 jc e = Inr (um_Value (tlog p ! i))" "IsTerminalEventType (ev_EventType e)"
    and ids: "\<forall>q. \<forall>m \<in> set (tlog q). \<forall>r. usage_classify sha256 jc jv m = UsageRow r \<longrightarrow> ur_EventID r = ev_EventID e \<longrightarrow> ur_RequestID r = ev_RequestID e"
    and i: "int i < us_committed s p"
  shows "(\<exists>r \<in> set (db_rows (us_db s)). ur_RequestID r = ev_RequestID e
      \<and> (\<exists>q. \<exists>m \<in> set (tlog q). usage_classify sha256 jc jv m = UsageRow r) \<and> row_fits r
      \<and> (\<forall>r' \<in> set (db_rows (us_db s)). ur_RequestID r' = ev_RequestID e \<longrightarrow> r' = r))
    \<and> \<not> (\<exists>j \<in> set (db_rejects (us_db s)). uj_Partition j = p \<and> uj_Offset j = int i)"
proof (rule conjI)
  let ?c = "usage_classify sha256 jc jv"
  have inv: "usage_inv ?c topic tlog s" using usage_run_inv[OF ok usage_init_inv, where classify = ?c and topic = topic and xs = xs] by (simp add: s)
  obtain r where r: "?c (tlog p ! i) = UsageRow r" "ur_RequestID r = ev_RequestID e" "ur_EventID r = ev_EventID e" using e by (rule encoded_is_classified)
  have fits: "row_fits x" if "?c m = UsageRow x" for m x using that sha by (rule classified_fits)
  have pos: "us_committed s p \<le> us_position s p" "us_position s p \<le> int (length (tlog p))" using inv by (simp_all add: usage_inv_def)
  then have "i < nat (us_position s p)" and len: "i < length (tlog p)" using i by linarith+
  then have "durable ?c topic (us_db s) (tlog p ! i)" using inv by (simp add: usage_inv_def)
  then have "has_row (us_db s) r" using fits[OF r(1)] r(1) by (simp add: durable_def)
  then obtain x where x: "x \<in> set (db_rows (us_db s))" "ur_EventID x = ur_EventID r \<or> ur_RequestID x = ur_RequestID r" unfolding has_row_def by blast
  obtain q m where m: "m \<in> set (tlog q)" "?c m = UsageRow x" using inv x(1) by (auto simp: usage_inv_def rows_from_def usage_origin_def)
  have id: "ur_RequestID x = ev_RequestID e" using x(2) r(2,3) ids m by auto
  have "inj_on ur_RequestID (set (db_rows (us_db s)))" using inv by (simp add: usage_inv_def keys_unique_def distinct_map)
  then have "r' = x" if "r' \<in> set (db_rows (us_db s))" "ur_RequestID r' = ev_RequestID e" for r'
    using x(1) that id by (simp add: inj_on_def)
  then show "\<exists>r \<in> set (db_rows (us_db s)). ur_RequestID r = ev_RequestID e
      \<and> (\<exists>q. \<exists>m \<in> set (tlog q). ?c m = UsageRow r) \<and> row_fits r \<and> (\<forall>r' \<in> set (db_rows (us_db s)). ur_RequestID r' = ev_RequestID e \<longrightarrow> r' = r)"
    using x(1) id m fits[OF m(2)] by blast
  have "rejects_from (reject_origin ?c topic tlog) (us_db s)" unfolding s by (rule usage_run_from[OF ok])
  then show "\<not> (\<exists>j \<in> set (db_rejects (us_db s)). uj_Partition j = p \<and> uj_Offset j = int i)"
    using fitting_never_rejected[OF ok len r(1) fits[OF r(1)]] unfolding rejects_from_def by blast
qed

definition sample_finished :: event where
  "sample_finished = sample_event\<lparr>ev_EventType := EventCompleted, ev_Received := None,
     ev_Terminal := Some \<lparr>td_Stream = True, td_HTTPStatus = 200, td_DurationMS = 5, td_TTFTMS = 1, td_InputTokens = Some 4, td_OutputTokens = Some 6, td_TokensSource = TokensFromUsage,
       td_EstimatedCostTokens = 9, td_FailureClass = [], td_Attempts = []\<rparr>\<rparr>"

definition sample_json :: event_codec where
  "sample_json = sample_codec\<lparr>jc_Wire := (\<lambda>_. Some (wire_of sample_finished ''p'')), jc_Terminal := (\<lambda>_. ev_Terminal sample_finished)\<rparr>"

definition sample_log :: "int \<Rightarrow> usage_message list" where
  "sample_log p = (if p = 0 then [sample_message\<lparr>um_Value := ''w''\<rparr>] else [])"

definition sample_losses :: "usage_event list" where
  \<comment> \<open>the database is down, then a reply is lost and the process stops before its commit; the replay commits\<close>
  "sample_losses = [UsBatch (sample_log 0) [DbDown] False [], UsBatch (sample_log 0) [DbReplyLost, DbUp] True [], UsRestart, UsBatch (sample_log 0) [DbUp] False [False, True]]"

theorem finished_request_recorded_witness:
  "\<exists>r \<in> set (db_rows (us_db (foldl (\<lambda>s x. usage_step (usage_classify sample_sha sample_json (\<lambda>_. True)) ''t'' sample_log x s) usage_init sample_losses))).
     ur_RequestID r = ''req_1''"
proof -
  let ?c = "usage_classify sample_sha sample_json (\<lambda>_. True)"
  let ?s = "foldl (\<lambda>s x. usage_step ?c ''t'' sample_log x s) usage_init sample_losses"
  have sha: "length (sample_sha x) = 32" for x by (simp add: sample_sha_def)
  have ok: "topic_ok sample_log" by (simp add: topic_ok_def sample_log_def sample_message_def)
  have rb: "reads_back sample_json sample_finished"
    by (simp add: reads_back_def sample_json_def sample_codec_def sample_finished_def sample_event_def event_payload_def json_blank_def wire_of_def)
  have en: "Encode sample_sha sample_json sample_finished = Inr (um_Value (sample_log 0 ! 0))" by code_simp
  have te: "IsTerminalEventType (ev_EventType sample_finished)" by code_simp
  have com: "us_committed ?s 0 = 1" by code_simp
  have id: "ev_RequestID sample_finished = ''req_1''" by (simp add: sample_finished_def sample_event_def)
  obtain x where x: "?c (sample_log 0 ! 0) = UsageRow x" "ur_RequestID x = ev_RequestID sample_finished" using rb en te by (rule encoded_is_classified)
  have "?c m = UsageRow x" if "m \<in> set (sample_log q)" for m q using that x(1) by (simp add: sample_log_def split: if_splits)
  then have ids: "\<forall>q. \<forall>m \<in> set (sample_log q). \<forall>r. ?c m = UsageRow r \<longrightarrow> ur_EventID r = ev_EventID sample_finished \<longrightarrow> ur_RequestID r = ev_RequestID sample_finished"
    using x(2) by fastforce
  have "int 0 < us_committed ?s 0" unfolding com by simp
  from finished_request_recorded[OF sha ok refl rb en te ids this] show ?thesis unfolding id by blast
qed

end
